(* ===== verification/Prelude.thy ===== *)
theory Prelude
  imports Main "HOL-Library.Word" "HOL-Library.Signed_Division" "HOL-Library.Monad_Syntax"
begin

text \<open>
  The vocabulary every component of the matching engine shares.

  \<^item> \<open>vec\<close>: a \<open>std::vector\<close> (or heap array) whose length is fixed between reallocations.
    It is a length and a total index function, so that the two arrays of tens of millions
    of cells that \<open>configure\<close> reserves remain cheap to evaluate. Reading past the length
    is undefined behaviour in C++; the lemmas that the components prove about their
    indices (named \<open>_in_bounds\<close>) say that the code never does.
  \<^item> \<open>exn\<close>, \<open>alloc_req\<close>, \<open>allocator\<close>: the heap. Every allocation of the code asks the
    allocator, a parameter of the operation, which grants it or names the exception thrown.
  \<^item> \<open>outcome\<close>: a computation that may diverge (\<open>None\<close>), throw (\<open>Some (Inl e)\<close>) or
    return (\<open>Some (Inr x)\<close>), with its sequencing \<open>and_then\<close>.
  \<^item> \<open>in_int64\<close>: the values of \<open>std::int64_t\<close>. Prices and signed indices are \<open>int\<close>; signed
    overflow is undefined behaviour, so the components prove that it cannot occur.
    Signed division is the truncating \<open>sdiv\<close> and \<open>smod\<close>, as in C++.
\<close>

unbundle bit_operations_syntax

named_theorems vec_simps "reading and writing arrays"

section \<open>Arrays\<close>

datatype 'a vec = Vec (vlen: nat) (vat: "nat \<Rightarrow> 'a")

definition vec_make :: "nat \<Rightarrow> 'a \<Rightarrow> 'a vec" where
  "vec_make n x = Vec n (\<lambda>_. x)"

definition vec_set :: "'a vec \<Rightarrow> nat \<Rightarrow> 'a \<Rightarrow> 'a vec" where
  "vec_set v i x = Vec (vlen v) ((vat v)(i := x))"

lemma vlen_vec_make [simp, vec_simps]: "vlen (vec_make n x) = n"
  by (simp add: vec_make_def)

lemma vat_vec_make [simp, vec_simps]: "vat (vec_make n x) i = x"
  by (simp add: vec_make_def)

lemma vlen_vec_set [simp, vec_simps]: "vlen (vec_set v i x) = vlen v"
  by (simp add: vec_set_def)

lemma vat_vec_set [simp, vec_simps]: "vat (vec_set v i x) j = (if j = i then x else vat v j)"
  by (simp add: vec_set_def)

section \<open>The heap, exceptions and divergence\<close>

datatype exn = Bad_alloc | Other_exn

datatype alloc_req =
    Alloc_engine
  | Alloc_books nat
  | Alloc_slots nat
  | Alloc_segments nat
  | Alloc_levels nat
  | Alloc_words nat
  | Alloc_chunk
  | Alloc_chunk_table nat

type_synonym allocator = "alloc_req \<Rightarrow> exn option"

abbreviation (input) all_granted :: allocator where
  "all_granted \<equiv> \<lambda>_. None"

type_synonym 'a outcome = "(exn + 'a) option"

definition returns :: "'a \<Rightarrow> 'a outcome" where
  "returns x = Some (Inr x)"

definition and_then :: "'a outcome \<Rightarrow> ('a \<Rightarrow> 'b outcome) \<Rightarrow> 'b outcome" where
  "and_then m f = (case m of None \<Rightarrow> None | Some (Inl e) \<Rightarrow> Some (Inl e) | Some (Inr x) \<Rightarrow> f x)"

definition request :: "allocator \<Rightarrow> alloc_req \<Rightarrow> unit outcome" where
  "request al r = (case al r of None \<Rightarrow> returns () | Some e \<Rightarrow> Some (Inl e))"

text \<open>A container that is given no elements asks for no memory.\<close>

definition request_for :: "allocator \<Rightarrow> (nat \<Rightarrow> alloc_req) \<Rightarrow> nat \<Rightarrow> unit outcome" where
  "request_for al r n = (if n = 0 then returns () else request al (r n))"

lemma and_then_returns [simp]: "and_then (returns x) f = f x"
  by (simp add: and_then_def returns_def)

lemma and_then_Inr [simp]: "and_then (Some (Inr x)) f = f x"
  by (simp add: and_then_def)

lemma and_then_Inl [simp]: "and_then (Some (Inl e)) f = Some (Inl e)"
  by (simp add: and_then_def)

lemma and_then_None [simp]: "and_then None f = None"
  by (simp add: and_then_def)

lemma and_then_eq_returns:
  "and_then m f = Some (Inr y) \<longleftrightarrow> (\<exists>x. m = Some (Inr x) \<and> f x = Some (Inr y))"
  by (auto simp: and_then_def split: option.splits sum.splits)

lemma and_then_eq_throws:
  "and_then m f = Some (Inl e) \<longleftrightarrow>
    m = Some (Inl e) \<or> (\<exists>x. m = Some (Inr x) \<and> f x = Some (Inl e))"
  by (auto simp: and_then_def split: option.splits sum.splits)

lemma request_granted [simp]: "al r = None \<Longrightarrow> request al r = returns ()"
  by (simp add: request_def)

lemma request_cases: "request al r = returns () \<or> (\<exists>e. request al r = Some (Inl e) \<and> al r = Some e)"
  by (simp add: request_def split: option.split)

lemma returns_eq_iff [simp]: "(returns x = Some (Inr y)) = (x = y)" "(returns x = Some (Inl e)) = False"
  "(returns x = None) = False" "(returns x = returns z) = (x = z)" "(Some (Inr y) = returns x) = (x = y)"
  by (auto simp: returns_def)

section \<open>Signed 64-bit arithmetic\<close>

definition int64_max :: int where
  "int64_max = 9223372036854775807"

definition in_int64 :: "int \<Rightarrow> bool" where
  "in_int64 x \<longleftrightarrow> - int64_max - 1 \<le> x \<and> x \<le> int64_max"

lemma sdiv_nonneg [simp]: "0 \<le> a \<Longrightarrow> 0 < b \<Longrightarrow> a sdiv b = a div b" for a b :: int
  by (auto simp: signed_divide_int_def sgn_if)

lemma smod_nonneg [simp]: "0 \<le> a \<Longrightarrow> 0 < b \<Longrightarrow> a smod b = a mod b" for a b :: int
  by (cases "a = 0") (simp_all add: signed_modulo_int_def minus_div_mult_eq_mod)

section \<open>Words\<close>

text \<open>Indices are read off words as \<open>nat\<close>; keep \<open>int (unat x)\<close> in that form.\<close>

declare of_nat_unat [simp del]

lemma unat_and_mask: "unat (x AND mask n) = unat x mod 2 ^ n" for x :: "'a::len word"
  by (simp add: unsigned_take_bit_eq take_bit_nat_def flip: take_bit_eq_mask)

lemma unat_drop_bit: "unat (drop_bit n x) = unat x div 2 ^ n" for x :: "'a::len word"
  by (simp add: unat_drop_bit_eq drop_bit_nat_def)

lemma unat_word_of_nat: "n < 2 ^ LENGTH('a) \<Longrightarrow> unat (word_of_nat n :: 'a::len word) = n"
  by (simp add: unat_of_nat take_bit_nat_eq_self)

lemma dvd_less_imp_le: "t dvd a \<Longrightarrow> t dvd b \<Longrightarrow> a < b \<Longrightarrow> a + t \<le> b" for a b t :: int
  using zdvd_imp_le [of t "b - a"] by simp

lemma word_of_nat_eq_0: "n < 2 ^ LENGTH('a) \<Longrightarrow> (word_of_nat n = (0::'a::len word)) = (n = 0)"
  by (auto simp: word_of_nat_eq_0_iff dest: dvd_imp_le)

lemma unat_less_max: "x \<noteq> - 1 \<Longrightarrow> unat x < 2 ^ LENGTH('a) - 1" for x :: "'a::len word"
proof -
  assume "x \<noteq> - 1"
  then have "unat x \<noteq> unat (- 1 :: 'a word)"
    by (simp add: word_unat_eq_iff)
  then have "unat x \<noteq> 2 ^ LENGTH('a) - 1"
    by (simp add: unsigned_minus_1_eq_mask mask_eq_exp_minus_1)
  moreover have "unat x < 2 ^ LENGTH('a)"
    by (rule unsigned_less)
  ultimately show ?thesis by linarith
qed

end
