(* ===== verification/Api.thy ===== *)
theory Api
  imports Prelude
begin

text \<open>
  The public types of \<open>include/xmatch/matching_engine_api.hpp\<close>: the scalar types, the
  enumerations with their underlying order, the request structs, and the callbacks of
  \<open>IEventListener\<close> as the constructors of \<open>event\<close>. The listener is code of the host: what
  the engine tells it is recorded as the list of events, in the order of the calls.
  Callbacks that throw are the subject of the theory \<open>Listener\<close>, callbacks that send requests to
  the engine that of \<open>Reentrant\<close>.
\<close>

section \<open>Scalar types and constants\<close>

type_synonym price = int
type_synonym quantity = "32 word"
type_synonym order_id = "64 word"
type_synonym trade_id = "64 word"
type_synonym instrument_id = "32 word"

definition kApiVersion :: "32 word" where
  "kApiVersion = 2"

definition kBpsPerUnit :: int where
  "kBpsPerUnit = 10000"

definition kMaxBandBps :: int where
  "kMaxBandBps = kBpsPerUnit"

lemmas band_constants = kBpsPerUnit_def kMaxBandBps_def int64_max_def

section \<open>Enumerations\<close>

datatype side = kBuy | kSell

datatype order_type = kLimit | kMarket

datatype time_in_force = kDay | kIoc | kFok

datatype reject_reason =
    kUnknownInstrument
  | kDuplicateOrderId
  | kInvalidQuantity
  | kInvalidPriceTick
  | kPriceOutOfBand
  | kInvalidTimeInForce
  | kUnknownOrder
  | kNotConfigured

datatype cancel_reason = kUserRequested | kIocRemainder | kFokUnfillable | kNoLiquidity

datatype configure_result =
    kOk | kAlreadyConfigured | kInvalidArgument | kOutOfMemory | kInternalError

text \<open>
  The enumerators' values. "Validation stops at the first problem found, in the order
  listed here" is an order on the reasons, so they are a linear order by their values.
\<close>

fun reject_code :: "reject_reason \<Rightarrow> nat" where
  "reject_code kUnknownInstrument = 0"
| "reject_code kDuplicateOrderId = 1"
| "reject_code kInvalidQuantity = 2"
| "reject_code kInvalidPriceTick = 3"
| "reject_code kPriceOutOfBand = 4"
| "reject_code kInvalidTimeInForce = 5"
| "reject_code kUnknownOrder = 6"
| "reject_code kNotConfigured = 7"

lemma reject_code_inj: "reject_code a = reject_code b \<longleftrightarrow> a = b"
  by (cases a; cases b) simp_all

instantiation reject_reason :: linorder
begin

definition less_eq_reject_reason :: "reject_reason \<Rightarrow> reject_reason \<Rightarrow> bool" where
  "less_eq_reject_reason a b \<longleftrightarrow> reject_code a \<le> reject_code b"

definition less_reject_reason :: "reject_reason \<Rightarrow> reject_reason \<Rightarrow> bool" where
  "less_reject_reason a b \<longleftrightarrow> reject_code a < reject_code b"

instance
  by standard
    (auto simp: less_eq_reject_reason_def less_reject_reason_def reject_code_inj)

end

lemmas reject_order = less_eq_reject_reason_def less_reject_reason_def

fun opposite :: "side \<Rightarrow> side" where
  "opposite kBuy = kSell"
| "opposite kSell = kBuy"

lemma opposite_simps [simp]: "opposite (opposite s) = s" "opposite s \<noteq> s" "s \<noteq> opposite s"
  by (cases s; simp)+

lemma side_eq_kBuy: "s \<noteq> kSell \<longleftrightarrow> s = kBuy"
  by (cases s) simp_all

section \<open>Requests and results\<close>

record instrument_config =
  ic_instrument_id :: instrument_id
  ic_reference_price :: price
  ic_band_bps :: "32 word"

record new_order =
  no_order_id :: order_id
  no_instrument_id :: instrument_id
  no_side :: side
  no_type :: order_type
  no_tif :: time_in_force
  no_price :: price
  no_quantity :: quantity

record cancel_order =
  co_order_id :: order_id

record replace_order =
  ro_order_id :: order_id
  ro_new_order_id :: order_id
  ro_new_price :: price
  ro_new_quantity :: quantity

record top_of_book =
  tob_bid_price :: price
  tob_bid_quantity :: quantity
  tob_ask_price :: price
  tob_ask_quantity :: quantity

definition empty_top_of_book :: top_of_book where
  "empty_top_of_book =
    \<lparr>tob_bid_price = 0, tob_bid_quantity = 0, tob_ask_price = 0, tob_ask_quantity = 0\<rparr>"

section \<open>Events\<close>

datatype event =
    On_accepted order_id
  | On_rejected order_id reject_reason
  | On_trade trade_id instrument_id price quantity order_id order_id side
  | On_canceled order_id quantity cancel_reason
  | On_replaced order_id order_id price quantity

end
