(* ===== verification/Tick_Table.thy ===== *)
theory Tick_Table
  imports Api
begin

text \<open>
  The tick schedule of \<open>include/engine/tick_table.hpp\<close> and the consistency conditions that
  \<open>src/tick_table.cpp\<close> asserts at compile time. The tick functions walk the schedule as
  the code does; the lemmas say that rounding gives the nearest valid price, which is what
  the price ladder and the band check rely on.
\<close>

section \<open>The schedule\<close>

type_synonym tick_bracket = "price \<times> price"

abbreviation upper_exclusive :: "tick_bracket \<Rightarrow> price" where
  "upper_exclusive \<equiv> fst"

abbreviation tick :: "tick_bracket \<Rightarrow> price" where
  "tick \<equiv> snd"

definition kTickSchedule :: "tick_bracket list" where
  "kTickSchedule = [(200000, 100), (500000, 200), (1000000, 500), (int64_max, 1000)]"

definition kTickBracketCount :: nat where
  "kTickBracketCount = length kTickSchedule"

definition kCoarsestTick :: price where
  "kCoarsestTick = tick (kTickSchedule ! (kTickBracketCount - 1))"

fun tick_size_in :: "tick_bracket list \<Rightarrow> price \<Rightarrow> price" where
  "tick_size_in [] price = kCoarsestTick"
| "tick_size_in (bracket # rest) price =
    (if price < upper_exclusive bracket then tick bracket else tick_size_in rest price)"

definition tick_size :: "price \<Rightarrow> price" where
  "tick_size price = tick_size_in kTickSchedule price"

definition is_tick_aligned :: "price \<Rightarrow> bool" where
  "is_tick_aligned price = (if price \<le> 0 then False else price smod tick_size price = 0)"

definition ceil_to_tick :: "price \<Rightarrow> price" where
  "ceil_to_tick price =
    (if price \<le> 0 then tick_size 0
     else let step = tick_size price; rem = price smod step
          in if rem = 0 then price else price + (step - rem))"

definition floor_to_tick :: "price \<Rightarrow> price" where
  "floor_to_tick price =
    (if price \<le> 0 then 0
     else let step = tick_size price; rem = price smod step in price - rem)"

section \<open>The compile-time checks\<close>

definition schedule_is_well_formed :: bool where
  "schedule_is_well_formed \<longleftrightarrow>
    list_all (\<lambda>i. 0 < tick (kTickSchedule ! i)
        \<and> \<not> (0 < i \<and> upper_exclusive (kTickSchedule ! i) \<le> upper_exclusive (kTickSchedule ! (i - 1))))
      [0..<kTickBracketCount]
    \<and> upper_exclusive (kTickSchedule ! (kTickBracketCount - 1)) = int64_max"

definition bracket_edges_are_tick_aligned :: bool where
  "bracket_edges_are_tick_aligned \<longleftrightarrow>
    list_all (\<lambda>i. upper_exclusive (kTickSchedule ! (i - 1)) smod tick (kTickSchedule ! i) = 0)
      [1..<kTickBracketCount]"

text \<open>The \<open>static_assert\<close>s of the translation unit, in order, spot checks included.\<close>

definition tick_table_asserts :: bool where
  "tick_table_asserts \<longleftrightarrow> 1 \<le> kTickBracketCount \<and> schedule_is_well_formed \<and> bracket_edges_are_tick_aligned
    \<and> tick_size 1 = 100 \<and> tick_size 199900 = 100 \<and> tick_size 200000 = 200 \<and> tick_size 499800 = 200
    \<and> tick_size 500000 = 500 \<and> tick_size 999500 = 500 \<and> tick_size 1000000 = 1000
    \<and> is_tick_aligned 251000 \<and> \<not> is_tick_aligned 251100 \<and> \<not> is_tick_aligned 0 \<and> \<not> is_tick_aligned (- 100)
    \<and> ceil_to_tick 251001 = 251200 \<and> ceil_to_tick 251000 = 251000
    \<and> floor_to_tick 251199 = 251000 \<and> floor_to_tick 251000 = 251000"

lemmas schedule_defs = kTickSchedule_def kTickBracketCount_def kCoarsestTick_def

lemma schedule_checks:
  "1 \<le> kTickBracketCount" "schedule_is_well_formed" "bracket_edges_are_tick_aligned"
  by (simp_all add: schedule_is_well_formed_def bracket_edges_are_tick_aligned_def schedule_defs
      int64_max_def upt_rec)

section \<open>Properties of the tick functions\<close>

lemma tick_size_eq:
  "tick_size p = (if p < 200000 then 100 else if p < 500000 then 200 else if p < 1000000 then 500 else 1000)"
  by (simp add: tick_size_def schedule_defs)

lemma tick_size_cases:
  obtains (t100) "p < 200000" "tick_size p = 100"
  | (t200) "200000 \<le> p" "p < 500000" "tick_size p = 200"
  | (t500) "500000 \<le> p" "p < 1000000" "tick_size p = 500"
  | (t1000) "1000000 \<le> p" "tick_size p = 1000"
  by (simp add: tick_size_eq split: if_splits; linarith)

lemma tick_size_pos [simp]: "0 < tick_size p"
  by (simp add: tick_size_eq)

lemma tick_size_neq_0 [simp]: "tick_size p \<noteq> 0"
  by (simp add: tick_size_eq)

lemma mod_tick_bounds: "0 \<le> p mod tick_size q" "p mod tick_size q < tick_size q"
  by simp_all

lemma is_tick_aligned_iff: "is_tick_aligned p \<longleftrightarrow> 0 < p \<and> p mod tick_size p = 0"
  by (simp add: is_tick_aligned_def)

lemma is_tick_aligned_pos: "is_tick_aligned p \<Longrightarrow> 0 < p"
  by (simp add: is_tick_aligned_iff)

lemma ceil_to_tick_eq:
  "0 < p \<Longrightarrow> ceil_to_tick p = (if p mod tick_size p = 0 then p else p + (tick_size p - p mod tick_size p))"
  by (simp add: ceil_to_tick_def Let_def)

lemma floor_to_tick_eq: "0 < p \<Longrightarrow> floor_to_tick p = p - p mod tick_size p"
  by (simp add: floor_to_tick_def Let_def)

text \<open>
  Every non-negative price lies in a bracket \<open>[lo, hi)\<close> of constant tick whose two edges are
  multiples of that tick, and whose upper edge is a valid price of the next bracket: the
  condition that \<open>bracket_edges_are_tick_aligned\<close> checks is what makes rounding correct.
\<close>

definition in_bracket :: "price \<Rightarrow> price \<Rightarrow> price \<Rightarrow> bool" where
  "in_bracket p lo hi \<longleftrightarrow> 0 \<le> lo \<and> lo \<le> p \<and> p < hi \<and> tick_size p dvd lo \<and> tick_size p dvd hi
    \<and> is_tick_aligned hi \<and> (\<forall>x. lo \<le> x \<longrightarrow> x < hi \<longrightarrow> tick_size x = tick_size p)"

lemma in_bracketD:
  assumes "in_bracket p lo hi"
  shows "0 \<le> lo" "lo \<le> p" "p < hi" "tick_size p dvd lo" "tick_size p dvd hi" "is_tick_aligned hi"
    and "lo \<le> x \<Longrightarrow> x < hi \<Longrightarrow> tick_size x = tick_size p"
  using assms unfolding in_bracket_def by blast+

lemma bracket_of:
  assumes "0 \<le> p"
  obtains lo hi where "in_bracket p lo hi"
proof (cases p rule: tick_size_cases)
  case t100
  with assms show ?thesis
    by (intro that [of 0 200000]) (simp add: in_bracket_def is_tick_aligned_iff tick_size_eq)
next
  case t200
  then show ?thesis
    by (intro that [of 200000 500000]) (simp add: in_bracket_def is_tick_aligned_iff tick_size_eq)
next
  case t500
  then show ?thesis
    by (intro that [of 500000 1000000]) (simp add: in_bracket_def is_tick_aligned_iff tick_size_eq)
next
  case t1000
  have hi: "p < 1000 * (p div 1000 + 1)"
    by presburger
  with t1000 show ?thesis
    by (intro that [of 1000000 "1000 * (p div 1000 + 1)"])
      (simp add: in_bracket_def is_tick_aligned_iff tick_size_eq)
qed

lemma floor_multiple: "0 < t \<Longrightarrow> t dvd a \<Longrightarrow> a \<le> p \<Longrightarrow> a \<le> p - p mod t" for a p t :: int
  using dvd_less_imp_le [of t "p - p mod t" a] pos_mod_bound [of t p]
  by (fastforce simp: minus_mod_eq_mult_div)

lemma ceil_multiple:
  fixes a p t :: int
  assumes "0 < t" "t dvd a" "p < a"
  shows "p + (t - p mod t) \<le> a"
proof -
  have "0 \<le> p mod t" using assms by simp
  with assms have "p - p mod t < a" by linarith
  with assms have "p - p mod t + t \<le> a"
    by (intro dvd_less_imp_le) (simp_all add: minus_mod_eq_mult_div)
  then show ?thesis by linarith
qed

lemma ceil_to_tick_ge: "p \<le> ceil_to_tick p"
proof (cases "0 < p")
  case True
  with mod_tick_bounds(2) [of p p] show ?thesis
    unfolding ceil_to_tick_eq [OF True] by (simp only: split: if_split) linarith
next
  case False
  then show ?thesis by (simp add: ceil_to_tick_def tick_size_eq)
qed

lemma ceil_to_tick_aligned: "is_tick_aligned (ceil_to_tick p)"
proof (cases "0 < p \<and> p mod tick_size p \<noteq> 0")
  case True
  let ?t = "tick_size p" and ?c = "p + (tick_size p - p mod tick_size p)"
  obtain lo hi where b: "in_bracket p lo hi"
    using bracket_of [of p] True by fastforce
  have ge: "p < ?c" using mod_tick_bounds(2) [of p p] by linarith
  have "?c = ?t * (p div ?t + 1)"
    using minus_mod_eq_mult_div [of p ?t] by (simp add: algebra_simps)
  then have t: "?t dvd ?c" by simp
  have "?c \<le> hi" by (rule ceil_multiple) (use in_bracketD(1-6) [OF b] in auto)
  then have "is_tick_aligned ?c"
  proof (cases "?c = hi")
    case False
    with \<open>?c \<le> hi\<close> ge have eq: "tick_size ?c = ?t"
      using in_bracketD(2) [OF b] by (intro in_bracketD(7) [OF b]) linarith+
    have "0 < ?c" using ge True by linarith
    then show ?thesis unfolding is_tick_aligned_iff mod_eq_0_iff_dvd eq using t by blast
  qed (use in_bracketD(6) [OF b] in simp)
  with True show ?thesis by (simp add: ceil_to_tick_eq)
next
  case False
  then show ?thesis
    by (auto simp: is_tick_aligned_iff ceil_to_tick_def tick_size_eq)
qed

lemma aligned_dvd: "is_tick_aligned r \<Longrightarrow> tick_size r dvd r"
  by (simp add: is_tick_aligned_iff mod_eq_0_iff_dvd)

lemma aligned_ge_100: "is_tick_aligned r \<Longrightarrow> 100 \<le> r"
  using aligned_dvd [of r] is_tick_aligned_pos [of r]
  by (cases r rule: tick_size_cases) (auto dest: zdvd_imp_le)

lemma ceil_to_tick_least:
  assumes r: "is_tick_aligned r" and "p \<le> r"
  shows "ceil_to_tick p \<le> r"
proof (cases "0 < p \<and> p mod tick_size p \<noteq> 0")
  case True
  obtain lo hi where b: "in_bracket p lo hi"
    using bracket_of [of p] True by fastforce
  have "p \<noteq> r" using True r by (auto simp: is_tick_aligned_iff)
  with \<open>p \<le> r\<close> have "p < r" by simp
  have "p + (tick_size p - p mod tick_size p) \<le> r"
  proof (cases "r < hi")
    case lt: True
    with in_bracketD(7) [OF b, of r] in_bracketD(2) [OF b] \<open>p < r\<close> aligned_dvd [OF r]
    have "tick_size p dvd r" by simp
    then show ?thesis using \<open>p < r\<close> by (intro ceil_multiple) simp_all
  next
    case False
    have "p + (tick_size p - p mod tick_size p) \<le> hi"
      by (rule ceil_multiple) (use in_bracketD(1-6) [OF b] in auto)
    with False show ?thesis by simp
  qed
  with True show ?thesis by (simp add: ceil_to_tick_eq)
next
  case False
  with aligned_ge_100 [OF r] \<open>p \<le> r\<close> show ?thesis
    by (auto simp: ceil_to_tick_def tick_size_eq)
qed

lemma floor_to_tick_le: "0 \<le> p \<Longrightarrow> floor_to_tick p \<le> p"
  by (cases "p = 0") (simp_all add: floor_to_tick_eq floor_to_tick_def)

lemma floor_to_tick_greatest:
  assumes r: "is_tick_aligned r" and "r \<le> p"
  shows "r \<le> floor_to_tick p"
proof -
  from assms have p: "0 < p" by (simp add: is_tick_aligned_iff)
  obtain lo hi where b: "in_bracket p lo hi"
    using bracket_of [of p] p by fastforce
  have lo: "lo \<le> p - p mod tick_size p"
    by (rule floor_multiple) (use in_bracketD(1-6) [OF b] in auto)
  have "r \<le> p - p mod tick_size p"
  proof (cases "lo \<le> r")
    case True
    with in_bracketD(7) [OF b, of r] in_bracketD(3) [OF b] \<open>r \<le> p\<close> aligned_dvd [OF r]
    have "tick_size p dvd r" by simp
    with \<open>r \<le> p\<close> show ?thesis by (intro floor_multiple) simp_all
  next
    case False
    with lo show ?thesis by simp
  qed
  with p show ?thesis by (simp add: floor_to_tick_eq)
qed

lemma floor_to_tick_aligned:
  assumes "100 \<le> p"
  shows "is_tick_aligned (floor_to_tick p)"
proof -
  from assms have p: "0 < p" by simp
  obtain lo hi where b: "in_bracket p lo hi"
    using bracket_of [of p] p by fastforce
  let ?f = "p - p mod tick_size p"
  have lo: "lo \<le> ?f"
    by (rule floor_multiple) (use in_bracketD(1-6) [OF b] in auto)
  have le: "?f \<le> p" by (simp add: p)
  with in_bracketD(7) [OF b, of ?f] in_bracketD(3) [OF b] lo
  have "tick_size ?f = tick_size p" by simp
  moreover have "tick_size p dvd ?f" by (simp add: minus_mod_eq_mult_div)
  moreover have "0 < ?f"
    using assms mod_tick_bounds(2) [of p p] by (cases p rule: tick_size_cases) linarith+
  ultimately show ?thesis using p by (simp add: is_tick_aligned_iff floor_to_tick_eq)
qed

lemma ceil_to_tick_id: "is_tick_aligned p \<Longrightarrow> ceil_to_tick p = p"
  by (simp add: is_tick_aligned_iff ceil_to_tick_eq)

lemma floor_to_tick_id: "is_tick_aligned p \<Longrightarrow> floor_to_tick p = p"
  by (simp add: is_tick_aligned_iff floor_to_tick_eq)

lemma tick_size_le [simp]: "tick_size p \<le> 1000"
  by (simp add: tick_size_eq)

lemma ceil_to_tick_bound: "0 < p \<Longrightarrow> ceil_to_tick p \<le> p + 1000"
  using mod_tick_bounds(1) [of p p] tick_size_le [of p]
  by (simp only: ceil_to_tick_eq split: if_split) linarith

text \<open>The build's checks pass.\<close>

lemma tick_table_asserts_hold: "tick_table_asserts"
  unfolding tick_table_asserts_def
  by (intro conjI schedule_checks) (simp_all add: is_tick_aligned_iff ceil_to_tick_def floor_to_tick_def tick_size_eq Let_def)

section \<open>Properties\<close>

text \<open>\<open>ceil_to_tick\<close> rounds up to the nearest valid tick: its result is a valid price not
  below the argument, and no valid price lies in between.\<close>

theorem ceil_to_tick_nearest:
  "is_tick_aligned (ceil_to_tick p) \<and> p \<le> ceil_to_tick p
    \<and> {r. is_tick_aligned r \<and> p \<le> r \<and> r < ceil_to_tick p} = {}"
  using ceil_to_tick_aligned ceil_to_tick_ge ceil_to_tick_least by fastforce

text \<open>\<open>floor_to_tick\<close> rounds down to the nearest valid tick, from the smallest valid price on.\<close>

theorem floor_to_tick_nearest:
  assumes "100 \<le> p"
  shows "is_tick_aligned (floor_to_tick p) \<and> floor_to_tick p \<le> p
    \<and> {r. is_tick_aligned r \<and> floor_to_tick p < r \<and> r \<le> p} = {}"
  using assms floor_to_tick_aligned floor_to_tick_le [of p] floor_to_tick_greatest by fastforce

theorem floor_to_tick_nearest_witness:
  "floor_to_tick 251199 = 251000 \<and> {r. is_tick_aligned r \<and> 251000 < r \<and> r \<le> 251199} = {}"
proof -
  have "floor_to_tick 251199 = 251000" by (simp add: floor_to_tick_eq tick_size_eq)
  with floor_to_tick_nearest [of 251199] show ?thesis by simp
qed

end
