(* ===== verification/Interfaces.thy ===== *)
theory Interfaces
  imports Api
begin

text \<open>
  The contracts between the components, one locale each: the operations a client calls are
  the parameters, the laws the provider promises are the assumptions, and the client's
  lemmas are proved once from the laws. Every locale is interpreted on the code's model in
  the theory of the component that provides it (named at each locale).
\<close>

section \<open>A dense grid of prices\<close>

text \<open>
  What an order book needs of \<open>PriceLadder\<close> (provider: \<open>Price_Ladder\<close>): prices that may
  rest have consecutive indices, in price order, and every other price is refused.
\<close>

locale price_grid =
  fixes grid_ok :: "'l \<Rightarrow> bool"
    and grid_size :: "'l \<Rightarrow> nat"
    and tradable :: "'l \<Rightarrow> price \<Rightarrow> bool"
    and to_index :: "'l \<Rightarrow> price \<Rightarrow> int"
    and from_index :: "'l \<Rightarrow> 32 word \<Rightarrow> price"
  assumes grid_size_bound: "grid_ok l \<Longrightarrow> grid_size l < 2 ^ 32"
    and to_index_tradable: "grid_ok l \<Longrightarrow> tradable l p \<Longrightarrow> 0 \<le> to_index l p \<and> to_index l p < int (grid_size l)"
    and to_index_refused: "grid_ok l \<Longrightarrow> \<not> tradable l p \<Longrightarrow> to_index l p = -1"
    and to_index_less: "grid_ok l \<Longrightarrow> tradable l p \<Longrightarrow> tradable l q \<Longrightarrow> p < q \<Longrightarrow> to_index l p < to_index l q"
    and from_index_tradable: "grid_ok l \<Longrightarrow> unat i < grid_size l \<Longrightarrow> tradable l (from_index l i)"
    and to_from_index: "grid_ok l \<Longrightarrow> unat i < grid_size l \<Longrightarrow> to_index l (from_index l i) = int (unat i)"
begin

lemma to_index_nonneg_iff: "grid_ok l \<Longrightarrow> 0 \<le> to_index l p \<longleftrightarrow> tradable l p"
  using to_index_tradable [of l p] to_index_refused [of l p] by (cases "tradable l p") auto

lemma to_index_eq_iff:
  "grid_ok l \<Longrightarrow> tradable l p \<Longrightarrow> tradable l q \<Longrightarrow> to_index l p = to_index l q \<longleftrightarrow> p = q"
  using to_index_less [of l p q] to_index_less [of l q p] by (cases p q rule: linorder_cases) auto

lemma to_index_less_iff:
  "grid_ok l \<Longrightarrow> tradable l p \<Longrightarrow> tradable l q \<Longrightarrow> to_index l p < to_index l q \<longleftrightarrow> p < q"
  using to_index_less [of l p q] to_index_less [of l q p] by (cases p q rule: linorder_cases) auto

lemma word_index:
  assumes "grid_ok l" and "tradable l p"
  shows "int (unat (word_of_int (to_index l p) :: 32 word)) = to_index l p"
    and "unat (word_of_int (to_index l p) :: 32 word) < grid_size l"
proof -
  from to_index_tradable [OF assms] grid_size_bound [OF assms(1)]
  have "0 \<le> to_index l p" "to_index l p < int (grid_size l)" "to_index l p < 2 ^ 32" by auto
  then show *: "int (unat (word_of_int (to_index l p) :: 32 word)) = to_index l p"
    by (simp add: unsigned_of_int take_bit_int_eq_self)
  show "unat (word_of_int (to_index l p) :: 32 word) < grid_size l"
    using * \<open>to_index l p < int (grid_size l)\<close> by linarith
qed

lemma from_to_index:
  assumes "grid_ok l" and "tradable l p"
  shows "from_index l (word_of_int (to_index l p)) = p"
proof -
  let ?i = "word_of_int (to_index l p) :: 32 word"
  have i: "unat ?i < grid_size l" using assms by (rule word_index)
  have "to_index l (from_index l ?i) = to_index l p"
    using to_from_index [OF assms(1) i] word_index(1) [OF assms] by simp
  with from_index_tradable [OF assms(1) i] assms show ?thesis by (simp add: to_index_eq_iff)
qed

lemma from_index_less_iff:
  assumes "grid_ok l" and "unat i < grid_size l" and "unat j < grid_size l"
  shows "from_index l i < from_index l j \<longleftrightarrow> unat i < unat j"
  using to_index_less_iff [OF assms(1) from_index_tradable [OF assms(1,2)] from_index_tradable [OF assms(1,3)]]
    to_from_index [OF assms(1,2)] to_from_index [OF assms(1,3)]
  by (simp add: word_less_def word_less_nat_alt [symmetric])

lemma from_index_le_iff:
  assumes "grid_ok l" and "unat i < grid_size l" and "unat j < grid_size l"
  shows "from_index l i \<le> from_index l j \<longleftrightarrow> unat i \<le> unat j"
  using from_index_less_iff [OF assms(1,3,2)] by (simp add: linorder_not_less [symmetric])

end

section \<open>A set of occupied levels with nearest-member search\<close>

text \<open>
  The best index of a side: the highest member for bids, the lowest for asks, \<open>-1\<close> for none.
\<close>

definition top_index :: "nat set \<Rightarrow> int \<Rightarrow> bool" where
  "top_index S r \<longleftrightarrow> (S = {} \<and> r = -1) \<or> (\<exists>i\<in>S. r = int i \<and> (\<forall>j\<in>S. j \<le> i))"

definition bottom_index :: "nat set \<Rightarrow> int \<Rightarrow> bool" where
  "bottom_index S r \<longleftrightarrow> (S = {} \<and> r = -1) \<or> (\<exists>i\<in>S. r = int i \<and> (\<forall>j\<in>S. i \<le> j))"

fun best_index_of :: "side \<Rightarrow> nat set \<Rightarrow> int \<Rightarrow> bool" where
  "best_index_of kBuy S r = top_index S r"
| "best_index_of kSell S r = bottom_index S r"

text \<open>\<open>before sd i j\<close>: on side \<open>sd\<close>, level \<open>i\<close> has strictly better priority than level \<open>j\<close>.\<close>

fun before :: "side \<Rightarrow> nat \<Rightarrow> nat \<Rightarrow> bool" where
  "before kBuy i j \<longleftrightarrow> j < i"
| "before kSell i j \<longleftrightarrow> i < j"

lemma before_simps [simp]: "\<not> before sd i i" "before sd i j \<Longrightarrow> \<not> before sd j i"
  by (cases sd; simp)+

lemma before_trans: "before sd i j \<Longrightarrow> before sd j k \<Longrightarrow> before sd i k"
  by (cases sd) auto

lemma before_total: "before sd i j \<or> i = j \<or> before sd j i"
  by (cases sd) auto

lemma best_index_of_iff:
  "best_index_of sd S r \<longleftrightarrow> (S = {} \<and> r = -1) \<or> (\<exists>i\<in>S. r = int i \<and> (\<forall>j\<in>S. \<not> before sd j i))"
  by (cases sd) (simp_all add: top_index_def bottom_index_def not_less)

lemma top_indexI: "i \<in> S \<Longrightarrow> (\<And>j. j \<in> S \<Longrightarrow> j \<le> i) \<Longrightarrow> top_index S (int i)"
  by (auto simp: top_index_def)

lemma bottom_indexI: "i \<in> S \<Longrightarrow> (\<And>j. j \<in> S \<Longrightarrow> i \<le> j) \<Longrightarrow> bottom_index S (int i)"
  by (auto simp: bottom_index_def)

lemma best_index_of_nonneg: "best_index_of sd S r \<Longrightarrow> 0 \<le> r \<longleftrightarrow> S \<noteq> {}"
  by (auto simp: best_index_of_iff)

lemma best_index_of_member:
  assumes "best_index_of sd S r" and "0 \<le> r"
  shows "nat r \<in> S" and "j \<in> S \<Longrightarrow> \<not> before sd j (nat r)"
  using assms by (auto simp: best_index_of_iff)

lemma best_index_of_unique: "best_index_of sd S r \<Longrightarrow> best_index_of sd S r' \<Longrightarrow> r = r'"
  using before_total [of sd] by (auto simp: best_index_of_iff)

lemma best_index_of_empty [simp]: "best_index_of sd {} r \<longleftrightarrow> r = -1"
  by (simp add: best_index_of_iff)

text \<open>The two updates of the cached best index (provider: \<open>Level_Bitset\<close>; client: \<open>Order_Book\<close>).\<close>

locale level_set =
  fixes set_ok :: "'b \<Rightarrow> bool"
    and capacity :: "'b \<Rightarrow> nat"
    and members :: "'b \<Rightarrow> nat set"
    and make :: "nat \<Rightarrow> 'b"
    and add_member :: "'b \<Rightarrow> 32 word \<Rightarrow> 'b"
    and del_member :: "'b \<Rightarrow> 32 word \<Rightarrow> 'b"
    and highest_le :: "'b \<Rightarrow> int \<Rightarrow> int"
    and lowest_ge :: "'b \<Rightarrow> int \<Rightarrow> int"
  assumes ok_make: "set_ok (make n)"
    and capacity_make: "n \<le> capacity (make n)"
    and members_make: "members (make n) = {}"
    and ok_add: "set_ok b \<Longrightarrow> unat i < capacity b \<Longrightarrow> set_ok (add_member b i)"
    and capacity_add: "capacity (add_member b i) = capacity b"
    and members_add: "set_ok b \<Longrightarrow> unat i < capacity b \<Longrightarrow> members (add_member b i) = insert (unat i) (members b)"
    and ok_del: "set_ok b \<Longrightarrow> unat i < capacity b \<Longrightarrow> set_ok (del_member b i)"
    and capacity_del: "capacity (del_member b i) = capacity b"
    and members_del: "set_ok b \<Longrightarrow> unat i < capacity b \<Longrightarrow> members (del_member b i) = members b - {unat i}"
    and highest_le: "set_ok b \<Longrightarrow> s < int (capacity b) \<Longrightarrow> top_index {i \<in> members b. int i \<le> s} (highest_le b s)"
    and lowest_ge: "set_ok b \<Longrightarrow> bottom_index {i \<in> members b. s \<le> int i} (lowest_ge b s)"
begin

fun next_best :: "side \<Rightarrow> 'b \<Rightarrow> int \<Rightarrow> int" where
  "next_best kBuy b after = highest_le b (after - 1)"
| "next_best kSell b after = lowest_ge b (after + 1)"

lemma next_best_members:
  assumes "set_ok b" and "after < int (capacity b)" and "0 \<le> after"
  shows "best_index_of sd {i \<in> members b. before sd (nat after) i} (next_best sd b after)"
proof (cases sd)
  case kBuy
  have "{i \<in> members b. i < nat after} = {i \<in> members b. int i \<le> after - 1}"
    using assms(3) by auto
  with kBuy assms highest_le [of b "after - 1"] show ?thesis by simp
next
  case kSell
  have "{i \<in> members b. nat after < i} = {i \<in> members b. after + 1 \<le> int i}"
    using assms(3) by auto
  with kSell assms lowest_ge [of b "after + 1"] show ?thesis by simp
qed

lemma best_after_add:
  assumes "set_ok b" "unat i < capacity b" "best_index_of sd (members b) r"
  shows "best_index_of sd (members (add_member b i))
    (if r < 0 \<or> before sd (unat i) (nat r) then int (unat i) else r)"
proof (cases "r < 0 \<or> before sd (unat i) (nat r)")
  case True
  have "\<not> before sd j (unat i)" if "j \<in> members b" for j
    using True best_index_of_nonneg [OF assms(3)] best_index_of_member(2) [OF assms(3) _ that] that
      before_trans [of sd j "unat i" "nat r"] by (auto simp: not_less [symmetric])
  with True show ?thesis by (auto simp: best_index_of_iff members_add [OF assms(1,2)])
next
  case False
  then have "0 \<le> r" "\<not> before sd (unat i) (nat r)" by simp_all
  with best_index_of_member [OF assms(3)] show ?thesis
    by (auto simp: best_index_of_iff members_add [OF assms(1,2)] intro!: bexI [of _ "nat r"])
qed

lemma best_after_del:
  assumes ok: "set_ok b" and i: "unat i < capacity b" and best: "best_index_of sd (members b) r"
  shows "best_index_of sd (members (del_member b i))
    (if r = int (unat i) then next_best sd (del_member b i) r else r)"
proof (cases "r = int (unat i)")
  case True
  let ?b = "del_member b i"
  from True best have "\<And>j. j \<in> members b \<Longrightarrow> \<not> before sd j (unat i)"
    using best_index_of_member(2) [OF best] by simp
  then have "{j \<in> members ?b. before sd (nat r) j} = members ?b"
    using True before_total [of sd "unat i"] by (auto simp: members_del [OF ok i])
  with next_best_members [of ?b r sd] True ok i show ?thesis
    by (simp add: ok_del capacity_del)
next
  case False
  with best show ?thesis by (auto simp: best_index_of_iff members_del [OF ok i])
qed

end

section \<open>An index from ids to slots\<close>

text \<open>
  What the engine needs of its id index (provider: \<open>Flat_Hash_Map\<close>): lookups terminate,
  an absent id can be inserted and a present one reassigned; an insertion that fails does so
  because the allocator refused.
\<close>

locale id_map =
  fixes map_ok :: "'m \<Rightarrow> bool"
    and lookup :: "'m \<Rightarrow> 'k \<Rightarrow> 'v option"
    and count :: "'m \<Rightarrow> nat"
    and find :: "'m \<Rightarrow> 'k \<Rightarrow> 'v option option"
    and contains :: "'m \<Rightarrow> 'k \<Rightarrow> bool option"
    and assign :: "'m \<Rightarrow> 'k \<Rightarrow> 'v \<Rightarrow> 'm option"
    and insert :: "allocator \<Rightarrow> 'm \<Rightarrow> 'k \<Rightarrow> 'v \<Rightarrow> 'm outcome"
  assumes find: "map_ok m \<Longrightarrow> find m k = Some (lookup m k)"
    and contains: "map_ok m \<Longrightarrow> contains m k = Some (lookup m k \<noteq> None)"
    and assign: "map_ok m \<Longrightarrow> lookup m k \<noteq> None \<Longrightarrow> \<exists>m'. assign m k v = Some m' \<and> map_ok m'
      \<and> count m' = count m \<and> lookup m' = (lookup m)(k \<mapsto> v)"
    and insert: "map_ok m \<Longrightarrow> lookup m k = None \<Longrightarrow> count m < 2 ^ 32 \<Longrightarrow>
      (\<exists>m'. insert al m k v = Some (Inr m') \<and> map_ok m'
        \<and> count m' = Suc (count m) \<and> lookup m' = (lookup m)(k \<mapsto> v))
      \<or> (\<exists>e r. insert al m k v = Some (Inl e) \<and> al r = Some e)"
begin

lemma insert_granted:
  assumes "map_ok m" "lookup m k = None" "count m < 2 ^ 32" "\<And>r. al r = None"
  shows "\<exists>m'. insert al m k v = Some (Inr m') \<and> map_ok m'
    \<and> count m' = Suc (count m) \<and> lookup m' = (lookup m)(k \<mapsto> v)"
  using insert [OF assms(1-3), of al v] assms(4) by auto

text \<open>Ids are permanent: no operation of the interface forgets one.\<close>

lemma insert_keeps_known:
  assumes "map_ok m" "lookup m k = None" "count m < 2 ^ 32" "insert al m k v = Some (Inr m')"
  shows "map_ok m'" "count m' = Suc (count m)" "lookup m' = (lookup m)(k \<mapsto> v)"
    and "dom (lookup m') = {k} \<union> dom (lookup m)"
  using insert [OF assms(1-3), of al v] assms(4) by auto

lemma assign_keeps_known:
  assumes "map_ok m" "lookup m k \<noteq> None" "assign m k v = Some m'"
  shows "map_ok m'" "count m' = count m" "lookup m' = (lookup m)(k \<mapsto> v)"
    and "dom (lookup m') = dom (lookup m)"
  using assign [OF assms(1,2), of v] assms(2,3) by auto

end

section \<open>A store of records addressed by slots\<close>

text \<open>
  What the book and the engine need of the order pool (provider: \<open>Order_Pool\<close>): slots are
  handed out once, in order, and writing one slot leaves every other as it was. \<open>blank\<close> is
  the record a fresh slot holds.
\<close>

locale slot_store =
  fixes store_ok :: "'p \<Rightarrow> bool"
    and used :: "'p \<Rightarrow> nat"
    and get :: "'p \<Rightarrow> 32 word \<Rightarrow> 'r"
    and set :: "'p \<Rightarrow> 32 word \<Rightarrow> 'r \<Rightarrow> 'p"
    and alloc :: "allocator \<Rightarrow> 'p \<Rightarrow> (32 word \<times> 'p) outcome"
    and blank :: 'r
  assumes ok_set: "store_ok p \<Longrightarrow> store_ok (set p i r)"
    and used_set: "used (set p i r) = used p"
    and get_set: "store_ok p \<Longrightarrow> unat i < used p \<Longrightarrow> get (set p i r) j = (if j = i then r else get p j)"
    and alloc: "store_ok p \<Longrightarrow> used p < 2 ^ 32 \<Longrightarrow>
      (\<exists>p'. alloc al p = Some (Inr (word_of_nat (used p), p')) \<and> store_ok p' \<and> used p' = Suc (used p)
        \<and> get p' (word_of_nat (used p)) = blank \<and> (\<forall>j. unat j < used p \<longrightarrow> get p' j = get p j))
      \<or> (\<exists>e r. alloc al p = Some (Inl e) \<and> al r = Some e)"
begin

definition upd :: "'p \<Rightarrow> 32 word \<Rightarrow> ('r \<Rightarrow> 'r) \<Rightarrow> 'p" where
  "upd p i f = set p i (f (get p i))"

lemma get_upd: "store_ok p \<Longrightarrow> unat i < used p \<Longrightarrow> get (upd p i f) = (get p)(i := f (get p i))"
  by (auto simp: upd_def get_set)

lemma upd_ok: "store_ok p \<Longrightarrow> store_ok (upd p i f)" "used (upd p i f) = used p"
  by (simp_all add: upd_def ok_set used_set)

lemma fresh_slot: "used p < 2 ^ 32 \<Longrightarrow> unat (word_of_nat (used p) :: 32 word) = used p"
  by (rule unat_word_of_nat) simp

lemma alloc_cases:
  assumes "store_ok p" "used p < 2 ^ 32"
  obtains (granted) p' where "alloc al p = Some (Inr (word_of_nat (used p), p'))" "store_ok p'"
      "used p' = Suc (used p)" "get p' (word_of_nat (used p)) = blank"
      "\<And>j. unat j < used p \<Longrightarrow> get p' j = get p j"
  | (refused) e r where "alloc al p = Some (Inl e)" "al r = Some e"
  using alloc [OF assms, of al] by blast

end

end
