(* ===== verification/Price_Ladder.thy ===== *)
theory Price_Ladder
  imports Tick_Table Interfaces
begin

text \<open>
  \<open>PriceLadder\<close> (\<open>include/engine/price_ladder.hpp\<close>, \<open>src/price_ladder.cpp\<close>): the dense
  index of the tick-aligned prices of a band. Counts and offsets are 32-bit and wrap as in
  the code; \<open>ladder_ok\<close> is the condition under which they do not, and under it the ladder
  is the rank function of the valid prices of the band.
\<close>

section \<open>The ladder\<close>

record segment =
  seg_start_price :: price
  seg_end_price :: price
  seg_tick :: price
  seg_index_offset :: "32 word"
  seg_count :: "32 word"

record price_ladder =
  pl_segments :: "segment list"
  pl_total_count :: "32 word"
  pl_band_lo :: price
  pl_band_hi :: price

fun next_breakpoint_in :: "tick_bracket list \<Rightarrow> price \<Rightarrow> price" where
  "next_breakpoint_in [] cur = int64_max"
| "next_breakpoint_in (bracket # rest) cur =
    (if cur < upper_exclusive bracket then upper_exclusive bracket else next_breakpoint_in rest cur)"

definition regime_last :: "price \<Rightarrow> price \<Rightarrow> price" where
  "regime_last cur band_hi =
    (let next_breakpoint = next_breakpoint_in kTickSchedule cur
     in if next_breakpoint = int64_max then band_hi
        else min band_hi (next_breakpoint - tick_size cur))"

lemma next_breakpoint_eq:
  "next_breakpoint_in kTickSchedule cur =
    (if cur < 200000 then 200000 else if cur < 500000 then 500000
     else if cur < 1000000 then 1000000 else int64_max)"
  by (simp add: kTickSchedule_def)

lemma regime_last_eq:
  "regime_last cur hi =
    (if cur < 200000 then min hi 199900 else if cur < 500000 then min hi 499800
     else if cur < 1000000 then min hi 999500 else hi)"
  by (simp add: regime_last_def next_breakpoint_eq Let_def int64_max_def tick_size_eq)

lemma regime_last_progress: "cur \<le> hi \<Longrightarrow> cur < regime_last cur hi + tick_size cur"
  by (simp add: regime_last_eq tick_size_eq min_def)

function build_segments :: "price \<Rightarrow> price \<Rightarrow> 32 word \<Rightarrow> segment list \<times> 32 word" where
  "build_segments cur band_hi offset =
    (if cur \<le> band_hi then
       let step = tick_size cur;
           last = regime_last cur band_hi;
           count = word_of_int ((last - cur) sdiv step) + 1;
           seg = \<lparr>seg_start_price = cur, seg_end_price = last, seg_tick = step,
                  seg_index_offset = offset, seg_count = count\<rparr>;
           (segs, total) = build_segments (last + step) band_hi (offset + count)
       in (seg # segs, total)
     else ([], offset))"
  by pat_completeness auto
termination
  by (relation "measure (\<lambda>(cur, band_hi, offset). nat (band_hi + 1 - cur))")
    (use regime_last_progress in fastforce)+

declare build_segments.simps [simp del]

definition ladder_build :: "price \<Rightarrow> price \<Rightarrow> price_ladder" where
  "ladder_build band_lo band_hi =
    (let (segs, offset) = build_segments band_lo band_hi 0
     in \<lparr>pl_segments = segs, pl_total_count = offset, pl_band_lo = band_lo, pl_band_hi = band_hi\<rparr>)"

definition empty_ladder :: price_ladder where
  "empty_ladder = \<lparr>pl_segments = [], pl_total_count = 0, pl_band_lo = 0, pl_band_hi = 0\<rparr>"

fun index_in_segments :: "segment list \<Rightarrow> price \<Rightarrow> int" where
  "index_in_segments [] price = -1"
| "index_in_segments (seg # rest) price =
    (if seg_start_price seg \<le> price \<and> price \<le> seg_end_price seg then
       let rem = price - seg_start_price seg
       in if rem smod seg_tick seg \<noteq> 0 then -1
          else uint (seg_index_offset seg) + rem sdiv seg_tick seg
     else index_in_segments rest price)"

definition price_to_index :: "price_ladder \<Rightarrow> price \<Rightarrow> int" where
  "price_to_index l price =
    (if price < pl_band_lo l \<or> pl_band_hi l < price then -1
     else index_in_segments (pl_segments l) price)"

fun price_in_segments :: "segment list \<Rightarrow> 32 word \<Rightarrow> price" where
  "price_in_segments [] index = 0"
| "price_in_segments (seg # rest) index =
    (if seg_index_offset seg \<le> index \<and> index < seg_index_offset seg + seg_count seg
     then seg_start_price seg + uint (index - seg_index_offset seg) * seg_tick seg
     else price_in_segments rest index)"

definition index_to_price :: "price_ladder \<Rightarrow> 32 word \<Rightarrow> price" where
  "index_to_price l index = price_in_segments (pl_segments l) index"

section \<open>The valid prices of a band and their ranks\<close>

definition grid :: "price \<Rightarrow> price \<Rightarrow> price set" where
  "grid lo hi = {p. is_tick_aligned p \<and> lo \<le> p \<and> p \<le> hi}"

definition price_rank :: "price \<Rightarrow> price \<Rightarrow> nat" where
  "price_rank lo p = card (grid lo (p - 1))"

lemma finite_grid [simp]: "finite (grid lo hi)"
  by (rule finite_subset [of _ "{lo..hi}"]) (auto simp: grid_def)

lemma grid_empty: "hi < lo \<Longrightarrow> grid lo hi = {}"
  by (auto simp: grid_def)

lemma grid_split:
  assumes "m < n" "\<And>p. m < p \<Longrightarrow> p \<le> hi \<Longrightarrow> is_tick_aligned p \<Longrightarrow> n \<le> p" "lo \<le> n" "m \<le> hi"
  shows "grid lo hi = grid lo m \<union> grid n hi"
proof (intro set_eqI iffI)
  fix x assume "x \<in> grid lo hi"
  then show "x \<in> grid lo m \<union> grid n hi"
    using assms(2) [of x] by (cases "x \<le> m") (auto simp: grid_def)
next
  fix x assume "x \<in> grid lo m \<union> grid n hi"
  then show "x \<in> grid lo hi" using assms by (auto simp: grid_def)
qed

lemma grid_disjoint: "m < n \<Longrightarrow> grid lo m \<inter> grid n hi = {}"
  by (auto simp: grid_def)

text \<open>The first regime of a walk: an arithmetic progression, and a gap up to the next start.\<close>

lemma regime_tick:
  assumes "cur \<le> p" and "p \<le> regime_last cur hi"
  shows "tick_size p = tick_size cur"
  using assms by (simp add: regime_last_eq tick_size_eq split: if_splits)

lemma regime_cases:
  obtains (inner) m n where "regime_last cur hi = min hi m" "m + tick_size cur = n" "cur < n" "is_tick_aligned n" "tick_size cur dvd n"
      "\<And>p. p < n \<Longrightarrow> m < p \<Longrightarrow> tick_size p = tick_size cur"
  | (outer) "regime_last cur hi = hi"
proof (cases cur rule: tick_size_cases)
  case t100
  then show ?thesis by (intro inner [of 199900 200000]) (simp_all add: regime_last_eq is_tick_aligned_iff tick_size_eq)
next
  case t200
  then show ?thesis by (intro inner [of 499800 500000]) (simp_all add: regime_last_eq is_tick_aligned_iff tick_size_eq)
next
  case t500
  then show ?thesis by (intro inner [of 999500 1000000]) (simp_all add: regime_last_eq is_tick_aligned_iff tick_size_eq)
next
  case t1000
  then show ?thesis by (intro outer) (simp add: regime_last_eq)
qed

lemma dvd_gap: "t dvd p \<Longrightarrow> t dvd n \<Longrightarrow> p < n \<Longrightarrow> p + t \<le> n" for t p n :: int
  using zdvd_imp_le [of t "n - p"] by simp

lemma regime_gap:
  assumes "cur \<le> hi" "is_tick_aligned p" "regime_last cur hi < p" "p \<le> hi"
  shows "regime_last cur hi + tick_size cur \<le> p \<and> is_tick_aligned (regime_last cur hi + tick_size cur)"
proof (cases rule: regime_cases [where cur = cur and hi = hi])
  case (inner m n)
  then have last: "regime_last cur hi = m" "m < p" using assms(3,4) by linarith+
  have "n \<le> p"
  proof (rule ccontr)
    assume "\<not> n \<le> p"
    then have "p < n" by simp
    moreover from this have "tick_size cur dvd p" using inner(6) [OF _ last(2)] aligned_dvd [OF assms(2)] by simp
    ultimately have "p + tick_size cur \<le> n" using inner(5) by (intro dvd_gap)
    with inner(2) last(2) show False by linarith
  qed
  with inner(2,4) last(1) show ?thesis by simp
qed (use assms(3,4) in simp)

lemma regime_last_le:
  assumes "cur \<le> hi" "is_tick_aligned cur"
  shows "cur \<le> regime_last cur hi \<and> regime_last cur hi \<le> hi"
proof (cases rule: regime_cases [where cur = cur and hi = hi])
  case (inner m n)
  have "cur + tick_size cur \<le> n" by (rule dvd_gap [OF aligned_dvd [OF assms(2)] inner(5,3)])
  with inner(1,2) assms(1) show ?thesis by simp
qed (use assms(1) in simp)

lemma regime_last_next:
  assumes "regime_last cur hi + tick_size cur \<le> hi"
  shows "is_tick_aligned (regime_last cur hi + tick_size cur)"
proof (cases rule: regime_cases [where cur = cur and hi = hi])
  case (inner m n)
  have "regime_last cur hi < hi" using assms tick_size_pos [of cur] by linarith
  then have "regime_last cur hi = m" using inner(1) by (cases "hi \<le> m") simp_all
  with inner(2,4) show ?thesis by simp
next
  case outer
  with assms tick_size_pos [of cur] show ?thesis by simp
qed

lemma regime_grid:
  assumes "is_tick_aligned cur" "cur \<le> q" "q \<le> regime_last cur hi"
  shows "grid cur q = (\<lambda>k. cur + int k * tick_size cur) ` {..nat ((q - cur) div tick_size cur)}"
    (is "_ = ?f ` ?K")
proof (intro equalityI subsetI)
  fix p assume "p \<in> grid cur q"
  then have p: "is_tick_aligned p" "cur \<le> p" "p \<le> q" by (simp_all add: grid_def)
  with assms have "tick_size p = tick_size cur" by (intro regime_tick [where hi = hi]) auto
  with aligned_dvd [OF p(1)] aligned_dvd [OF assms(1)]
  have "tick_size cur dvd p - cur" by simp
  then obtain k where k: "p - cur = tick_size cur * k" by blast
  with p(2) have "0 \<le> k" using tick_size_pos [of cur]
    by (metis diff_ge_0_iff_ge zero_le_mult_iff not_less)
  moreover have "k \<le> (q - cur) div tick_size cur"
    using zdiv_mono1 [of "p - cur" "q - cur" "tick_size cur"] p(3) k by simp
  ultimately show "p \<in> ?f ` ?K" using k
    by (intro image_eqI [of _ _ "nat k"]) (auto simp: algebra_simps nat_mono)
next
  fix p assume "p \<in> ?f ` ?K"
  then obtain k where k: "p = cur + int k * tick_size cur" "k \<le> nat ((q - cur) div tick_size cur)" by auto
  have "0 \<le> (q - cur) div tick_size cur" using assms(2) by (simp add: pos_imp_zdiv_nonneg_iff)
  with k(2) have "int k \<le> (q - cur) div tick_size cur" by linarith
  then have "int k * tick_size cur \<le> (q - cur) div tick_size cur * tick_size cur"
    by (intro mult_right_mono) (simp_all add: less_imp_le)
  also have "\<dots> \<le> q - cur" using mod_tick_bounds(1) [of "q - cur" cur] by (simp add: minus_mod_eq_div_mult [symmetric])
  finally have le: "p \<le> q" using k by simp
  have ge: "cur \<le> p" using k by (simp add: less_imp_le)
  with le assms have "tick_size p = tick_size cur" by (intro regime_tick [where hi = hi]) auto
  with k aligned_dvd [OF assms(1)] have "tick_size p dvd p" by simp
  with ge le is_tick_aligned_pos [OF assms(1)] show "p \<in> grid cur q"
    by (simp add: grid_def is_tick_aligned_iff mod_eq_0_iff_dvd)
qed

lemma regime_card:
  assumes "is_tick_aligned cur" "cur \<le> q" "q \<le> regime_last cur hi"
  shows "card (grid cur q) = nat ((q - cur) div tick_size cur) + 1"
proof -
  have "inj_on (\<lambda>k. cur + int k * tick_size cur) A" for A
    using tick_size_pos [of cur] by (auto simp: inj_on_def)
  then show ?thesis by (simp add: regime_grid [OF assms] card_image)
qed

lemma grid_insert: "is_tick_aligned p \<Longrightarrow> lo \<le> p \<Longrightarrow> grid lo p = insert p (grid lo (p - 1))"
  by (auto simp: grid_def)

lemma rank_Suc: "is_tick_aligned p \<Longrightarrow> lo \<le> p \<Longrightarrow> card (grid lo p) = Suc (price_rank lo p)"
  by (simp add: grid_insert price_rank_def) (simp add: grid_def)

lemma rank_less_card: "p \<in> grid lo hi \<Longrightarrow> price_rank lo p < card (grid lo hi)"
  unfolding price_rank_def by (rule psubset_card_mono) (auto simp: grid_def)

lemma regime_rank:
  assumes "is_tick_aligned cur" "is_tick_aligned p" "cur \<le> p" "p \<le> regime_last cur hi"
  shows "price_rank cur p = nat ((p - cur) div tick_size cur)"
  using regime_card [OF assms(1,3,4)] rank_Suc [OF assms(2,3)] by simp

lemma regime_split:
  assumes "is_tick_aligned cur" "cur \<le> hi"
  defines "lst \<equiv> regime_last cur hi"
  shows "card (grid cur hi) = card (grid cur lst) + card (grid (lst + tick_size cur) hi)"
    and "lst + tick_size cur \<le> p \<Longrightarrow> p \<le> hi
      \<Longrightarrow> price_rank cur p = card (grid cur lst) + price_rank (lst + tick_size cur) p"
proof -
  note lst = regime_last_le [OF assms(2,1), folded lst_def]
  have split: "grid cur q = grid cur lst \<union> grid (lst + tick_size cur) q" if "lst \<le> q" "q \<le> hi" for q
    using that lst regime_gap [OF assms(2), folded lst_def] tick_size_pos [of cur]
    by (intro grid_split) (auto simp: less_imp_le intro: order_trans)
  have card: "card (grid cur q) = card (grid cur lst) + card (grid (lst + tick_size cur) q)"
    if "lst \<le> q" "q \<le> hi" for q
    unfolding split [OF that] by (intro card_Un_disjoint) (auto intro!: grid_disjoint)
  from card [of hi] lst show "card (grid cur hi) = card (grid cur lst) + card (grid (lst + tick_size cur) hi)"
    by simp
  assume "lst + tick_size cur \<le> p" "p \<le> hi"
  then show "price_rank cur p = card (grid cur lst) + price_rank (lst + tick_size cur) p"
    unfolding price_rank_def using tick_size_pos [of cur] by (intro card) linarith+
qed

section \<open>Correctness of the walk\<close>

definition segments_for :: "price \<Rightarrow> price \<Rightarrow> nat \<Rightarrow> segment list \<Rightarrow> bool" where
  "segments_for cur hi off segs \<longleftrightarrow>
    (\<forall>p \<le> hi. index_in_segments segs p
        = (if is_tick_aligned p \<and> cur \<le> p then int (off + price_rank cur p) else -1))
    \<and> (\<forall>i. off \<le> unat i \<and> unat i < off + card (grid cur hi)
        \<longrightarrow> price_in_segments segs i \<in> grid cur hi
          \<and> off + price_rank cur (price_in_segments segs i) = unat i)"

lemma segments_for_Nil: "hi < cur \<Longrightarrow> segments_for cur hi off []"
  by (simp add: segments_for_def grid_empty)

lemma segments_for_Cons:
  assumes cur: "is_tick_aligned cur" "cur \<le> hi"
  defines "lst \<equiv> regime_last cur hi" and "t \<equiv> tick_size cur"
  assumes seg: "seg_start_price seg = cur" "seg_end_price seg = lst" "seg_tick seg = t"
      "unat (seg_index_offset seg) = off" "unat (seg_count seg) = card (grid cur lst)"
    and bound: "off + card (grid cur hi) < 2 ^ 32"
    and rest: "segments_for (lst + t) hi (off + card (grid cur lst)) segs"
  shows "segments_for cur hi off (seg # segs)"
proof -
  note lst = regime_last_le [OF cur(2,1), folded lst_def]
  note split = regime_split [OF cur, folded lst_def t_def]
  have t: "0 < t" by (simp add: t_def)
  have uo: "uint (seg_index_offset seg) = int off" by (simp add: seg(4) [symmetric] of_nat_unat)
  have index: "index_in_segments (seg # segs) p
        = (if is_tick_aligned p \<and> cur \<le> p then int (off + price_rank cur p) else -1)" if p: "p \<le> hi" for p
  proof (cases "cur \<le> p \<and> p \<le> lst")
    case True
    then have tp: "tick_size p = t" unfolding t_def lst_def by (intro regime_tick) auto
    have "is_tick_aligned p \<longleftrightarrow> t dvd p"
      using True is_tick_aligned_pos [OF cur(1)] by (simp add: is_tick_aligned_iff tp mod_eq_0_iff_dvd)
    also have "\<dots> \<longleftrightarrow> t dvd p - cur" using aligned_dvd [OF cur(1)] by (simp add: t_def dvd_diff_left_iff)
    finally have al: "is_tick_aligned p \<longleftrightarrow> (p - cur) mod t = 0" by (simp add: mod_eq_0_iff_dvd)
    show ?thesis
      using True t al regime_rank [OF cur(1), of p hi, folded lst_def t_def]
      by (simp add: seg uo Let_def pos_imp_zdiv_nonneg_iff)
  next
    case False
    then have eq: "index_in_segments (seg # segs) p = index_in_segments segs p"
      by (auto simp: seg)
    have R: "index_in_segments segs p = (if is_tick_aligned p \<and> lst + t \<le> p
        then int (off + card (grid cur lst) + price_rank (lst + t) p) else -1)"
      using rest p unfolding segments_for_def by blast
    show ?thesis
    proof (cases "is_tick_aligned p \<and> cur \<le> p")
      case True
      with False have "lst < p" by simp
      with True p have "lst + t \<le> p" using regime_gap [OF cur(2), of p, folded lst_def t_def] by blast
      with True p split(2) [of p] show ?thesis unfolding eq R by simp
    next
      case nal: False
      then have "\<not> (is_tick_aligned p \<and> lst + t \<le> p)" using lst t by auto
      with nal show ?thesis unfolding eq R by simp
    qed
  qed
  have count: "unat (seg_index_offset seg + seg_count seg) = off + card (grid cur lst)"
    using seg(4,5) bound split(1) by (simp add: unat_word_ariths)
  have price: "price_in_segments (seg # segs) i \<in> grid cur hi
        \<and> off + price_rank cur (price_in_segments (seg # segs) i) = unat i"
    if i: "off \<le> unat i" "unat i < off + card (grid cur hi)" for i
  proof (cases "unat i < off + card (grid cur lst)")
    case True
    let ?k = "unat i - off" and ?p = "price_in_segments (seg # segs) i"
    have "uint (i - seg_index_offset seg) = int ?k"
    proof -
      have "seg_index_offset seg \<le> i" using i(1) seg(4) by (simp add: word_le_nat_alt)
      then have "uint (i - seg_index_offset seg) = uint i - uint (seg_index_offset seg)"
        by (simp add: uint_sub_lem [THEN iffD1] word_le_def)
      with i(1) show ?thesis by (simp add: uo of_nat_unat)
    qed
    with True i have p: "?p = cur + int ?k * t"
      by (simp add: seg word_le_nat_alt word_less_nat_alt count)
    have "?k \<le> nat ((lst - cur) div t)"
      using True regime_card [OF cur(1), of lst hi, folded lst_def t_def] lst by simp
    then have "?p \<in> grid cur lst"
      unfolding p t_def using regime_grid [OF cur(1), of lst hi] lst
      by (auto simp: lst_def t_def)
    then have g: "is_tick_aligned ?p" "cur \<le> ?p" "?p \<le> lst" by (simp_all add: grid_def)
    then have "price_rank cur ?p = ?k"
      using regime_rank [OF cur(1), of ?p hi, folded lst_def t_def] p t by simp
    with g lst i show ?thesis by (simp add: grid_def)
  next
    case False
    then have eq: "price_in_segments (seg # segs) i = price_in_segments segs i"
      by (simp add: word_less_nat_alt count)
    have "price_in_segments segs i \<in> grid (lst + t) hi
        \<and> off + card (grid cur lst) + price_rank (lst + t) (price_in_segments segs i) = unat i"
      using rest False i split(1) by (simp add: segments_for_def)
    with split(2) [of "price_in_segments segs i"] lst t show ?thesis
      unfolding eq by (auto simp: grid_def)
  qed
  from index price show ?thesis by (simp add: segments_for_def del: index_in_segments.simps price_in_segments.simps)
qed

lemma build_segments_correct:
  assumes "cur \<le> hi \<longrightarrow> is_tick_aligned cur"
    and "unat off + card (grid cur hi) < 2 ^ 32"
  shows "segments_for cur hi (unat off) (fst (build_segments cur hi off))
    \<and> unat (snd (build_segments cur hi off)) = unat off + card (grid cur hi)"
  using assms
proof (induction cur hi off rule: build_segments.induct)
  case (1 cur hi off)
  show ?case
  proof (cases "cur \<le> hi")
    case False
    then show ?thesis
      by (simp add: build_segments.simps [of cur hi off] segments_for_Nil grid_empty)
  next
    case True
    let ?t = "tick_size cur" and ?l = "regime_last cur hi"
    let ?count = "word_of_int ((?l - cur) sdiv ?t) + 1 :: 32 word"
    from True "1.prems" have al: "is_tick_aligned cur" by blast
    note lst = regime_last_le [OF True al] and split = regime_split [OF al True]
    have n: "card (grid cur ?l) = nat ((?l - cur) div ?t) + 1"
      by (rule regime_card [where hi = hi]) (use al lst in auto)
    with split(1) "1.prems"(2) have small: "nat ((?l - cur) div ?t) + 1 < 2 ^ 32" by linarith
    have q: "0 \<le> (?l - cur) div ?t" using lst by (simp add: pos_imp_zdiv_nonneg_iff)
    have "?count = word_of_nat (nat ((?l - cur) div ?t) + 1)"
      using lst q by (simp add: add.commute)
    then have c: "unat ?count = card (grid cur ?l)"
      unfolding n by (simp only:) (rule unat_word_of_nat, use small in simp)
    then have off': "unat (off + ?count) = unat off + card (grid cur ?l)"
      using "1.prems"(2) split(1) by (simp add: unat_word_ariths)
    have "?l + ?t \<le> hi \<longrightarrow> is_tick_aligned (?l + ?t)"
      using regime_last_next by blast
    then have IH: "segments_for (?l + ?t) hi (unat (off + ?count)) (fst (build_segments (?l + ?t) hi (off + ?count)))
        \<and> unat (snd (build_segments (?l + ?t) hi (off + ?count))) = unat (off + ?count) + card (grid (?l + ?t) hi)"
      using "1.prems"(2) split(1) off' by (intro "1.IH" [OF True refl refl refl refl]) simp_all
    have "segments_for cur hi (unat off) (\<lparr>seg_start_price = cur, seg_end_price = ?l, seg_tick = ?t,
        seg_index_offset = off, seg_count = ?count\<rparr> # fst (build_segments (?l + ?t) hi (off + ?count)))"
      using IH "1.prems"(2) by (intro segments_for_Cons [OF al True]) (simp_all only: off' c segment.simps)
    with IH split(1) off' show ?thesis
      by (simp add: build_segments.simps [of cur hi off] True Let_def split_beta)
  qed
qed

section \<open>The ladder as a price grid\<close>

definition ladder_ok :: "price_ladder \<Rightarrow> bool" where
  "ladder_ok l \<longleftrightarrow> l = ladder_build (pl_band_lo l) (pl_band_hi l)
    \<and> is_tick_aligned (pl_band_lo l) \<and> card (grid (pl_band_lo l) (pl_band_hi l)) < 2 ^ 32"

definition in_band :: "price_ladder \<Rightarrow> price \<Rightarrow> bool" where
  "in_band l p \<longleftrightarrow> is_tick_aligned p \<and> pl_band_lo l \<le> p \<and> p \<le> pl_band_hi l"

abbreviation ladder_size :: "price_ladder \<Rightarrow> nat" where
  "ladder_size l \<equiv> unat (pl_total_count l)"

lemma ladder_build_simps [simp]:
  "pl_band_lo (ladder_build lo hi) = lo" "pl_band_hi (ladder_build lo hi) = hi"
  by (simp_all add: ladder_build_def split_beta)

lemma in_band_grid: "in_band l p \<longleftrightarrow> p \<in> grid (pl_band_lo l) (pl_band_hi l)"
  by (simp add: in_band_def grid_def)

lemma ladder_ok_segments:
  assumes "ladder_ok l"
  shows "segments_for (pl_band_lo l) (pl_band_hi l) 0 (pl_segments l)"
    and "ladder_size l = card (grid (pl_band_lo l) (pl_band_hi l))"
proof -
  let ?lo = "pl_band_lo l" and ?hi = "pl_band_hi l"
  from assms have l: "l = ladder_build ?lo ?hi" and "is_tick_aligned ?lo" "card (grid ?lo ?hi) < 2 ^ 32"
    by (simp_all only: ladder_ok_def)
  then have *: "segments_for ?lo ?hi (unat (0 :: 32 word)) (fst (build_segments ?lo ?hi 0))
      \<and> unat (snd (build_segments ?lo ?hi 0)) = unat (0 :: 32 word) + card (grid ?lo ?hi)"
    by (intro build_segments_correct) simp_all
  have "pl_segments l = fst (build_segments ?lo ?hi 0)" "pl_total_count l = snd (build_segments ?lo ?hi 0)"
    by (subst l, simp add: ladder_build_def split_beta)+
  with * show "segments_for ?lo ?hi 0 (pl_segments l)" "ladder_size l = card (grid ?lo ?hi)" by simp_all
qed

lemma price_to_index_rank:
  assumes "ladder_ok l"
  shows "price_to_index l p = (if in_band l p then int (price_rank (pl_band_lo l) p) else -1)"
  using ladder_ok_segments(1) [OF assms]
  by (auto simp: price_to_index_def segments_for_def in_band_def not_less)

lemma index_to_price_rank:
  assumes "ladder_ok l" and "unat i < ladder_size l"
  shows "in_band l (index_to_price l i) \<and> price_rank (pl_band_lo l) (index_to_price l i) = unat i"
  using ladder_ok_segments [OF assms(1)] assms(2)
  by (simp add: segments_for_def in_band_grid index_to_price_def)

lemma price_rank_less: "in_band l p \<Longrightarrow> p < q \<Longrightarrow> in_band l q \<Longrightarrow> price_rank (pl_band_lo l) p < price_rank (pl_band_lo l) q"
  unfolding price_rank_def by (rule psubset_card_mono) (auto simp: grid_def in_band_def)

interpretation ladder: price_grid ladder_ok ladder_size in_band price_to_index index_to_price
proof unfold_locales
  fix l assume ok: "ladder_ok l"
  then show "ladder_size l < 2 ^ 32"
    using unsigned_less [of "pl_total_count l"] by simp
  fix p
  show "in_band l p \<Longrightarrow> 0 \<le> price_to_index l p \<and> price_to_index l p < int (ladder_size l)"
    using rank_less_card [of p "pl_band_lo l" "pl_band_hi l"]
    by (simp add: price_to_index_rank [OF ok] ladder_ok_segments(2) [OF ok] in_band_grid)
  show "\<not> in_band l p \<Longrightarrow> price_to_index l p = - 1"
    by (simp add: price_to_index_rank [OF ok])
  show "in_band l p \<Longrightarrow> in_band l q \<Longrightarrow> p < q \<Longrightarrow> price_to_index l p < price_to_index l q" for q
    by (simp add: price_to_index_rank [OF ok] price_rank_less)
  fix i :: "32 word" assume "unat i < ladder_size l"
  from index_to_price_rank [OF ok this]
  show "in_band l (index_to_price l i)" "price_to_index l (index_to_price l i) = int (unat i)"
    by (simp_all add: price_to_index_rank [OF ok])
qed

end
