(* ===== verification/Level_Bitset.thy ===== *)
theory Level_Bitset
  imports Interfaces
begin

text \<open>
  \<open>LevelBitset\<close> (\<open>include/engine/level_bitset.hpp\<close>): an occupancy bitmap in 64-bit words,
  with the two word-skipping searches that relocate the best price. The searches are the
  code's loops over words; their lemmas say that they find the nearest set bit, which
  discharges the \<open>level_set\<close> contract.
\<close>

section \<open>The bitmap\<close>

type_synonym level_bitset = "64 word vec"

definition bitset_resize :: "nat \<Rightarrow> level_bitset" where
  "bitset_resize n_bits = vec_make ((n_bits + 63) div 64) 0"

definition bitset_set :: "level_bitset \<Rightarrow> 32 word \<Rightarrow> level_bitset" where
  "bitset_set words i =
    (let k = unat (drop_bit 6 i)
     in vec_set words k (vat words k OR push_bit (unat (i AND 63)) 1))"

definition bitset_clear :: "level_bitset \<Rightarrow> 32 word \<Rightarrow> level_bitset" where
  "bitset_clear words i =
    (let k = unat (drop_bit 6 i)
     in vec_set words k (vat words k AND NOT (push_bit (unat (i AND 63)) 1)))"

definition bitset_test :: "level_bitset \<Rightarrow> 32 word \<Rightarrow> bool" where
  "bitset_test words i \<longleftrightarrow> drop_bit (unat (i AND 63)) (vat words (unat (drop_bit 6 i))) AND 1 \<noteq> 0"

text \<open>\<open>std::countl_zero\<close> and \<open>std::countr_zero\<close> on 64-bit words; both are 64 at zero.\<close>

definition countl_zero :: "64 word \<Rightarrow> nat" where
  "countl_zero w = length (takeWhile (\<lambda>k. \<not> bit w (63 - k)) [0..<64])"

definition countr_zero :: "64 word \<Rightarrow> nat" where
  "countr_zero w = length (takeWhile (\<lambda>k. \<not> bit w k) [0..<64])"

function highest_scan :: "level_bitset \<Rightarrow> int \<Rightarrow> 64 word \<Rightarrow> int" where
  "highest_scan words word_idx w =
    (if w \<noteq> 0 then word_idx * 64 + (63 - int (countl_zero w))
     else if word_idx - 1 < 0 then -1
     else highest_scan words (word_idx - 1) (vat words (nat (word_idx - 1))))"
  by pat_completeness auto
termination
  by (relation "measure (\<lambda>(words, word_idx, w). nat word_idx)") auto

declare highest_scan.simps [simp del]

definition find_highest_le :: "level_bitset \<Rightarrow> int \<Rightarrow> int" where
  "find_highest_le words start =
    (if start < 0 then -1
     else let word_idx = start div 64;
              bit_idx = nat (start mod 64);
              msk = (if bit_idx = 63 then NOT 0 else push_bit (bit_idx + 1) 1 - 1);
              w = vat words (nat word_idx) AND msk
          in highest_scan words word_idx w)"

function lowest_scan :: "level_bitset \<Rightarrow> int \<Rightarrow> 64 word \<Rightarrow> int" where
  "lowest_scan words word_idx w =
    (if w \<noteq> 0 then word_idx * 64 + int (countr_zero w)
     else if int (vlen words) \<le> word_idx + 1 then -1
     else lowest_scan words (word_idx + 1) (vat words (nat (word_idx + 1))))"
  by pat_completeness auto
termination
  by (relation "measure (\<lambda>(words, word_idx, w). nat (int (vlen words) - word_idx))") auto

declare lowest_scan.simps [simp del]

definition find_lowest_ge :: "level_bitset \<Rightarrow> int \<Rightarrow> int" where
  "find_lowest_ge words start0 =
    (let n_words = int (vlen words);
         start = (if start0 < 0 then 0 else start0);
         word_idx = start div 64
     in if n_words \<le> word_idx then -1
        else let bit_idx = nat (start mod 64);
                 msk = (if bit_idx = 0 then NOT 0 else push_bit bit_idx (NOT 0));
                 w = vat words (nat word_idx) AND msk
             in lowest_scan words word_idx w)"

section \<open>The set of set bits\<close>

definition bits_of :: "level_bitset \<Rightarrow> nat set" where
  "bits_of words = {i. i < 64 * vlen words \<and> bit (vat words (i div 64)) (i mod 64)}"

abbreviation bit_capacity :: "level_bitset \<Rightarrow> nat" where
  "bit_capacity words \<equiv> 64 * vlen words"

lemma and_63: "unat (i AND 63) = unat i mod 64" for i :: "32 word"
  using unat_and_mask [of i 6] by (simp add: mask_eq_exp_minus_1)

lemma drop_6: "unat (drop_bit 6 i) = unat i div 64" for i :: "32 word"
  using unat_drop_bit [of 6 i] by simp

lemma bit_singleton: "bit (push_bit k 1 :: 64 word) j \<longleftrightarrow> j = k \<and> k < 64"
  by (auto simp: bit_exp_iff)

lemma same_place: "i div 64 = j div 64 \<Longrightarrow> i mod 64 = j mod 64 \<Longrightarrow> i = j" for i j :: nat
  by (metis mult_div_mod_eq)

lemma bits_of_set:
  "unat i < bit_capacity words \<Longrightarrow> bits_of (bitset_set words i) = insert (unat i) (bits_of words)"
  by (auto simp: bits_of_def bitset_set_def and_63 drop_6 bit_or_iff bit_exp_iff Let_def
      dest: same_place split: if_splits)

lemma bits_of_clear: "bits_of (bitset_clear words i) = bits_of words - {unat i}"
  by (auto simp: bits_of_def bitset_clear_def and_63 drop_6 bit_and_iff bit_not_iff bit_exp_iff Let_def
      dest: same_place split: if_splits)

lemma bitset_test_iff: "unat i < bit_capacity words \<Longrightarrow> bitset_test words i \<longleftrightarrow> unat i \<in> bits_of words"
  by (simp add: bitset_test_def bits_of_def and_63 drop_6 and_one_eq odd_iff_mod_2_eq_one [symmetric]
      bit_iff_odd_drop_bit [symmetric])

section \<open>The searches\<close>

lemma less_by_words: "i < 64 * n \<longleftrightarrow> i div 64 < n" for i n :: nat
  by (simp add: div_less_iff_less_mult mult.commute)

lemma le_by_words: "i \<le> n \<longleftrightarrow> i div 64 < n div 64 \<or> i div 64 = n div 64 \<and> i mod 64 \<le> n mod 64"
  for i n :: nat
proof -
  have "64 * (i div 64) + i mod 64 = i" "64 * (n div 64) + n mod 64 = n" "i mod 64 < 64" "n mod 64 < 64"
    by simp_all
  then show ?thesis
    by (cases "i div 64" "n div 64" rule: linorder_cases) linarith+
qed

lemma int_div_64: "int n div 64 = int (n div 64)" "nat (int n mod 64) = n mod 64"
  by (simp_all add: zdiv_int nat_mod_distrib)

lemma word_bit_exists: "w \<noteq> 0 \<Longrightarrow> \<exists>k < 64. bit w k" for w :: "64 word"
  using bit_imp_le_length by (fastforce simp: bit_eq_iff)

lemma takeWhile_first:
  assumes "\<exists>k < n. P k"
  defines "m \<equiv> length (takeWhile (\<lambda>k. \<not> P k) [0..<n])"
  shows "m < n" and "P m" and "k < m \<Longrightarrow> \<not> P k"
proof -
  have m: "m \<le> n" using length_takeWhile_le [of "\<lambda>k. \<not> P k" "[0..<n]"] by (simp add: m_def)
  have le: "\<not> P k" if "k < m" for k
    using nth_mem [of k "takeWhile (\<lambda>k. \<not> P k) [0..<n]"] that m
    by (auto simp: m_def takeWhile_nth dest: set_takeWhileD)
  from le show "k < m \<Longrightarrow> \<not> P k" .
  from assms(1) le show "m < n" by (metis m le_neq_implies_less)
  then show "P m"
    using nth_length_takeWhile [of "\<lambda>k. \<not> P k" "[0..<n]"] by (simp add: m_def)
qed

lemma countr_zero_lowest:
  assumes "w \<noteq> 0"
  shows "countr_zero w < 64" "bit w (countr_zero w)" "bit w k \<Longrightarrow> countr_zero w \<le> k"
  using takeWhile_first [where P = "bit w" and n = 64, folded countr_zero_def, OF word_bit_exists [OF assms]]
  by (auto simp: not_less [symmetric])

lemma countl_zero_highest:
  assumes "w \<noteq> 0"
  shows "countl_zero w < 64" "bit w (63 - countl_zero w)" "bit w k \<Longrightarrow> k \<le> 63 - countl_zero w"
proof -
  from word_bit_exists [OF assms] obtain k where "k < 64" "bit w k" by blast
  then have "\<exists>k < 64. bit w (63 - k)" by (intro exI [of _ "63 - k"]) simp
  note * = takeWhile_first [OF this, folded countl_zero_def]
  from *(1,2) show "countl_zero w < 64" "bit w (63 - countl_zero w)" .
  show "k \<le> 63 - countl_zero w" if "bit w k" for k
  proof (rule ccontr)
    assume "\<not> k \<le> 63 - countl_zero w"
    moreover have "k < 64" using that bit_imp_le_length by fastforce
    ultimately have "\<not> bit w (63 - (63 - k))" by (intro *(3)) linarith
    with that \<open>k < 64\<close> show False by simp
  qed
qed

text \<open>The bits of word \<open>q\<close> of the map that also lie in \<open>w\<close>.\<close>

definition word_bits :: "nat \<Rightarrow> 64 word \<Rightarrow> nat set" where
  "word_bits q w = {i. i div 64 = q \<and> bit w (i mod 64)}"

lemma word_bits_empty: "word_bits q 0 = {}"
  by (simp add: word_bits_def)

lemma word_bits_place: "k < 64 \<Longrightarrow> q * 64 + k \<in> word_bits q w \<longleftrightarrow> bit w k"
  by (simp add: word_bits_def)

lemma word_bits_elem: "i \<in> word_bits q w \<Longrightarrow> \<exists>k < 64. i = q * 64 + k \<and> bit w k"
  unfolding word_bits_def by (intro exI [of _ "i mod 64"]) (auto simp: div_mult_mod_eq)

lemma highest_scan_hit:
  assumes "w \<noteq> 0"
  shows "top_index (word_bits q w \<union> {i \<in> B. i div 64 < q}) (highest_scan words (int q) w)"
proof -
  note c = countl_zero_highest [OF assms]
  have "highest_scan words (int q) w = int (q * 64 + (63 - countl_zero w))"
    using c(1) assms by (simp add: highest_scan.simps)
  also have "top_index (word_bits q w \<union> {i \<in> B. i div 64 < q}) \<dots>"
  proof (rule top_indexI)
    show "q * 64 + (63 - countl_zero w) \<in> word_bits q w \<union> {i \<in> B. i div 64 < q}"
      using c(2) by (intro UnI1 word_bits_place [THEN iffD2]) simp_all
    fix j assume "j \<in> word_bits q w \<union> {i \<in> B. i div 64 < q}"
    then consider k where "j = q * 64 + k" "bit w k" | "j div 64 < q"
      by (auto dest: word_bits_elem)
    then show "j \<le> q * 64 + (63 - countl_zero w)"
    proof cases
      case 2
      then have "j < q * 64" by (simp add: div_less_iff_less_mult)
      then show ?thesis by simp
    qed (use c(3) in simp)
  qed
  finally show ?thesis .
qed

lemma highest_scan_skip: "highest_scan words (int (Suc q)) 0 = highest_scan words (int q) (vat words q)"
  by (subst highest_scan.simps) simp

lemma highest_scan_correct:
  assumes "q < vlen words"
  shows "top_index (word_bits q w \<union> {i \<in> bits_of words. i div 64 < q}) (highest_scan words (int q) w)"
  using assms
proof (induction q arbitrary: w)
  case 0
  show ?case
  proof (cases "w = 0")
    case True
    then show ?thesis by (simp add: top_index_def highest_scan.simps word_bits_empty)
  qed (rule highest_scan_hit)
next
  case (Suc q)
  show ?case
  proof (cases "w = 0")
    case True
    have "{i \<in> bits_of words. i div 64 < Suc q}
        = word_bits q (vat words q) \<union> {i \<in> bits_of words. i div 64 < q}"
      using Suc.prems by (auto simp: bits_of_def word_bits_def less_Suc_eq)
    with Suc.IH [of "vat words q"] Suc.prems True show ?thesis
      by (simp add: highest_scan_skip word_bits_empty del: of_nat_Suc)
  qed (rule highest_scan_hit)
qed

lemma lowest_scan_hit:
  assumes "w \<noteq> 0"
  shows "bottom_index (word_bits q w \<union> {i \<in> B. q < i div 64}) (lowest_scan words (int q) w)"
proof -
  note c = countr_zero_lowest [OF assms]
  have "lowest_scan words (int q) w = int (q * 64 + countr_zero w)"
    using assms by (simp add: lowest_scan.simps)
  also have "bottom_index (word_bits q w \<union> {i \<in> B. q < i div 64}) \<dots>"
  proof (rule bottom_indexI)
    show "q * 64 + countr_zero w \<in> word_bits q w \<union> {i \<in> B. q < i div 64}"
      using c by (intro UnI1 word_bits_place [THEN iffD2]) simp_all
    fix j assume "j \<in> word_bits q w \<union> {i \<in> B. q < i div 64}"
    then consider k where "j = q * 64 + k" "bit w k" | "q < j div 64"
      by (auto dest: word_bits_elem)
    then show "q * 64 + countr_zero w \<le> j"
    proof cases
      case 2
      then have "Suc q * 64 \<le> j" by (simp add: less_eq_div_iff_mult_less_eq Suc_le_eq [symmetric])
      with c(1) show ?thesis by simp
    qed (use c(3) in simp)
  qed
  finally show ?thesis .
qed

lemma lowest_scan_skip:
  "Suc q < vlen words \<Longrightarrow> lowest_scan words (int q) 0 = lowest_scan words (int (Suc q)) (vat words (Suc q))"
  by (subst lowest_scan.simps) (simp add: nat_add_distrib add.commute)

lemma lowest_scan_correct:
  assumes "q < vlen words"
  shows "bottom_index (word_bits q w \<union> {i \<in> bits_of words. q < i div 64}) (lowest_scan words (int q) w)"
  using assms
proof (induction "vlen words - q" arbitrary: q w)
  case 0
  then show ?case by simp
next
  case (Suc d)
  show ?case
  proof (cases "w = 0")
    case True
    show ?thesis
    proof (cases "Suc q < vlen words")
      case lt: True
      have "{i \<in> bits_of words. q < i div 64}
          = word_bits (Suc q) (vat words (Suc q)) \<union> {i \<in> bits_of words. Suc q < i div 64}"
        using lt by (auto simp: bits_of_def word_bits_def less_eq_Suc_le [of q] le_less)
      with Suc.hyps(1) [of "Suc q" "vat words (Suc q)"] Suc.hyps(2) lt True show ?thesis
        by (simp add: lowest_scan_skip word_bits_empty)
    next
      case False
      then have "{i \<in> bits_of words. q < i div 64} = {}" by (auto simp: bits_of_def)
      with False True show ?thesis
        by (simp add: lowest_scan.simps word_bits_empty bottom_index_def)
    qed
  qed (rule lowest_scan_hit)
qed

lemma find_highest_le_correct:
  assumes "s < int (bit_capacity words)"
  shows "top_index {i \<in> bits_of words. int i \<le> s} (find_highest_le words s)"
proof (cases "s < 0")
  case True
  then show ?thesis by (auto simp: find_highest_le_def top_index_def)
next
  case False
  define n where "n = nat s"
  with False have s: "s = int n" by simp
  with assms have n: "n < 64 * vlen words" by simp
  define M where "M = (if n mod 64 = 63 then NOT 0 else push_bit (n mod 64 + 1) 1 - 1 :: 64 word)"
  have "push_bit (n mod 64 + 1) 1 - 1 = (mask (n mod 64 + 1) :: 64 word)"
    by (simp only: push_bit_of_1 mask_eq_exp_minus_1)
  then have M: "bit M k \<longleftrightarrow> k \<le> n mod 64" if "k < 64" for k
    using that unfolding M_def by (simp only:) (auto simp: bit_mask_iff bit_not_iff)
  have "{i \<in> bits_of words. int i \<le> s} = word_bits (n div 64) (vat words (n div 64) AND M)
      \<union> {i \<in> bits_of words. i div 64 < n div 64}" (is "?L = ?R")
  proof (intro set_eqI)
    fix i
    note le_by_words [of i n]
    moreover have "i < 64 * vlen words" if "i div 64 = n div 64"
      using n that less_by_words [of _ "vlen words"] by metis
    moreover have "bit M (i mod 64) \<longleftrightarrow> i mod 64 \<le> n mod 64" by (rule M) simp
    ultimately show "i \<in> ?L \<longleftrightarrow> i \<in> ?R"
      unfolding s bits_of_def word_bits_def bit_and_iff mem_Collect_eq Un_iff of_nat_le_iff
      by (cases "i div 64 = n div 64") auto
  qed
  moreover have "find_highest_le words s = highest_scan words (int (n div 64)) (vat words (n div 64) AND M)"
    by (simp add: find_highest_le_def s Let_def M_def int_div_64)
  moreover have "n div 64 < vlen words" using n by (simp add: less_mult_imp_div_less mult.commute)
  ultimately show ?thesis by (simp only: highest_scan_correct)
qed

lemma find_lowest_ge_correct: "bottom_index {i \<in> bits_of words. s \<le> int i} (find_lowest_ge words s)"
proof -
  define n where "n = nat (if s < 0 then 0 else s)"
  have s: "(if s < 0 then 0 else s) = int n" by (simp add: n_def)
  have le: "s \<le> int i \<longleftrightarrow> n \<le> i" for i by (auto simp: n_def)
  define M where "M = (if n mod 64 = 0 then NOT 0 else push_bit (n mod 64) (NOT 0) :: 64 word)"
  have M: "bit M k \<longleftrightarrow> n mod 64 \<le> k" if "k < 64" for k
    using that by (auto simp: M_def bit_push_bit_iff bit_not_iff bit_mask_iff)
  have eq: "find_lowest_ge words s = (if vlen words \<le> n div 64 then -1
      else lowest_scan words (int (n div 64)) (vat words (n div 64) AND M))"
    unfolding find_lowest_ge_def s Let_def M_def
    by (simp add: int_div_64)
  show ?thesis
  proof (cases "vlen words \<le> n div 64")
    case True
    then have "{i \<in> bits_of words. s \<le> int i} = {}" unfolding le bits_of_def by auto
    with True show ?thesis by (simp add: eq bottom_index_def)
  next
    case False
    have "{i \<in> bits_of words. s \<le> int i} = word_bits (n div 64) (vat words (n div 64) AND M)
        \<union> {i \<in> bits_of words. n div 64 < i div 64}" (is "?L = ?R")
    proof (intro set_eqI)
      fix i
      note le_by_words [of n i]
      moreover have "i < 64 * vlen words" if "i div 64 = n div 64"
        using False that by (simp add: less_by_words)
      moreover have "bit M (i mod 64) \<longleftrightarrow> n mod 64 \<le> i mod 64" by (rule M) simp
      ultimately show "i \<in> ?L \<longleftrightarrow> i \<in> ?R"
        unfolding le bits_of_def word_bits_def bit_and_iff mem_Collect_eq Un_iff
        by (cases "i div 64 = n div 64") auto
    qed
    with False show ?thesis by (simp add: eq lowest_scan_correct)
  qed
qed

interpretation bitset: level_set "\<lambda>_. True" bit_capacity bits_of bitset_resize bitset_set bitset_clear
    find_highest_le find_lowest_ge
proof unfold_locales
  show "n \<le> bit_capacity (bitset_resize n)" for n
    by (simp add: bitset_resize_def)
  show "bits_of (bitset_resize n) = {}" for n
    by (simp add: bitset_resize_def bits_of_def)
  show "bit_capacity (bitset_set b i) = bit_capacity b" "bit_capacity (bitset_clear b i) = bit_capacity b" for b i
    by (simp_all add: bitset_set_def bitset_clear_def Let_def)
qed (simp_all add: bits_of_set bits_of_clear find_highest_le_correct find_lowest_ge_correct)

section \<open>Properties\<close>

text \<open>The upward word-skipping search returns the lowest occupied level at or above its start,
  and \<open>-1\<close> exactly when there is none, for every start (negative or past the end included).\<close>

theorem lowest_search_correct:
  "bottom_index {i \<in> bits_of words. s \<le> int i} (find_lowest_ge words s)"
  by (rule bitset.lowest_ge) simp

text \<open>The downward search returns the highest occupied level at or below its start, for every
  start inside the bitmap, and \<open>-1\<close> exactly when there is none.\<close>

theorem highest_search_correct:
  assumes "s < int (bit_capacity words)"
  shows "top_index {i \<in> bits_of words. int i \<le> s} (find_highest_le words s)"
  using assms by (intro bitset.highest_le) simp_all

theorem highest_search_correct_witness:
  "top_index {i \<in> bits_of (bitset_set (bitset_resize 200) 3). int i \<le> 150}
    (find_highest_le (bitset_set (bitset_resize 200) 3) 150)"
  by (rule highest_search_correct) (simp add: bitset_resize_def bitset_set_def Let_def)

end
