(* ===== verification/Order_Pool.thy ===== *)
theory Order_Pool
  imports Interfaces
begin

text \<open>
  \<open>OrderRecord\<close> and \<open>OrderPool\<close> (\<open>include/engine/order_pool.hpp\<close>): the chunked,
  append-only pool of order records. Slots are the 32-bit indices of the code. The pool's
  table of chunks is a \<open>std::vector\<close> whose own capacity is part of the state, because a
  \<open>push_back\<close> or \<open>reserve\<close> beyond it allocates (and so can throw).
\<close>

section \<open>Records and the pool\<close>

type_synonym slot = "32 word"

definition kInvalidSlot :: slot where
  "kInvalidSlot = 0xFFFFFFFF"

record order_record =
  rec_id :: order_id
  rec_price :: price
  rec_instrument_id :: instrument_id
  rec_open_qty :: quantity
  rec_filled_qty :: quantity
  rec_prev :: slot
  rec_next :: slot
  rec_level_index :: "32 word"
  rec_side :: side
  rec_is_open :: bool

definition default_record :: order_record where
  "default_record =
    \<lparr>rec_id = 0, rec_price = 0, rec_instrument_id = 0, rec_open_qty = 0, rec_filled_qty = 0,
     rec_prev = kInvalidSlot, rec_next = kInvalidSlot, rec_level_index = kInvalidSlot,
     rec_side = kBuy, rec_is_open = False\<rparr>"

record order_pool =
  op_chunks :: "order_record vec list"
  op_table_capacity :: nat
  op_size :: nat

definition kChunkSize :: nat where
  "kChunkSize = 1048576"

definition new_chunk :: "allocator \<Rightarrow> order_record vec outcome" where
  "new_chunk al = and_then (request al Alloc_chunk) (\<lambda>_. returns (vec_make kChunkSize default_record))"

definition op_new :: "allocator \<Rightarrow> order_pool outcome" where
  "op_new al = and_then (request al (Alloc_chunk_table 64))
    (\<lambda>_. returns \<lparr>op_chunks = [], op_table_capacity = 64, op_size = 0\<rparr>)"

fun make_chunks :: "allocator \<Rightarrow> nat \<Rightarrow> order_record vec list outcome" where
  "make_chunks al 0 = returns []"
| "make_chunks al (Suc k) =
    and_then (new_chunk al) (\<lambda>c. and_then (make_chunks al k) (\<lambda>cs. returns (c # cs)))"

definition reserve_table :: "allocator \<Rightarrow> order_pool \<Rightarrow> nat \<Rightarrow> order_pool outcome" where
  "reserve_table al p n =
    (if op_table_capacity p < n
     then and_then (request al (Alloc_chunk_table n)) (\<lambda>_. returns (p\<lparr>op_table_capacity := n\<rparr>))
     else returns p)"

definition op_reserve :: "allocator \<Rightarrow> order_pool \<Rightarrow> nat \<Rightarrow> order_pool outcome" where
  "op_reserve al p n_slots =
    (let needed = (n_slots + kChunkSize - 1) div kChunkSize; have = length (op_chunks p)
     in if needed \<le> have then returns p
        else and_then (request al (Alloc_chunk_table (needed - have)))
          (\<lambda>_. and_then (make_chunks al (needed - have))
            (\<lambda>cs. and_then (reserve_table al p needed)
              (\<lambda>p. returns (p\<lparr>op_chunks := op_chunks p @ cs\<rparr>)))))"

definition op_add_chunk :: "allocator \<Rightarrow> order_pool \<Rightarrow> order_pool outcome" where
  "op_add_chunk al p =
    and_then (new_chunk al)
      (\<lambda>c. and_then (if length (op_chunks p) = op_table_capacity p
                     then reserve_table al p (2 * op_table_capacity p) else returns p)
        (\<lambda>p. returns (p\<lparr>op_chunks := op_chunks p @ [c]\<rparr>)))"

definition op_get :: "order_pool \<Rightarrow> slot \<Rightarrow> order_record" where
  "op_get p idx = vat (op_chunks p ! (unat idx div kChunkSize)) (unat idx mod kChunkSize)"

definition op_set :: "order_pool \<Rightarrow> slot \<Rightarrow> order_record \<Rightarrow> order_pool" where
  "op_set p idx r =
    (let c = unat idx div kChunkSize
     in p\<lparr>op_chunks := (op_chunks p)[c := vec_set (op_chunks p ! c) (unat idx mod kChunkSize) r]\<rparr>)"

definition op_upd :: "order_pool \<Rightarrow> slot \<Rightarrow> (order_record \<Rightarrow> order_record) \<Rightarrow> order_pool" where
  "op_upd p idx f = op_set p idx (f (op_get p idx))"

definition op_allocate :: "allocator \<Rightarrow> order_pool \<Rightarrow> (slot \<times> order_pool) outcome" where
  "op_allocate al p =
    (let chunk_idx = op_size p div kChunkSize; offset = op_size p mod kChunkSize
     in and_then (if length (op_chunks p) \<le> chunk_idx then op_add_chunk al p else returns p)
       (\<lambda>p. let idx = word_of_nat (op_size p)
            in returns (idx, p\<lparr>op_size := op_size p + 1,
                 op_chunks := (op_chunks p)[chunk_idx := vec_set (op_chunks p ! chunk_idx) offset default_record]\<rparr>)))"

section \<open>The pool as a slot store\<close>

text \<open>Every slot in use lies in an allocated chunk, and every chunk has \<open>kChunkSize\<close> records.\<close>

definition pool_ok :: "order_pool \<Rightarrow> bool" where
  "pool_ok p \<longleftrightarrow> op_size p \<le> kChunkSize * length (op_chunks p)
    \<and> (\<forall>c \<in> set (op_chunks p). vlen c = kChunkSize)"

lemma kChunkSize_pos [simp]: "0 < kChunkSize"
  by (simp add: kChunkSize_def)

text \<open>The C++ accesses stay inside the table and inside the chunk.\<close>

lemma slot_in_bounds:
  assumes "pool_ok p" "unat i < op_size p"
  shows "unat i div kChunkSize < length (op_chunks p)"
    and "unat i mod kChunkSize < vlen (op_chunks p ! (unat i div kChunkSize))"
proof -
  from assms have "unat i < length (op_chunks p) * kChunkSize"
    by (simp add: pool_ok_def mult.commute)
  then show *: "unat i div kChunkSize < length (op_chunks p)" by (simp add: div_less_iff_less_mult)
  from assms(1) * show "unat i mod kChunkSize < vlen (op_chunks p ! (unat i div kChunkSize))"
    by (simp add: pool_ok_def)
qed

lemma same_slot: "unat i div kChunkSize = unat j div kChunkSize \<Longrightarrow> unat i mod kChunkSize = unat j mod kChunkSize
  \<Longrightarrow> i = j" for i j :: slot
  by (metis div_mult_mod_eq word_unat_eq_iff)

lemma op_get_set:
  assumes "pool_ok p" "unat i < op_size p"
  shows "op_get (op_set p i r) j = (if j = i then r else op_get p j)"
  using slot_in_bounds(1) [OF assms] same_slot [of i j]
  by (auto simp: op_get_def op_set_def Let_def nth_list_update)

lemma vlen_list_update:
  "\<forall>c \<in> set cs. vlen c = n \<Longrightarrow> (i < length cs \<Longrightarrow> vlen v = n) \<Longrightarrow> \<forall>c \<in> set (cs[i := v]). vlen c = n"
  by (cases "i < length cs")
    (auto simp: list_update_beyond dest!: set_update_subset_insert [THEN subsetD])

lemma pool_ok_set: "pool_ok p \<Longrightarrow> pool_ok (op_set p i r)"
  using vlen_list_update [of "op_chunks p" kChunkSize "unat i div kChunkSize"
      "vec_set (op_chunks p ! (unat i div kChunkSize)) (unat i mod kChunkSize) r"]
  by (simp add: pool_ok_def op_set_def Let_def)

lemma op_size_set [simp]: "op_size (op_set p i r) = op_size p"
  by (simp add: op_set_def Let_def)

lemma make_chunks_cases:
  "(make_chunks al k = returns (replicate k (vec_make kChunkSize default_record)))
    \<or> (\<exists>e. make_chunks al k = Some (Inl e) \<and> al Alloc_chunk = Some e)"
  using request_cases [of al Alloc_chunk] by (induction k) (auto simp: new_chunk_def)

lemma reserve_table_cases:
  "(\<exists>p'. reserve_table al p n = returns p' \<and> op_chunks p' = op_chunks p \<and> op_size p' = op_size p)
    \<or> (\<exists>e r. reserve_table al p n = Some (Inl e) \<and> al r = Some e)"
  using request_cases [of al "Alloc_chunk_table n"] by (auto simp: reserve_table_def)

lemma op_add_chunk_cases:
  "(\<exists>p'. op_add_chunk al p = returns p' \<and> op_size p' = op_size p
      \<and> op_chunks p' = op_chunks p @ [vec_make kChunkSize default_record])
    \<or> (\<exists>e r. op_add_chunk al p = Some (Inl e) \<and> al r = Some e)"
  using request_cases [of al Alloc_chunk] reserve_table_cases [of al p "2 * op_table_capacity p"]
  by (auto simp: op_add_chunk_def new_chunk_def)

lemma allocated_slot:
  assumes ok: "pool_ok (p\<lparr>op_size := Suc (op_size p)\<rparr>)" and room: "op_size p < 2 ^ 32"
  defines "i \<equiv> word_of_nat (op_size p) :: slot"
  shows "p\<lparr>op_size := op_size p + 1, op_chunks := (op_chunks p)[op_size p div kChunkSize :=
      vec_set (op_chunks p ! (op_size p div kChunkSize)) (op_size p mod kChunkSize) default_record]\<rparr>
      = op_set (p\<lparr>op_size := Suc (op_size p)\<rparr>) i default_record"
    and "op_get (op_set (p\<lparr>op_size := Suc (op_size p)\<rparr>) i default_record) j = (if j = i then default_record else op_get p j)"
proof -
  have i: "unat i = op_size p" unfolding i_def using room by (intro unat_word_of_nat) simp
  show "p\<lparr>op_size := op_size p + 1, op_chunks := (op_chunks p)[op_size p div kChunkSize :=
      vec_set (op_chunks p ! (op_size p div kChunkSize)) (op_size p mod kChunkSize) default_record]\<rparr>
      = op_set (p\<lparr>op_size := Suc (op_size p)\<rparr>) i default_record"
    by (simp add: op_set_def i Let_def)
  show "op_get (op_set (p\<lparr>op_size := Suc (op_size p)\<rparr>) i default_record) j = (if j = i then default_record else op_get p j)"
    by (subst op_get_set [OF ok]) (simp_all add: i, simp add: op_get_def)
qed

lemma op_allocate_correct:
  assumes ok: "pool_ok p" and room: "op_size p < 2 ^ 32"
  shows "(\<exists>p'. op_allocate al p = Some (Inr (word_of_nat (op_size p), p')) \<and> pool_ok p' \<and> op_size p' = Suc (op_size p)
      \<and> op_get p' (word_of_nat (op_size p)) = default_record \<and> (\<forall>j. unat j < op_size p \<longrightarrow> op_get p' j = op_get p j))
    \<or> (\<exists>e r. op_allocate al p = Some (Inl e) \<and> al r = Some e)"
proof -
  let ?grow = "length (op_chunks p) \<le> op_size p div kChunkSize"
  let ?p1 = "if ?grow then op_add_chunk al p else returns p"
  have "(\<exists>p1. ?p1 = returns p1 \<and> pool_ok (p1\<lparr>op_size := Suc (op_size p1)\<rparr>) \<and> op_size p1 = op_size p
        \<and> (\<forall>j. unat j < op_size p \<longrightarrow> op_get p1 j = op_get p j))
      \<or> (\<exists>e r. ?p1 = Some (Inl e) \<and> al r = Some e)" (is "?granted \<or> ?refused")
  proof (cases ?grow)
    case True
    have room1: "op_size p < kChunkSize * Suc (length (op_chunks p))"
    proof -
      have "0 < kChunkSize" by simp
      with ok show ?thesis unfolding pool_ok_def mult_Suc_right by linarith
    qed
    show ?thesis
      using op_add_chunk_cases [of al p] True room1 ok
      by (auto simp: pool_ok_def op_get_def nth_append slot_in_bounds(1) [OF ok])
  next
    case False
    then have "op_size p < kChunkSize * length (op_chunks p)"
      by (simp add: not_le div_less_iff_less_mult mult.commute)
    with False ok show ?thesis by (simp add: pool_ok_def)
  qed
  then show ?thesis
  proof
    assume ?granted
    then obtain p1 where p1: "?p1 = returns p1" "pool_ok (p1\<lparr>op_size := Suc (op_size p1)\<rparr>)" "op_size p1 = op_size p"
      "\<And>j. unat j < op_size p \<Longrightarrow> op_get p1 j = op_get p j" by blast
    let ?i = "word_of_nat (op_size p) :: slot"
    let ?p2 = "op_set (p1\<lparr>op_size := Suc (op_size p1)\<rparr>) ?i default_record"
    have i: "unat ?i = op_size p" using room by (intro unat_word_of_nat) simp
    note a = allocated_slot [OF p1(2), unfolded p1(3), OF room]
    have "op_allocate al p = Some (Inr (?i, ?p2))"
      unfolding op_allocate_def Let_def p1(1) and_then_returns p1(3) a(1) by (simp add: returns_def)
    moreover have "pool_ok ?p2" by (rule pool_ok_set [OF p1(2)])
    moreover have "op_get ?p2 ?i = default_record" by (simp add: a(2) p1(3))
    moreover have "op_get ?p2 j = op_get p j" if "unat j < op_size p" for j
      using that i p1(4) [OF that] by (auto simp: a(2) p1(3))
    ultimately show ?thesis by (intro disjI1 exI [of _ ?p2]) (simp add: p1(3))
  next
    assume ?refused
    then show ?thesis unfolding op_allocate_def Let_def by auto
  qed
qed

interpretation pool: slot_store pool_ok op_size op_get op_set op_allocate default_record
  rewrites "slot_store.upd op_get op_set = op_upd"
proof -
  show *: "slot_store pool_ok op_size op_get op_set op_allocate default_record"
    by unfold_locales (simp_all only: pool_ok_set op_size_set op_get_set, rule op_allocate_correct)
  show "slot_store.upd op_get op_set = op_upd"
    by (intro ext) (simp add: slot_store.upd_def [OF *] op_upd_def)
qed

lemmas pool_upd = pool.get_upd pool.upd_ok

lemma op_reserve_cases:
  assumes "pool_ok p" "op_size p = 0"
  shows "(\<exists>p'. op_reserve al p n = returns p' \<and> pool_ok p' \<and> op_size p' = 0
      \<and> n \<le> kChunkSize * length (op_chunks p'))
    \<or> (\<exists>e r. op_reserve al p n = Some (Inl e) \<and> al r = Some e)"
proof -
  let ?needed = "(n + kChunkSize - 1) div kChunkSize" and ?have = "length (op_chunks p)"
  have n: "n \<le> kChunkSize * ?needed" by (simp add: kChunkSize_def)
  show ?thesis
  proof (cases "?needed \<le> ?have")
    case True
    with n have "n \<le> kChunkSize * ?have" by (meson le_trans mult_le_mono2)
    with True assms show ?thesis by (simp add: op_reserve_def Let_def)
  next
    case False
    then show ?thesis
      using n assms make_chunks_cases [of al "?needed - ?have"] reserve_table_cases [of al p ?needed]
        request_cases [of al "Alloc_chunk_table (?needed - ?have)"]
      by (fastforce simp: op_reserve_def Let_def pool_ok_def)
  qed
qed

end
