(* ===== verification/Order_Book.thy ===== *)
theory Order_Book
  imports Price_Ladder Level_Bitset Order_Pool
begin

text \<open>
  \<open>OrderBook\<close> (\<open>include/engine/order_book.hpp\<close>, \<open>src/order_book.cpp\<close>): two arrays of
  price levels over the ladder, each level an intrusive doubly linked FIFO in the shared
  order pool, with an occupancy bitmap and a cached best index per side.

  The operations take the pool and the book and return both, and write them in the order
  of the code; a C++ reference into the pool is read again at each use, so an aliasing
  write would be seen.
\<close>

section \<open>Levels and books\<close>

record level =
  lvl_head :: slot
  lvl_tail :: slot
  lvl_total_qty :: quantity
  lvl_order_count :: "32 word"

definition empty_level :: level where
  "empty_level = \<lparr>lvl_head = kInvalidSlot, lvl_tail = kInvalidSlot, lvl_total_qty = 0, lvl_order_count = 0\<rparr>"

record order_book =
  ob_instrument_id :: instrument_id
  ob_reference_price :: price
  ob_ladder :: price_ladder
  ob_bid_levels :: "level vec"
  ob_ask_levels :: "level vec"
  ob_bid_bitmap :: level_bitset
  ob_ask_bitmap :: level_bitset
  ob_best_bid_idx :: int
  ob_best_ask_idx :: int

definition blank_book :: order_book where
  "blank_book =
    \<lparr>ob_instrument_id = 0, ob_reference_price = 0, ob_ladder = empty_ladder,
     ob_bid_levels = vec_make 0 empty_level, ob_ask_levels = vec_make 0 empty_level,
     ob_bid_bitmap = bitset_resize 0, ob_ask_bitmap = bitset_resize 0,
     ob_best_bid_idx = -1, ob_best_ask_idx = -1\<rparr>"

subsection \<open>Configuration\<close>

definition band_lo_of :: "price \<Rightarrow> 32 word \<Rightarrow> price" where
  "band_lo_of reference_price band_bps =
    (let delta = (reference_price * uint band_bps) sdiv kBpsPerUnit;
         raw_lo = reference_price - delta
     in ceil_to_tick (if raw_lo < 1 then 1 else raw_lo))"

definition band_hi_of :: "price \<Rightarrow> 32 word \<Rightarrow> price" where
  "band_hi_of reference_price band_bps =
    (let delta = (reference_price * uint band_bps) sdiv kBpsPerUnit
     in floor_to_tick (reference_price + delta))"

definition configured_book :: "instrument_id \<Rightarrow> price \<Rightarrow> 32 word \<Rightarrow> order_book" where
  "configured_book instrument_id reference_price band_bps =
    (let ladder = ladder_build (band_lo_of reference_price band_bps) (band_hi_of reference_price band_bps);
         n = unat (pl_total_count ladder)
     in \<lparr>ob_instrument_id = instrument_id, ob_reference_price = reference_price, ob_ladder = ladder,
         ob_bid_levels = vec_make n empty_level, ob_ask_levels = vec_make n empty_level,
         ob_bid_bitmap = bitset_resize n, ob_ask_bitmap = bitset_resize n,
         ob_best_bid_idx = -1, ob_best_ask_idx = -1\<rparr>)"

text \<open>\<open>OrderBook::configure\<close>: every allocation of the new arrays comes before the swaps.\<close>

definition ob_configure :: "allocator \<Rightarrow> instrument_id \<Rightarrow> price \<Rightarrow> 32 word \<Rightarrow> order_book outcome" where
  "ob_configure al instrument_id reference_price band_bps =
    (let book = configured_book instrument_id reference_price band_bps;
         n = unat (pl_total_count (ob_ladder book))
     in and_then (request al (Alloc_segments kTickBracketCount))
       (\<lambda>_. and_then (request_for al Alloc_levels n)
       (\<lambda>_. and_then (request_for al Alloc_levels n)
       (\<lambda>_. and_then (request_for al Alloc_words ((n + 63) div 64))
       (\<lambda>_. and_then (request_for al Alloc_words ((n + 63) div 64))
       (\<lambda>_. returns book))))))"

subsection \<open>Access by side\<close>

fun levels :: "order_book \<Rightarrow> side \<Rightarrow> level vec" where
  "levels ob kBuy = ob_bid_levels ob"
| "levels ob kSell = ob_ask_levels ob"

fun bitmap :: "order_book \<Rightarrow> side \<Rightarrow> level_bitset" where
  "bitmap ob kBuy = ob_bid_bitmap ob"
| "bitmap ob kSell = ob_ask_bitmap ob"

fun best_index :: "order_book \<Rightarrow> side \<Rightarrow> int" where
  "best_index ob kBuy = ob_best_bid_idx ob"
| "best_index ob kSell = ob_best_ask_idx ob"

fun set_levels :: "order_book \<Rightarrow> side \<Rightarrow> level vec \<Rightarrow> order_book" where
  "set_levels ob kBuy v = ob\<lparr>ob_bid_levels := v\<rparr>"
| "set_levels ob kSell v = ob\<lparr>ob_ask_levels := v\<rparr>"

fun set_bitmap :: "order_book \<Rightarrow> side \<Rightarrow> level_bitset \<Rightarrow> order_book" where
  "set_bitmap ob kBuy v = ob\<lparr>ob_bid_bitmap := v\<rparr>"
| "set_bitmap ob kSell v = ob\<lparr>ob_ask_bitmap := v\<rparr>"

fun set_best_index :: "order_book \<Rightarrow> side \<Rightarrow> int \<Rightarrow> order_book" where
  "set_best_index ob kBuy i = ob\<lparr>ob_best_bid_idx := i\<rparr>"
| "set_best_index ob kSell i = ob\<lparr>ob_best_ask_idx := i\<rparr>"

definition has_best :: "order_book \<Rightarrow> side \<Rightarrow> bool" where
  "has_best ob sd \<longleftrightarrow> 0 \<le> best_index ob sd"

fun next_index :: "order_book \<Rightarrow> side \<Rightarrow> int \<Rightarrow> int" where
  "next_index ob kBuy after = find_highest_le (ob_bid_bitmap ob) (after - 1)"
| "next_index ob kSell after = find_lowest_ge (ob_ask_bitmap ob) (after + 1)"

definition level_at :: "order_book \<Rightarrow> side \<Rightarrow> 32 word \<Rightarrow> level" where
  "level_at ob sd idx = vat (levels ob sd) (unat idx)"

definition set_level_at :: "order_book \<Rightarrow> side \<Rightarrow> 32 word \<Rightarrow> level \<Rightarrow> order_book" where
  "set_level_at ob sd idx lvl = set_levels ob sd (vec_set (levels ob sd) (unat idx) lvl)"

definition ob_price_to_index :: "order_book \<Rightarrow> price \<Rightarrow> int" where
  "ob_price_to_index ob price = price_to_index (ob_ladder ob) price"

definition ob_index_to_price :: "order_book \<Rightarrow> 32 word \<Rightarrow> price" where
  "ob_index_to_price ob idx = index_to_price (ob_ladder ob) idx"

definition best_price :: "order_book \<Rightarrow> side \<Rightarrow> price" where
  "best_price ob sd = index_to_price (ob_ladder ob) (word_of_int (best_index ob sd))"

subsection \<open>Top of book\<close>

definition ob_top_of_book :: "order_book \<Rightarrow> top_of_book" where
  "ob_top_of_book ob =
    (let tob = empty_top_of_book;
         tob = (if 0 \<le> ob_best_bid_idx ob then
                  let idx = word_of_int (ob_best_bid_idx ob)
                  in tob\<lparr>tob_bid_price := index_to_price (ob_ladder ob) idx,
                         tob_bid_quantity := lvl_total_qty (vat (ob_bid_levels ob) (unat idx))\<rparr>
                else tob)
     in if 0 \<le> ob_best_ask_idx ob then
          let idx = word_of_int (ob_best_ask_idx ob)
          in tob\<lparr>tob_ask_price := index_to_price (ob_ladder ob) idx,
                 tob_ask_quantity := lvl_total_qty (vat (ob_ask_levels ob) (unat idx))\<rparr>
        else tob)"

text \<open>The quoted prices are the best prices.\<close>

lemma top_of_book_best_price:
  "has_best ob kBuy \<Longrightarrow> tob_bid_price (ob_top_of_book ob) = best_price ob kBuy"
  "has_best ob kSell \<Longrightarrow> tob_ask_price (ob_top_of_book ob) = best_price ob kSell"
  by (simp_all add: ob_top_of_book_def best_price_def has_best_def Let_def)

subsection \<open>Resting, removing, replacing in place\<close>

fun improve_best :: "order_book \<Rightarrow> side \<Rightarrow> 32 word \<Rightarrow> order_book" where
  "improve_best ob kBuy idx =
    (if ob_best_bid_idx ob < 0 \<or> ob_best_bid_idx ob < int (unat idx)
     then ob\<lparr>ob_best_bid_idx := int (unat idx)\<rparr> else ob)"
| "improve_best ob kSell idx =
    (if ob_best_ask_idx ob < 0 \<or> int (unat idx) < ob_best_ask_idx ob
     then ob\<lparr>ob_best_ask_idx := int (unat idx)\<rparr> else ob)"

definition add_resting :: "order_pool \<Rightarrow> order_book \<Rightarrow> slot \<Rightarrow> side \<Rightarrow> price \<Rightarrow> order_pool \<times> order_book" where
  "add_resting p ob slot sd price =
    (let idx = word_of_int (ob_price_to_index ob price);
         p = op_upd p slot (\<lambda>r. r\<lparr>rec_side := sd, rec_price := price, rec_level_index := idx, rec_is_open := True\<rparr>);
         lvl = level_at ob sd idx;
         p = op_upd p slot (\<lambda>r. r\<lparr>rec_prev := lvl_tail lvl, rec_next := kInvalidSlot\<rparr>);
         (p, lvl) = (if lvl_tail lvl \<noteq> kInvalidSlot
                     then (op_upd p (lvl_tail lvl) (\<lambda>r. r\<lparr>rec_next := slot\<rparr>), lvl)
                     else (p, lvl\<lparr>lvl_head := slot\<rparr>));
         lvl = lvl\<lparr>lvl_tail := slot,
                   lvl_total_qty := lvl_total_qty lvl + rec_open_qty (op_get p slot),
                   lvl_order_count := lvl_order_count lvl + 1\<rparr>;
         ob = set_level_at ob sd idx lvl;
         ob = (if lvl_order_count lvl = 1 then set_bitmap ob sd (bitset_set (bitmap ob sd) idx) else ob)
     in (p, improve_best ob sd idx))"

fun relocate_best :: "order_book \<Rightarrow> side \<Rightarrow> 32 word \<Rightarrow> order_book" where
  "relocate_best ob kBuy idx =
    (if ob_best_bid_idx ob = int (unat idx)
     then ob\<lparr>ob_best_bid_idx := find_highest_le (ob_bid_bitmap ob) (int (unat idx) - 1)\<rparr> else ob)"
| "relocate_best ob kSell idx =
    (if ob_best_ask_idx ob = int (unat idx)
     then ob\<lparr>ob_best_ask_idx := find_lowest_ge (ob_ask_bitmap ob) (int (unat idx) + 1)\<rparr> else ob)"

definition remove_resting :: "order_pool \<Rightarrow> order_book \<Rightarrow> slot \<Rightarrow> order_pool \<times> order_book" where
  "remove_resting p ob slot =
    (let sd = rec_side (op_get p slot);
         idx = rec_level_index (op_get p slot);
         lvl = level_at ob sd idx;
         (p, lvl) = (let rec = op_get p slot
                     in if rec_prev rec \<noteq> kInvalidSlot
                        then (op_upd p (rec_prev rec) (\<lambda>r. r\<lparr>rec_next := rec_next rec\<rparr>), lvl)
                        else (p, lvl\<lparr>lvl_head := rec_next rec\<rparr>));
         (p, lvl) = (let rec = op_get p slot
                     in if rec_next rec \<noteq> kInvalidSlot
                        then (op_upd p (rec_next rec) (\<lambda>r. r\<lparr>rec_prev := rec_prev rec\<rparr>), lvl)
                        else (p, lvl\<lparr>lvl_tail := rec_prev rec\<rparr>));
         lvl = lvl\<lparr>lvl_total_qty := lvl_total_qty lvl - rec_open_qty (op_get p slot),
                   lvl_order_count := lvl_order_count lvl - 1\<rparr>;
         ob = set_level_at ob sd idx lvl;
         p = op_upd p slot (\<lambda>r. r\<lparr>rec_is_open := False, rec_prev := kInvalidSlot, rec_next := kInvalidSlot\<rparr>)
     in if lvl_order_count lvl = 0
        then (p, relocate_best (set_bitmap ob sd (bitset_clear (bitmap ob sd) idx)) sd idx)
        else (p, ob))"

definition replace_in_place :: "order_pool \<Rightarrow> order_book \<Rightarrow> slot \<Rightarrow> slot \<Rightarrow> order_pool \<times> order_book" where
  "replace_in_place p ob old_slot new_slot =
    (let sd = rec_side (op_get p old_slot);
         idx = rec_level_index (op_get p old_slot);
         lvl = level_at ob sd idx;
         p = (let old = op_get p old_slot
              in op_upd p new_slot (\<lambda>r. r\<lparr>rec_side := sd, rec_price := rec_price old, rec_level_index := idx,
                   rec_is_open := True, rec_prev := rec_prev old, rec_next := rec_next old\<rparr>));
         (p, lvl) = (let old = op_get p old_slot
                     in if rec_prev old \<noteq> kInvalidSlot
                        then (op_upd p (rec_prev old) (\<lambda>r. r\<lparr>rec_next := new_slot\<rparr>), lvl)
                        else (p, lvl\<lparr>lvl_head := new_slot\<rparr>));
         (p, lvl) = (let old = op_get p old_slot
                     in if rec_next old \<noteq> kInvalidSlot
                        then (op_upd p (rec_next old) (\<lambda>r. r\<lparr>rec_prev := new_slot\<rparr>), lvl)
                        else (p, lvl\<lparr>lvl_tail := new_slot\<rparr>));
         lvl = lvl\<lparr>lvl_total_qty := lvl_total_qty lvl - rec_open_qty (op_get p old_slot)
                     + rec_open_qty (op_get p new_slot)\<rparr>;
         ob = set_level_at ob sd idx lvl;
         p = op_upd p old_slot (\<lambda>r. r\<lparr>rec_is_open := False, rec_prev := kInvalidSlot, rec_next := kInvalidSlot\<rparr>)
     in (p, ob))"

end
