(* ===== verification/Level_Queue.thy ===== *)
theory Level_Queue
  imports Order_Book
begin

text \<open>
  The intrusive list of one price level. \<open>chain\<close> relates the links of the records to the
  list of slots, \<open>queue_of\<close> adds the level's head, tail, count and total; the three ways the
  code changes a level (append at the tail, unlink anywhere, substitute in place) are shown
  to be the corresponding list operations. Records are read through a heap
  \<open>h :: slot \<Rightarrow> order_record\<close>, which is \<open>op_get\<close> of the pool.
\<close>

section \<open>Chains of links\<close>

lemma valid_slot_iff: "s \<noteq> kInvalidSlot \<longleftrightarrow> unat s < 2 ^ 32 - 1" for s :: slot
proof
  have "kInvalidSlot = - 1" by (simp add: kInvalidSlot_def)
  then show "s \<noteq> kInvalidSlot \<Longrightarrow> unat s < 2 ^ 32 - 1"
    using unat_less_max [of s] by simp
  show "unat s < 2 ^ 32 - 1 \<Longrightarrow> s \<noteq> kInvalidSlot" by (auto simp: kInvalidSlot_def)
qed

type_synonym heap = "slot \<Rightarrow> order_record"

definition set_next :: "heap \<Rightarrow> slot \<Rightarrow> slot \<Rightarrow> heap" where
  "set_next h k n = h(k := (h k)\<lparr>rec_next := n\<rparr>)"

definition set_prev :: "heap \<Rightarrow> slot \<Rightarrow> slot \<Rightarrow> heap" where
  "set_prev h k p = h(k := (h k)\<lparr>rec_prev := p\<rparr>)"

definition closed :: "order_record \<Rightarrow> order_record" where
  "closed r = r\<lparr>rec_is_open := False, rec_prev := kInvalidSlot, rec_next := kInvalidSlot\<rparr>"

text \<open>\<open>core\<close> is a record without its links: all that relinking keeps.\<close>

definition core :: "order_record \<Rightarrow> order_record" where
  "core r = r\<lparr>rec_prev := kInvalidSlot, rec_next := kInvalidSlot\<rparr>"

lemma core_links [simp]:
  "core (r\<lparr>rec_prev := p\<rparr>) = core r" "core (r\<lparr>rec_next := n\<rparr>) = core r" "core (core r) = core r"
  "core (closed r) = closed r"
  by (simp_all add: core_def closed_def)

lemma core_sel [simp]:
  "rec_id (core r) = rec_id r" "rec_price (core r) = rec_price r"
  "rec_instrument_id (core r) = rec_instrument_id r" "rec_open_qty (core r) = rec_open_qty r"
  "rec_filled_qty (core r) = rec_filled_qty r" "rec_level_index (core r) = rec_level_index r"
  "rec_side (core r) = rec_side r" "rec_is_open (core r) = rec_is_open r"
  by (simp_all add: core_def)

lemma core_eqD:
  assumes "core r = core r'"
  shows "rec_id r = rec_id r'" "rec_price r = rec_price r'" "rec_instrument_id r = rec_instrument_id r'"
    "rec_open_qty r = rec_open_qty r'" "rec_filled_qty r = rec_filled_qty r'"
    "rec_level_index r = rec_level_index r'" "rec_side r = rec_side r'" "rec_is_open r = rec_is_open r'"
  using arg_cong [OF assms, of rec_id] arg_cong [OF assms, of rec_price]
    arg_cong [OF assms, of rec_instrument_id] arg_cong [OF assms, of rec_open_qty]
    arg_cong [OF assms, of rec_filled_qty] arg_cong [OF assms, of rec_level_index]
    arg_cong [OF assms, of rec_side] arg_cong [OF assms, of rec_is_open]
  by simp_all

lemma set_links [simp]:
  "core (set_next h k n x) = core (h x)" "core (set_prev h k p x) = core (h x)"
  "rec_prev (set_next h k n x) = rec_prev (h x)" "rec_next (set_prev h k p x) = rec_next (h x)"
  "x \<noteq> k \<Longrightarrow> set_next h k n x = h x" "x \<noteq> k \<Longrightarrow> set_prev h k p x = h x"
  "rec_next (set_next h k n k) = n" "rec_prev (set_prev h k p k) = p"
  by (auto simp: set_next_def set_prev_def)

lemma set_links_open [simp]:
  "rec_open_qty (set_next h k n x) = rec_open_qty (h x)" "rec_open_qty (set_prev h k p x) = rec_open_qty (h x)"
  by (rule core_eqD, simp)+

fun first_or :: "slot \<Rightarrow> slot list \<Rightarrow> slot" where
  "first_or d [] = d"
| "first_or d (s # ss) = s"

fun last_or :: "slot \<Rightarrow> slot list \<Rightarrow> slot" where
  "last_or d [] = d"
| "last_or d (s # ss) = last_or s ss"

fun chain :: "heap \<Rightarrow> slot \<Rightarrow> slot list \<Rightarrow> slot \<Rightarrow> bool" where
  "chain h p [] n \<longleftrightarrow> True"
| "chain h p (s # ss) n \<longleftrightarrow> rec_prev (h s) = p \<and> rec_next (h s) = first_or n ss \<and> chain h s ss n"

lemma last_or_append [simp]: "last_or d (xs @ ys) = last_or (last_or d xs) ys"
  by (induction xs arbitrary: d) simp_all

lemma first_or_append [simp]: "first_or d (xs @ ys) = first_or (first_or d ys) xs"
  by (cases xs) simp_all

lemma first_or_eq: "first_or d xs = (if xs = [] then d else hd xs)"
  by (cases xs) simp_all

lemma last_or_eq: "last_or d xs = (if xs = [] then d else last xs)"
  by (induction xs arbitrary: d) simp_all

lemma first_or_in: "xs \<noteq> [] \<Longrightarrow> first_or d xs \<in> set xs"
  by (simp add: first_or_eq)

lemma last_or_in: "xs \<noteq> [] \<Longrightarrow> last_or d xs \<in> set xs"
  by (simp add: last_or_eq)

lemma end_neq:
  "xs \<noteq> [] \<Longrightarrow> x \<notin> set xs \<Longrightarrow> x \<noteq> last_or d xs" "xs \<noteq> [] \<Longrightarrow> x \<notin> set xs \<Longrightarrow> x \<noteq> first_or d xs"
  using last_or_in [of xs d] first_or_in [of xs d] by blast+

lemma chain_append:
  "chain h p (xs @ ys) n \<longleftrightarrow> chain h p xs (first_or n ys) \<and> chain h (last_or p xs) ys n"
  by (induction xs arbitrary: p) auto

lemma chain_cong:
  "(\<And>s. s \<in> set xs \<Longrightarrow> rec_prev (h' s) = rec_prev (h s) \<and> rec_next (h' s) = rec_next (h s))
    \<Longrightarrow> chain h' p xs n = chain h p xs n"
  by (induction xs arbitrary: p) auto

text \<open>Redirecting the link out of the last element, and the link into the first.\<close>

lemma chain_set_next:
  assumes "chain h p xs n" "distinct xs"
  shows "chain (set_next h (last_or d xs) n') p xs n'"
  using assms
proof (induction xs arbitrary: p d)
  case (Cons s ss)
  show ?case
  proof (cases "ss = []")
    case False
    have "chain h s ss n" "distinct ss" using Cons.prems by simp_all
    then have "chain (set_next h (last_or s ss) n') s ss n'"
      by (rule Cons.IH)
    moreover have "last_or s ss \<noteq> s" "first_or n ss = first_or n' ss"
      using Cons.prems(2) False last_or_in [of ss s] by (auto simp: first_or_eq)
    ultimately show ?thesis
      using Cons.prems(1) by simp
  qed (use Cons.prems in simp)
qed simp

lemma chain_set_prev:
  assumes "chain h p xs n" "distinct xs"
  shows "chain (set_prev h (first_or d xs) p') p' xs n"
proof (cases xs)
  case (Cons s ss)
  with assms show ?thesis
    by (auto intro!: chain_cong [THEN iffD2, of ss _ h] simp: set_prev_def)
qed simp

section \<open>The queue of a level\<close>

definition total_open :: "heap \<Rightarrow> slot list \<Rightarrow> quantity" where
  "total_open h qs = sum_list (map (\<lambda>s. rec_open_qty (h s)) qs)"

definition queue_of :: "heap \<Rightarrow> level \<Rightarrow> slot list \<Rightarrow> bool" where
  "queue_of h lvl qs \<longleftrightarrow> chain h kInvalidSlot qs kInvalidSlot \<and> distinct qs \<and> kInvalidSlot \<notin> set qs
    \<and> lvl_head lvl = first_or kInvalidSlot qs \<and> lvl_tail lvl = last_or kInvalidSlot qs
    \<and> lvl_total_qty lvl = total_open h qs \<and> lvl_order_count lvl = word_of_nat (length qs)"

lemma total_open_simps [simp]:
  "total_open h [] = 0" "total_open h (s # ss) = rec_open_qty (h s) + total_open h ss"
  "total_open h (xs @ ys) = total_open h xs + total_open h ys"
  by (simp_all add: total_open_def)

lemma total_open_cong:
  "(\<And>s. s \<in> set qs \<Longrightarrow> rec_open_qty (h' s) = rec_open_qty (h s)) \<Longrightarrow> total_open h' qs = total_open h qs"
  unfolding total_open_def by (rule arg_cong [where f = sum_list]) simp

lemma queue_of_cong: "(\<And>s. s \<in> set qs \<Longrightarrow> h' s = h s) \<Longrightarrow> queue_of h' lvl qs = queue_of h lvl qs"
  using chain_cong [of qs h' h] total_open_cong [of qs h' h] by (auto simp: queue_of_def)

lemma queue_of_empty [simp]: "queue_of h empty_level []"
  by (simp add: queue_of_def empty_level_def)

lemma queue_head: "queue_of h lvl qs \<Longrightarrow> lvl_head lvl = kInvalidSlot \<longleftrightarrow> qs = []"
  using first_or_in [of qs kInvalidSlot] by (cases "qs = []") (auto simp: queue_of_def)

text \<open>Slots are distinct 32-bit words, so the 32-bit count of a level is exact.\<close>

lemma queue_length:
  assumes "queue_of h lvl qs"
  shows "length qs < 2 ^ 32" and "unat (lvl_order_count lvl) = length qs"
proof -
  from assms have "distinct qs" "kInvalidSlot \<notin> set qs" by (simp_all add: queue_of_def)
  then have "length qs = card (unat ` set qs)"
    by (simp add: card_image inj_on_def distinct_card word_unat_eq_iff [symmetric])
  also have "unat ` set qs \<subseteq> {..<2 ^ 32 - 1}"
  proof safe
    fix s assume "s \<in> set qs"
    with \<open>kInvalidSlot \<notin> set qs\<close> have "s \<noteq> kInvalidSlot" by metis
    then show "unat s < 2 ^ 32 - 1" by (simp add: valid_slot_iff)
  qed
  then have "card (unat ` set qs) \<le> 2 ^ 32 - 1"
    using card_mono [of "{..<2 ^ 32 - 1 :: nat}"] by fastforce
  finally show *: "length qs < 2 ^ 32" by simp
  from assms have "lvl_order_count lvl = word_of_nat (length qs)" by (simp add: queue_of_def)
  with * show "unat (lvl_order_count lvl) = length qs" by (simp add: unat_word_of_nat)
qed

section \<open>Append, unlink, substitute\<close>

definition append_heap :: "heap \<Rightarrow> level \<Rightarrow> slot \<Rightarrow> (order_record \<Rightarrow> order_record) \<Rightarrow> heap" where
  "append_heap h lvl s f =
    (let h = h(s := (f (h s))\<lparr>rec_prev := lvl_tail lvl, rec_next := kInvalidSlot\<rparr>)
     in if lvl_tail lvl \<noteq> kInvalidSlot then set_next h (lvl_tail lvl) s else h)"

definition append_level :: "level \<Rightarrow> slot \<Rightarrow> quantity \<Rightarrow> level" where
  "append_level lvl s qty =
    (if lvl_tail lvl \<noteq> kInvalidSlot then lvl else lvl\<lparr>lvl_head := s\<rparr>)
      \<lparr>lvl_tail := s, lvl_total_qty := lvl_total_qty lvl + qty, lvl_order_count := lvl_order_count lvl + 1\<rparr>"

lemma append_queue:
  assumes q: "queue_of h lvl qs" and s: "s \<notin> set qs" "s \<noteq> kInvalidSlot"
    and f: "rec_open_qty (f (h s)) = qty"
  shows "queue_of (append_heap h lvl s f) (append_level lvl s qty) (qs @ [s])"
proof -
  let ?s = "(f (h s))\<lparr>rec_prev := lvl_tail lvl, rec_next := kInvalidSlot\<rparr>"
  define h1 where "h1 = h(s := ?s)"
  have h1: "chain h1 kInvalidSlot qs kInvalidSlot"
    using q s by (subst chain_cong [of qs h1 h]) (auto simp: queue_of_def h1_def)
  note Q = q [unfolded queue_of_def]
  show ?thesis
  proof (cases "qs = []")
    case True
    with Q s f show ?thesis
      by (simp add: queue_of_def append_heap_def append_level_def)
  next
    case False
    let ?t = "last_or kInvalidSlot qs"
    have "?t \<in> set qs" by (rule last_or_in [OF False])
    then have t: "lvl_tail lvl = ?t" "?t \<in> set qs" "?t \<noteq> kInvalidSlot" "?t \<noteq> s"
      using Q s by metis+
    have h': "append_heap h lvl s f = set_next h1 ?t s"
      using t by (simp add: append_heap_def h1_def Let_def)
    have "chain (append_heap h lvl s f) kInvalidSlot qs s"
      unfolding h' using h1 Q by (intro chain_set_next) simp_all
    moreover have "append_heap h lvl s f s = ?s" unfolding h' using t by (simp add: h1_def)
    moreover have "total_open (append_heap h lvl s f) qs = total_open h qs"
      unfolding h' using s by (intro total_open_cong) (auto simp: h1_def)
    moreover have "first_or (first_or kInvalidSlot [s]) qs = first_or kInvalidSlot qs"
      using False by (simp add: first_or_eq)
    ultimately show ?thesis
      using Q s t f by (simp add: queue_of_def chain_append append_level_def)
  qed
qed

lemma queue_around:
  assumes "queue_of h lvl (as @ s # bs)"
  shows "rec_prev (h s) = last_or kInvalidSlot as" "rec_next (h s) = first_or kInvalidSlot bs"
    and "chain h kInvalidSlot as s" "chain h s bs kInvalidSlot"
    and "rec_prev (h s) = kInvalidSlot \<longleftrightarrow> as = []" "rec_next (h s) = kInvalidSlot \<longleftrightarrow> bs = []"
    and "distinct as" "distinct bs" "set as \<inter> set bs = {}" "s \<notin> set as" "s \<notin> set bs"
    and "kInvalidSlot \<notin> set as" "kInvalidSlot \<notin> set bs" "s \<noteq> kInvalidSlot"
proof -
  from assms show prev: "rec_prev (h s) = last_or kInvalidSlot as"
    and nxt: "rec_next (h s) = first_or kInvalidSlot bs"
    and "chain h kInvalidSlot as s" "chain h s bs kInvalidSlot"
    and d: "distinct as" "distinct bs" "set as \<inter> set bs = {}" "s \<notin> set as" "s \<notin> set bs"
      "kInvalidSlot \<notin> set as" "kInvalidSlot \<notin> set bs" "s \<noteq> kInvalidSlot"
    by (auto simp: queue_of_def chain_append)
  show "rec_prev (h s) = kInvalidSlot \<longleftrightarrow> as = []"
    using prev d(6) last_or_in [of as kInvalidSlot] by (cases "as = []") auto
  show "rec_next (h s) = kInvalidSlot \<longleftrightarrow> bs = []"
    using nxt d(7) first_or_in [of bs kInvalidSlot] by (cases "bs = []") auto
qed

text \<open>
  Both changes in the middle of \<open>as @ s # bs\<close> relink the neighbours of \<open>s\<close>: forwards to \<open>n\<close>,
  backwards to \<open>p\<close>.
\<close>

definition link_around :: "heap \<Rightarrow> slot list \<Rightarrow> slot \<Rightarrow> slot \<Rightarrow> slot list \<Rightarrow> heap" where
  "link_around h as n p bs =
    (let h = (if as = [] then h else set_next h (last_or kInvalidSlot as) n)
     in if bs = [] then h else set_prev h (first_or kInvalidSlot bs) p)"

lemma link_around_core: "core (link_around h as n p bs x) = core (h x)"
  by (simp add: link_around_def Let_def)

lemma link_around_open: "rec_open_qty (link_around h as n p bs x) = rec_open_qty (h x)"
  by (rule core_eqD [OF link_around_core])

lemma link_around_other: "x \<notin> set as \<Longrightarrow> x \<notin> set bs \<Longrightarrow> link_around h as n p bs x = h x"
  by (simp add: link_around_def Let_def end_neq)

lemma link_around_chains:
  assumes as: "chain h kInvalidSlot as x" and bs: "chain h y bs kInvalidSlot"
    and d: "distinct as" "distinct bs" "set as \<inter> set bs = {}"
  shows "chain (link_around h as n p bs) kInvalidSlot as n" "chain (link_around h as n p bs) p bs kInvalidSlot"
proof -
  let ?k = "if as = [] then h else set_next h (last_or kInvalidSlot as) n"
  have as1: "chain ?k kInvalidSlot as n" using chain_set_next [OF as d(1)] by simp
  have bs1: "chain ?k y bs kInvalidSlot"
  proof (rule chain_cong [THEN iffD2, OF _ bs])
    fix s assume "s \<in> set bs"
    with d(3) have "s \<notin> set as" by blast
    then show "rec_prev (?k s) = rec_prev (h s) \<and> rec_next (?k s) = rec_next (h s)" by (simp add: end_neq)
  qed
  show "chain (link_around h as n p bs) p bs kInvalidSlot"
    using chain_set_prev [OF bs1 d(2)] by (simp add: link_around_def Let_def)
  show "chain (link_around h as n p bs) kInvalidSlot as n"
  proof (rule chain_cong [THEN iffD2, OF _ as1])
    fix s assume "s \<in> set as"
    with d(3) have "s \<notin> set bs" by blast
    then show "rec_prev (link_around h as n p bs s) = rec_prev (?k s) \<and> rec_next (link_around h as n p bs s) = rec_next (?k s)"
      by (simp add: link_around_def end_neq)
  qed
qed

lemma queue_without:
  assumes q: "queue_of h lvl (as @ s # bs)" and h': "\<And>x. x \<in> set (as @ bs) \<Longrightarrow> rec_open_qty (h' x) = rec_open_qty (h x)"
  shows "lvl_total_qty lvl - rec_open_qty (h s) = total_open h' as + total_open h' bs"
    and "lvl_order_count lvl - 1 = word_of_nat (length (as @ bs))"
proof -
  have "total_open h' as = total_open h as" "total_open h' bs = total_open h bs"
    using h' by (auto intro: total_open_cong)
  with q show "lvl_total_qty lvl - rec_open_qty (h s) = total_open h' as + total_open h' bs"
    "lvl_order_count lvl - 1 = word_of_nat (length (as @ bs))"
    by (simp_all add: queue_of_def)
qed

subsection \<open>Unlink\<close>

definition unlink_heap :: "heap \<Rightarrow> slot \<Rightarrow> heap" where
  "unlink_heap h s =
    (let h = (if rec_prev (h s) \<noteq> kInvalidSlot then set_next h (rec_prev (h s)) (rec_next (h s)) else h);
         h = (if rec_next (h s) \<noteq> kInvalidSlot then set_prev h (rec_next (h s)) (rec_prev (h s)) else h)
     in h(s := closed (h s)))"

definition unlink_level :: "heap \<Rightarrow> level \<Rightarrow> slot \<Rightarrow> level" where
  "unlink_level h lvl s =
    (let lvl = (if rec_prev (h s) \<noteq> kInvalidSlot then lvl else lvl\<lparr>lvl_head := rec_next (h s)\<rparr>);
         lvl = (if rec_next (h s) \<noteq> kInvalidSlot then lvl else lvl\<lparr>lvl_tail := rec_prev (h s)\<rparr>)
     in lvl\<lparr>lvl_total_qty := lvl_total_qty lvl - rec_open_qty (h s), lvl_order_count := lvl_order_count lvl - 1\<rparr>)"

lemma unlink_heap_eq:
  assumes q: "queue_of h lvl (as @ s # bs)"
  shows "unlink_heap h s = (link_around h as (first_or kInvalidSlot bs) (last_or kInvalidSlot as) bs)(s := closed (h s))"
proof -
  note A = queue_around [OF q]
  have s: "link_around h as n p bs s = h s" for n p using A(10,11) by (rule link_around_other)
  have s1: "as \<noteq> [] \<Longrightarrow> set_next h (last_or kInvalidSlot as) n s = h s" for n
    using A(10) by (simp add: end_neq)
  show ?thesis
    using A(5,6) s1 s [unfolded link_around_def]
    by (cases "as = []"; cases "bs = []") (simp_all add: unlink_heap_def Let_def A(1,2) link_around_def)
qed

lemma unlink_queue:
  assumes q: "queue_of h lvl (as @ s # bs)"
  shows "queue_of (unlink_heap h s) (unlink_level h lvl s) (as @ bs)"
proof -
  note A = queue_around [OF q]
  let ?a = "last_or kInvalidSlot as" and ?b = "first_or kInvalidSlot bs" and ?h = "unlink_heap h s"
  note c = link_around_chains [OF A(3,4,7,8,9), of ?b ?a]
  have same: "?h x = link_around h as ?b ?a bs x" if "x \<noteq> s" for x
    using that by (simp add: unlink_heap_eq [OF q])
  have "chain ?h kInvalidSlot as ?b" "chain ?h ?a bs kInvalidSlot"
    using c same A(10,11) chain_cong [of as ?h] chain_cong [of bs ?h] by metis+
  moreover have "rec_open_qty (?h x) = rec_open_qty (h x)" if "x \<in> set (as @ bs)" for x
    using that A(10,11) by (subst same) (auto simp: link_around_open)
  note T = queue_without [OF q this]
  ultimately show ?thesis
    using A T by (cases "as = []"; cases "bs = []")
      (simp_all add: queue_of_def chain_append unlink_level_def Let_def A(1,2) q [unfolded queue_of_def] first_or_eq last_or_eq)
qed

lemma unlink_core:
  assumes "queue_of h lvl (as @ s # bs)"
  shows "core (unlink_heap h s x) = (if x = s then closed (h s) else core (h x))"
  by (simp add: unlink_heap_eq [OF assms] link_around_core)

lemma unlink_outside:
  assumes "queue_of h lvl (as @ s # bs)" "x \<notin> set (as @ s # bs)"
  shows "unlink_heap h s x = h x"
  using assms(2) by (simp add: unlink_heap_eq [OF assms(1)] link_around_other)

subsection \<open>Substitute\<close>

definition subst_start :: "heap \<Rightarrow> slot \<Rightarrow> slot \<Rightarrow> (order_record \<Rightarrow> order_record) \<Rightarrow> heap" where
  "subst_start h s t f = h(t := (f (h t))\<lparr>rec_prev := rec_prev (h s), rec_next := rec_next (h s)\<rparr>)"

definition subst_heap :: "heap \<Rightarrow> slot \<Rightarrow> slot \<Rightarrow> (order_record \<Rightarrow> order_record) \<Rightarrow> heap" where
  "subst_heap h s t f =
    (let h = subst_start h s t f;
         h = (if rec_prev (h s) \<noteq> kInvalidSlot then set_next h (rec_prev (h s)) t else h);
         h = (if rec_next (h s) \<noteq> kInvalidSlot then set_prev h (rec_next (h s)) t else h)
     in h(s := closed (h s)))"

definition subst_level :: "heap \<Rightarrow> level \<Rightarrow> slot \<Rightarrow> slot \<Rightarrow> quantity \<Rightarrow> level" where
  "subst_level h lvl s t qty =
    (let lvl = (if rec_prev (h s) \<noteq> kInvalidSlot then lvl else lvl\<lparr>lvl_head := t\<rparr>);
         lvl = (if rec_next (h s) \<noteq> kInvalidSlot then lvl else lvl\<lparr>lvl_tail := t\<rparr>)
     in lvl\<lparr>lvl_total_qty := lvl_total_qty lvl - rec_open_qty (h s) + qty\<rparr>)"

lemma subst_heap_eq:
  assumes q: "queue_of h lvl (as @ s # bs)" and t: "t \<notin> set (as @ s # bs)"
  shows "subst_heap h s t f = (link_around (subst_start h s t f) as t t bs)(s := closed (h s))"
proof -
  note A = queue_around [OF q]
  let ?g = "subst_start h s t f"
  have s0: "?g s = h s" using t by (auto simp: subst_start_def)
  have s: "link_around ?g as t t bs s = h s" using A(10,11) by (simp add: link_around_other s0)
  have s1: "as \<noteq> [] \<Longrightarrow> set_next ?g (last_or kInvalidSlot as) t s = h s"
    using A(10) s0 by (simp add: end_neq)
  show ?thesis
    using A(5,6) s0 s1 s [unfolded link_around_def]
    by (cases "as = []"; cases "bs = []")
      (simp_all add: subst_heap_def Let_def A(1,2) link_around_def)
qed

lemma subst_queue:
  assumes q: "queue_of h lvl (as @ s # bs)" and t: "t \<notin> set (as @ s # bs)" "t \<noteq> kInvalidSlot"
    and f: "rec_open_qty (f (h t)) = qty"
  shows "queue_of (subst_heap h s t f) (subst_level h lvl s t qty) (as @ t # bs)"
proof -
  note A = queue_around [OF q]
  let ?a = "last_or kInvalidSlot as" and ?b = "first_or kInvalidSlot bs" and ?h = "subst_heap h s t f"
  let ?g = "subst_start h s t f"
  have h0: "?g x = h x" if "x \<noteq> t" for x using that by (simp add: subst_start_def)
  have "t \<notin> set as" "t \<notin> set bs" using t by auto
  then have "chain ?g kInvalidSlot as s" "chain ?g s bs kInvalidSlot"
    using A(3,4) h0 chain_cong [of as ?g h] chain_cong [of bs ?g h] by metis+
  note c = link_around_chains [OF this A(7,8,9), of t t]
  have same: "?h x = link_around ?g as t t bs x" if "x \<noteq> s" for x
    using that by (simp add: subst_heap_eq [OF q t(1)])
  have "chain ?h kInvalidSlot as t" "chain ?h t bs kInvalidSlot"
    using c same A(10,11) chain_cong [of as ?h] chain_cong [of bs ?h] by metis+
  moreover have "?h t = (f (h t))\<lparr>rec_prev := ?a, rec_next := ?b\<rparr>"
    using t by (subst same) (auto simp: link_around_other subst_start_def A(1,2))
  moreover have "rec_open_qty (?h x) = rec_open_qty (h x)" if "x \<in> set (as @ bs)" for x
    using that A(10,11) t by (subst same) (auto simp: link_around_open subst_start_def)
  note T = queue_without [OF q this]
  ultimately show ?thesis
    using A T t f by (cases "as = []"; cases "bs = []")
      (simp_all add: queue_of_def chain_append subst_level_def Let_def A(1,2) q [unfolded queue_of_def] first_or_eq last_or_eq algebra_simps)
qed

lemma subst_core:
  assumes "queue_of h lvl (as @ s # bs)" "t \<notin> set (as @ s # bs)"
  shows "core (subst_heap h s t f x) = (if x = s then closed (h s) else if x = t then core (f (h t)) else core (h x))"
  by (simp add: subst_heap_eq [OF assms] link_around_core subst_start_def)

lemma subst_outside:
  assumes "queue_of h lvl (as @ s # bs)" "t \<notin> set (as @ s # bs)" "x \<notin> set (as @ s # bs)" "x \<noteq> t"
  shows "subst_heap h s t f x = h x"
  using assms(3,4) by (simp add: subst_heap_eq [OF assms(1,2)] link_around_other subst_start_def)

subsection \<open>What an append leaves alone\<close>

lemma append_core: "core (append_heap h lvl s f x) = core (if x = s then f (h s) else h x)"
  by (simp add: append_heap_def Let_def)

lemma append_outside:
  assumes "queue_of h lvl qs" "x \<notin> set qs" "x \<noteq> s"
  shows "append_heap h lvl s f x = h x"
proof (cases "qs = []")
  case False
  with assms last_or_in [OF False, of kInvalidSlot] have "x \<noteq> lvl_tail lvl"
    by (auto simp: queue_of_def)
  with assms show ?thesis by (simp add: append_heap_def Let_def)
qed (use assms in \<open>simp add: append_heap_def queue_of_def\<close>)

end
