(* ===== verification/Book_Invariant.thy ===== *)
theory Book_Invariant
  imports Level_Queue
begin

text \<open>
  The order book as a collection of queues. \<open>book_inv p ob q\<close> says that the book \<open>ob\<close> over the
  pool \<open>p\<close> holds, on every level of either side, the queue of slots \<open>q\<close>: links, counts and totals
  of the level, the fields of the resting records, the occupancy bitmap and the cached best
  index. Resting, removing and replacing are shown to be the list operations on \<open>q\<close>.
\<close>

section \<open>Sides\<close>

lemma set_level_at_simps [simp]:
  "levels (set_level_at ob sd i v) sd' = (if sd' = sd then vec_set (levels ob sd) (unat i) v else levels ob sd')"
  "bitmap (set_level_at ob sd i v) sd' = bitmap ob sd'" "best_index (set_level_at ob sd i v) sd' = best_index ob sd'"
  "ob_ladder (set_level_at ob sd i v) = ob_ladder ob" "ob_instrument_id (set_level_at ob sd i v) = ob_instrument_id ob"
  by (cases sd; cases sd'; simp add: set_level_at_def)+

lemma set_bitmap_simps [simp]:
  "levels (set_bitmap ob sd v) sd' = levels ob sd'"
  "bitmap (set_bitmap ob sd v) sd' = (if sd' = sd then v else bitmap ob sd')"
  "best_index (set_bitmap ob sd v) sd' = best_index ob sd'"
  "ob_ladder (set_bitmap ob sd v) = ob_ladder ob" "ob_instrument_id (set_bitmap ob sd v) = ob_instrument_id ob"
  by (cases sd; cases sd'; simp)+

lemma improve_best_simps [simp]:
  "levels (improve_best ob sd i) sd' = levels ob sd'" "bitmap (improve_best ob sd i) sd' = bitmap ob sd'"
  "best_index (improve_best ob sd i) sd' =
    (if sd' = sd \<and> (best_index ob sd < 0 \<or> before sd (unat i) (nat (best_index ob sd))) then int (unat i) else best_index ob sd')"
  "ob_ladder (improve_best ob sd i) = ob_ladder ob" "ob_instrument_id (improve_best ob sd i) = ob_instrument_id ob"
  by (cases sd; cases sd'; auto)+

lemma relocate_best_simps [simp]:
  "levels (relocate_best ob sd i) sd' = levels ob sd'" "bitmap (relocate_best ob sd i) sd' = bitmap ob sd'"
  "best_index (relocate_best ob sd i) sd' =
    (if sd' = sd \<and> best_index ob sd = int (unat i) then bitset.next_best sd (bitmap ob sd) (best_index ob sd) else best_index ob sd')"
  "ob_ladder (relocate_best ob sd i) = ob_ladder ob" "ob_instrument_id (relocate_best ob sd i) = ob_instrument_id ob"
  by (cases sd; cases sd'; auto)+

lemma next_index_eq: "next_index ob sd after = bitset.next_best sd (bitmap ob sd) after"
  by (cases sd) simp_all

lemma vlen_bitset [simp]: "vlen (bitset_set b i) = vlen b" "vlen (bitset_clear b i) = vlen b"
  using bitset.capacity_add [of b i] bitset.capacity_del [of b i] by simp_all

section \<open>The operations on the heap of records\<close>

abbreviation resting_fields :: "side \<Rightarrow> price \<Rightarrow> 32 word \<Rightarrow> order_record \<Rightarrow> order_record" where
  "resting_fields sd price idx r \<equiv>
    r\<lparr>rec_side := sd, rec_price := price, rec_level_index := idx, rec_is_open := True\<rparr>"

lemma add_resting_eq:
  assumes p: "pool_ok p" "unat s < op_size p"
    and idx: "idx = word_of_int (ob_price_to_index ob price)" and lvl: "lvl = level_at ob sd idx"
    and tail: "lvl_tail lvl \<noteq> kInvalidSlot \<longrightarrow> unat (lvl_tail lvl) < op_size p"
    and lvl': "lvl' = append_level lvl s (rec_open_qty (op_get p s))" and ob1: "ob1 = set_level_at ob sd idx lvl'"
  shows "op_get (fst (add_resting p ob s sd price)) = append_heap (op_get p) lvl s (resting_fields sd price idx)"
    and "pool_ok (fst (add_resting p ob s sd price))" "op_size (fst (add_resting p ob s sd price)) = op_size p"
    and "snd (add_resting p ob s sd price) =
      improve_best (if lvl_order_count lvl' = 1 then set_bitmap ob1 sd (bitset_set (bitmap ob sd) idx) else ob1) sd idx"
proof -
  let ?f = "resting_fields sd price idx"
  have open_s: "rec_open_qty (append_heap (op_get p) lvl s ?f s) = rec_open_qty (op_get p s)"
    by (simp add: append_heap_def Let_def fun_upd_same)
  have "add_resting p ob s sd price =
    (let p1 = op_upd (op_upd p s ?f) s (\<lambda>r. r\<lparr>rec_prev := lvl_tail lvl, rec_next := kInvalidSlot\<rparr>);
         p2 = (if lvl_tail lvl \<noteq> kInvalidSlot then op_upd p1 (lvl_tail lvl) (\<lambda>r. r\<lparr>rec_next := s\<rparr>) else p1)
     in (p2, improve_best (if lvl_order_count lvl' = 1
          then set_bitmap ob1 sd (bitset_set (bitmap ob sd) idx) else ob1) sd idx))" (is "_ = ?R")
    using p tail unfolding add_resting_def Let_def idx [symmetric] lvl [symmetric] lvl' ob1
    by (cases "lvl_tail lvl = kInvalidSlot") (simp_all add: append_level_def pool_upd)
  moreover have "op_get (fst ?R) = append_heap (op_get p) lvl s ?f" "pool_ok (fst ?R)" "op_size (fst ?R) = op_size p"
    using p tail by (simp_all add: Let_def pool_upd append_heap_def set_next_def)
  ultimately show "op_get (fst (add_resting p ob s sd price)) = append_heap (op_get p) lvl s ?f"
    "pool_ok (fst (add_resting p ob s sd price))" "op_size (fst (add_resting p ob s sd price)) = op_size p"
    "snd (add_resting p ob s sd price) =
      improve_best (if lvl_order_count lvl' = 1 then set_bitmap ob1 sd (bitset_set (bitmap ob sd) idx) else ob1) sd idx"
    by (simp_all add: Let_def)
qed

lemma remove_resting_eq:
  assumes p: "pool_ok p" "unat s < op_size p"
    and h: "h = op_get p" and sd: "sd = rec_side (h s)" and idx: "idx = rec_level_index (h s)" and lvl: "lvl = level_at ob sd idx"
    and prev: "rec_prev (h s) \<noteq> kInvalidSlot \<longrightarrow> unat (rec_prev (h s)) < op_size p" "rec_prev (h s) \<noteq> s"
    and nxt: "rec_next (h s) \<noteq> kInvalidSlot \<longrightarrow> unat (rec_next (h s)) < op_size p" "rec_next (h s) \<noteq> s"
    and lvl': "lvl' = unlink_level h lvl s" and ob1: "ob1 = set_level_at ob sd idx lvl'"
  shows "op_get (fst (remove_resting p ob s)) = unlink_heap h s"
    and "pool_ok (fst (remove_resting p ob s))" "op_size (fst (remove_resting p ob s)) = op_size p"
    and "snd (remove_resting p ob s) = (if lvl_order_count lvl' = 0
      then relocate_best (set_bitmap ob1 sd (bitset_clear (bitmap ob sd) idx)) sd idx else ob1)"
proof -
  define p1 where "p1 = (if rec_prev (h s) \<noteq> kInvalidSlot
    then op_upd p (rec_prev (h s)) (\<lambda>r. r\<lparr>rec_next := rec_next (h s)\<rparr>) else p)"
  have g1: "op_get p1 = (if rec_prev (h s) \<noteq> kInvalidSlot then set_next h (rec_prev (h s)) (rec_next (h s)) else h)"
    and ok1: "pool_ok p1" "op_size p1 = op_size p"
    using p prev by (simp_all add: p1_def h pool_upd set_next_def)
  have s1: "op_get p1 s = h s" using prev(2) by (simp add: g1)
  define p2 where "p2 = (if rec_next (h s) \<noteq> kInvalidSlot
    then op_upd p1 (rec_next (h s)) (\<lambda>r. r\<lparr>rec_prev := rec_prev (h s)\<rparr>) else p1)"
  have g2: "op_get p2 = (if rec_next (h s) \<noteq> kInvalidSlot then set_prev (op_get p1) (rec_next (h s)) (rec_prev (h s)) else op_get p1)"
    and ok2: "pool_ok p2" "op_size p2 = op_size p"
    using ok1 nxt by (simp_all add: p2_def pool_upd set_prev_def)
  have s2: "op_get p2 s = h s" using nxt(2) by (simp add: g2 s1)
  have "remove_resting p ob s = (let p = op_upd p2 s closed
      in if lvl_order_count lvl' = 0
         then (p, relocate_best (set_bitmap ob1 sd (bitset_clear (bitmap ob sd) idx)) sd idx) else (p, ob1))"
    using s1 s2
    unfolding remove_resting_def Let_def h [symmetric] sd [symmetric] idx [symmetric] lvl [symmetric] p2_def p1_def lvl' ob1
    by (cases "rec_prev (h s) = kInvalidSlot"; cases "rec_next (h s) = kInvalidSlot")
      (simp_all add: h [symmetric] unlink_level_def closed_def [abs_def])
  moreover have "op_get (op_upd p2 s closed) = unlink_heap h s"
    using p(2) ok2 prev(2) nxt(2)
    by (cases "rec_prev (h s) = kInvalidSlot"; cases "rec_next (h s) = kInvalidSlot")
      (simp_all add: pool_upd g2 g1 unlink_heap_def Let_def)
  ultimately show "op_get (fst (remove_resting p ob s)) = unlink_heap h s"
    "pool_ok (fst (remove_resting p ob s))" "op_size (fst (remove_resting p ob s)) = op_size p"
    "snd (remove_resting p ob s) = (if lvl_order_count lvl' = 0
      then relocate_best (set_bitmap ob1 sd (bitset_clear (bitmap ob sd) idx)) sd idx else ob1)"
    using ok2 by (simp_all add: Let_def pool_upd)
qed

lemma replace_in_place_eq:
  assumes p: "pool_ok p" "unat s < op_size p" "unat t < op_size p" "s \<noteq> t"
    and h: "h = op_get p" and sd: "sd = rec_side (h s)" and idx: "idx = rec_level_index (h s)" and lvl: "lvl = level_at ob sd idx"
    and prev: "rec_prev (h s) \<noteq> kInvalidSlot \<longrightarrow> unat (rec_prev (h s)) < op_size p" "rec_prev (h s) \<noteq> s" "rec_prev (h s) \<noteq> t"
    and nxt: "rec_next (h s) \<noteq> kInvalidSlot \<longrightarrow> unat (rec_next (h s)) < op_size p" "rec_next (h s) \<noteq> s" "rec_next (h s) \<noteq> t"
  shows "op_get (fst (replace_in_place p ob s t)) = subst_heap h s t (resting_fields sd (rec_price (h s)) idx)"
    and "pool_ok (fst (replace_in_place p ob s t))" "op_size (fst (replace_in_place p ob s t)) = op_size p"
    and "snd (replace_in_place p ob s t) = set_level_at ob sd idx (subst_level h lvl s t (rec_open_qty (h t)))"
proof -
  let ?f = "resting_fields sd (rec_price (h s)) idx"
  define p0 where "p0 = op_upd p t (\<lambda>r. (?f r)\<lparr>rec_prev := rec_prev (h s), rec_next := rec_next (h s)\<rparr>)"
  have g0: "op_get p0 = subst_start h s t ?f" and ok0: "pool_ok p0" "op_size p0 = op_size p"
    using p by (simp_all add: p0_def h pool_upd subst_start_def)
  have s0: "op_get p0 s = h s" using p(4) by (simp add: g0 subst_start_def)
  define p1 where "p1 = (if rec_prev (h s) \<noteq> kInvalidSlot then op_upd p0 (rec_prev (h s)) (\<lambda>r. r\<lparr>rec_next := t\<rparr>) else p0)"
  have g1: "op_get p1 = (if rec_prev (h s) \<noteq> kInvalidSlot then set_next (op_get p0) (rec_prev (h s)) t else op_get p0)"
    and ok1: "pool_ok p1" "op_size p1 = op_size p"
    using ok0 prev by (simp_all add: p1_def pool_upd set_next_def)
  have s1: "op_get p1 s = h s" using prev(2) by (simp add: g1 s0)
  define p2 where "p2 = (if rec_next (h s) \<noteq> kInvalidSlot then op_upd p1 (rec_next (h s)) (\<lambda>r. r\<lparr>rec_prev := t\<rparr>) else p1)"
  have g2: "op_get p2 = (if rec_next (h s) \<noteq> kInvalidSlot then set_prev (op_get p1) (rec_next (h s)) t else op_get p1)"
    and ok2: "pool_ok p2" "op_size p2 = op_size p"
    using ok1 nxt by (simp_all add: p2_def pool_upd set_prev_def)
  have s2: "op_get p2 s = h s" using nxt(2) by (simp add: g2 s1)
  have t2: "rec_open_qty (op_get p2 t) = rec_open_qty (h t)"
    using prev(3) nxt(3) by (simp add: g2 g1 g0 subst_start_def)
  have "replace_in_place p ob s t = (op_upd p2 s closed, set_level_at ob sd idx (subst_level h lvl s t (rec_open_qty (h t))))"
    using s0 s1 s2 t2
    unfolding replace_in_place_def Let_def h [symmetric] sd [symmetric] idx [symmetric] lvl [symmetric]
      p0_def [symmetric] p2_def p1_def
    by (cases "rec_prev (h s) = kInvalidSlot"; cases "rec_next (h s) = kInvalidSlot")
      (simp_all add: subst_level_def closed_def [abs_def])
  moreover have "op_get (op_upd p2 s closed) = subst_heap h s t ?f"
    using p(2) ok2 prev(2) nxt(2) s0 [unfolded g0]
    by (cases "rec_prev (h s) = kInvalidSlot"; cases "rec_next (h s) = kInvalidSlot")
      (simp_all add: pool_upd g2 g1 g0 subst_heap_def Let_def)
  ultimately show "op_get (fst (replace_in_place p ob s t)) = subst_heap h s t ?f"
    "pool_ok (fst (replace_in_place p ob s t))" "op_size (fst (replace_in_place p ob s t)) = op_size p"
    "snd (replace_in_place p ob s t) = set_level_at ob sd idx (subst_level h lvl s t (rec_open_qty (h t)))"
    using ok2 by (simp_all add: pool_upd)
qed

section \<open>The invariant\<close>

type_synonym queues = "side \<Rightarrow> nat \<Rightarrow> slot list"

definition occupied :: "queues \<Rightarrow> side \<Rightarrow> nat set" where
  "occupied q sd = {i. q sd i \<noteq> []}"

text \<open>The record in slot \<open>s\<close> rests on level \<open>i\<close> of side \<open>sd\<close>.\<close>

definition rests :: "heap \<Rightarrow> order_book \<Rightarrow> side \<Rightarrow> nat \<Rightarrow> slot \<Rightarrow> bool" where
  "rests h ob sd i s \<longleftrightarrow> rec_side (h s) = sd \<and> rec_level_index (h s) = word_of_nat i
    \<and> rec_price (h s) = ob_index_to_price ob (word_of_nat i)
    \<and> rec_instrument_id (h s) = ob_instrument_id ob \<and> rec_is_open (h s)"

definition levels_inv :: "order_pool \<Rightarrow> order_book \<Rightarrow> queues \<Rightarrow> bool" where
  "levels_inv p ob q \<longleftrightarrow>
    (\<forall>sd. vlen (levels ob sd) = ladder_size (ob_ladder ob)
      \<and> ladder_size (ob_ladder ob) \<le> bit_capacity (bitmap ob sd)
      \<and> bits_of (bitmap ob sd) = occupied q sd \<and> best_index_of sd (occupied q sd) (best_index ob sd))
    \<and> (\<forall>sd i. if i < ladder_size (ob_ladder ob) then queue_of (op_get p) (vat (levels ob sd) i) (q sd i) else q sd i = [])
    \<and> (\<forall>sd i. \<forall>s \<in> set (q sd i). unat s < op_size p \<and> rests (op_get p) ob sd i s)"

definition book_inv :: "order_pool \<Rightarrow> order_book \<Rightarrow> queues \<Rightarrow> bool" where
  "book_inv p ob q \<longleftrightarrow> pool_ok p \<and> ladder_ok (ob_ladder ob) \<and> levels_inv p ob q"

lemma book_invD:
  assumes "book_inv p ob q"
  shows "pool_ok p" "ladder_ok (ob_ladder ob)"
    and "vlen (levels ob sd) = ladder_size (ob_ladder ob)" "ladder_size (ob_ladder ob) \<le> bit_capacity (bitmap ob sd)"
    and "bits_of (bitmap ob sd) = occupied q sd" "best_index_of sd (occupied q sd) (best_index ob sd)"
    and "i < ladder_size (ob_ladder ob) \<Longrightarrow> queue_of (op_get p) (vat (levels ob sd) i) (q sd i)"
    and "q sd i \<noteq> [] \<Longrightarrow> i < ladder_size (ob_ladder ob)"
    and "s \<in> set (q sd i) \<Longrightarrow> unat s < op_size p" "s \<in> set (q sd i) \<Longrightarrow> rests (op_get p) ob sd i s"
proof -
  from assms have *: "pool_ok p" "ladder_ok (ob_ladder ob)" "levels_inv p ob q" by (simp_all add: book_inv_def)
  then show "pool_ok p" "ladder_ok (ob_ladder ob)" by simp_all
  from *(3) show "vlen (levels ob sd) = ladder_size (ob_ladder ob)" "ladder_size (ob_ladder ob) \<le> bit_capacity (bitmap ob sd)"
    "bits_of (bitmap ob sd) = occupied q sd" "best_index_of sd (occupied q sd) (best_index ob sd)"
    "i < ladder_size (ob_ladder ob) \<Longrightarrow> queue_of (op_get p) (vat (levels ob sd) i) (q sd i)"
    unfolding levels_inv_def by presburger+
  from *(3) show "s \<in> set (q sd i) \<Longrightarrow> unat s < op_size p" "s \<in> set (q sd i) \<Longrightarrow> rests (op_get p) ob sd i s"
    unfolding levels_inv_def by blast+
  from *(3) show "q sd i \<noteq> [] \<Longrightarrow> i < ladder_size (ob_ladder ob)"
    unfolding levels_inv_def by metis
qed

lemma ladder_size_less: "ladder_size l < 2 ^ 32"
  using unsigned_less [of "pl_total_count l"] by simp

lemma unat_level_index: "i < ladder_size l \<Longrightarrow> unat (word_of_nat i :: 32 word) = i"
  using ladder_size_less [of l] by (intro unat_word_of_nat) simp

lemma level_index_inj:
  "i < ladder_size l \<Longrightarrow> j < ladder_size l' \<Longrightarrow> (word_of_nat i :: 32 word) = word_of_nat j \<longleftrightarrow> i = j"
  by (metis unat_level_index)

text \<open>A slot is in at most one queue of a book, and its record says which.\<close>

lemma queue_unique:
  assumes inv: "book_inv p ob q" and s: "s \<in> set (q sd i)" and s': "s \<in> set (q sd' j)"
  shows "sd' = sd" "j = i"
proof -
  from s s' have ne: "q sd i \<noteq> []" "q sd' j \<noteq> []" by auto
  note i = book_invD(8) [OF inv ne(1)] book_invD(8) [OF inv ne(2)]
  from book_invD(10) [OF inv s] book_invD(10) [OF inv s'] i
  show "sd' = sd" "j = i" by (auto simp: rests_def level_index_inj)
qed

lemma queue_place:
  assumes inv: "book_inv p ob q" and s: "s \<in> set (q sd i)"
  shows "rec_side (op_get p s) = sd" "unat (rec_level_index (op_get p s)) = i" "i < ladder_size (ob_ladder ob)"
    and "rec_is_open (op_get p s)" "rec_instrument_id (op_get p s) = ob_instrument_id ob" "unat s < op_size p"
    and "rec_price (op_get p s) = ob_index_to_price ob (word_of_nat i)" "rec_level_index (op_get p s) = word_of_nat i"
proof -
  from s have "q sd i \<noteq> []" by auto
  note i = book_invD(8) [OF inv this]
  with book_invD(10) [OF inv s] show "rec_side (op_get p s) = sd" "unat (rec_level_index (op_get p s)) = i"
    "i < ladder_size (ob_ladder ob)" "rec_is_open (op_get p s)" "rec_instrument_id (op_get p s) = ob_instrument_id ob"
    "rec_price (op_get p s) = ob_index_to_price ob (word_of_nat i)" "rec_level_index (op_get p s) = word_of_nat i"
    by (simp_all add: rests_def unat_level_index)
  show "unat s < op_size p" by (rule book_invD(9) [OF inv s])
qed

text \<open>
  One level changes: its queue becomes \<open>qs\<close>, the bitmap and the best index follow, and the
  records of every other queue stay as they are.
\<close>

definition with_queue :: "queues \<Rightarrow> side \<Rightarrow> nat \<Rightarrow> slot list \<Rightarrow> queues" where
  "with_queue q sd i qs = q(sd := (q sd)(i := qs))"

lemma with_queue_simps:
  "with_queue q sd i qs sd' j = (if sd' = sd \<and> j = i then qs else q sd' j)"
  by (simp add: with_queue_def)

lemma occupied_with_queue:
  "occupied (with_queue q sd i qs) sd' =
    (if sd' = sd then if qs = [] then occupied q sd - {i} else insert i (occupied q sd) else occupied q sd')"
  by (auto simp: occupied_def with_queue_simps)

lemma level_update:
  assumes inv: "book_inv p ob q" and i: "unat idx < ladder_size (ob_ladder ob)"
    and p': "pool_ok p'" "op_size p \<le> op_size p'"
    and same: "ob_ladder ob' = ob_ladder ob" "ob_instrument_id ob' = ob_instrument_id ob"
      "\<And>sd'. levels ob' sd' = (if sd' = sd then vec_set (levels ob sd) (unat idx) lvl' else levels ob sd')"
      "\<And>sd'. sd' \<noteq> sd \<Longrightarrow> bitmap ob' sd' = bitmap ob sd' \<and> best_index ob' sd' = best_index ob sd'"
      "bit_capacity (bitmap ob' sd) = bit_capacity (bitmap ob sd)"
    and q': "queue_of (op_get p') lvl' qs" "\<And>s. s \<in> set qs \<Longrightarrow> unat s < op_size p' \<and> rests (op_get p') ob sd (unat idx) s"
    and keep: "\<And>sd' j s. s \<in> set (q sd' j) \<Longrightarrow> (sd', j) \<noteq> (sd, unat idx) \<Longrightarrow> op_get p' s = op_get p s"
    and bits: "bits_of (bitmap ob' sd) = occupied (with_queue q sd (unat idx) qs) sd"
    and best: "best_index_of sd (occupied (with_queue q sd (unat idx) qs) sd) (best_index ob' sd)"
  shows "book_inv p' ob' (with_queue q sd (unat idx) qs)"
proof -
  let ?q = "with_queue q sd (unat idx) qs"
  note I = book_invD [OF inv]
  have rests_same: "rests h ob' = rests h ob" for h
    by (intro ext) (simp add: rests_def same ob_index_to_price_def)
  have side: "vlen (levels ob' sd') = ladder_size (ob_ladder ob') \<and> ladder_size (ob_ladder ob') \<le> bit_capacity (bitmap ob' sd')
      \<and> bits_of (bitmap ob' sd') = occupied ?q sd' \<and> best_index_of sd' (occupied ?q sd') (best_index ob' sd')" for sd'
  proof (cases "sd' = sd")
    case True
    with I(3,4) same bits best show ?thesis by simp
  next
    case False
    with I(3,4,5,6) [of sd'] same show ?thesis by (simp add: occupied_with_queue)
  qed
  have queue: "if j < ladder_size (ob_ladder ob') then queue_of (op_get p') (vat (levels ob' sd') j) (?q sd' j) else ?q sd' j = []" for sd' j
  proof (cases "sd' = sd \<and> j = unat idx")
    case True
    with i q' same show ?thesis by (simp add: with_queue_simps)
  next
    case False
    then have "op_get p' s = op_get p s" if "s \<in> set (q sd' j)" for s using keep [OF that] by auto
    note cong = queue_of_cong [OF this]
    from False I(7) [of j sd'] I(8) [of sd' j] show ?thesis
      by (auto simp: with_queue_simps same cong)
  qed
  have mem: "unat s < op_size p' \<and> rests (op_get p') ob' sd' j s" if "s \<in> set (?q sd' j)" for sd' j s
  proof (cases "sd' = sd \<and> j = unat idx")
    case True
    with q' that show ?thesis by (simp add: with_queue_simps rests_same)
  next
    case False
    with that have s: "s \<in> set (q sd' j)" by (simp only: with_queue_simps if_False)
    with keep [OF s] False have "op_get p' s = op_get p s" by auto
    with I(9,10) [OF s] p'(2) show ?thesis unfolding rests_same by (simp add: rests_def)
  qed
  show ?thesis
    unfolding book_inv_def levels_inv_def
    using side queue mem p'(1) I(2) same(1) by (intro conjI allI ballI) simp_all
qed

section \<open>The operations preserve the invariant\<close>

lemma count_one_iff: "queue_of h lvl qs \<Longrightarrow> lvl_order_count lvl = 1 \<longleftrightarrow> length qs = 1"
  using queue_length(2) [of h lvl qs] by (auto simp: word_unat_eq_iff)

lemma count_zero_iff: "queue_of h lvl qs \<Longrightarrow> lvl_order_count lvl = 0 \<longleftrightarrow> qs = []"
  using queue_length(2) [of h lvl qs] by (auto simp: word_unat_eq_iff)

lemma queue_end_in_range:
  assumes inv: "book_inv p ob q" and q: "queue_of (op_get p) lvl (q sd i)"
  shows "lvl_tail lvl \<noteq> kInvalidSlot \<longrightarrow> unat (lvl_tail lvl) < op_size p"
proof
  assume ne: "lvl_tail lvl \<noteq> kInvalidSlot"
  with q have "q sd i \<noteq> []" by (auto simp: queue_of_def)
  then have "last_or kInvalidSlot (q sd i) \<in> set (q sd i)" by (rule last_or_in)
  with q show "unat (lvl_tail lvl) < op_size p" using book_invD(9) [OF inv] by (simp add: queue_of_def)
qed

lemma word_of_nat_unat: "word_of_nat (unat i) = i" for i :: "'a::len word"
  by (simp add: word_unat_eq_iff unat_word_of_nat)

lemma band_index:
  assumes "ladder_ok (ob_ladder ob)" "in_band (ob_ladder ob) price"
    and "idx = word_of_int (ob_price_to_index ob price)"
  shows "unat idx < ladder_size (ob_ladder ob)" "ob_index_to_price ob idx = price"
  using ladder.word_index(2) [OF assms(1,2)] ladder.from_to_index [OF assms(1,2)] assms(3)
  by (simp_all add: ob_price_to_index_def ob_index_to_price_def)

lemma add_resting_inv:
  assumes inv: "book_inv p ob q" and s: "unat s < op_size p" "s \<noteq> kInvalidSlot" "\<And>sd i. s \<notin> set (q sd i)"
    and price: "in_band (ob_ladder ob) price" and instr: "rec_instrument_id (op_get p s) = ob_instrument_id ob"
    and idx: "idx = word_of_int (ob_price_to_index ob price)" and res: "add_resting p ob s sd price = (p', ob')"
  shows "book_inv p' ob' (with_queue q sd (unat idx) (q sd (unat idx) @ [s]))"
    and "op_size p' = op_size p" "ob_ladder ob' = ob_ladder ob" "ob_instrument_id ob' = ob_instrument_id ob"
    and "core (op_get p' x) = core (if x = s then resting_fields sd price idx (op_get p s) else op_get p x)"
    and "x \<notin> set (q sd (unat idx)) \<Longrightarrow> x \<noteq> s \<Longrightarrow> op_get p' x = op_get p x"
proof -
  note I = book_invD [OF inv]
  note i = band_index [OF I(2) price idx]
  define lvl where "lvl = level_at ob sd idx"
  define lvl' where "lvl' = append_level lvl s (rec_open_qty (op_get p s))"
  define ob1 where "ob1 = set_level_at ob sd idx lvl'"
  let ?qs = "q sd (unat idx)" and ?h = "append_heap (op_get p) lvl s (resting_fields sd price idx)"
  have q: "queue_of (op_get p) lvl ?qs" using I(7) [OF i(1)] by (simp add: lvl_def level_at_def)
  note R = add_resting_eq [OF I(1) s(1) idx lvl_def queue_end_in_range [OF inv q] lvl'_def ob1_def, unfolded res fst_conv snd_conv]
  have q': "queue_of ?h lvl' (?qs @ [s])"
    unfolding lvl'_def by (rule append_queue [OF q s(3) s(2)]) simp
  have one: "lvl_order_count lvl' = 1 \<longleftrightarrow> ?qs = []" using count_one_iff [OF q'] by simp
  have ob': "levels ob' sd' = (if sd' = sd then vec_set (levels ob sd) (unat idx) lvl' else levels ob sd')"
    "sd' \<noteq> sd \<Longrightarrow> bitmap ob' sd' = bitmap ob sd' \<and> best_index ob' sd' = best_index ob sd'"
    "bitmap ob' sd = (if ?qs = [] then bitset_set (bitmap ob sd) idx else bitmap ob sd)"
    "best_index ob' sd = (if best_index ob sd < 0 \<or> before sd (unat idx) (nat (best_index ob sd)) then int (unat idx) else best_index ob sd)"
    for sd' by (auto simp: R(4) one ob1_def)
  show lad: "ob_ladder ob' = ob_ladder ob" "ob_instrument_id ob' = ob_instrument_id ob"
    by (simp_all add: R(4) ob1_def)
  show "op_size p' = op_size p" by (rule R(3))
  show "core (op_get p' x) = core (if x = s then resting_fields sd price idx (op_get p s) else op_get p x)" for x
    by (simp only: R(1) append_core)
  show other: "op_get p' x = op_get p x" if "x \<notin> set ?qs" "x \<noteq> s" for x
    unfolding R(1) by (rule append_outside [OF q that])
  have cap: "unat idx < bit_capacity (bitmap ob sd)" using i(1) I(4) [of sd] by simp
  note add = bitset.members_add [OF _ cap] bitset.best_after_add [OF _ cap, of sd "best_index ob sd"]
  have occ: "occupied (with_queue q sd (unat idx) (?qs @ [s])) sd = insert (unat idx) (bits_of (bitmap ob sd))"
    by (simp add: occupied_with_queue I(5))
  show "book_inv p' ob' (with_queue q sd (unat idx) (?qs @ [s]))"
  proof (rule level_update [OF inv i(1) R(2) _ lad ob'(1,2)])
    show "op_size p \<le> op_size p'" by (simp add: R(3))
    show "bit_capacity (bitmap ob' sd) = bit_capacity (bitmap ob sd)" by (simp add: ob'(3))
    show "queue_of (op_get p') lvl' (?qs @ [s])" unfolding R(1) by (rule q')
    show "bits_of (bitmap ob' sd) = occupied (with_queue q sd (unat idx) (?qs @ [s])) sd"
      unfolding occ ob'(3) using add(1) I(5) [of sd] by (auto simp: occupied_def)
    show "best_index_of sd (occupied (with_queue q sd (unat idx) (?qs @ [s])) sd) (best_index ob' sd)"
      unfolding occ ob'(4) using add I(5,6) [of sd] by simp
  next
    fix x assume "x \<in> set (?qs @ [s])"
    then show "unat x < op_size p' \<and> rests (op_get p') ob sd (unat idx) x"
    proof (cases "x = s")
      case True
      have "core (op_get p' s) = core (resting_fields sd price idx (op_get p s))" unfolding R(1) append_core by simp
      note C = core_eqD [OF this]
      from True show ?thesis using s(1) i(2) instr by (simp add: R(3) rests_def C word_of_nat_unat)
    next
      case False
      with \<open>x \<in> set (?qs @ [s])\<close> have x: "x \<in> set ?qs" by simp
      have "core (op_get p' x) = core (op_get p x)" unfolding R(1) append_core using False by simp
      note C = core_eqD [OF this]
      from I(9,10) [OF x] show ?thesis by (simp add: R(3) rests_def C)
    qed
  next
    fix sd' j x assume x: "x \<in> set (q sd' j)" and ne: "(sd', j) \<noteq> (sd, unat idx)"
    have "x \<notin> set ?qs" using queue_unique [OF inv _ x, of sd "unat idx"] ne by auto
    moreover have "x \<noteq> s" using x s(3) by auto
    ultimately show "op_get p' x = op_get p x" by (rule other)
  qed
qed

lemma neighbours_in_range:
  assumes inv: "book_inv p ob q" and q: "queue_of (op_get p) lvl (q sd i)" "q sd i = as @ s # bs"
  shows "rec_prev (op_get p s) \<noteq> kInvalidSlot \<longrightarrow> unat (rec_prev (op_get p s)) < op_size p"
    and "rec_next (op_get p s) \<noteq> kInvalidSlot \<longrightarrow> unat (rec_next (op_get p s)) < op_size p"
    and "rec_prev (op_get p s) \<noteq> s" "rec_next (op_get p s) \<noteq> s"
    and "t \<notin> set (q sd i) \<Longrightarrow> t \<noteq> kInvalidSlot \<Longrightarrow> rec_prev (op_get p s) \<noteq> t \<and> rec_next (op_get p s) \<noteq> t"
proof -
  note A = queue_around [OF q(1) [unfolded q(2)]]
  have prev: "rec_prev (op_get p s) = kInvalidSlot \<or> rec_prev (op_get p s) \<in> set as"
    using A(1,5) last_or_in [of as kInvalidSlot] by metis
  have nxt: "rec_next (op_get p s) = kInvalidSlot \<or> rec_next (op_get p s) \<in> set bs"
    using A(2,6) first_or_in [of bs kInvalidSlot] by metis
  show "rec_prev (op_get p s) \<noteq> kInvalidSlot \<longrightarrow> unat (rec_prev (op_get p s)) < op_size p"
    "rec_next (op_get p s) \<noteq> kInvalidSlot \<longrightarrow> unat (rec_next (op_get p s)) < op_size p"
    using prev nxt q(2) by (auto intro!: book_invD(9) [OF inv, of _ sd i])
  show "rec_prev (op_get p s) \<noteq> s" "rec_next (op_get p s) \<noteq> s"
    using prev nxt A(10,11,14) by auto
  show "t \<notin> set (q sd i) \<Longrightarrow> t \<noteq> kInvalidSlot \<Longrightarrow> rec_prev (op_get p s) \<noteq> t \<and> rec_next (op_get p s) \<noteq> t"
    using prev nxt q(2) by auto
qed

lemma remove_resting_inv:
  assumes inv: "book_inv p ob q" and s: "q sd i = as @ s # bs" and res: "remove_resting p ob s = (p', ob')"
  shows "book_inv p' ob' (with_queue q sd i (as @ bs))"
    and "op_size p' = op_size p" "ob_ladder ob' = ob_ladder ob" "ob_instrument_id ob' = ob_instrument_id ob"
    and "core (op_get p' x) = (if x = s then closed (op_get p s) else core (op_get p x))"
    and "x \<notin> set (q sd i) \<Longrightarrow> op_get p' x = op_get p x"
proof -
  note I = book_invD [OF inv]
  have "s \<in> set (q sd i)" using s by simp
  note P = queue_place [OF inv this]
  define idx where "idx = rec_level_index (op_get p s)"
  have i: "unat idx = i" using P(2) by (simp add: idx_def)
  define lvl where "lvl = level_at ob sd idx"
  define lvl' where "lvl' = unlink_level (op_get p) lvl s"
  define ob1 where "ob1 = set_level_at ob sd idx lvl'"
  have q: "queue_of (op_get p) lvl (q sd i)" using I(7) [OF P(3)] by (simp add: lvl_def level_at_def i)
  note q1 = q [unfolded s]
  note N = neighbours_in_range [OF inv q s]
  note R = remove_resting_eq [OF I(1) P(6) refl P(1) [symmetric] idx_def lvl_def N(1,3,2,4) lvl'_def ob1_def, unfolded res fst_conv snd_conv]
  have q': "queue_of (unlink_heap (op_get p) s) lvl' (as @ bs)"
    unfolding lvl'_def by (rule unlink_queue [OF q1])
  note zero = count_zero_iff [OF q']
  have ob': "levels ob' sd' = (if sd' = sd then vec_set (levels ob sd) (unat idx) lvl' else levels ob sd')"
    "sd' \<noteq> sd \<Longrightarrow> bitmap ob' sd' = bitmap ob sd' \<and> best_index ob' sd' = best_index ob sd'"
    "bitmap ob' sd = (if as @ bs = [] then bitset_clear (bitmap ob sd) idx else bitmap ob sd)"
    "best_index ob' sd = (if as @ bs = [] \<and> best_index ob sd = int (unat idx)
       then bitset.next_best sd (bitset_clear (bitmap ob sd) idx) (best_index ob sd) else best_index ob sd)"
    for sd' by (auto simp: R(4) zero ob1_def)
  show lad: "ob_ladder ob' = ob_ladder ob" "ob_instrument_id ob' = ob_instrument_id ob"
    by (simp_all add: R(4) ob1_def)
  show "op_size p' = op_size p" by (rule R(3))
  show core: "core (op_get p' x) = (if x = s then closed (op_get p s) else core (op_get p x))" for x
    by (simp only: R(1) unlink_core [OF q1])
  show other: "op_get p' x = op_get p x" if "x \<notin> set (q sd i)" for x
    unfolding R(1) by (rule unlink_outside [OF q1 that [unfolded s]])
  have cap: "unat idx < bit_capacity (bitmap ob sd)" using P(3) I(4) [of sd] i by simp
  note del = bitset.members_del [OF _ cap] bitset.best_after_del [OF _ cap, of sd "best_index ob sd"]
  have occ: "occupied (with_queue q sd (unat idx) (as @ bs)) sd = (if as @ bs = [] then bits_of (bitmap ob sd) - {unat idx} else bits_of (bitmap ob sd))"
    using s by (auto simp: occupied_with_queue I(5) i) (auto simp: occupied_def)
  have "book_inv p' ob' (with_queue q sd (unat idx) (as @ bs))"
  proof (rule level_update [OF inv _ R(2) _ lad ob'(1,2)])
    show "unat idx < ladder_size (ob_ladder ob)" using P(3) i by simp
    show "op_size p \<le> op_size p'" by (simp add: R(3))
    show "bit_capacity (bitmap ob' sd) = bit_capacity (bitmap ob sd)" by (simp add: ob'(3))
    show "queue_of (op_get p') lvl' (as @ bs)" unfolding R(1) by (rule q')
    show "bits_of (bitmap ob' sd) = occupied (with_queue q sd (unat idx) (as @ bs)) sd"
      unfolding occ ob'(3) using del(1) by simp
    show "best_index_of sd (occupied (with_queue q sd (unat idx) (as @ bs)) sd) (best_index ob' sd)"
    proof (cases "as @ bs = []")
      case True
      with del I(5,6) [of sd] show ?thesis unfolding occ ob'(4) by auto
    next
      case False
      with I(5,6) [of sd] show ?thesis unfolding occ ob'(4) by auto
    qed
  next
    fix x assume x: "x \<in> set (as @ bs)"
    then have "x \<noteq> s" "x \<in> set (q sd i)" using queue_around(10,11) [OF q1] s by auto
    moreover have "core (op_get p' x) = core (op_get p x)" unfolding core using \<open>x \<noteq> s\<close> by simp
    note C = core_eqD [OF this]
    ultimately show "unat x < op_size p' \<and> rests (op_get p') ob sd (unat idx) x"
      using I(9,10) [of x sd i] by (simp add: R(3) rests_def C i)
  next
    fix sd' j x assume x: "x \<in> set (q sd' j)" and ne: "(sd', j) \<noteq> (sd, unat idx)"
    have "x \<notin> set (q sd i)" using queue_unique [OF inv _ x, of sd i] ne i by auto
    then show "op_get p' x = op_get p x" by (rule other)
  qed
  then show "book_inv p' ob' (with_queue q sd i (as @ bs))" by (simp add: i)
qed

lemma replace_in_place_inv:
  assumes inv: "book_inv p ob q" and s: "q sd i = as @ s # bs"
    and t: "unat t < op_size p" "t \<noteq> kInvalidSlot" "\<And>sd i. t \<notin> set (q sd i)"
    and instr: "rec_instrument_id (op_get p t) = ob_instrument_id ob"
    and res: "replace_in_place p ob s t = (p', ob')"
  shows "book_inv p' ob' (with_queue q sd i (as @ t # bs))"
    and "op_size p' = op_size p" "ob_ladder ob' = ob_ladder ob" "ob_instrument_id ob' = ob_instrument_id ob"
    and "core (op_get p' x) = (if x = s then closed (op_get p s)
      else if x = t then core (resting_fields sd (rec_price (op_get p s)) (word_of_nat i) (op_get p t)) else core (op_get p x))"
    and "x \<notin> set (q sd i) \<Longrightarrow> x \<noteq> t \<Longrightarrow> op_get p' x = op_get p x"
proof -
  note I = book_invD [OF inv]
  have "s \<in> set (q sd i)" using s by simp
  note P = queue_place [OF inv this]
  have st: "s \<noteq> t" using t(3) [of sd i] s by auto
  define idx where "idx = rec_level_index (op_get p s)"
  have i: "unat idx = i" "idx = word_of_nat i" using P(2,8) by (simp_all add: idx_def)
  define lvl where "lvl = level_at ob sd idx"
  define lvl' where "lvl' = subst_level (op_get p) lvl s t (rec_open_qty (op_get p t))"
  let ?f = "resting_fields sd (rec_price (op_get p s)) idx"
  have q: "queue_of (op_get p) lvl (q sd i)" using I(7) [OF P(3)] by (simp add: lvl_def level_at_def i(1))
  note q1 = q [unfolded s]
  have t1: "t \<notin> set (as @ s # bs)" using t(3) [of sd i] s by simp
  note N = neighbours_in_range [OF inv q s]
  have N5: "rec_prev (op_get p s) \<noteq> t" "rec_next (op_get p s) \<noteq> t" using N(5) [OF t(3) t(2)] by simp_all
  note R = replace_in_place_eq [OF I(1) P(6) t(1) st refl P(1) [symmetric] idx_def lvl_def N(1,3) N5(1) N(2,4) N5(2),
      unfolded res fst_conv snd_conv, folded lvl'_def]
  have q': "queue_of (subst_heap (op_get p) s t ?f) lvl' (as @ t # bs)"
    unfolding lvl'_def by (rule subst_queue [OF q1 t1 t(2)]) simp
  have ob': "levels ob' sd' = (if sd' = sd then vec_set (levels ob sd) (unat idx) lvl' else levels ob sd')"
    "bitmap ob' sd' = bitmap ob sd'" "best_index ob' sd' = best_index ob sd'" for sd' by (auto simp: R(4))
  show lad: "ob_ladder ob' = ob_ladder ob" "ob_instrument_id ob' = ob_instrument_id ob"
    by (simp_all add: R(4))
  show "op_size p' = op_size p" by (rule R(3))
  have core: "core (op_get p' x) = (if x = s then closed (op_get p s)
      else if x = t then core (?f (op_get p t)) else core (op_get p x))" for x
    by (simp only: R(1) subst_core [OF q1 t1])
  then show "core (op_get p' x) = (if x = s then closed (op_get p s)
      else if x = t then core (resting_fields sd (rec_price (op_get p s)) (word_of_nat i) (op_get p t)) else core (op_get p x))" for x
    by (simp only: i(2))
  show other: "op_get p' x = op_get p x" if "x \<notin> set (q sd i)" "x \<noteq> t" for x
    unfolding R(1) by (rule subst_outside [OF q1 t1 that(1) [unfolded s] that(2)])
  have "occupied (with_queue q sd (unat idx) (as @ t # bs)) sd = occupied q sd"
    using s i(1) by (auto simp: occupied_def with_queue_simps)
  note occ = this
  have "book_inv p' ob' (with_queue q sd (unat idx) (as @ t # bs))"
  proof (rule level_update [OF inv _ R(2) _ lad ob'(1)])
    show "unat idx < ladder_size (ob_ladder ob)" using P(3) i(1) by simp
    show "op_size p \<le> op_size p'" by (simp add: R(3))
    show "sd' \<noteq> sd \<Longrightarrow> bitmap ob' sd' = bitmap ob sd' \<and> best_index ob' sd' = best_index ob sd'" for sd'
      by (simp add: ob')
    show "bit_capacity (bitmap ob' sd) = bit_capacity (bitmap ob sd)" by (simp add: ob')
    show "queue_of (op_get p') lvl' (as @ t # bs)" unfolding R(1) by (rule q')
    show "bits_of (bitmap ob' sd) = occupied (with_queue q sd (unat idx) (as @ t # bs)) sd"
      "best_index_of sd (occupied (with_queue q sd (unat idx) (as @ t # bs)) sd) (best_index ob' sd)"
      using I(5,6) [of sd] by (simp_all add: occ ob')
  next
    fix x assume "x \<in> set (as @ t # bs)"
    then consider "x = t" | "x \<noteq> s" "x \<noteq> t" "x \<in> set (q sd i)" using queue_around(10,11) [OF q1] s by fastforce
    then show "unat x < op_size p' \<and> rests (op_get p') ob sd (unat idx) x"
    proof cases
      case 1
      have "core (op_get p' t) = core (?f (op_get p t))" unfolding core using st by simp
      note C = core_eqD [OF this]
      from 1 show ?thesis using t(1) instr P(7) by (simp add: R(3) rests_def C i(2) unat_level_index [OF P(3)])
    next
      case 2
      have "core (op_get p' x) = core (op_get p x)" unfolding core using 2 by simp
      note C = core_eqD [OF this]
      from I(9,10) [OF 2(3)] show ?thesis by (simp add: R(3) rests_def C i(1))
    qed
  next
    fix sd' j x assume x: "x \<in> set (q sd' j)" and ne: "(sd', j) \<noteq> (sd, unat idx)"
    have "x \<notin> set (q sd i)" using queue_unique [OF inv _ x, of sd i] ne i(1) by auto
    moreover have "x \<noteq> t" using x t(3) by auto
    ultimately show "op_get p' x = op_get p x" by (rule other)
  qed
  then show "book_inv p' ob' (with_queue q sd i (as @ t # bs))" by (simp add: i(1))
qed

section \<open>A configured book is empty\<close>

lemma card_grid_le: "card (grid lo hi) \<le> nat ((hi - lo) div 100 + 1)"
proof (cases "lo \<le> hi")
  case True
  have *: "100 dvd p" if "p \<in> grid lo hi" for p
    using that aligned_dvd [of p] by (cases p rule: tick_size_cases) (auto simp: grid_def elim: dvd_trans [rotated])
  have "inj_on (\<lambda>p. p div 100) (grid lo hi)"
    by (rule inj_onI) (metis * dvd_mult_div_cancel)
  then have "card (grid lo hi) = card ((\<lambda>p. p div 100) ` grid lo hi)" by (simp add: card_image)
  also have "\<dots> \<le> card {(lo + 99) div 100 .. hi div 100}"
  proof (intro card_mono subsetI)
    fix x assume "x \<in> (\<lambda>p. p div 100) ` grid lo hi"
    then obtain p where "x = p div 100" "100 dvd p" "lo \<le> p" "p \<le> hi" using * by (auto simp: grid_def)
    then show "x \<in> {(lo + 99) div 100 .. hi div 100}" by (auto simp: dvd_def)
  qed simp
  also have "\<dots> \<le> nat ((hi - lo) div 100 + 1)" by simp
  finally show ?thesis .
qed (simp add: grid_empty)

lemma configured_ladder:
  "ob_ladder (configured_book i r b) = ladder_build (band_lo_of r b) (band_hi_of r b)"
  by (simp add: configured_book_def Let_def)

lemma configured_book_ladder_ok:
  "card (grid (band_lo_of r b) (band_hi_of r b)) < 2 ^ 32 \<Longrightarrow> ladder_ok (ob_ladder (configured_book i r b))"
  by (simp add: ladder_ok_def configured_ladder band_lo_of_def Let_def ceil_to_tick_aligned)

lemma configured_book_inv:
  assumes "pool_ok p" "ladder_ok (ob_ladder (configured_book i r b))"
  shows "book_inv p (configured_book i r b) (\<lambda>_ _. [])"
proof -
  let ?ob = "configured_book i r b"
  have *: "levels ?ob sd = vec_make (ladder_size (ob_ladder ?ob)) empty_level"
    "bitmap ?ob sd = bitset_resize (ladder_size (ob_ladder ?ob))" "best_index ?ob sd = -1" for sd
    by (cases sd; simp add: configured_book_def Let_def)+
  show ?thesis
    using assms bitset.capacity_make bitset.members_make
    by (auto simp: book_inv_def levels_inv_def * occupied_def)
qed

end
