(* ===== verification/Matching_Spec.thy ===== *)
theory Matching_Spec
  imports Api Tick_Table
begin

text \<open>
  What the engine promises, without its data structures: each side of a book is one list of
  orders in price-time priority, matching consumes the opposite list from its head, resting
  inserts behind every order of at least as good a price. The engine's handlers are shown to
  implement these definitions in \<open>Engine_Requests\<close>; this theory holds the definitions and
  what can be said about lists alone.
\<close>

section \<open>Orders in priority order\<close>

record resting_order =
  ao_id :: order_id
  ao_price :: price
  ao_open :: quantity
  ao_filled :: quantity

fun better :: "side \<Rightarrow> price \<Rightarrow> price \<Rightarrow> bool" where
  "better kBuy p r \<longleftrightarrow> r < p"
| "better kSell p r \<longleftrightarrow> p < r"

definition priority_sorted :: "side \<Rightarrow> resting_order list \<Rightarrow> bool" where
  "priority_sorted sd os \<longleftrightarrow> sorted_wrt (\<lambda>a b. \<not> better sd (ao_price b) (ao_price a)) os"

definition insert_order :: "side \<Rightarrow> resting_order \<Rightarrow> resting_order list \<Rightarrow> resting_order list" where
  "insert_order sd r os =
    takeWhile (\<lambda>x. \<not> better sd (ao_price r) (ao_price x)) os @ r #
    dropWhile (\<lambda>x. \<not> better sd (ao_price r) (ao_price x)) os"

definition remove_order :: "order_id \<Rightarrow> resting_order list \<Rightarrow> resting_order list" where
  "remove_order i os = filter (\<lambda>x. ao_id x \<noteq> i) os"

definition substitute_order :: "order_id \<Rightarrow> resting_order \<Rightarrow> resting_order list \<Rightarrow> resting_order list" where
  "substitute_order i r os = map (\<lambda>x. if ao_id x = i then r else x) os"

section \<open>Matching\<close>

text \<open>
  An aggressor of \<open>n\<close> lots takes from the head of the list while the prices satisfy \<open>ok\<close>.
  The result is the quantity left over, the list left over, the next trade id and the trades.
\<close>

fun take_liquidity :: "instrument_id \<Rightarrow> order_id \<Rightarrow> side \<Rightarrow> (price \<Rightarrow> bool) \<Rightarrow> trade_id \<Rightarrow> quantity \<Rightarrow> resting_order list
    \<Rightarrow> quantity \<times> resting_order list \<times> trade_id \<times> event list" where
  "take_liquidity iid agg sd ok tid n [] = (n, [], tid, [])"
| "take_liquidity iid agg sd ok tid n (r # rs) =
    (if n = 0 \<or> \<not> ok (ao_price r) then (n, r # rs, tid, [])
     else let fill = min n (ao_open r); ev = On_trade tid iid (ao_price r) fill (ao_id r) agg sd
          in if fill = ao_open r
             then let (n', rs', tid', evs) = take_liquidity iid agg sd ok (tid + 1) (n - fill) rs
                  in (n', rs', tid', ev # evs)
             else (n - fill, r\<lparr>ao_open := ao_open r - fill, ao_filled := ao_filled r + fill\<rparr> # rs, tid + 1, [ev]))"

definition acceptable :: "side \<Rightarrow> bool \<Rightarrow> price \<Rightarrow> price \<Rightarrow> bool" where
  "acceptable sd is_market limit_price p \<longleftrightarrow> is_market \<or> \<not> better sd p limit_price"

lemma take_liquidity_zero [simp]: "take_liquidity iid agg sd ok tid 0 rs = (0, rs, tid, [])"
  by (cases rs) simp_all

lemma take_liquidity_cong:
  "(\<And>r. r \<in> set rs \<Longrightarrow> ok (ao_price r) = ok' (ao_price r))
    \<Longrightarrow> take_liquidity iid agg sd ok tid n rs = take_liquidity iid agg sd ok' tid n rs"
  by (induction rs arbitrary: tid n) (simp_all add: Let_def)

lemma take_liquidity_append:
  "take_liquidity iid agg sd ok tid n (xs @ ys) =
    (case take_liquidity iid agg sd ok tid n xs of (n1, xs', tid1, evs1) \<Rightarrow>
      if xs' = [] then (case take_liquidity iid agg sd ok tid1 n1 ys of (n2, ys', tid2, evs2) \<Rightarrow>
          (n2, ys', tid2, evs1 @ evs2))
      else (n1, xs' @ ys, tid1, evs1))"
  by (induction xs arbitrary: tid n) (auto simp: Let_def split: prod.splits)

text \<open>The quantity the aggressor could execute, as a natural number.\<close>

definition depth :: "(price \<Rightarrow> bool) \<Rightarrow> resting_order list \<Rightarrow> nat" where
  "depth ok os = sum_list (map (\<lambda>x. unat (ao_open x)) (takeWhile (\<lambda>x. ok (ao_price x)) os))"

lemma depth_simps [simp]:
  "depth ok [] = 0"
  "depth ok (r # rs) = (if ok (ao_price r) then unat (ao_open r) + depth ok rs else 0)"
  by (simp_all add: depth_def)

text \<open>Matching executes exactly what is available, up to what is wanted.\<close>

lemma take_liquidity_remaining:
  "take_liquidity iid agg sd ok tid n rs = (n', rs', tid', evs) \<Longrightarrow> unat n' = unat n - min (unat n) (depth ok rs)"
proof (induction rs arbitrary: tid n n' rs' tid' evs)
  case (Cons r rs)
  show ?case
  proof (cases "n = 0 \<or> \<not> ok (ao_price r)")
    case False
    show ?thesis
    proof (cases "ao_open r \<le> n")
      case True
      with Cons.prems False obtain evs1 where
        "take_liquidity iid agg sd ok (tid + 1) (n - ao_open r) rs = (n', rs', tid', evs1)"
        by (auto simp: Let_def min_def split: prod.splits if_splits)
      from Cons.IH [OF this] True False show ?thesis
        by (auto simp: unat_sub word_le_nat_alt min_def)
    next
      case less: False
      with Cons.prems False have "n' = 0" by (auto simp: Let_def min_def split: if_splits)
      with less False show ?thesis by (auto simp: word_le_nat_alt min_def)
    qed
  qed (use Cons.prems in auto)
qed simp

section \<open>Books and the exchange\<close>

record abook =
  ab_instrument :: instrument_id
  ab_band_lo :: price
  ab_band_hi :: price
  ab_orders :: "side \<Rightarrow> resting_order list"

record exchange =
  ex_books :: "abook list"
  ex_used :: "order_id set"
  ex_next_trade_id :: trade_id
  ex_events :: "event list"

definition ex_emit :: "event \<Rightarrow> exchange \<Rightarrow> exchange" where
  "ex_emit ev ex = ex\<lparr>ex_events := ex_events ex @ [ev]\<rparr>"

definition set_orders :: "side \<Rightarrow> resting_order list \<Rightarrow> abook \<Rightarrow> abook" where
  "set_orders sd os ab = ab\<lparr>ab_orders := (ab_orders ab)(sd := os)\<rparr>"

definition upd_book :: "nat \<Rightarrow> (abook \<Rightarrow> abook) \<Rightarrow> exchange \<Rightarrow> exchange" where
  "upd_book b f ex = ex\<lparr>ex_books := (ex_books ex)[b := f (ex_books ex ! b)]\<rparr>"

lemma upd_book_simps [simp]:
  "ex_books (upd_book b f ex) = (ex_books ex)[b := f (ex_books ex ! b)]" "ex_used (upd_book b f ex) = ex_used ex"
  "ex_next_trade_id (upd_book b f ex) = ex_next_trade_id ex" "ex_events (upd_book b f ex) = ex_events ex"
  by (simp_all add: upd_book_def)

lemma ex_emit_simps [simp]:
  "ex_books (ex_emit ev ex) = ex_books ex" "ex_used (ex_emit ev ex) = ex_used ex"
  "ex_next_trade_id (ex_emit ev ex) = ex_next_trade_id ex" "ex_events (ex_emit ev ex) = ex_events ex @ [ev]"
  by (simp_all add: ex_emit_def)

definition book_index :: "exchange \<Rightarrow> instrument_id \<Rightarrow> nat option" where
  "book_index ex iid =
    (let n = length (takeWhile (\<lambda>ab. ab_instrument ab \<noteq> iid) (ex_books ex))
     in if n < length (ex_books ex) then Some n else None)"

definition within_band :: "abook \<Rightarrow> price \<Rightarrow> bool" where
  "within_band ab p \<longleftrightarrow> ab_band_lo ab \<le> p \<and> p \<le> ab_band_hi ab"

text \<open>Where an open order rests: its book, its side and its current state.\<close>

definition book_orders :: "nat \<Rightarrow> abook \<Rightarrow> (nat \<times> side \<times> resting_order) list" where
  "book_orders b ab = map (\<lambda>x. (b, kBuy, x)) (ab_orders ab kBuy) @ map (\<lambda>x. (b, kSell, x)) (ab_orders ab kSell)"

definition all_orders :: "exchange \<Rightarrow> (nat \<times> side \<times> resting_order) list" where
  "all_orders ex = concat (map (\<lambda>b. book_orders b (ex_books ex ! b)) [0..<length (ex_books ex)])"

definition find_order :: "exchange \<Rightarrow> order_id \<Rightarrow> (nat \<times> side \<times> resting_order) option" where
  "find_order ex i = find (\<lambda>(b, sd, x). ao_id x = i) (all_orders ex)"

subsection \<open>The handlers\<close>

text \<open>Matching against one side of a book, with the trades reported.\<close>

definition ex_match :: "nat \<Rightarrow> order_id \<Rightarrow> side \<Rightarrow> bool \<Rightarrow> price \<Rightarrow> quantity \<Rightarrow> exchange \<Rightarrow> quantity \<times> exchange" where
  "ex_match b i sd is_market limit_price n ex =
    (let ab = ex_books ex ! b;
         (n', os, tid, evs) = take_liquidity (ab_instrument ab) i sd (acceptable sd is_market limit_price)
            (ex_next_trade_id ex) n (ab_orders ab (opposite sd))
     in (n', (upd_book b (set_orders (opposite sd) os) ex)
               \<lparr>ex_next_trade_id := tid, ex_events := ex_events ex @ evs\<rparr>))"

definition ex_rest :: "nat \<Rightarrow> side \<Rightarrow> resting_order \<Rightarrow> exchange \<Rightarrow> exchange" where
  "ex_rest b sd r = upd_book b (\<lambda>ab. set_orders sd (insert_order sd r (ab_orders ab sd)) ab)"

definition ex_remove :: "nat \<Rightarrow> side \<Rightarrow> order_id \<Rightarrow> exchange \<Rightarrow> exchange" where
  "ex_remove b sd i = upd_book b (\<lambda>ab. set_orders sd (remove_order i (ab_orders ab sd)) ab)"

definition fillable :: "exchange \<Rightarrow> nat \<Rightarrow> side \<Rightarrow> bool \<Rightarrow> price \<Rightarrow> quantity \<Rightarrow> bool" where
  "fillable ex b sd is_market limit_price n \<longleftrightarrow>
    unat n \<le> depth (acceptable sd is_market limit_price) (ab_orders (ex_books ex ! b) (opposite sd))"

text \<open>
  The verdict \<open>v\<close> of the fill-or-kill check is a parameter: the code computes it with 32-bit
  sums, which is sound but refuses some orders that \<open>fillable\<close> would admit.
\<close>

definition ex_accept :: "bool \<Rightarrow> new_order \<Rightarrow> nat \<Rightarrow> bool \<Rightarrow> price \<Rightarrow> exchange \<Rightarrow> exchange" where
  "ex_accept v order b is_market price ex =
    (let i = no_order_id order; sd = no_side order; ex = ex_emit (On_accepted i) ex
     in if no_tif order = kFok \<and> \<not> v then ex_emit (On_canceled i (no_quantity order) kFokUnfillable) ex
        else let (n, ex) = ex_match b i sd is_market price (no_quantity order) ex
             in if n = 0 then ex
                else if no_tif order = kDay
                then ex_rest b sd \<lparr>ao_id = i, ao_price = price, ao_open = n, ao_filled = no_quantity order - n\<rparr> ex
                else ex_emit (On_canceled i n (if is_market then kNoLiquidity
                       else if no_tif order = kIoc then kIocRemainder else kFokUnfillable)) ex)"

text \<open>The same after the acceptance has been reported.\<close>

definition ex_accepted :: "bool \<Rightarrow> new_order \<Rightarrow> nat \<Rightarrow> bool \<Rightarrow> price \<Rightarrow> exchange \<Rightarrow> exchange" where
  "ex_accepted v order b is_market price ex =
    (let i = no_order_id order; sd = no_side order
     in if no_tif order = kFok \<and> \<not> v then ex_emit (On_canceled i (no_quantity order) kFokUnfillable) ex
        else let (n, ex) = ex_match b i sd is_market price (no_quantity order) ex
             in if n = 0 then ex
                else if no_tif order = kDay
                then ex_rest b sd \<lparr>ao_id = i, ao_price = price, ao_open = n, ao_filled = no_quantity order - n\<rparr> ex
                else ex_emit (On_canceled i n (if is_market then kNoLiquidity
                       else if no_tif order = kIoc then kIocRemainder else kFokUnfillable)) ex)"

lemma ex_accept_split: "ex_accept v order b is_market price ex = ex_accepted v order b is_market price (ex_emit (On_accepted (no_order_id order)) ex)"
  unfolding ex_accept_def ex_accepted_def Let_def ..

definition ex_validated :: "bool \<Rightarrow> new_order \<Rightarrow> nat \<Rightarrow> exchange \<Rightarrow> exchange" where
  "ex_validated v order b ex =
    (let i = no_order_id order; is_market = (no_type order = kMarket)
     in if no_quantity order = 0 then ex_emit (On_rejected i kInvalidQuantity) ex
        else if is_market \<and> no_tif order = kDay then ex_emit (On_rejected i kInvalidTimeInForce) ex
        else if is_market then ex_accept v order b True 0 ex
        else if \<not> is_tick_aligned (no_price order) then ex_emit (On_rejected i kInvalidPriceTick) ex
        else if \<not> within_band (ex_books ex ! b) (no_price order) then ex_emit (On_rejected i kPriceOutOfBand) ex
        else ex_accept v order b False (no_price order) ex)"

definition ex_submit :: "bool \<Rightarrow> new_order \<Rightarrow> exchange \<Rightarrow> exchange" where
  "ex_submit v order ex =
    (let i = no_order_id order
     in case book_index ex (no_instrument_id order) of
          None \<Rightarrow> ex_emit (On_rejected i kUnknownInstrument) ex
        | Some b \<Rightarrow>
            if i \<in> ex_used ex then ex_emit (On_rejected i kDuplicateOrderId) ex
            else ex_validated v order b (ex\<lparr>ex_used := insert i (ex_used ex)\<rparr>))"

definition ex_cancel :: "cancel_order \<Rightarrow> exchange \<Rightarrow> exchange" where
  "ex_cancel req ex =
    (case find_order ex (co_order_id req) of
       None \<Rightarrow> ex_emit (On_rejected (co_order_id req) kUnknownOrder) ex
     | Some (b, sd, r) \<Rightarrow> ex_emit (On_canceled (co_order_id req) (ao_open r) kUserRequested)
         (ex_remove b sd (co_order_id req) ex))"

text \<open>
  An accepted replacement: same price and no more lots keeps the place in the queue, a new
  price matches first, and otherwise the order rests again at the back.
\<close>

definition ex_commit :: "replace_order \<Rightarrow> nat \<Rightarrow> side \<Rightarrow> resting_order \<Rightarrow> quantity \<Rightarrow> exchange \<Rightarrow> exchange" where
  "ex_commit req b sd r n ex =
    (let i = ro_order_id req; j = ro_new_order_id req; price = ro_new_price req; ev = On_replaced i j price n
     in if price = ao_price r \<and> n \<le> ao_open r
        then ex_emit ev (upd_book b (\<lambda>ab. set_orders sd (substitute_order i
               \<lparr>ao_id = j, ao_price = price, ao_open = n, ao_filled = ao_filled r\<rparr> (ab_orders ab sd)) ab) ex)
        else let ex = ex_emit ev (ex_remove b sd i ex);
                 (m, ex) = (if price = ao_price r then (n, ex) else ex_match b j sd False price n ex)
             in if m = 0 then ex
                else ex_rest b sd \<lparr>ao_id = j, ao_price = price, ao_open = m,
                       ao_filled = ao_filled r + (n - m)\<rparr> ex)"

definition ex_replace :: "replace_order \<Rightarrow> exchange \<Rightarrow> exchange" where
  "ex_replace req ex =
    (let i = ro_order_id req; j = ro_new_order_id req; price = ro_new_price req
     in case find_order ex i of
          None \<Rightarrow> ex_emit (On_rejected j kUnknownOrder) ex
        | Some (b, sd, r) \<Rightarrow>
            if ro_new_quantity req \<le> ao_filled r
            then ex_emit (On_canceled i (ao_open r) kUserRequested) (ex_remove b sd i ex)
            else if j \<noteq> i \<and> j \<in> ex_used ex then ex_emit (On_rejected j kDuplicateOrderId) ex
            else if \<not> is_tick_aligned price then ex_emit (On_rejected j kInvalidPriceTick) ex
            else if \<not> within_band (ex_books ex ! b) price then ex_emit (On_rejected j kPriceOutOfBand) ex
            else ex_commit req b sd r (ro_new_quantity req - ao_filled r) (ex\<lparr>ex_used := insert j (ex_used ex)\<rparr>))"

end
