(* ===== verification/Book_View.thy ===== *)
theory Book_View
  imports Book_Invariant Matching_Spec
begin

text \<open>
  The abstraction function from a book over its pool to the lists of \<open>Matching_Spec\<close>: follow
  the links of every level, read the levels in priority order. It is executable. Under the
  invariant it inverts the queues, and the book's operations become the list operations.
\<close>

section \<open>Reading the queues off the links\<close>

fun walk :: "heap \<Rightarrow> nat \<Rightarrow> slot \<Rightarrow> slot list" where
  "walk h 0 s = []"
| "walk h (Suc n) s = s # walk h n (rec_next (h s))"

definition level_slots :: "heap \<Rightarrow> level \<Rightarrow> slot list" where
  "level_slots h lvl = walk h (unat (lvl_order_count lvl)) (lvl_head lvl)"

definition queues_of :: "order_pool \<Rightarrow> order_book \<Rightarrow> queues" where
  "queues_of p ob sd i =
    (if i < ladder_size (ob_ladder ob) then level_slots (op_get p) (vat (levels ob sd) i) else [])"

lemma walk_chain: "chain h p qs n \<Longrightarrow> walk h (length qs) (first_or n qs) = qs"
proof (induction qs arbitrary: p)
  case (Cons s ss)
  then have "chain h s ss n" by simp
  with Cons show ?case by simp
qed simp

lemma level_slots_queue: "queue_of h lvl qs \<Longrightarrow> level_slots h lvl = qs"
  using walk_chain [of h kInvalidSlot qs kInvalidSlot] queue_length(2) [of h lvl qs]
  by (simp add: level_slots_def queue_of_def)

lemma queues_of_inv: "book_inv p ob q \<Longrightarrow> queues_of p ob = q"
  using level_slots_queue book_invD(7,8) [of p ob q] unfolding queues_of_def by (intro ext) metis

section \<open>Levels in priority order\<close>

fun priority_levels :: "side \<Rightarrow> nat \<Rightarrow> nat list" where
  "priority_levels kBuy n = rev [0..<n]"
| "priority_levels kSell n = [0..<n]"

definition flat :: "side \<Rightarrow> nat \<Rightarrow> (nat \<Rightarrow> 'a list) \<Rightarrow> 'a list" where
  "flat sd n f = concat (map f (priority_levels sd n))"

lemma set_priority_levels [simp]: "set (priority_levels sd n) = {..<n}"
  by (cases sd) auto

lemma priority_split:
  assumes "i < n"
  obtains pre post where "priority_levels sd n = pre @ i # post"
    "\<And>j. j \<in> set pre \<Longrightarrow> before sd j i \<and> j < n" "\<And>j. j \<in> set post \<Longrightarrow> before sd i j \<and> j < n"
proof -
  from assms have up: "[0..<n] = [0..<i] @ i # [Suc i..<n]"
    by (metis le_add_same_cancel1 le_eq_less_or_eq less_imp_le_nat upt_add_eq_append upt_conv_Cons zero_le le_add_diff_inverse)
  show ?thesis
  proof (cases sd)
    case kBuy
    show ?thesis by (rule that [of "rev [Suc i..<n]" "rev [0..<i]"]) (use up assms kBuy in auto)
  next
    case kSell
    show ?thesis by (rule that [of "[0..<i]" "[Suc i..<n]"]) (use up assms kSell in auto)
  qed
qed

lemma flat_split:
  assumes "i < n"
  obtains A B where "\<And>g. flat sd n (f(i := g)) = A @ g @ B" "flat sd n f = A @ f i @ B"
    "\<And>x. x \<in> set A \<Longrightarrow> \<exists>j < n. before sd j i \<and> x \<in> set (f j)"
    "\<And>x. x \<in> set B \<Longrightarrow> \<exists>j < n. before sd i j \<and> x \<in> set (f j)"
proof -
  obtain pre post where P: "priority_levels sd n = pre @ i # post"
    "\<And>j. j \<in> set pre \<Longrightarrow> before sd j i \<and> j < n" "\<And>j. j \<in> set post \<Longrightarrow> before sd i j \<and> j < n"
    using priority_split [OF assms] by blast
  have "i \<notin> set pre" "i \<notin> set post" using P(2,3) [of i] by auto
  then have *: "concat (map (f(i := g)) pre) = concat (map f pre)" "concat (map (f(i := g)) post) = concat (map f post)" for g
    by simp_all
  show ?thesis
    by (rule that [of "concat (map f pre)" "concat (map f post)"]) (use P * in \<open>auto simp: flat_def\<close>)
qed

lemma set_flat: "set (flat sd n f) = (\<Union>i<n. set (f i))"
  by (simp add: flat_def)

lemma flat_cong: "(\<And>i. i < n \<Longrightarrow> f i = g i) \<Longrightarrow> flat sd n f = flat sd n g"
  unfolding flat_def by (rule arg_cong [where f = concat]) simp

section \<open>The view of a side and of a book\<close>

definition view_order :: "heap \<Rightarrow> slot \<Rightarrow> resting_order" where
  "view_order h s = \<lparr>ao_id = rec_id (h s), ao_price = rec_price (h s), ao_open = rec_open_qty (h s), ao_filled = rec_filled_qty (h s)\<rparr>"

definition side_view :: "heap \<Rightarrow> queues \<Rightarrow> side \<Rightarrow> nat \<Rightarrow> resting_order list" where
  "side_view h q sd n = flat sd n (\<lambda>i. map (view_order h) (q sd i))"

definition book_view :: "order_pool \<Rightarrow> order_book \<Rightarrow> abook" where
  "book_view p ob =
    \<lparr>ab_instrument = ob_instrument_id ob, ab_band_lo = pl_band_lo (ob_ladder ob), ab_band_hi = pl_band_hi (ob_ladder ob),
     ab_orders = (\<lambda>sd. side_view (op_get p) (queues_of p ob) sd (ladder_size (ob_ladder ob)))\<rparr>"

lemma view_order_sel [simp]:
  "ao_id (view_order h s) = rec_id (h s)" "ao_price (view_order h s) = rec_price (h s)"
  "ao_open (view_order h s) = rec_open_qty (h s)" "ao_filled (view_order h s) = rec_filled_qty (h s)"
  by (simp_all add: view_order_def)

lemma view_order_core: "core (h' s) = core (h s) \<Longrightarrow> view_order h' s = view_order h s"
  using core_eqD [of "h' s" "h s"] by (simp add: view_order_def)

lemma side_view_cong:
  assumes "\<And>i s. s \<in> set (q sd i) \<Longrightarrow> view_order h' s = view_order h s"
  shows "side_view h' q sd n = side_view h q sd n"
  unfolding side_view_def using assms by (intro flat_cong) simp

lemma side_view_other: "sd' \<noteq> sd \<Longrightarrow> side_view h (with_queue q sd i qs) sd' n = side_view h q sd' n"
  by (simp add: side_view_def with_queue_def)

lemma side_view_with_queue:
  "side_view h (with_queue q sd i qs) sd n = flat sd n ((\<lambda>j. map (view_order h) (q sd j))(i := map (view_order h) qs))"
  unfolding side_view_def by (rule flat_cong) (simp add: with_queue_def)

lemma better_index:
  assumes "ladder_ok l" "i < ladder_size l" "j < ladder_size l"
  shows "better sd (index_to_price l (word_of_nat i)) (index_to_price l (word_of_nat j)) \<longleftrightarrow> before sd i j"
  using ladder.from_index_less_iff [OF assms(1), of "word_of_nat i" "word_of_nat j"]
    ladder.from_index_less_iff [OF assms(1), of "word_of_nat j" "word_of_nat i"] assms(2,3)
  by (cases sd) (simp_all add: unat_level_index)

text \<open>Every resting order of a side has the price of its level.\<close>

lemma view_price:
  assumes "book_inv p ob q" "x \<in> set (map (view_order (op_get p)) (q sd i))"
  shows "ao_price x = index_to_price (ob_ladder ob) (word_of_nat i)" "i < ladder_size (ob_ladder ob)"
  using assms queue_place [OF assms(1)] by (auto simp: ob_index_to_price_def)

subsection \<open>List operations in the middle of a side\<close>

lemma insert_order_eq:
  assumes "\<And>x. x \<in> set A \<Longrightarrow> \<not> better sd (ao_price r) (ao_price x)" "\<And>x. x \<in> set B \<Longrightarrow> better sd (ao_price r) (ao_price x)"
  shows "insert_order sd r (A @ B) = A @ r # B"
proof -
  have "takeWhile (\<lambda>x. \<not> better sd (ao_price r) (ao_price x)) B = []" "dropWhile (\<lambda>x. \<not> better sd (ao_price r) (ao_price x)) B = B"
    using assms(2) by (cases B; simp)+
  with assms(1) show ?thesis by (simp add: insert_order_def)
qed

lemma remove_order_eq:
  "(\<And>y. y \<in> set A \<union> set B \<Longrightarrow> ao_id y \<noteq> ao_id x) \<Longrightarrow> remove_order (ao_id x) (A @ x # B) = A @ B"
  by (auto simp: remove_order_def filter_id_conv)

lemma substitute_order_eq:
  "(\<And>y. y \<in> set A \<union> set B \<Longrightarrow> ao_id y \<noteq> ao_id x) \<Longrightarrow> substitute_order (ao_id x) r (A @ x # B) = A @ r # B"
  by (auto simp: substitute_order_def intro!: map_idI)

lemma view_append:
  assumes inv: "book_inv p ob q" and i: "i < ladder_size (ob_ladder ob)" "rec_price (h s) = index_to_price (ob_ladder ob) (word_of_nat i)"
    and h: "\<And>i s. s \<in> set (q sd i) \<Longrightarrow> view_order h s = view_order (op_get p) s"
  shows "side_view h (with_queue q sd i (q sd i @ [s])) sd (ladder_size (ob_ladder ob)) =
    insert_order sd (view_order h s) (side_view (op_get p) q sd (ladder_size (ob_ladder ob)))"
proof -
  let ?n = "ladder_size (ob_ladder ob)" and ?f = "\<lambda>j. map (view_order (op_get p)) (q sd j)"
  note lad = book_invD(2) [OF inv]
  obtain A B where S: "\<And>g. flat sd ?n (?f(i := g)) = A @ g @ B" "flat sd ?n ?f = A @ ?f i @ B"
    "\<And>x. x \<in> set A \<Longrightarrow> \<exists>j < ?n. before sd j i \<and> x \<in> set (?f j)" "\<And>x. x \<in> set B \<Longrightarrow> \<exists>j < ?n. before sd i j \<and> x \<in> set (?f j)"
    using flat_split [OF i(1)] by blast
  have better: "better sd (rec_price (h s)) (ao_price x) \<longleftrightarrow> before sd i j" if "x \<in> set (?f j)" for x j
    using view_price [OF inv that] better_index [OF lad i(1), of j] i(2) by simp
  have "side_view h (with_queue q sd i (q sd i @ [s])) sd ?n = flat sd ?n (?f(i := ?f i @ [view_order h s]))"
    unfolding side_view_with_queue using h by (intro flat_cong) simp
  also have "\<dots> = (A @ ?f i) @ view_order h s # B" unfolding S(1) by simp
  also have "\<dots> = insert_order sd (view_order h s) ((A @ ?f i) @ B)"
  proof (rule insert_order_eq [symmetric])
    fix x assume "x \<in> set (A @ ?f i)"
    then have "x \<in> set A \<or> x \<in> set (?f i)" by (simp only: set_append Un_iff)
    then obtain j where "\<not> before sd i j" "x \<in> set (?f j)" using S(3) before_simps by metis
    then show "\<not> better sd (ao_price (view_order h s)) (ao_price x)" using better [of x j] by simp
  next
    fix x assume "x \<in> set B"
    then obtain j where "before sd i j" "x \<in> set (?f j)" using S(4) by blast
    then show "better sd (ao_price (view_order h s)) (ao_price x)" using better [of x j] by simp
  qed
  finally show ?thesis by (simp add: side_view_def S(2))
qed

lemma view_middle:
  assumes i: "i < n" and s: "q sd i = as @ s # bs"
    and h: "\<And>i x. x \<in> set (q sd i) \<Longrightarrow> x \<noteq> s \<Longrightarrow> view_order h' x = view_order h x"
    and u: "\<And>j. s \<in> set (q sd j) \<Longrightarrow> j = i" "s \<notin> set as" "s \<notin> set bs"
  obtains A B where "side_view h q sd n = A @ view_order h s # B"
    "\<And>ms. side_view h' (with_queue q sd i (as @ ms @ bs)) sd n = A @ map (view_order h') ms @ B"
    "\<And>x. x \<in> set A \<union> set B \<Longrightarrow> \<exists>j t. t \<in> set (q sd j) \<and> t \<noteq> s \<and> x = view_order h t"
proof -
  let ?f = "\<lambda>j. map (view_order h) (q sd j)" and ?f' = "\<lambda>j. map (view_order h') (q sd j)"
  obtain A B where S: "\<And>g. flat sd n (?f(i := g)) = A @ g @ B" "flat sd n ?f = A @ ?f i @ B"
    "\<And>x. x \<in> set A \<Longrightarrow> \<exists>j < n. before sd j i \<and> x \<in> set (?f j)" "\<And>x. x \<in> set B \<Longrightarrow> \<exists>j < n. before sd i j \<and> x \<in> set (?f j)"
    using flat_split [OF i] by blast
  have same: "?f' j = ?f j" if "j \<noteq> i" for j using h [of _ j] u(1) [of j] that by (intro map_cong) auto
  have mid: "map (view_order h') as = map (view_order h) as" "map (view_order h') bs = map (view_order h) bs"
    using h [of _ i] s u(2,3) by (auto intro!: map_cong)
  have A: "\<exists>j t. t \<in> set (q sd j) \<and> t \<noteq> s \<and> x = view_order h t" if "x \<in> set (?f j)" "j \<noteq> i" for x j
    using that u(1) [of j] by auto
  have AB: "\<exists>j t. t \<in> set (q sd j) \<and> t \<noteq> s \<and> x = view_order h t" if "x \<in> set A \<union> set B" for x
  proof -
    from that have "\<exists>j. (before sd j i \<or> before sd i j) \<and> x \<in> set (?f j)" using S(3,4) by blast
    then obtain j where "before sd j i \<or> before sd i j" "x \<in> set (?f j)" by blast
    then show ?thesis using A [of x j] before_simps(1) by metis
  qed
  show ?thesis
  proof (rule that [of "A @ map (view_order h) as" "map (view_order h) bs @ B"])
    show "side_view h q sd n = (A @ map (view_order h) as) @ view_order h s # map (view_order h) bs @ B"
      by (simp add: side_view_def S(2) s)
    show "side_view h' (with_queue q sd i (as @ ms @ bs)) sd n
        = (A @ map (view_order h) as) @ map (view_order h') ms @ map (view_order h) bs @ B" for ms
    proof -
      have "side_view h' (with_queue q sd i (as @ ms @ bs)) sd n = flat sd n (?f(i := map (view_order h) as @ map (view_order h') ms @ map (view_order h) bs))"
        unfolding side_view_with_queue using same mid by (intro flat_cong) simp
      then show ?thesis by (simp add: S(1))
    qed
    fix x assume "x \<in> set (A @ map (view_order h) as) \<union> set (map (view_order h) bs @ B)"
    then consider "x \<in> set A \<union> set B" | "x \<in> view_order h ` (set as \<union> set bs)" by auto
    then show "\<exists>j t. t \<in> set (q sd j) \<and> t \<noteq> s \<and> x = view_order h t"
    proof cases
      case 2
      then obtain t where "t \<in> set as \<union> set bs" "x = view_order h t" by blast
      with s u(2,3) show ?thesis by (intro exI [of _ i] exI [of _ t]) auto
    qed (rule AB)
  qed
qed

end
