(* ===== verification/Flat_Hash_Map.thy ===== *)
theory Flat_Hash_Map
  imports Interfaces
begin

text \<open>
  \<open>FlatHashMap\<close> (\<open>include/engine/flat_hash_map.hpp\<close>): open addressing with linear probing
  from a 64-bit key to a 32-bit value, insert and find only, growing by doubling.

  The probe loops are written as \<open>partial_function\<close>s: \<open>None\<close> is a loop that never meets a
  free slot. The load factor is the double nearest to 0.7, \<open>load_numerator / 2^53\<close>, and
  the two conversions of the code through \<open>double\<close> are computed exactly: the product
  with a power of two is exact, the quotient is rounded half-to-even to 53 bits.
  \<open>NDEBUG\<close> is set in the release build, so an \<open>assert\<close> does nothing; that each one holds
  is part of the lemmas here.
\<close>

section \<open>The map\<close>

record hslot =
  hs_key :: "64 word"
  hs_value :: "32 word"
  hs_occupied :: bool

record flat_hash_map =
  fm_slots :: "hslot vec"
  fm_capacity :: nat
  fm_mask :: "64 word"
  fm_size :: nat

definition kEmpty :: "32 word" where
  "kEmpty = 0xFFFFFFFF"

definition empty_hslot :: hslot where
  "empty_hslot = \<lparr>hs_key = 0, hs_value = kEmpty, hs_occupied = False\<rparr>"

definition mix :: "64 word \<Rightarrow> 64 word" where
  "mix x0 =
    (let x1 = x0 XOR drop_bit 30 x0;
         x2 = x1 * 0xbf58476d1ce4e5b9;
         x3 = x2 XOR drop_bit 27 x2;
         x4 = x3 * 0x94d049bb133111eb
     in x4 XOR drop_bit 31 x4)"

subsection \<open>Load factor and capacity\<close>

definition load_numerator :: nat where
  "load_numerator = 6305039478318694"

definition max_entries :: "nat \<Rightarrow> nat" where
  "max_entries cap = cap * load_numerator div 2 ^ 53"

fun log2_floor :: "nat \<Rightarrow> nat" where
  "log2_floor n = (if n < 2 then 0 else Suc (log2_floor (n div 2)))"

declare log2_floor.simps [simp del]

definition round_half_even :: "nat \<Rightarrow> nat \<Rightarrow> nat" where
  "round_half_even a b =
    (let q = a div b; r = a mod b
     in if 2 * r < b then q else if b < 2 * r then q + 1 else if even q then q else q + 1)"

definition quotient_by_load_factor :: "nat \<Rightarrow> nat" where
  "quotient_by_load_factor n =
    (let s = 52 - log2_floor (n * 2 ^ 53 div load_numerator)
     in round_half_even (n * 2 ^ 53 * 2 ^ s) load_numerator div 2 ^ s)"

definition bit_ceil :: "nat \<Rightarrow> nat" where
  "bit_ceil n = (if n \<le> 1 then 1 else 2 ^ Suc (log2_floor (n - 1)))"

definition capacity_for :: "nat \<Rightarrow> nat" where
  "capacity_for n = bit_ceil (quotient_by_load_factor n + 1)"

subsection \<open>Find\<close>

partial_function (option) find_from :: "hslot vec \<Rightarrow> 64 word \<Rightarrow> 64 word \<Rightarrow> 64 word \<Rightarrow> nat option option" where
  "find_from slots msk key idx =
    (let s = vat slots (unat idx)
     in if \<not> hs_occupied s then Some None
        else if hs_key s = key then Some (Some (unat idx))
        else find_from slots msk key ((idx + 1) AND msk))"

definition fm_find_slot :: "flat_hash_map \<Rightarrow> 64 word \<Rightarrow> nat option option" where
  "fm_find_slot m key = find_from (fm_slots m) (fm_mask m) key (mix key AND fm_mask m)"

definition fm_find :: "flat_hash_map \<Rightarrow> 64 word \<Rightarrow> 32 word option option" where
  "fm_find m key =
    do { r \<leftarrow> fm_find_slot m key;
         Some (map_option (\<lambda>i. hs_value (vat (fm_slots m) i)) r) }"

definition fm_contains :: "flat_hash_map \<Rightarrow> 64 word \<Rightarrow> bool option" where
  "fm_contains m key = do { r \<leftarrow> fm_find m key; Some (r \<noteq> None) }"

text \<open>Assigning through the null pointer that \<open>find\<close> returns for an absent key has no result.\<close>

definition fm_assign_existing :: "flat_hash_map \<Rightarrow> 64 word \<Rightarrow> 32 word \<Rightarrow> flat_hash_map option" where
  "fm_assign_existing m key v =
    do { r \<leftarrow> fm_find_slot m key;
         i \<leftarrow> r;
         Some (m\<lparr>fm_slots := vec_set (fm_slots m) i ((vat (fm_slots m) i)\<lparr>hs_value := v\<rparr>)\<rparr>) }"

subsection \<open>Place, rehash, insert\<close>

partial_function (option) free_from :: "hslot vec \<Rightarrow> 64 word \<Rightarrow> 64 word \<Rightarrow> nat option" where
  "free_from slots msk idx =
    (if \<not> hs_occupied (vat slots (unat idx)) then Some (unat idx)
     else free_from slots msk ((idx + 1) AND msk))"

definition fm_place :: "flat_hash_map \<Rightarrow> 64 word \<Rightarrow> 32 word \<Rightarrow> flat_hash_map option" where
  "fm_place m key v =
    do { i \<leftarrow> free_from (fm_slots m) (fm_mask m) (mix key AND fm_mask m);
         Some (m\<lparr>fm_slots := vec_set (fm_slots m) i \<lparr>hs_key = key, hs_value = v, hs_occupied = True\<rparr>,
                 fm_size := fm_size m + 1\<rparr>) }"

fun place_all :: "hslot list \<Rightarrow> flat_hash_map \<Rightarrow> flat_hash_map option" where
  "place_all [] m = Some m"
| "place_all (s # ss) m =
    (if hs_occupied s then do { m' \<leftarrow> fm_place m (hs_key s) (hs_value s); place_all ss m' }
     else place_all ss m)"

definition blank_map :: "nat \<Rightarrow> flat_hash_map" where
  "blank_map cap =
    \<lparr>fm_slots = vec_make cap empty_hslot, fm_capacity = cap, fm_mask = word_of_nat (cap - 1), fm_size = 0\<rparr>"

definition fm_rehash :: "allocator \<Rightarrow> flat_hash_map \<Rightarrow> nat \<Rightarrow> flat_hash_map outcome" where
  "fm_rehash al m requested =
    (let new_capacity = max requested (capacity_for (fm_size m))
     in and_then (request al (Alloc_slots new_capacity))
          (\<lambda>_. map_option Inr
             (place_all (map (vat (fm_slots m)) [0..<vlen (fm_slots m)]) (blank_map new_capacity))))"

definition fm_new :: "allocator \<Rightarrow> flat_hash_map outcome" where
  "fm_new al = fm_rehash al
    \<lparr>fm_slots = vec_make 0 empty_hslot, fm_capacity = 0, fm_mask = 0, fm_size = 0\<rparr> 16"

definition fm_reserve :: "allocator \<Rightarrow> flat_hash_map \<Rightarrow> nat \<Rightarrow> flat_hash_map outcome" where
  "fm_reserve al m n =
    (let cap = capacity_for n in if fm_capacity m < cap then fm_rehash al m cap else returns m)"

definition fm_insert :: "allocator \<Rightarrow> flat_hash_map \<Rightarrow> 64 word \<Rightarrow> 32 word \<Rightarrow> flat_hash_map outcome" where
  "fm_insert al m key v =
    and_then (if max_entries (fm_capacity m) < fm_size m + 1 then fm_rehash al m (2 * fm_capacity m)
              else returns m)
      (\<lambda>m. map_option Inr (fm_place m key v))"

section \<open>Capacities\<close>

lemma log2_floor_bounds: "0 < n \<Longrightarrow> 2 ^ log2_floor n \<le> n \<and> n < 2 ^ Suc (log2_floor n)"
proof (induction n rule: log2_floor.induct)
  case (1 n)
  show ?case
  proof (cases "n < 2")
    case True
    with 1 show ?thesis by (simp add: log2_floor.simps [of n])
  next
    case False
    with 1 have "2 ^ log2_floor (n div 2) \<le> n div 2" "n div 2 < 2 * 2 ^ log2_floor (n div 2)" by auto
    with False show ?thesis by (simp add: log2_floor.simps [of n]) linarith
  qed
qed

lemma bit_ceil_ge: "n \<le> bit_ceil n"
  using log2_floor_bounds [of "n - 1"] by (auto simp: bit_ceil_def)

lemma bit_ceil_power: "\<exists>k. bit_ceil n = 2 ^ k"
  by (metis bit_ceil_def power_0)

lemma bit_ceil_le: "n \<le> 2 ^ k \<Longrightarrow> bit_ceil n \<le> 2 ^ k"
proof (cases "n \<le> 1")
  case False
  assume "n \<le> 2 ^ k"
  with False log2_floor_bounds [of "n - 1"] have "(2::nat) ^ log2_floor (n - 1) < 2 ^ k" by linarith
  then have "Suc (log2_floor (n - 1)) \<le> k" by simp
  with False show ?thesis unfolding bit_ceil_def by (simp only: if_False power_increasing one_le_numeral)
qed (simp add: bit_ceil_def)

lemma round_half_even_ge: "a div b \<le> round_half_even a b"
  by (simp add: round_half_even_def Let_def)

lemma round_half_even_le: "round_half_even a b \<le> a div b + 1"
  by (simp add: round_half_even_def Let_def)

lemma quotient_ge: "n * 2 ^ 53 div load_numerator \<le> quotient_by_load_factor n"
proof -
  define s where "s = 52 - log2_floor (n * 2 ^ 53 div load_numerator)"
  have "n * 2 ^ 53 div load_numerator * 2 ^ s \<le> n * 2 ^ 53 * 2 ^ s div load_numerator"
    by (simp add: load_numerator_def less_eq_div_iff_mult_less_eq)
  also have "\<dots> \<le> round_half_even (n * 2 ^ 53 * 2 ^ s) load_numerator" by (rule round_half_even_ge)
  finally show ?thesis
    by (simp add: quotient_by_load_factor_def Let_def s_def less_eq_div_iff_mult_less_eq)
qed

lemma quotient_le: "quotient_by_load_factor n \<le> n * 2 ^ 53 div load_numerator + 1"
proof -
  define s where "s = 52 - log2_floor (n * 2 ^ 53 div load_numerator)"
  have "round_half_even (n * 2 ^ 53 * 2 ^ s) load_numerator \<le> n * 2 ^ 53 * 2 ^ s div load_numerator + 1"
    by (rule round_half_even_le)
  also have "\<dots> \<le> (n * 2 ^ 53 div load_numerator + 1) * 2 ^ s"
  proof -
    have "n * 2 ^ 53 < (n * 2 ^ 53 div load_numerator + 1) * load_numerator"
      by (simp add: load_numerator_def)
    then have "n * 2 ^ 53 * 2 ^ s < (n * 2 ^ 53 div load_numerator + 1) * load_numerator * 2 ^ s" by simp
    then have "n * 2 ^ 53 * 2 ^ s < (n * 2 ^ 53 div load_numerator + 1) * 2 ^ s * load_numerator"
      by (simp only: ac_simps)
    then show ?thesis
      by (simp add: div_less_iff_less_mult load_numerator_def Suc_le_eq)
  qed
  finally have "round_half_even (n * 2 ^ 53 * 2 ^ s) load_numerator div 2 ^ s
      \<le> (n * 2 ^ 53 div load_numerator + 1) * 2 ^ s div 2 ^ s"
    by (rule div_le_mono)
  then show ?thesis by (simp add: quotient_by_load_factor_def Let_def s_def)
qed

text \<open>A capacity chosen for \<open>n\<close> entries holds \<open>n\<close> entries under the load factor.\<close>

lemma capacity_for_room: "n \<le> max_entries (capacity_for n)"
proof -
  have "n * 2 ^ 53 div load_numerator < capacity_for n"
    unfolding capacity_for_def using bit_ceil_ge [of "quotient_by_load_factor n + 1"] quotient_ge [of n] by linarith
  then have "n * 2 ^ 53 < capacity_for n * load_numerator"
    by (simp add: div_less_iff_less_mult load_numerator_def)
  then show ?thesis by (simp add: max_entries_def less_eq_div_iff_mult_less_eq)
qed

lemma max_entries_less: "0 < cap \<Longrightarrow> max_entries cap < cap"
  by (simp add: max_entries_def load_numerator_def div_less_iff_less_mult)

text \<open>Doubling is enough: the assertion of \<open>rehash\<close> holds when \<open>insert\<close> calls it.\<close>

lemma capacity_for_doubling:
  assumes "n \<le> max_entries (2 ^ k)"
  shows "capacity_for n \<le> 2 * 2 ^ k"
proof -
  have "n * 2 ^ 53 \<le> 2 ^ k * load_numerator"
    using assms by (simp add: max_entries_def less_eq_div_iff_mult_less_eq)
  then have "n * 2 ^ 53 div load_numerator \<le> 2 ^ k"
    by (metis div_le_mono div_mult_self_is_m load_numerator_def zero_less_numeral)
  with quotient_le [of n] have "quotient_by_load_factor n + 1 \<le> 2 ^ k + 2" by linarith
  moreover have "quotient_by_load_factor n + 1 \<le> 2" if "k = 0"
  proof -
    from assms that have "n = 0" by (simp add: max_entries_def load_numerator_def)
    then show ?thesis by (simp add: quotient_by_load_factor_def round_half_even_def Let_def load_numerator_def)
  qed
  moreover have "(2::nat) ^ k + 2 \<le> 2 ^ Suc k" if "k \<noteq> 0"
    using that by (cases k) simp_all
  ultimately have "quotient_by_load_factor n + 1 \<le> 2 ^ Suc k" by (cases "k = 0") auto
  then show ?thesis unfolding capacity_for_def by (metis bit_ceil_le power_Suc)
qed

section \<open>Probe sequences and the invariant\<close>

definition home :: "flat_hash_map \<Rightarrow> 64 word \<Rightarrow> nat" where
  "home m key = unat (mix key) mod fm_capacity m"

definition probe :: "flat_hash_map \<Rightarrow> 64 word \<Rightarrow> nat \<Rightarrow> nat" where
  "probe m key d = (unat (mix key) + d) mod fm_capacity m"

definition probe_word :: "flat_hash_map \<Rightarrow> 64 word \<Rightarrow> nat \<Rightarrow> 64 word" where
  "probe_word m key d = (mix key + word_of_nat d) AND fm_mask m"

abbreviation occ :: "flat_hash_map \<Rightarrow> nat \<Rightarrow> bool" where
  "occ m i \<equiv> hs_occupied (vat (fm_slots m) i)"

abbreviation key_at :: "flat_hash_map \<Rightarrow> nat \<Rightarrow> 64 word" where
  "key_at m i \<equiv> hs_key (vat (fm_slots m) i)"

abbreviation value_at :: "flat_hash_map \<Rightarrow> nat \<Rightarrow> 32 word" where
  "value_at m i \<equiv> hs_value (vat (fm_slots m) i)"

definition fm_shape :: "flat_hash_map \<Rightarrow> bool" where
  "fm_shape m \<longleftrightarrow> (\<exists>k \<le> 40. fm_capacity m = 2 ^ k \<and> fm_mask m = mask k \<and> vlen (fm_slots m) = 2 ^ k)"

text \<open>
  Every entry is reachable from its home slot through occupied slots, no key occurs twice,
  \<open>size\<close> counts the occupied slots, and some slot is free.
\<close>

definition fm_wf :: "flat_hash_map \<Rightarrow> bool" where
  "fm_wf m \<longleftrightarrow> fm_shape m
    \<and> fm_size m = card {i. i < fm_capacity m \<and> occ m i} \<and> fm_size m < fm_capacity m
    \<and> (\<forall>i < fm_capacity m. \<forall>j < fm_capacity m. occ m i \<longrightarrow> occ m j \<longrightarrow> key_at m i = key_at m j \<longrightarrow> i = j)
    \<and> (\<forall>i < fm_capacity m. occ m i \<longrightarrow>
        (\<exists>d < fm_capacity m. i = probe m (key_at m i) d \<and> (\<forall>e < d. occ m (probe m (key_at m i) e))))"

definition fm_ok :: "flat_hash_map \<Rightarrow> bool" where
  "fm_ok m \<longleftrightarrow> fm_wf m \<and> fm_size m \<le> max_entries (fm_capacity m)"

definition fm_lookup :: "flat_hash_map \<Rightarrow> 64 word \<Rightarrow> 32 word option" where
  "fm_lookup m key = (case fm_find m key of Some r \<Rightarrow> r | None \<Rightarrow> None)"

lemma fm_wfD:
  assumes "fm_wf m"
  shows "fm_shape m" "fm_size m = card {i. i < fm_capacity m \<and> occ m i}" "fm_size m < fm_capacity m"
    and "i < fm_capacity m \<Longrightarrow> j < fm_capacity m \<Longrightarrow> occ m i \<Longrightarrow> occ m j \<Longrightarrow> key_at m i = key_at m j \<Longrightarrow> i = j"
    and "i < fm_capacity m \<Longrightarrow> occ m i
      \<Longrightarrow> \<exists>d < fm_capacity m. i = probe m (key_at m i) d \<and> (\<forall>e < d. occ m (probe m (key_at m i) e))"
  using assms unfolding fm_wf_def by blast+

lemma fm_wfI:
  assumes "fm_shape m" "fm_size m = card {i. i < fm_capacity m \<and> occ m i}" "fm_size m < fm_capacity m"
    and "\<And>i j. i < fm_capacity m \<Longrightarrow> occ m i \<Longrightarrow> j < fm_capacity m \<Longrightarrow> occ m j
      \<Longrightarrow> key_at m i = key_at m j \<Longrightarrow> i = j"
    and "\<And>i. i < fm_capacity m \<Longrightarrow> occ m i
      \<Longrightarrow> \<exists>d < fm_capacity m. i = probe m (key_at m i) d \<and> (\<forall>e < d. occ m (probe m (key_at m i) e))"
  shows "fm_wf m"
  using assms unfolding fm_wf_def by blast

lemma fm_shape_pos: "fm_shape m \<Longrightarrow> 0 < fm_capacity m"
  by (auto simp: fm_shape_def)

lemma probe_less: "fm_shape m \<Longrightarrow> probe m key d < fm_capacity m"
  by (simp add: probe_def fm_shape_pos)

lemma unat_probe_word:
  assumes "fm_shape m"
  shows "unat (probe_word m key d) = probe m key d"
proof -
  from assms obtain k where k: "k \<le> 40" "fm_capacity m = 2 ^ k" "fm_mask m = mask k"
    by (auto simp: fm_shape_def)
  have "unat (mix key + word_of_nat d) mod 2 ^ k = (unat (mix key) + d) mod 2 ^ k"
  proof -
    have dvd: "(2::nat) ^ k dvd 2 ^ 64" using k(1) by (intro le_imp_power_dvd) simp
    have "unat (mix key + word_of_nat d) = (unat (mix key) + d) mod 2 ^ 64"
      by (simp add: unat_word_ariths unat_of_nat take_bit_nat_def mod_add_right_eq)
    then show ?thesis by (simp only: mod_mod_cancel [OF dvd])
  qed
  then show ?thesis by (simp add: probe_word_def probe_def k unat_and_mask)
qed

lemma probe_word_0: "probe_word m key 0 = mix key AND fm_mask m"
  by (simp add: probe_word_def)

lemma probe_word_Suc:
  assumes "fm_shape m"
  shows "(probe_word m key d + 1) AND fm_mask m = probe_word m key (Suc d)"
proof -
  from assms obtain k where k: "k \<le> 40" "fm_capacity m = 2 ^ k" "fm_mask m = mask k"
    by (auto simp: fm_shape_def)
  have dvd: "(2::nat) ^ k dvd 2 ^ 64" using k(1) by (intro le_imp_power_dvd) simp
  have "unat (probe_word m key d + 1) = (probe m key d + 1) mod 2 ^ 64"
    by (simp add: unat_word_ariths unat_probe_word [OF assms])
  then have "unat (probe_word m key d + 1) mod 2 ^ k = (probe m key d + 1) mod 2 ^ k"
    by (simp only: mod_mod_cancel [OF dvd])
  also have "\<dots> = probe m key (Suc d)" by (simp add: probe_def k(2) mod_Suc_eq)
  finally show ?thesis
    by (simp add: word_unat_eq_iff k(3) unat_and_mask unat_probe_word [OF assms])
qed

lemma free_slot_ahead:
  assumes "fm_wf m"
  shows "\<exists>D < fm_capacity m. \<not> occ m (probe m key D) \<and> (\<forall>e < D. occ m (probe m key e))"
proof -
  note wf = fm_wfD [OF assms]
  have "\<exists>d < fm_capacity m. \<not> occ m (probe m key d)"
  proof (rule ccontr)
    assume "\<not> ?thesis"
    then have all: "occ m (probe m key d)" if "d < fm_capacity m" for d using that by blast
    have "occ m i" if i: "i < fm_capacity m" for i
    proof -
      let ?c = "fm_capacity m" and ?h = "unat (mix key) mod fm_capacity m"
      let ?d = "(i + ?c - ?h) mod ?c"
      have "probe m key ?d = (?h + (i + ?c - ?h)) mod ?c"
        by (simp add: probe_def mod_add_left_eq mod_add_right_eq)
      also have "?h + (i + ?c - ?h) = i + ?c"
        using mod_less_divisor [OF fm_shape_pos [OF wf(1)], of "unat (mix key)"] by linarith
      finally have "probe m key ?d = i" using i by simp
      with all [of ?d] fm_shape_pos [OF wf(1)] show ?thesis by simp
    qed
    then have "{i. i < fm_capacity m \<and> occ m i} = {..<fm_capacity m}" by auto
    with wf(2,3) show False by simp
  qed
  then have "\<exists>d. d < fm_capacity m \<and> \<not> occ m (probe m key d)" by blast
  then have "\<exists>d. (d < fm_capacity m \<and> \<not> occ m (probe m key d)) \<and> (\<forall>e<d. \<not> (e < fm_capacity m \<and> \<not> occ m (probe m key e)))"
    by (rule exists_least_iff [THEN iffD1])
  then show ?thesis by (meson less_trans)
qed

text \<open>The loops skip over occupied slots (of other keys).\<close>

lemma find_from_skip:
  assumes "fm_shape m" "\<And>e. e < d \<Longrightarrow> occ m (probe m key e) \<and> key_at m (probe m key e) \<noteq> key"
  shows "fm_find_slot m key = find_from (fm_slots m) (fm_mask m) key (probe_word m key d)"
  using assms(2)
proof (induction d)
  case 0
  then show ?case by (simp add: fm_find_slot_def probe_word_0)
next
  case (Suc d)
  then have "fm_find_slot m key = find_from (fm_slots m) (fm_mask m) key (probe_word m key d)" by simp
  also have "\<dots> = find_from (fm_slots m) (fm_mask m) key (probe_word m key (Suc d))"
    using Suc.prems [of d] by (subst find_from.simps)
      (simp add: Let_def unat_probe_word [OF assms(1)] probe_word_Suc [OF assms(1)])
  finally show ?case .
qed

lemma free_from_skip:
  assumes "fm_shape m" "\<And>e. e < d \<Longrightarrow> occ m (probe m key e)"
  shows "free_from (fm_slots m) (fm_mask m) (probe_word m key 0)
    = free_from (fm_slots m) (fm_mask m) (probe_word m key d)"
  using assms(2)
proof (induction d)
  case (Suc d)
  then have "free_from (fm_slots m) (fm_mask m) (probe_word m key 0)
      = free_from (fm_slots m) (fm_mask m) (probe_word m key d)" by simp
  also have "\<dots> = free_from (fm_slots m) (fm_mask m) (probe_word m key (Suc d))"
    using Suc.prems [of d] by (subst free_from.simps)
      (simp add: unat_probe_word [OF assms(1)] probe_word_Suc [OF assms(1)])
  finally show ?case .
qed simp

text \<open>Find terminates and is exact.\<close>

lemma find_slot_present:
  assumes "fm_wf m" "i < fm_capacity m" "occ m i"
  shows "fm_find_slot m (key_at m i) = Some (Some i)"
proof -
  note wf = fm_wfD [OF assms(1)]
  let ?k = "key_at m i"
  from wf(5) [OF assms(2,3)] obtain d where d: "d < fm_capacity m" "i = probe m ?k d"
    "\<forall>e < d. occ m (probe m ?k e)" by blast
  define d' where "d' = (LEAST d. i = probe m ?k d)"
  have d': "i = probe m ?k d'" "d' \<le> d"
    unfolding d'_def using d(2) by (rule LeastI, rule Least_le)
  have "occ m (probe m ?k e) \<and> key_at m (probe m ?k e) \<noteq> ?k" if "e < d'" for e
    using that d(3) d'(2) wf(4) [OF assms(2) probe_less [OF wf(1)] assms(3), of ?k e]
      not_less_Least [of e "\<lambda>d. i = probe m ?k d"] by (auto simp: d'_def [symmetric])
  then have "fm_find_slot m ?k = find_from (fm_slots m) (fm_mask m) ?k (probe_word m ?k d')"
    by (rule find_from_skip [OF wf(1)])
  also have "\<dots> = Some (Some i)"
    using assms(3) d'(1) by (subst find_from.simps) (simp add: Let_def unat_probe_word [OF wf(1)])
  finally show ?thesis .
qed

lemma find_slot_absent:
  assumes "fm_wf m" "\<And>i. i < fm_capacity m \<Longrightarrow> occ m i \<Longrightarrow> key_at m i \<noteq> key"
  shows "fm_find_slot m key = Some None"
proof -
  note wf = fm_wfD [OF assms(1)]
  obtain D where D: "D < fm_capacity m" "\<not> occ m (probe m key D)" "\<And>e. e < D \<Longrightarrow> occ m (probe m key e)"
    using free_slot_ahead [OF assms(1), of key] by blast
  have "fm_find_slot m key = find_from (fm_slots m) (fm_mask m) key (probe_word m key D)"
    using D(3) assms(2) [OF probe_less [OF wf(1)]] by (intro find_from_skip [OF wf(1)]) blast
  also have "\<dots> = Some None"
    using D(2) by (subst find_from.simps) (simp add: Let_def unat_probe_word [OF wf(1)])
  finally show ?thesis .
qed

lemma find_slot_total:
  assumes "fm_wf m"
  shows "\<exists>r. fm_find_slot m key = Some r \<and> (\<forall>i. r = Some i \<longleftrightarrow> i < fm_capacity m \<and> occ m i \<and> key_at m i = key)"
proof (cases "\<exists>i < fm_capacity m. occ m i \<and> key_at m i = key")
  case True
  then obtain i where i: "i < fm_capacity m" "occ m i" "key_at m i = key" by blast
  with find_slot_present [OF assms i(1,2)] fm_wfD(4) [OF assms] show ?thesis by auto
next
  case False
  then show ?thesis using find_slot_absent [OF assms, of key] by auto
qed

lemma fm_find_total: "fm_wf m \<Longrightarrow> fm_find m key = Some (fm_lookup m key)"
  using find_slot_total [of m key] unfolding fm_find_def fm_lookup_def by force

lemma fm_lookup_iff:
  assumes "fm_wf m"
  shows "fm_lookup m key = Some v
    \<longleftrightarrow> (\<exists>i < fm_capacity m. occ m i \<and> key_at m i = key \<and> value_at m i = v)"
proof -
  obtain r where r: "fm_find_slot m key = Some r"
    "\<And>i. r = Some i \<longleftrightarrow> i < fm_capacity m \<and> occ m i \<and> key_at m i = key"
    using find_slot_total [OF assms, of key] by blast
  then have "fm_lookup m key = map_option (value_at m) r"
    by (simp add: fm_find_def fm_lookup_def)
  moreover have "map_option (value_at m) r = Some v
      \<longleftrightarrow> (\<exists>i < fm_capacity m. occ m i \<and> key_at m i = key \<and> value_at m i = v)"
    unfolding map_option_eq_Some using r(2) by blast
  ultimately show ?thesis by simp
qed

lemma fm_lookup_None:
  assumes "fm_wf m"
  shows "fm_lookup m key = None \<longleftrightarrow> (\<forall>i < fm_capacity m. occ m i \<longrightarrow> key_at m i \<noteq> key)"
  using fm_lookup_iff [OF assms, of key] by (metis not_None_eq)

section \<open>Insertion\<close>

lemma free_from_first:
  assumes "fm_wf m" "D < fm_capacity m" "\<not> occ m (probe m key D)" "\<forall>e < D. occ m (probe m key e)"
  shows "free_from (fm_slots m) (fm_mask m) (mix key AND fm_mask m) = Some (probe m key D)"
proof -
  note shape = fm_wfD(1) [OF assms(1)]
  have "free_from (fm_slots m) (fm_mask m) (probe_word m key 0)
      = free_from (fm_slots m) (fm_mask m) (probe_word m key D)"
    using assms(4) by (intro free_from_skip [OF shape]) blast
  also have "\<dots> = Some (probe m key D)"
    using assms(3) by (subst free_from.simps) (simp add: unat_probe_word [OF shape])
  finally show ?thesis by (simp add: probe_word_0)
qed

text \<open>Storing an absent key into the first free slot of its probe sequence.\<close>

definition stored :: "flat_hash_map \<Rightarrow> nat \<Rightarrow> 64 word \<Rightarrow> 32 word \<Rightarrow> flat_hash_map" where
  "stored m i key v = m\<lparr>fm_slots := vec_set (fm_slots m) i \<lparr>hs_key = key, hs_value = v, hs_occupied = True\<rparr>,
     fm_size := fm_size m + 1\<rparr>"

lemma stored_simps [simp]:
  "fm_capacity (stored m i key v) = fm_capacity m" "fm_size (stored m i key v) = fm_size m + 1"
  "probe (stored m i key v) k d = probe m k d" "fm_shape (stored m i key v) = fm_shape m"
  "occ (stored m i key v) j \<longleftrightarrow> j = i \<or> occ m j"
  "key_at (stored m i key v) j = (if j = i then key else key_at m j)"
  "value_at (stored m i key v) j = (if j = i then v else value_at m j)"
  by (auto simp: stored_def probe_def fm_shape_def)

lemma stored_wf:
  assumes wf: "fm_wf m" and new: "fm_lookup m key = None" and room: "fm_size m + 1 < fm_capacity m"
    and D: "D < fm_capacity m" "\<not> occ m (probe m key D)" "\<forall>e < D. occ m (probe m key e)"
  shows "fm_wf (stored m (probe m key D) key v)"
    and "fm_lookup (stored m (probe m key D) key v) = (fm_lookup m)(key \<mapsto> v)"
proof -
  let ?i = "probe m key D" and ?m = "stored m (probe m key D) key v"
  note w = fm_wfD [OF wf]
  have i: "?i < fm_capacity m" by (rule probe_less [OF w(1)])
  have fresh: "\<And>j. j < fm_capacity m \<Longrightarrow> occ m j \<Longrightarrow> key_at m j \<noteq> key"
    using new fm_lookup_None [OF wf] by blast
  have card: "card {j. j < fm_capacity m \<and> occ ?m j} = Suc (fm_size m)"
  proof -
    have "{j. j < fm_capacity m \<and> occ ?m j} = insert ?i {j. j < fm_capacity m \<and> occ m j}"
      using i by auto
    then show ?thesis using D(2) w(2) by simp
  qed
  have uniq: "a = b" if a: "a < fm_capacity m" "occ ?m a" and b: "b < fm_capacity m" "occ ?m b"
    and eq: "key_at ?m a = key_at ?m b" for a b
  proof (cases "a = ?i \<or> b = ?i")
    case True
    with a b eq fresh [of a] fresh [of b] show ?thesis by (cases "a = ?i"; cases "b = ?i") simp_all
  next
    case False
    with a b eq show ?thesis by (intro w(4)) simp_all
  qed
  have chain: "\<exists>d < fm_capacity m. a = probe m (key_at ?m a) d \<and> (\<forall>e < d. occ ?m (probe m (key_at ?m a) e))"
    if a: "a < fm_capacity m" "occ ?m a" for a
  proof (cases "a = ?i")
    case True
    with D(1,3) show ?thesis by (intro exI [of _ D]) simp
  next
    case False
    with a obtain d where "d < fm_capacity m" "a = probe m (key_at m a) d"
      "\<forall>e < d. occ m (probe m (key_at m a) e)"
      using w(5) [of a] by auto
    with False show ?thesis by (intro exI [of _ d]) simp
  qed
  show wf': "fm_wf ?m"
    by (rule fm_wfI) (use w(1) card room uniq chain in \<open>simp_all only: stored_simps(1-4) Suc_eq_plus1\<close>)
  show "fm_lookup ?m = (fm_lookup m)(key \<mapsto> v)"
  proof
    fix k
    have *: "fm_lookup ?m k = Some x \<longleftrightarrow> ((fm_lookup m)(key \<mapsto> v)) k = Some x" for x
    proof (cases "k = key")
      case True
      with i fresh show ?thesis unfolding fm_lookup_iff [OF wf'] by auto
    next
      case False
      with D(2) have "occ ?m j \<and> key_at ?m j = k \<and> value_at ?m j = x
          \<longleftrightarrow> occ m j \<and> key_at m j = k \<and> value_at m j = x" for j
        by (cases "j = ?i") simp_all
      with False show ?thesis
        by (simp add: fm_lookup_iff [OF wf'] fm_lookup_iff [OF wf] del: stored_simps(5-7))
    qed
    show "fm_lookup ?m k = ((fm_lookup m)(key \<mapsto> v)) k"
      using * by (metis not_None_eq)
  qed
qed

lemma fm_place_correct:
  assumes "fm_wf m" "fm_lookup m key = None" "fm_size m + 1 < fm_capacity m"
  shows "\<exists>m'. fm_place m key v = Some m' \<and> fm_wf m' \<and> fm_capacity m' = fm_capacity m
    \<and> fm_size m' = fm_size m + 1 \<and> fm_lookup m' = (fm_lookup m)(key \<mapsto> v)"
proof -
  obtain D where D: "D < fm_capacity m" "\<not> occ m (probe m key D)" "\<forall>e < D. occ m (probe m key e)"
    using free_slot_ahead [OF assms(1)] by blast
  have "fm_place m key v = Some (stored m (probe m key D) key v)"
    by (simp add: fm_place_def free_from_first [OF assms(1) D] stored_def)
  with stored_wf [OF assms D] show ?thesis by simp
qed

definition entries :: "hslot list \<Rightarrow> (64 word \<times> 32 word) list" where
  "entries ss = map (\<lambda>s. (hs_key s, hs_value s)) (filter hs_occupied ss)"

lemma entries_simps [simp]:
  "entries [] = []"
  "entries (s # ss) = (if hs_occupied s then (hs_key s, hs_value s) # entries ss else entries ss)"
  by (simp_all add: entries_def)

lemma place_all_correct:
  assumes "fm_wf m" "distinct (map fst (entries ss))" "\<forall>k \<in> fst ` set (entries ss). fm_lookup m k = None"
    and "fm_size m + length (entries ss) < fm_capacity m"
  shows "\<exists>m'. place_all ss m = Some m' \<and> fm_wf m' \<and> fm_capacity m' = fm_capacity m
    \<and> fm_size m' = fm_size m + length (entries ss) \<and> fm_lookup m' = fm_lookup m ++ map_of (entries ss)"
  using assms
proof (induction ss arbitrary: m)
  case (Cons s ss)
  show ?case
  proof (cases "hs_occupied s")
    case True
    with Cons.prems have "fm_lookup m (hs_key s) = None" "fm_size m + 1 < fm_capacity m" by simp_all
    from fm_place_correct [OF Cons.prems(1) this, of "hs_value s"] obtain m1 where
      m1: "fm_place m (hs_key s) (hs_value s) = Some m1" "fm_wf m1" "fm_capacity m1 = fm_capacity m"
        "fm_size m1 = fm_size m + 1" "fm_lookup m1 = (fm_lookup m)(hs_key s \<mapsto> hs_value s)" by blast
    have new: "hs_key s \<notin> fst ` set (entries ss)" using Cons.prems(2) True by simp
    then have new': "(hs_key s, b) \<notin> set (entries ss)" for b by force
    have lk: "fm_lookup m1 ++ map_of (entries ss) = fm_lookup m ++ map_of (entries (s # ss))"
      using True new' by (auto simp: m1(5) map_add_def fun_eq_iff split: option.split dest: map_of_SomeD)
    have "\<exists>m'. place_all ss m1 = Some m' \<and> fm_wf m' \<and> fm_capacity m' = fm_capacity m1
      \<and> fm_size m' = fm_size m1 + length (entries ss) \<and> fm_lookup m' = fm_lookup m1 ++ map_of (entries ss)"
      using Cons.prems True new new' m1 by (intro Cons.IH) auto
    moreover have "place_all (s # ss) m = place_all ss m1" using True m1(1) by simp
    moreover have "fm_size m1 + length (entries ss) = fm_size m + length (entries (s # ss))"
      using True m1(4) by simp
    ultimately show ?thesis using m1(3) lk by (simp only:)
  next
    case False
    with Cons show ?thesis by simp
  qed
qed simp

lemma blank_map_wf:
  assumes "k \<le> 40"
  shows "fm_wf (blank_map (2 ^ k))" and "fm_lookup (blank_map (2 ^ k)) = Map.empty"
proof -
  have "word_of_nat (2 ^ k - 1) = (mask k :: 64 word)"
    by (simp add: mask_eq_exp_minus_1)
  then show wf: "fm_wf (blank_map (2 ^ k))"
    using assms by (intro fm_wfI) (auto simp: blank_map_def fm_shape_def empty_hslot_def)
  show "fm_lookup (blank_map (2 ^ k)) = Map.empty"
    by (intro ext) (simp add: fm_lookup_None [OF wf], simp add: blank_map_def empty_hslot_def)
qed

lemma old_entries:
  assumes "fm_wf m"
  defines "es \<equiv> entries (map (vat (fm_slots m)) [0..<vlen (fm_slots m)])"
  shows "distinct (map fst es)" "length es = fm_size m" "map_of es = fm_lookup m"
proof -
  note wf = fm_wfD [OF assms(1)]
  have len: "vlen (fm_slots m) = fm_capacity m" using wf(1) by (auto simp: fm_shape_def)
  have es: "es = map (\<lambda>i. (key_at m i, value_at m i)) (filter (occ m) [0..<fm_capacity m])"
    by (simp add: es_def entries_def len filter_map comp_def)
  show dist: "distinct (map fst es)"
    unfolding es map_map comp_def fst_conv distinct_map
    using wf(4) by (auto intro!: inj_onI)
  have "length es = card (set (filter (occ m) [0..<fm_capacity m]))"
    by (simp add: es distinct_card del: set_filter)
  also have "set (filter (occ m) [0..<fm_capacity m]) = {i. i < fm_capacity m \<and> occ m i}" by auto
  finally show "length es = fm_size m" using wf(2) by simp
  have "map_of es k = Some v \<longleftrightarrow> fm_lookup m k = Some v" for k v
    unfolding map_of_eq_Some_iff [OF dist] fm_lookup_iff [OF assms(1)] by (auto simp: es)
  then show "map_of es = fm_lookup m" by (intro ext) (metis not_None_eq)
qed

lemma fm_rehash_correct:
  assumes "fm_wf m" "k \<le> 40" "capacity_for (fm_size m) \<le> 2 ^ k"
  shows "\<exists>m'. fm_rehash al m (2 ^ k) = and_then (request al (Alloc_slots (2 ^ k))) (\<lambda>_. returns m')
    \<and> fm_ok m' \<and> fm_capacity m' = 2 ^ k \<and> fm_size m' = fm_size m \<and> fm_lookup m' = fm_lookup m"
proof -
  note old = old_entries [OF assms(1)] and blank = blank_map_wf [OF assms(2)]
  have room: "fm_size m \<le> max_entries (2 ^ k)"
  proof -
    have "max_entries (capacity_for (fm_size m)) \<le> max_entries (2 ^ k)"
      unfolding max_entries_def using assms(3) by (intro div_le_mono mult_le_mono1)
    with capacity_for_room [of "fm_size m"] show ?thesis by linarith
  qed
  with max_entries_less [of "2 ^ k"] have "fm_size m < 2 ^ k" by simp
  moreover have sz: "fm_size (blank_map (2 ^ k)) = 0" "fm_capacity (blank_map (2 ^ k)) = 2 ^ k"
    by (simp_all add: blank_map_def)
  ultimately have "\<exists>m'. place_all (map (vat (fm_slots m)) [0..<vlen (fm_slots m)]) (blank_map (2 ^ k)) = Some m'
      \<and> fm_wf m' \<and> fm_capacity m' = fm_capacity (blank_map (2 ^ k))
      \<and> fm_size m' = fm_size (blank_map (2 ^ k)) + fm_size m
      \<and> fm_lookup m' = fm_lookup (blank_map (2 ^ k)) ++ fm_lookup m"
    unfolding old(2,3) [symmetric] using old(1) blank by (intro place_all_correct) (simp_all add: old(2))
  then obtain m' where m': "place_all (map (vat (fm_slots m)) [0..<vlen (fm_slots m)]) (blank_map (2 ^ k)) = Some m'"
      "fm_wf m'" "fm_capacity m' = 2 ^ k" "fm_size m' = fm_size m" "fm_lookup m' = fm_lookup m"
    using sz blank(2) by auto
  then have "fm_rehash al m (2 ^ k) = and_then (request al (Alloc_slots (2 ^ k))) (\<lambda>_. returns m')"
    using assms(3) by (simp add: fm_rehash_def max_def returns_def)
  with m' room show ?thesis by (auto simp: fm_ok_def)
qed

text \<open>The constructor: an empty map of capacity 16.\<close>

lemma capacity_for_0: "capacity_for 0 = 1"
  by (simp add: capacity_for_def quotient_by_load_factor_def round_half_even_def Let_def
      load_numerator_def bit_ceil_def)

lemma fm_new_correct: "fm_new al = and_then (request al (Alloc_slots 16)) (\<lambda>_. returns (blank_map 16))"
  by (simp add: fm_new_def fm_rehash_def capacity_for_0 max_def returns_def)

lemma blank_16: "fm_ok (blank_map 16)" "fm_lookup (blank_map 16) = Map.empty"
    "fm_size (blank_map 16) = 0" "fm_capacity (blank_map 16) = 16"
  using blank_map_wf [of 4] by (simp_all add: fm_ok_def) (simp_all add: blank_map_def)

definition fm_ready :: "flat_hash_map \<Rightarrow> bool" where
  "fm_ready m \<longleftrightarrow> fm_ok m \<and> 16 \<le> fm_capacity m"

lemma capacity_for_bound: "n \<le> 2 ^ 32 \<Longrightarrow> \<exists>k \<le> 33. capacity_for n = 2 ^ k"
proof -
  assume n: "n \<le> 2 ^ 32"
  then have "n * 2 ^ 53 div load_numerator \<le> 2 ^ 32 * 2 ^ 53 div load_numerator"
    by (intro div_le_mono mult_le_mono1)
  with quotient_le [of n] have "quotient_by_load_factor n + 1 \<le> 2 ^ 33"
    by (simp add: load_numerator_def)
  then have le: "capacity_for n \<le> 2 ^ 33" unfolding capacity_for_def by (rule bit_ceil_le)
  obtain k where k: "capacity_for n = 2 ^ k" using bit_ceil_power unfolding capacity_for_def by blast
  with le have "k \<le> 33" by (metis one_less_numeral_iff power_le_imp_le_exp semiring_norm(76))
  with k show ?thesis by blast
qed

lemma fm_reserve_correct:
  assumes "fm_ready m" "n \<le> 2 ^ 32" "fm_size m \<le> n"
  shows "\<exists>m'. fm_reserve al m n
      = (if fm_capacity m < capacity_for n
         then and_then (request al (Alloc_slots (capacity_for n))) (\<lambda>_. returns m') else returns m')
    \<and> fm_ready m' \<and> fm_size m' = fm_size m \<and> fm_lookup m' = fm_lookup m \<and> n \<le> max_entries (fm_capacity m')"
proof (cases "fm_capacity m < capacity_for n")
  case True
  obtain k where k: "k \<le> 33" "capacity_for n = 2 ^ k" using capacity_for_bound [OF assms(2)] by blast
  have wf: "fm_wf m" "fm_size m \<le> max_entries (fm_capacity m)"
    using assms(1) by (simp_all add: fm_ready_def fm_ok_def)
  then obtain j where j: "fm_capacity m = 2 ^ j" using fm_wfD(1) by (auto simp: fm_shape_def)
  with True k(2) have "(2::nat) ^ Suc j \<le> 2 ^ k" by (intro power_increasing) (simp_all add: Suc_le_eq)
  with capacity_for_doubling [of "fm_size m" j] wf(2) j have "capacity_for (fm_size m) \<le> 2 ^ k" by simp
  moreover note wf(1)
  ultimately obtain m' where "fm_rehash al m (2 ^ k) = and_then (request al (Alloc_slots (2 ^ k))) (\<lambda>_. returns m')"
    "fm_ok m'" "fm_capacity m' = 2 ^ k" "fm_size m' = fm_size m" "fm_lookup m' = fm_lookup m"
    using fm_rehash_correct [of m k al] k(1) by auto
  with True k assms(1) capacity_for_room [of n] show ?thesis
    by (intro exI [of _ m']) (simp add: fm_reserve_def fm_ready_def)
next
  case False
  have "max_entries (capacity_for n) \<le> max_entries (fm_capacity m)"
    unfolding max_entries_def using False by (intro div_le_mono mult_le_mono1) simp
  with False assms capacity_for_room [of n] show ?thesis
    by (intro exI [of _ m]) (simp add: fm_reserve_def)
qed

lemma fm_insert_correct:
  assumes "fm_ready m" "fm_lookup m key = None" "fm_size m < 2 ^ 32"
  shows "\<exists>m'. fm_insert al m key v
      = (if max_entries (fm_capacity m) < fm_size m + 1
         then and_then (request al (Alloc_slots (2 * fm_capacity m))) (\<lambda>_. returns m') else returns m')
    \<and> fm_ready m' \<and> fm_size m' = fm_size m + 1 \<and> fm_lookup m' = (fm_lookup m)(key \<mapsto> v)"
proof -
  let ?grow = "max_entries (fm_capacity m) < fm_size m + 1"
  have m: "fm_wf m" "fm_size m \<le> max_entries (fm_capacity m)" "16 \<le> fm_capacity m"
    using assms(1) by (simp_all add: fm_ready_def fm_ok_def)
  have "\<exists>m1. (if ?grow then fm_rehash al m (2 * fm_capacity m) else returns m)
      = (if ?grow then and_then (request al (Alloc_slots (2 * fm_capacity m))) (\<lambda>_. returns m1) else returns m1)
    \<and> fm_wf m1 \<and> 16 \<le> fm_capacity m1 \<and> fm_size m1 = fm_size m \<and> fm_lookup m1 = fm_lookup m
    \<and> fm_size m + 1 \<le> max_entries (fm_capacity m1)"
  proof (cases ?grow)
    case True
    obtain j where j: "j \<le> 40" "fm_capacity m = 2 ^ j" using fm_wfD(1) [OF m(1)] by (auto simp: fm_shape_def)
    have "j \<le> 34"
    proof (rule ccontr)
      assume "\<not> j \<le> 34"
      then have "max_entries (2 ^ 34) \<le> max_entries (2 ^ j)"
        unfolding max_entries_def by (intro div_le_mono mult_le_mono1 power_increasing) simp_all
      with True assms(3) j(2) show False by (simp add: max_entries_def load_numerator_def)
    qed
    moreover have "capacity_for (fm_size m) \<le> 2 ^ Suc j"
      using capacity_for_doubling [of "fm_size m" j] m(2) j(2) by simp
    ultimately obtain m1 where m1: "fm_rehash al m (2 ^ Suc j) = and_then (request al (Alloc_slots (2 ^ Suc j))) (\<lambda>_. returns m1)"
      "fm_ok m1" "fm_capacity m1 = 2 ^ Suc j" "fm_size m1 = fm_size m" "fm_lookup m1 = fm_lookup m"
      using fm_rehash_correct [OF m(1), of "Suc j" al] by auto
    have "fm_size m + 1 \<le> max_entries (2 * fm_capacity m)"
      using m(2,3) by (simp add: max_entries_def load_numerator_def)
    with True m1 m(3) j(2) show ?thesis by (intro exI [of _ m1]) (simp add: fm_ok_def)
  next
    case False
    with m show ?thesis by (intro exI [of _ m]) simp
  qed
  then obtain m1 where m1: "(if ?grow then fm_rehash al m (2 * fm_capacity m) else returns m)
      = (if ?grow then and_then (request al (Alloc_slots (2 * fm_capacity m))) (\<lambda>_. returns m1) else returns m1)"
    "fm_wf m1" "16 \<le> fm_capacity m1" "fm_size m1 = fm_size m" "fm_lookup m1 = fm_lookup m"
    "fm_size m + 1 \<le> max_entries (fm_capacity m1)" by blast
  with max_entries_less [of "fm_capacity m1"] have "fm_size m1 + 1 < fm_capacity m1" by simp
  with fm_place_correct [OF m1(2), of key v] m1(5) assms(2) obtain m' where
    m': "fm_place m1 key v = Some m'" "fm_wf m'" "fm_capacity m' = fm_capacity m1"
      "fm_size m' = fm_size m1 + 1" "fm_lookup m' = (fm_lookup m1)(key \<mapsto> v)" by auto
  have "fm_insert al m key v
      = and_then (if ?grow then and_then (request al (Alloc_slots (2 * fm_capacity m))) (\<lambda>_. returns m1) else returns m1)
          (\<lambda>m. map_option Inr (fm_place m key v))"
    unfolding fm_insert_def m1(1) [symmetric] by simp
  also have "\<dots> = (if ?grow then and_then (request al (Alloc_slots (2 * fm_capacity m))) (\<lambda>_. returns m') else returns m')"
    using m'(1) request_cases [of al "Alloc_slots (2 * fm_capacity m)"] by (auto simp: returns_def [of m'])
  finally show ?thesis using m' m1 by (auto simp: fm_ready_def fm_ok_def)
qed

lemma fm_assign_correct:
  assumes "fm_ready m" "fm_lookup m key \<noteq> None"
  shows "\<exists>m'. fm_assign_existing m key v = Some m' \<and> fm_ready m' \<and> fm_size m' = fm_size m
    \<and> fm_lookup m' = (fm_lookup m)(key \<mapsto> v)"
proof -
  have wf: "fm_wf m" using assms(1) by (simp add: fm_ready_def fm_ok_def)
  note w = fm_wfD [OF wf]
  obtain i where i: "i < fm_capacity m" "occ m i" "key_at m i = key"
    using assms(2) unfolding fm_lookup_None [OF wf] by blast
  let ?m = "m\<lparr>fm_slots := vec_set (fm_slots m) i ((vat (fm_slots m) i)\<lparr>hs_value := v\<rparr>)\<rparr>"
  have eqs: "fm_capacity ?m = fm_capacity m" "fm_size ?m = fm_size m" "fm_shape ?m = fm_shape m"
    "probe ?m k d = probe m k d" "occ ?m j = occ m j" "key_at ?m j = key_at m j"
    "value_at ?m j = (if j = i then v else value_at m j)" for j k d
    by (simp_all add: fm_shape_def probe_def)
  have wf': "fm_wf ?m" unfolding fm_wf_def eqs using wf [unfolded fm_wf_def] .
  have "fm_lookup ?m k = Some x \<longleftrightarrow> ((fm_lookup m)(key \<mapsto> v)) k = Some x" for k x
  proof (cases "k = key")
    case True
    have "(\<exists>j < fm_capacity m. occ m j \<and> key_at m j = key \<and> (if j = i then v else value_at m j) = x) \<longleftrightarrow> v = x"
    proof -
      have "j = i" if "j < fm_capacity m" "occ m j" "key_at m j = key" for j
        using that i by (intro w(4)) simp_all
      with i show ?thesis by metis
    qed
    with True show ?thesis unfolding fm_lookup_iff [OF wf'] eqs by simp
  next
    case False
    then show ?thesis unfolding fm_lookup_iff [OF wf'] eqs fun_upd_apply using i(3)
      by (simp add: fm_lookup_iff [OF wf]) metis
  qed
  then have "fm_lookup ?m = (fm_lookup m)(key \<mapsto> v)" by (intro ext) (metis not_None_eq)
  moreover have "fm_assign_existing m key v = Some ?m"
    using find_slot_present [OF wf i(1,2)] i(3) by (simp add: fm_assign_existing_def)
  moreover have "fm_ready ?m"
    using wf' assms(1) by (simp add: fm_ready_def fm_ok_def del: fm_lookup_iff)
  ultimately show ?thesis
    by (intro exI [of _ ?m] conjI eqs(2))
qed

interpretation hash_map: id_map fm_ready fm_lookup fm_size fm_find fm_contains fm_assign_existing fm_insert
proof unfold_locales
  fix m k
  assume ok: "fm_ready m"
  then have wf: "fm_wf m" by (simp add: fm_ready_def fm_ok_def)
  show "fm_find m k = Some (fm_lookup m k)" by (rule fm_find_total [OF wf])
  then show "fm_contains m k = Some (fm_lookup m k \<noteq> None)" by (simp add: fm_contains_def)
  show "fm_lookup m k \<noteq> None \<Longrightarrow> \<exists>m'. fm_assign_existing m k v = Some m' \<and> fm_ready m'
      \<and> fm_size m' = fm_size m \<and> fm_lookup m' = (fm_lookup m)(k \<mapsto> v)" for v
    by (rule fm_assign_correct [OF ok])
  show "fm_lookup m k = None \<Longrightarrow> fm_size m < 2 ^ 32 \<Longrightarrow>
      (\<exists>m'. fm_insert al m k v = Some (Inr m') \<and> fm_ready m'
        \<and> fm_size m' = Suc (fm_size m) \<and> fm_lookup m' = (fm_lookup m)(k \<mapsto> v))
      \<or> (\<exists>e r. fm_insert al m k v = Some (Inl e) \<and> al r = Some e)" for al v
    using fm_insert_correct [OF ok, of k al v] request_cases [of al "Alloc_slots (2 * fm_capacity m)"]
    by (auto simp: returns_def)
qed

end
