(* ===== verification/Engine.thy ===== *)
theory Engine
  imports Flat_Hash_Map Order_Book
begin

text \<open>
  \<open>Engine\<close> (\<open>include/engine/engine.hpp\<close>, \<open>src/engine.cpp\<close>) and the C entry points of
  \<open>src/engine_api.cpp\<close>. The state is the class's fields plus \<open>eng_events\<close>, the calls made on
  the listener so far. Each handler returns \<open>None\<close> only if one of its loops does not end
  (or a pointer that is not there is followed); an exception that the handler's \<open>catch\<close>
  swallows leaves the state as it was at the throw.
\<close>

section \<open>The engine\<close>

record engine =
  eng_order_index :: flat_hash_map
  eng_instrument_index :: flat_hash_map
  eng_pool :: order_pool
  eng_books :: "order_book list"
  eng_next_trade_id :: trade_id
  eng_configured :: bool
  eng_events :: "event list"

definition emit :: "event \<Rightarrow> engine \<Rightarrow> engine" where
  "emit ev e = e\<lparr>eng_events := eng_events e @ [ev]\<rparr>"

definition kDefaultOrderCapacity :: nat where
  "kDefaultOrderCapacity = 16777216"

text \<open>
  The constructor. \<open>xmatch_create\<close> asks for the object itself first, and turns an exception into a
  null pointer.
\<close>

definition engine_new :: "allocator \<Rightarrow> engine outcome" where
  "engine_new al =
    and_then (fm_new al) (\<lambda>oi.
    and_then (fm_new al) (\<lambda>ii.
    and_then (op_new al) (\<lambda>p.
      returns \<lparr>eng_order_index = oi, eng_instrument_index = ii, eng_pool = p, eng_books = [],
               eng_next_trade_id = 1, eng_configured = False, eng_events = []\<rparr>)))"

definition xmatch_api_version :: "32 word" where
  "xmatch_api_version = kApiVersion"

definition xmatch_create :: "allocator \<Rightarrow> bool \<Rightarrow> engine option option" where
  "xmatch_create al listener_non_null =
    (if \<not> listener_non_null then Some None
     else case and_then (request al Alloc_engine) (\<lambda>_. engine_new al) of
         None \<Rightarrow> None
       | Some (Inl _) \<Rightarrow> Some None
       | Some (Inr e) \<Rightarrow> Some (Some e))"

section \<open>Configuration\<close>

definition config_invalid :: "instrument_config \<Rightarrow> bool" where
  "config_invalid cfg \<longleftrightarrow> int64_max sdiv kMaxBandBps < ic_reference_price cfg
    \<or> \<not> is_tick_aligned (ic_reference_price cfg)
    \<or> kMaxBandBps < uint (ic_band_bps cfg)"

text \<open>
  The loop over the instruments. The result is \<open>Inl kInvalidArgument\<close> for the early return,
  or the configured books and their index.
\<close>

fun configure_books :: "allocator \<Rightarrow> instrument_config list \<Rightarrow> nat \<Rightarrow> flat_hash_map \<Rightarrow> order_book list
    \<Rightarrow> (configure_result + order_book list \<times> flat_hash_map) outcome" where
  "configure_books al [] i index books = returns (Inr (books, index))"
| "configure_books al (cfg # cfgs) i index books =
    (if config_invalid cfg then returns (Inl kInvalidArgument)
     else case fm_contains index (ucast (ic_instrument_id cfg)) of
         None \<Rightarrow> None
       | Some True \<Rightarrow> returns (Inl kInvalidArgument)
       | Some False \<Rightarrow>
           and_then (ob_configure al (ic_instrument_id cfg) (ic_reference_price cfg) (ic_band_bps cfg)) (\<lambda>book.
           and_then (fm_insert al index (ucast (ic_instrument_id cfg)) (word_of_nat i)) (\<lambda>index.
             configure_books al cfgs (i + 1) index (books[i := book]))))"

text \<open>
  The body of the \<open>try\<close> block. \<open>instruments\<close> is \<open>None\<close> for a null pointer; its length is
  \<open>count\<close>.
\<close>

definition configure_body :: "allocator \<Rightarrow> engine \<Rightarrow> instrument_config list option
    \<Rightarrow> (configure_result \<times> engine) outcome" where
  "configure_body al e instruments =
    (if eng_configured e then returns (kAlreadyConfigured, e)
     else case instruments of
       None \<Rightarrow> returns (kInvalidArgument, e)
     | Some cfgs \<Rightarrow>
         if length cfgs = 0 \<or> 2 ^ 32 - 1 < length cfgs then returns (kInvalidArgument, e)
         else
           and_then (request al (Alloc_books (length cfgs))) (\<lambda>_.
           and_then (fm_new al) (\<lambda>index.
           and_then (fm_reserve al index (length cfgs)) (\<lambda>index.
           and_then (configure_books al cfgs 0 index (replicate (length cfgs) blank_book)) (\<lambda>r.
             case r of
               Inl res \<Rightarrow> returns (res, e)
             | Inr (books, index) \<Rightarrow>
                 and_then (op_new al) (\<lambda>p.
                 and_then (op_reserve al p kDefaultOrderCapacity) (\<lambda>p.
                 and_then (fm_new al) (\<lambda>oi.
                 and_then (fm_reserve al oi kDefaultOrderCapacity) (\<lambda>oi.
                   returns (kOk, e\<lparr>eng_books := books, eng_pool := p, eng_instrument_index := index,
                                   eng_order_index := oi, eng_configured := True\<rparr>))))))))))"

definition configure :: "allocator \<Rightarrow> engine \<Rightarrow> instrument_config list option
    \<Rightarrow> (configure_result \<times> engine) option" where
  "configure al e instruments =
    (case configure_body al e instruments of
       None \<Rightarrow> None
     | Some (Inr r) \<Rightarrow> Some r
     | Some (Inl Bad_alloc) \<Rightarrow> Some (kOutOfMemory, e)
     | Some (Inl Other_exn) \<Rightarrow> Some (kInternalError, e))"

section \<open>Lookup\<close>

definition find_book :: "engine \<Rightarrow> instrument_id \<Rightarrow> nat option option" where
  "find_book e i =
    do { r \<leftarrow> fm_find (eng_instrument_index e) (ucast i);
         Some (map_option unat r) }"

definition top_of_book :: "engine \<Rightarrow> instrument_id \<Rightarrow> top_of_book option" where
  "top_of_book e i =
    do { r \<leftarrow> find_book e i;
         Some (case r of None \<Rightarrow> empty_top_of_book | Some b \<Rightarrow> ob_top_of_book (eng_books e ! b)) }"

section \<open>Matching\<close>

fun crosses :: "side \<Rightarrow> price \<Rightarrow> price \<Rightarrow> bool" where
  "crosses kBuy limit_price resting_price \<longleftrightarrow> resting_price \<le> limit_price"
| "crosses kSell limit_price resting_price \<longleftrightarrow> limit_price \<le> resting_price"

text \<open>
  The part of the state that \<open>run_matching\<close> works on: the pool, the book it is given a
  reference to, the trade counter and the listener.
\<close>

record match_state =
  ms_pool :: order_pool
  ms_book :: order_book
  ms_next_trade_id :: trade_id
  ms_events :: "event list"

text \<open>The body of the inner loop: one execution against the oldest order of the level.\<close>

definition execute_head :: "instrument_id \<Rightarrow> slot \<Rightarrow> side \<Rightarrow> 32 word \<Rightarrow> match_state \<Rightarrow> match_state" where
  "execute_head instrument_id agg sd idx ms =
    (let opp = opposite sd;
         p = ms_pool ms; ob = ms_book ms;
         resting_slot = lvl_head (level_at ob opp idx);
         fill = min (rec_open_qty (op_get p agg)) (rec_open_qty (op_get p resting_slot));
         trade_id = ms_next_trade_id ms;
         ev = On_trade trade_id instrument_id (rec_price (op_get p resting_slot)) fill
                (rec_id (op_get p resting_slot)) (rec_id (op_get p agg)) sd;
         p = op_upd p agg (\<lambda>r. r\<lparr>rec_open_qty := rec_open_qty r - fill, rec_filled_qty := rec_filled_qty r + fill\<rparr>);
         p = op_upd p resting_slot (\<lambda>r. r\<lparr>rec_open_qty := rec_open_qty r - fill, rec_filled_qty := rec_filled_qty r + fill\<rparr>);
         lvl = level_at ob opp idx;
         ob = set_level_at ob opp idx (lvl\<lparr>lvl_total_qty := lvl_total_qty lvl - fill\<rparr>);
         (p, ob) = (if rec_open_qty (op_get p resting_slot) = 0 then remove_resting p ob resting_slot else (p, ob))
     in \<lparr>ms_pool = p, ms_book = ob, ms_next_trade_id = trade_id + 1, ms_events = ms_events ms @ [ev]\<rparr>)"

partial_function (option) match_level :: "instrument_id \<Rightarrow> slot \<Rightarrow> side \<Rightarrow> 32 word \<Rightarrow> match_state \<Rightarrow> match_state option" where
  "match_level instrument_id agg sd idx ms =
    (if 0 < rec_open_qty (op_get (ms_pool ms) agg) \<and> lvl_head (level_at (ms_book ms) (opposite sd) idx) \<noteq> kInvalidSlot
     then match_level instrument_id agg sd idx (execute_head instrument_id agg sd idx ms)
     else Some ms)"

partial_function (option) run_matching :: "instrument_id \<Rightarrow> slot \<Rightarrow> side \<Rightarrow> price \<Rightarrow> bool \<Rightarrow> match_state \<Rightarrow> match_state option" where
  "run_matching instrument_id agg sd limit_price is_market ms =
    (if 0 < rec_open_qty (op_get (ms_pool ms) agg) \<and> has_best (ms_book ms) (opposite sd)
     then let idx = word_of_int (best_index (ms_book ms) (opposite sd));
              resting_price = ob_index_to_price (ms_book ms) idx
          in if \<not> is_market \<and> \<not> crosses sd limit_price resting_price then Some ms
             else do { ms \<leftarrow> match_level instrument_id agg sd idx ms;
                       run_matching instrument_id agg sd limit_price is_market ms }
     else Some ms)"

partial_function (option) fill_scan :: "order_book \<Rightarrow> side \<Rightarrow> bool \<Rightarrow> price \<Rightarrow> quantity \<Rightarrow> quantity \<Rightarrow> int \<Rightarrow> bool option" where
  "fill_scan ob sd is_market limit_price needed available idx =
    (if 0 \<le> idx then
       let resting_price = ob_index_to_price ob (word_of_int idx)
       in if \<not> is_market \<and> \<not> crosses sd limit_price resting_price then Some (needed \<le> available)
          else let available = available + lvl_total_qty (level_at ob (opposite sd) (word_of_int idx))
               in if needed \<le> available then Some True
                  else fill_scan ob sd is_market limit_price needed available (next_index ob (opposite sd) idx)
     else Some (needed \<le> available))"

definition can_fully_fill :: "order_book \<Rightarrow> side \<Rightarrow> bool \<Rightarrow> price \<Rightarrow> quantity \<Rightarrow> bool option" where
  "can_fully_fill ob sd is_market limit_price needed =
    (if \<not> has_best ob (opposite sd) then Some False
     else fill_scan ob sd is_market limit_price needed 0 (best_index ob (opposite sd)))"

text \<open>\<open>run_matching\<close> on the engine, with the book it names by its index in \<open>books_\<close>.\<close>

definition match_in_engine :: "engine \<Rightarrow> nat \<Rightarrow> instrument_id \<Rightarrow> slot \<Rightarrow> side \<Rightarrow> price \<Rightarrow> bool \<Rightarrow> engine option" where
  "match_in_engine e b instrument_id agg sd limit_price is_market =
    do { ms \<leftarrow> run_matching instrument_id agg sd limit_price is_market
           \<lparr>ms_pool = eng_pool e, ms_book = eng_books e ! b, ms_next_trade_id = eng_next_trade_id e,
            ms_events = eng_events e\<rparr>;
         Some (e\<lparr>eng_pool := ms_pool ms, eng_books := (eng_books e)[b := ms_book ms],
                 eng_next_trade_id := ms_next_trade_id ms, eng_events := ms_events ms\<rparr>) }"

definition with_book :: "(order_pool \<Rightarrow> order_book \<Rightarrow> order_pool \<times> order_book) \<Rightarrow> nat \<Rightarrow> engine \<Rightarrow> engine" where
  "with_book f b e =
    (let (p, ob) = f (eng_pool e) (eng_books e ! b)
     in e\<lparr>eng_pool := p, eng_books := (eng_books e)[b := ob]\<rparr>)"

definition upd_rec :: "slot \<Rightarrow> (order_record \<Rightarrow> order_record) \<Rightarrow> engine \<Rightarrow> engine" where
  "upd_rec slot f e = e\<lparr>eng_pool := op_upd (eng_pool e) slot f\<rparr>"

abbreviation rec_of :: "engine \<Rightarrow> slot \<Rightarrow> order_record" where
  "rec_of e slot \<equiv> op_get (eng_pool e) slot"

section \<open>Submit\<close>

text \<open>What is left of \<open>submit\<close> after validation: acceptance, the FOK check, matching, the rest.\<close>

definition submit_accepted :: "engine \<Rightarrow> new_order \<Rightarrow> nat \<Rightarrow> slot \<Rightarrow> bool \<Rightarrow> price \<Rightarrow> engine option" where
  "submit_accepted e order b slot is_market price =
    (let e = upd_rec slot (\<lambda>r. r\<lparr>rec_open_qty := no_quantity order, rec_filled_qty := 0\<rparr>) e;
         e = emit (On_accepted (no_order_id order)) e
     in do {
       fillable \<leftarrow> (if no_tif order = kFok
                   then can_fully_fill (eng_books e ! b) (no_side order) is_market price (no_quantity order)
                   else Some True);
       if \<not> fillable
       then Some (emit (On_canceled (no_order_id order) (no_quantity order) kFokUnfillable)
                   (upd_rec slot (\<lambda>r. r\<lparr>rec_open_qty := 0\<rparr>) e))
       else do {
         e \<leftarrow> match_in_engine e b (no_instrument_id order) slot (no_side order) price is_market;
         if 0 < rec_open_qty (rec_of e slot)
         then if no_tif order = kDay
              then Some (with_book (\<lambda>p ob. add_resting p ob slot (no_side order) price) b e)
              else let reason = (if is_market then kNoLiquidity
                                 else if no_tif order = kIoc then kIocRemainder else kFokUnfillable);
                       remainder = rec_open_qty (rec_of e slot)
                   in Some (emit (On_canceled (no_order_id order) remainder reason)
                             (upd_rec slot (\<lambda>r. r\<lparr>rec_open_qty := 0\<rparr>) e))
         else Some e } })"

definition submit_validated :: "engine \<Rightarrow> new_order \<Rightarrow> nat \<Rightarrow> slot \<Rightarrow> engine option" where
  "submit_validated e order b slot =
    (let reject = (\<lambda>reason. Some (emit (On_rejected (no_order_id order) reason) e));
         is_market = (no_type order = kMarket)
     in if no_quantity order = 0 then reject kInvalidQuantity
        else if is_market \<and> no_tif order = kDay then reject kInvalidTimeInForce
        else if \<not> is_market then
          if \<not> is_tick_aligned (no_price order) then reject kInvalidPriceTick
          else if ob_price_to_index (eng_books e ! b) (no_price order) < 0 then reject kPriceOutOfBand
          else submit_accepted e order b slot is_market (no_price order)
        else submit_accepted e order b slot is_market 0)"

definition submit :: "allocator \<Rightarrow> engine \<Rightarrow> new_order \<Rightarrow> engine option" where
  "submit al e order =
    (let reject = (\<lambda>reason. Some (emit (On_rejected (no_order_id order) reason) e))
     in if \<not> eng_configured e then reject kNotConfigured
        else do {
          book \<leftarrow> find_book e (no_instrument_id order);
          case book of
            None \<Rightarrow> reject kUnknownInstrument
          | Some b \<Rightarrow> do {
              dup \<leftarrow> fm_contains (eng_order_index e) (no_order_id order);
              if dup then reject kDuplicateOrderId
              else do {
                a \<leftarrow> op_allocate al (eng_pool e);
                case a of
                  Inl _ \<Rightarrow> Some e
                | Inr (slot, p) \<Rightarrow> do {
                    let e = upd_rec slot (\<lambda>r. r\<lparr>rec_id := no_order_id order,
                        rec_instrument_id := no_instrument_id order, rec_side := no_side order\<rparr>) (e\<lparr>eng_pool := p\<rparr>);
                    ins \<leftarrow> fm_insert al (eng_order_index e) (no_order_id order) slot;
                    case ins of
                      Inl _ \<Rightarrow> Some e
                    | Inr oi \<Rightarrow> submit_validated (e\<lparr>eng_order_index := oi\<rparr>) order b slot } } } })"

section \<open>Cancel\<close>

definition cancel :: "engine \<Rightarrow> cancel_order \<Rightarrow> engine option" where
  "cancel e req =
    (let reject = (\<lambda>reason. Some (emit (On_rejected (co_order_id req) reason) e))
     in if \<not> eng_configured e then reject kNotConfigured
        else do {
          r \<leftarrow> fm_find (eng_order_index e) (co_order_id req);
          case r of
            None \<Rightarrow> reject kUnknownOrder
          | Some slot \<Rightarrow>
              if \<not> rec_is_open (rec_of e slot) then reject kUnknownOrder
              else do {
                book \<leftarrow> find_book e (rec_instrument_id (rec_of e slot));
                b \<leftarrow> book;
                let open_qty = rec_open_qty (rec_of e slot);
                Some (emit (On_canceled (co_order_id req) open_qty kUserRequested)
                  (with_book (\<lambda>p ob. remove_resting p ob slot) b e)) } })"

section \<open>Replace\<close>

text \<open>The part of \<open>replace\<close> that changes the state, once the new order has its slot.\<close>

definition replace_commit :: "engine \<Rightarrow> replace_order \<Rightarrow> nat \<Rightarrow> order_record \<Rightarrow> slot \<Rightarrow> slot \<Rightarrow> quantity \<Rightarrow> engine option" where
  "replace_commit e req b old_copy old_slot new_slot new_open =
    (let price_changed = (ro_new_price req \<noteq> rec_price old_copy);
         qty_increased = (rec_open_qty old_copy < new_open);
         ev = On_replaced (ro_order_id req) (ro_new_order_id req) (ro_new_price req) new_open
     in if price_changed \<or> qty_increased then do {
          let e = emit ev (with_book (\<lambda>p ob. remove_resting p ob old_slot) b e);
          e \<leftarrow> (if price_changed
               then match_in_engine e b (rec_instrument_id old_copy) new_slot (rec_side old_copy) (ro_new_price req) False
               else Some e);
          if 0 < rec_open_qty (rec_of e new_slot)
          then Some (with_book (\<lambda>p ob. add_resting p ob new_slot (rec_side old_copy) (ro_new_price req)) b e)
          else Some e }
        else Some (emit ev (with_book (\<lambda>p ob. replace_in_place p ob old_slot new_slot) b e)))"

definition replace_validated :: "allocator \<Rightarrow> engine \<Rightarrow> replace_order \<Rightarrow> nat \<Rightarrow> order_record \<Rightarrow> slot \<Rightarrow> quantity \<Rightarrow> engine option" where
  "replace_validated al e req b old_copy old_slot new_open =
    do {
      a \<leftarrow> op_allocate al (eng_pool e);
      case a of
        Inl _ \<Rightarrow> Some e
      | Inr (new_slot, p) \<Rightarrow> do {
          let e = upd_rec new_slot (\<lambda>r. r\<lparr>rec_id := ro_new_order_id req,
              rec_instrument_id := rec_instrument_id old_copy, rec_side := rec_side old_copy,
              rec_price := ro_new_price req, rec_open_qty := new_open,
              rec_filled_qty := rec_filled_qty old_copy\<rparr>) (e\<lparr>eng_pool := p\<rparr>);
          ins \<leftarrow> (if ro_new_order_id req = ro_order_id req
                 then map_option Inr (fm_assign_existing (eng_order_index e) (ro_new_order_id req) new_slot)
                 else fm_insert al (eng_order_index e) (ro_new_order_id req) new_slot);
          case ins of
            Inl _ \<Rightarrow> Some e
          | Inr oi \<Rightarrow> replace_commit (e\<lparr>eng_order_index := oi\<rparr>) req b old_copy old_slot new_slot new_open } }"

definition replace :: "allocator \<Rightarrow> engine \<Rightarrow> replace_order \<Rightarrow> engine option" where
  "replace al e req =
    (let reject = (\<lambda>reason. Some (emit (On_rejected (ro_new_order_id req) reason) e))
     in if \<not> eng_configured e then reject kNotConfigured
        else do {
          r \<leftarrow> fm_find (eng_order_index e) (ro_order_id req);
          case r of
            None \<Rightarrow> reject kUnknownOrder
          | Some old_slot \<Rightarrow>
              if \<not> rec_is_open (rec_of e old_slot) then reject kUnknownOrder
              else do {
                let old_copy = rec_of e old_slot;
                book \<leftarrow> find_book e (rec_instrument_id old_copy);
                b \<leftarrow> book;
                let new_open = (if rec_filled_qty old_copy < ro_new_quantity req
                                then ro_new_quantity req - rec_filled_qty old_copy else 0);
                if new_open = 0
                then Some (emit (On_canceled (ro_order_id req) (rec_open_qty old_copy) kUserRequested)
                  (with_book (\<lambda>p ob. remove_resting p ob old_slot) b e))
                else do {
                  dup \<leftarrow> (if ro_new_order_id req = ro_order_id req then Some False
                         else fm_contains (eng_order_index e) (ro_new_order_id req));
                  if dup then reject kDuplicateOrderId
                  else if \<not> is_tick_aligned (ro_new_price req) then reject kInvalidPriceTick
                  else if ob_price_to_index (eng_books e ! b) (ro_new_price req) < 0 then reject kPriceOutOfBand
                  else replace_validated al e req b old_copy old_slot new_open } } })"

section \<open>Runs\<close>

datatype command = Submit new_order | Cancel cancel_order | Replace replace_order

fun step :: "allocator \<Rightarrow> engine \<Rightarrow> command \<Rightarrow> engine option" where
  "step al e (Submit order) = submit al e order"
| "step al e (Cancel req) = cancel e req"
| "step al e (Replace req) = replace al e req"

fun run :: "engine \<Rightarrow> (allocator \<times> command) list \<Rightarrow> engine option" where
  "run e [] = Some e"
| "run e ((al, c) # cs) = do { e \<leftarrow> step al e c; run e cs }"

end
