(* ===== verification/Matching_Refinement.thy ===== *)
theory Matching_Refinement
  imports Book_View Engine
begin

text \<open>
  The matching loops of \<open>src/engine.cpp\<close> against \<open>take_liquidity\<close>: under the book invariant
  they return, leave the invariant, and consume the opposite side as the list function does,
  with the same trades.
\<close>

section \<open>Good books\<close>

text \<open>
  \<open>book_ok\<close> adds to the invariant that resting quantities are positive and that every open
  record of the book's instrument is in one of its queues.
\<close>

definition live :: "heap \<Rightarrow> queues \<Rightarrow> bool" where
  "live h q \<longleftrightarrow> (\<forall>sd i. \<forall>s \<in> set (q sd i). rec_open_qty (h s) \<noteq> 0)"

definition complete :: "order_pool \<Rightarrow> order_book \<Rightarrow> queues \<Rightarrow> bool" where
  "complete p ob q \<longleftrightarrow> (\<forall>s. unat s < op_size p \<longrightarrow> rec_is_open (op_get p s)
    \<longrightarrow> rec_instrument_id (op_get p s) = ob_instrument_id ob \<longrightarrow> (\<exists>sd i. s \<in> set (q sd i)))"

definition book_ok :: "order_pool \<Rightarrow> order_book \<Rightarrow> queues \<Rightarrow> bool" where
  "book_ok p ob q \<longleftrightarrow> book_inv p ob q \<and> live (op_get p) q \<and> complete p ob q"

lemma book_okD:
  assumes "book_ok p ob q"
  shows "book_inv p ob q" "s \<in> set (q sd i) \<Longrightarrow> rec_open_qty (op_get p s) \<noteq> 0"
    "unat s < op_size p \<Longrightarrow> rec_is_open (op_get p s) \<Longrightarrow> rec_instrument_id (op_get p s) = ob_instrument_id ob
      \<Longrightarrow> \<exists>sd i. s \<in> set (q sd i)"
    "book_view p ob = \<lparr>ab_instrument = ob_instrument_id ob, ab_band_lo = pl_band_lo (ob_ladder ob),
      ab_band_hi = pl_band_hi (ob_ladder ob), ab_orders = (\<lambda>sd. side_view (op_get p) q sd (ladder_size (ob_ladder ob)))\<rparr>"
    "queues_of p ob = q"
  using assms queues_of_inv [of p ob q] unfolding book_ok_def live_def complete_def book_view_def by blast+

text \<open>
  A change of the pool that concerns one instrument, keeps every id where it is and opens no
  record outside \<open>T\<close>.
\<close>

definition only_touches :: "slot set \<Rightarrow> instrument_id \<Rightarrow> order_pool \<Rightarrow> order_pool \<Rightarrow> bool" where
  "only_touches T iid p p' \<longleftrightarrow> op_size p' = op_size p \<and> (\<forall>x. unat x < op_size p \<longrightarrow>
    rec_instrument_id (op_get p' x) = rec_instrument_id (op_get p x) \<and> rec_id (op_get p' x) = rec_id (op_get p x)
    \<and> (rec_instrument_id (op_get p x) \<noteq> iid \<longrightarrow> op_get p' x = op_get p x)
    \<and> (x \<notin> T \<longrightarrow> rec_is_open (op_get p' x) \<longrightarrow> rec_is_open (op_get p x)))"

lemma only_touches_refl [simp]: "only_touches T iid p p"
  by (simp add: only_touches_def)

lemma only_touches_trans: "only_touches T iid p1 p2 \<Longrightarrow> only_touches T iid p2 p3 \<Longrightarrow> only_touches T iid p1 p3"
  by (simp add: only_touches_def)

lemma only_touches_size: "only_touches T iid p p' \<Longrightarrow> op_size p' = op_size p"
  by (simp add: only_touches_def)

text \<open>No closed record outside \<open>T\<close> changes.\<close>

definition spares :: "slot set \<Rightarrow> order_pool \<Rightarrow> order_pool \<Rightarrow> bool" where
  "spares T p p' \<longleftrightarrow> (\<forall>x. x \<notin> T \<longrightarrow> \<not> rec_is_open (op_get p x) \<longrightarrow> op_get p' x = op_get p x)"

lemma sparesD: "spares T p p' \<Longrightarrow> x \<notin> T \<Longrightarrow> \<not> rec_is_open (op_get p x) \<Longrightarrow> op_get p' x = op_get p x"
  by (simp add: spares_def)

lemma spares_refl [simp]: "spares T p p"
  by (simp add: spares_def)

lemma spares_trans: "spares T p1 p2 \<Longrightarrow> spares T p2 p3 \<Longrightarrow> spares T p1 p3"
  by (simp add: spares_def)

text \<open>A book whose own records are untouched is untouched.\<close>

lemma book_ok_same:
  assumes ok: "book_ok p ob q" and p': "pool_ok p'" "op_size p \<le> op_size p'"
    and same: "\<And>sd i x. x \<in> set (q sd i) \<Longrightarrow> op_get p' x = op_get p x"
    and old: "\<And>x. unat x < op_size p' \<Longrightarrow> rec_is_open (op_get p' x) \<Longrightarrow> rec_instrument_id (op_get p' x) = ob_instrument_id ob
      \<Longrightarrow> unat x < op_size p \<and> op_get p' x = op_get p x"
  shows "book_ok p' ob q" "book_view p' ob = book_view p ob"
proof -
  note inv = book_okD(1) [OF ok]
  note I = book_invD [OF inv]
  have queue: "queue_of (op_get p') lvl (q sd i) = queue_of (op_get p) lvl (q sd i)" for lvl sd i
    using same by (rule queue_of_cong)
  have mem: "unat s < op_size p' \<and> rests (op_get p') ob sd i s" if "s \<in> set (q sd i)" for sd i s
    using I(9,10) [OF that] same [OF that] p'(2) by (simp add: rests_def)
  have lev: "if i < ladder_size (ob_ladder ob) then queue_of (op_get p) (vat (levels ob sd) i) (q sd i) else q sd i = []" for sd i
    using I(7,8) by metis
  have inv': "book_inv p' ob q"
    unfolding book_inv_def levels_inv_def queue
    using mem lev p'(1) I(2-6) by (intro conjI allI ballI) simp_all
  moreover have "live (op_get p') q" using book_okD(2) [OF ok] same by (simp add: live_def)
  moreover have "complete p' ob q"
    unfolding complete_def using old book_okD(3) [OF ok] by metis
  ultimately show ok': "book_ok p' ob q" by (simp add: book_ok_def)
  have "side_view (op_get p') q sd n = side_view (op_get p) q sd n" for sd n
    using same by (intro side_view_cong) (simp add: view_order_def)
  then show "book_view p' ob = book_view p ob"
    by (simp add: book_okD(4) [OF ok'] book_okD(4) [OF ok])
qed

lemma book_ok_other:
  assumes ok: "book_ok p ob q" and p': "pool_ok p'" "only_touches T iid p p'" "iid \<noteq> ob_instrument_id ob"
  shows "book_ok p' ob q" "book_view p' ob = book_view p ob"
proof -
  note inv = book_okD(1) [OF ok]
  have size: "op_size p' = op_size p" by (rule only_touches_size [OF p'(2)])
  have same: "op_get p' x = op_get p x" if "x \<in> set (q sd i)" for x sd i
    using queue_place(5,6) [OF inv that] p'(2,3) by (auto simp: only_touches_def)
  have old: "unat x < op_size p \<and> op_get p' x = op_get p x"
    if "unat x < op_size p'" "rec_instrument_id (op_get p' x) = ob_instrument_id ob" for x
    using that p'(2,3) size by (auto simp: only_touches_def)
  show "book_ok p' ob q" "book_view p' ob = book_view p ob"
    by (rule book_ok_same [OF ok p'(1)]; use size same old in simp)+
qed

section \<open>One execution\<close>

lemma with_queue_id: "q sd i = qs \<Longrightarrow> with_queue q sd i qs = q"
  by (intro ext) (simp add: with_queue_simps)

lemma level_head: "queue_of h lvl (s # ss) \<Longrightarrow> lvl_head lvl = s"
  by (simp add: queue_of_def)

definition traded :: "quantity \<Rightarrow> order_record \<Rightarrow> order_record" where
  "traded fill r = r\<lparr>rec_open_qty := rec_open_qty r - fill, rec_filled_qty := rec_filled_qty r + fill\<rparr>"

lemma traded_eta: "(\<lambda>r. r\<lparr>rec_open_qty := rec_open_qty r - fill, rec_filled_qty := rec_filled_qty r + fill\<rparr>) = traded fill"
  by (rule ext) (simp add: traded_def)

text \<open>The two records and the level's total are updated before the resting order is removed.\<close>

lemma trade_inv:
  assumes inv: "book_inv p ob q" and agg: "unat agg < op_size p" "\<And>sd i. agg \<notin> set (q sd i)"
    and s: "q sd i = s # ss" and idx: "unat idx = i"
    and p2: "p2 = op_upd (op_upd p agg (traded fill)) s (traded fill)"
    and ob1: "ob1 = set_level_at ob sd idx ((level_at ob sd idx)\<lparr>lvl_total_qty := lvl_total_qty (level_at ob sd idx) - fill\<rparr>)"
  shows "book_inv p2 ob1 q" "op_size p2 = op_size p"
    "op_get p2 = (op_get p)(agg := traded fill (op_get p agg), s := traded fill (op_get p s))"
    "ob_ladder ob1 = ob_ladder ob" "ob_instrument_id ob1 = ob_instrument_id ob"
proof -
  note I = book_invD [OF inv]
  have s_in: "s \<in> set (q sd i)" using s by simp
  note P = queue_place [OF inv s_in]
  have ne: "agg \<noteq> s" using agg(2) [of sd i] s by auto
  show size: "op_size p2 = op_size p" unfolding p2 by (simp add: pool_upd)
  show get: "op_get p2 = (op_get p)(agg := traded fill (op_get p agg), s := traded fill (op_get p s))"
    unfolding p2 using I(1) agg(1) P(6) ne by (simp add: pool_upd)
  have ok2: "pool_ok p2" unfolding p2 using I(1) by (simp add: pool_upd)
  show lad: "ob_ladder ob1 = ob_ladder ob" "ob_instrument_id ob1 = ob_instrument_id ob" by (simp_all add: ob1)
  have i: "unat idx < ladder_size (ob_ladder ob)" using P(3) idx by simp
  define lvl where "lvl = level_at ob sd idx"
  have q: "queue_of (op_get p) lvl (s # ss)" using I(7) [OF i, of sd] s idx by (simp add: lvl_def level_at_def)
  have links: "rec_prev (op_get p2 x) = rec_prev (op_get p x) \<and> rec_next (op_get p2 x) = rec_next (op_get p x)" for x
    by (simp add: get traded_def)
  have rest: "op_get p2 x = op_get p x" if "x \<noteq> s" "x \<noteq> agg" for x using that by (simp add: get)
  have ss: "s \<notin> set ss" "agg \<notin> set ss" using q agg(2) [of sd i] s by (auto simp: queue_of_def)
  have "total_open (op_get p2) ss = total_open (op_get p) ss" using ss rest by (intro total_open_cong) metis
  moreover have "rec_open_qty (op_get p2 s) = rec_open_qty (op_get p s) - fill" by (simp add: get traded_def)
  ultimately have "queue_of (op_get p2) (lvl\<lparr>lvl_total_qty := lvl_total_qty lvl - fill\<rparr>) (s # ss)"
    using q chain_cong [of "s # ss" "op_get p2" "op_get p"] links by (auto simp: queue_of_def)
  then have q2: "queue_of (op_get p2) (lvl\<lparr>lvl_total_qty := lvl_total_qty lvl - fill\<rparr>) (q sd i)" using s by simp
  have id: "with_queue q sd (unat idx) (q sd i) = q" using idx by (intro with_queue_id) simp
  have "book_inv p2 ob1 (with_queue q sd (unat idx) (q sd i))"
  proof (rule level_update [OF inv i ok2 _ lad])
    show "levels ob1 sd' = (if sd' = sd then vec_set (levels ob sd) (unat idx) (lvl\<lparr>lvl_total_qty := lvl_total_qty lvl - fill\<rparr>) else levels ob sd')" for sd'
      by (simp add: ob1 lvl_def)
    show "queue_of (op_get p2) (lvl\<lparr>lvl_total_qty := lvl_total_qty lvl - fill\<rparr>) (q sd i)" by (rule q2)
    show "unat x < op_size p2 \<and> rests (op_get p2) ob sd (unat idx) x" if "x \<in> set (q sd i)" for x
      using I(9,10) [OF that] agg(2) that by (auto simp: size rests_def get traded_def idx)
    show "op_get p2 x = op_get p x" if "x \<in> set (q sd' j)" "(sd', j) \<noteq> (sd, unat idx)" for sd' j x
    proof (rule rest)
      show "x \<noteq> s" using queue_unique [OF inv s_in, of sd' j] that idx by auto
      show "x \<noteq> agg" using agg(2) that(1) by auto
    qed
  qed (use I(5,6) [of sd] in \<open>simp_all add: ob1 size id\<close>)
  then show "book_inv p2 ob1 q" by (simp only: id)
qed

text \<open>
  The book after an execution: \<open>agg\<close> and the head \<open>s\<close> of the queue have traded \<open>fill\<close>, and \<open>s\<close> is closed
  if that was all of it.
\<close>

definition settled :: "order_pool \<Rightarrow> order_book \<Rightarrow> queues \<Rightarrow> slot \<Rightarrow> slot \<Rightarrow> side \<Rightarrow> nat \<Rightarrow> quantity \<Rightarrow> slot list \<Rightarrow> order_pool \<Rightarrow> order_book \<Rightarrow> bool" where
  "settled p ob q agg s sd i fill ts p' ob' \<longleftrightarrow>
    book_inv p' ob' (with_queue q sd i ts) \<and> op_size p' = op_size p \<and> ob_ladder ob' = ob_ladder ob \<and> ob_instrument_id ob' = ob_instrument_id ob
    \<and> op_get p' agg = traded fill (op_get p agg)
    \<and> core (op_get p' s) = (if fill = rec_open_qty (op_get p s) then closed (traded fill (op_get p s)) else core (traded fill (op_get p s)))
    \<and> (\<forall>x. x \<noteq> s \<longrightarrow> x \<noteq> agg \<longrightarrow> core (op_get p' x) = core (op_get p x))
    \<and> (\<forall>x. x \<notin> set (q sd i) \<longrightarrow> x \<noteq> agg \<longrightarrow> op_get p' x = op_get p x)"

lemma settledD:
  assumes "settled p ob q agg s sd i fill ts p' ob'"
  shows "book_inv p' ob' (with_queue q sd i ts)" "op_size p' = op_size p" "ob_ladder ob' = ob_ladder ob" "ob_instrument_id ob' = ob_instrument_id ob"
    "op_get p' agg = traded fill (op_get p agg)"
    "core (op_get p' s) = (if fill = rec_open_qty (op_get p s) then closed (traded fill (op_get p s)) else core (traded fill (op_get p s)))"
    "\<And>x. x \<noteq> s \<Longrightarrow> x \<noteq> agg \<Longrightarrow> core (op_get p' x) = core (op_get p x)"
    "\<And>x. x \<notin> set (q sd i) \<Longrightarrow> x \<noteq> agg \<Longrightarrow> op_get p' x = op_get p x"
  using assms by (simp_all add: settled_def)

lemma trade_settled:
  assumes inv: "book_inv p ob q" and agg: "unat agg < op_size p" "\<And>sd i. agg \<notin> set (q sd i)" and s: "q sd i = s # ss" and idx: "unat idx = i"
    and p2: "p2 = op_upd (op_upd p agg (traded fill)) s (traded fill)"
    and ob1: "ob1 = set_level_at ob sd idx ((level_at ob sd idx)\<lparr>lvl_total_qty := lvl_total_qty (level_at ob sd idx) - fill\<rparr>)"
    and closes: "(if fill = rec_open_qty (op_get p s) then remove_resting p2 ob1 s else (p2, ob1)) = (p3, ob3)"
    and ts: "ts = (if fill = rec_open_qty (op_get p s) then ss else s # ss)"
  shows "settled p ob q agg s sd i fill ts p3 ob3"
proof -
  note T = trade_inv [where q = q and sd = sd and i = i and s = s and ss = ss, OF inv agg s idx p2 ob1]
  have "agg \<noteq> s" using agg(2) [of sd i] s by auto
  show ?thesis
  proof (cases "fill = rec_open_qty (op_get p s)")
    case True
    then have "remove_resting p2 ob1 s = (p3, ob3)" using closes by simp
    note RR = remove_resting_inv [where as = "[]", OF T(1) _ this, of sd i ss]
    from True RR s agg(2) [of sd i] \<open>agg \<noteq> s\<close> show ?thesis unfolding settled_def by (simp add: T(2-5) ts)
  next
    case False
    with closes T s \<open>agg \<noteq> s\<close> show ?thesis unfolding settled_def by (auto simp: ts with_queue_id)
  qed
qed

lemma execute_head_settles:
  assumes inv: "book_inv p ob q" and agg: "unat agg < op_size p" "\<And>sd i. agg \<notin> set (q sd i)" and s: "q (opposite sd) i = s # ss" and idx: "unat idx = i"
    and fill: "fill = min (rec_open_qty (op_get p agg)) (rec_open_qty (op_get p s))"
    and ms': "ms' = execute_head iid agg sd idx \<lparr>ms_pool = p, ms_book = ob, ms_next_trade_id = tid, ms_events = evs\<rparr>"
    and ts: "ts = (if fill = rec_open_qty (op_get p s) then ss else s # ss)"
  shows "settled p ob q agg s (opposite sd) i fill ts (ms_pool ms') (ms_book ms')" "ms_next_trade_id ms' = tid + 1"
    "ms_events ms' = evs @ [On_trade tid iid (rec_price (op_get p s)) fill (rec_id (op_get p s)) (rec_id (op_get p agg)) sd]"
proof -
  let ?o = "opposite sd" and ?r = "rec_open_qty (op_get p s)"
  have s_in: "s \<in> set (q ?o i)" using s by simp
  define p2 where "p2 = op_upd (op_upd p agg (traded fill)) s (traded fill)"
  define lvl where "lvl = level_at ob ?o idx"
  define ob1 where "ob1 = set_level_at ob ?o idx (lvl\<lparr>lvl_total_qty := lvl_total_qty lvl - fill\<rparr>)"
  note get = trade_inv(3) [where q = q and sd = ?o and i = i and s = s and ss = ss, OF inv agg s idx p2_def ob1_def [unfolded lvl_def]]
  have head: "lvl_head lvl = s"
    using book_invD(7) [OF inv queue_place(3) [OF inv s_in], of ?o] s idx by (intro level_head) (simp add: lvl_def level_at_def)
  have get1: "op_get (op_upd p agg f) = (op_get p)(agg := f (op_get p agg))" for f
    using book_invD(1) [OF inv] agg(1) by (simp add: pool_upd)
  have zero: "rec_open_qty (op_get p2 s) = 0 \<longleftrightarrow> fill = ?r" by (auto simp: get traded_def)
  obtain p3 ob3 where E: "(if fill = ?r then remove_resting p2 ob1 s else (p2, ob1)) = (p3, ob3)" by fastforce
  have step: "ms' = (case (if rec_open_qty (op_get p2 s) = 0 then remove_resting p2 ob1 s else (p2, ob1)) of (pa, oba) \<Rightarrow>
      \<lparr>ms_pool = pa, ms_book = oba, ms_next_trade_id = tid + 1,
       ms_events = evs @ [On_trade tid iid (rec_price (op_get p s)) fill (rec_id (op_get p s)) (rec_id (op_get p agg)) sd]\<rparr>)"
    unfolding ms' execute_head_def Let_def p2_def ob1_def
    by (simp add: lvl_def [symmetric] head fill [symmetric] traded_eta)
  have ms: "ms' = \<lparr>ms_pool = p3, ms_book = ob3, ms_next_trade_id = tid + 1,
      ms_events = evs @ [On_trade tid iid (rec_price (op_get p s)) fill (rec_id (op_get p s)) (rec_id (op_get p agg)) sd]\<rparr>"
    by (simp only: step zero E prod.case)
  show "settled p ob q agg s ?o i fill ts (ms_pool ms') (ms_book ms')"
    using trade_settled [where q = q, OF inv agg s idx p2_def ob1_def [unfolded lvl_def] E ts] by (simp add: ms)
  show "ms_next_trade_id ms' = tid + 1"
    "ms_events ms' = evs @ [On_trade tid iid (rec_price (op_get p s)) fill (rec_id (op_get p s)) (rec_id (op_get p agg)) sd]"
    by (simp_all add: ms)
qed

lemma settled_fields:
  assumes S: "settled p ob q agg s sd i fill ts p' ob'" and agg: "\<not> rec_is_open (op_get p agg)" "agg \<noteq> s"
  shows "rec_instrument_id (op_get p' x) = rec_instrument_id (op_get p x)" "rec_id (op_get p' x) = rec_id (op_get p x)"
    "rec_is_open (op_get p' x) = (if x = s \<and> fill = rec_open_qty (op_get p s) then False else rec_is_open (op_get p x))"
proof -
  note D = settledD [OF S]
  consider (agg) "x = agg" | (head) "x = s" | (other) "x \<noteq> agg" "x \<noteq> s" by blast
  then have "rec_instrument_id (op_get p' x) = rec_instrument_id (op_get p x) \<and> rec_id (op_get p' x) = rec_id (op_get p x)
    \<and> rec_is_open (op_get p' x) = (if x = s \<and> fill = rec_open_qty (op_get p s) then False else rec_is_open (op_get p x))"
  proof cases
    case agg
    then show ?thesis using assms(3) by (simp add: D(5) traded_def)
  next
    case head
    then show ?thesis
      using arg_cong [OF D(6), of rec_instrument_id] arg_cong [OF D(6), of rec_id] arg_cong [OF D(6), of rec_is_open]
      by (simp add: traded_def closed_def split: if_splits)
  next
    case other
    then show ?thesis
      using arg_cong [OF D(7) [of x], of rec_instrument_id] arg_cong [OF D(7) [of x], of rec_id] arg_cong [OF D(7) [of x], of rec_is_open] by simp
  qed
  then show "rec_instrument_id (op_get p' x) = rec_instrument_id (op_get p x)" "rec_id (op_get p' x) = rec_id (op_get p x)"
    "rec_is_open (op_get p' x) = (if x = s \<and> fill = rec_open_qty (op_get p s) then False else rec_is_open (op_get p x))" by blast+
qed

text \<open>No empty order stays in a queue, and every open one is in a queue.\<close>

lemma settled_live:
  assumes ok: "book_ok p ob q" and S: "settled p ob q agg s sd i fill ts p' ob'" and fresh: "\<And>sd i. agg \<notin> set (q sd i)"
    and s: "q sd i = s # ss" and ts: "ts = (if fill = rec_open_qty (op_get p s) then ss else s # ss)"
  shows "live (op_get p') (with_queue q sd i ts)"
  unfolding live_def
proof (intro allI ballI)
  note inv = book_okD(1) [OF ok] and D = settledD [OF S]
  have s_in: "s \<in> set (q sd i)" using s by simp
  fix sd' j x assume x: "x \<in> set (with_queue q sd i ts sd' j)"
  then have x': "x \<in> set (q sd' j)" using s by (auto simp: with_queue_simps ts split: if_splits)
  note nz = book_okD(2) [OF ok x']
  have "x \<noteq> agg" using fresh x' by auto
  show "rec_open_qty (op_get p' x) \<noteq> 0"
  proof (cases "x = s")
    case True
    have "\<not> fill = rec_open_qty (op_get p s)"
    proof
      assume f: "fill = rec_open_qty (op_get p s)"
      have "sd' = sd \<and> j = i" using queue_unique [OF inv s_in, of sd' j] x' True by auto
      with x f True have "s \<in> set ss" by (simp add: with_queue_simps ts)
      with book_invD(7) [OF inv queue_place(3) [OF inv s_in], of sd] s show False by (simp add: queue_of_def)
    qed
    with True have "rec_open_qty (op_get p' x) = rec_open_qty (op_get p s) - fill"
      using core_eqD(4) [of "op_get p' s" "traded fill (op_get p s)"] by (simp add: D(6)) (simp add: traded_def)
    with \<open>\<not> fill = rec_open_qty (op_get p s)\<close> show ?thesis by simp
  next
    case False
    with nz D(7) [OF False \<open>x \<noteq> agg\<close>] show ?thesis using core_eqD(4) by metis
  qed
qed

lemma settled_complete:
  assumes ok: "book_ok p ob q" and S: "settled p ob q agg s sd i fill ts p' ob'" and agg: "\<not> rec_is_open (op_get p agg)" "agg \<noteq> s"
    and s: "q sd i = s # ss" and ts: "ts = (if fill = rec_open_qty (op_get p s) then ss else s # ss)"
  shows "complete p' ob' (with_queue q sd i ts)"
  unfolding complete_def
proof (intro allI impI)
  note fields = settled_fields [OF S agg]
  fix x assume x: "unat x < op_size p'" "rec_is_open (op_get p' x)" "rec_instrument_id (op_get p' x) = ob_instrument_id ob'"
  then obtain sd' j where j: "x \<in> set (q sd' j)"
    using book_okD(3) [OF ok, of x] by (auto simp: settledD(2,4) [OF S] fields split: if_splits)
  have "\<not> (x = s \<and> fill = rec_open_qty (op_get p s))" using x(2) unfolding fields by metis
  with j s have "x \<in> set (with_queue q sd i ts sd' j)" by (auto simp: with_queue_simps ts)
  then show "\<exists>sd' j. x \<in> set (with_queue q sd i ts sd' j)" by blast
qed

lemma settled_touches:
  assumes inv: "book_inv p ob q" and S: "settled p ob q agg s sd i fill ts p' ob'"
    and agg: "\<not> rec_is_open (op_get p agg)" "agg \<noteq> s" "rec_instrument_id (op_get p agg) = ob_instrument_id ob"
  shows "only_touches {} (ob_instrument_id ob) p p'"
  unfolding only_touches_def
proof (intro conjI allI impI)
  fix x assume "rec_instrument_id (op_get p x) \<noteq> ob_instrument_id ob"
  moreover from this have "x \<notin> set (q sd i)" using queue_place(5) [OF inv, of x sd i] by blast
  ultimately show "op_get p' x = op_get p x" using settledD(8) [OF S, of x] agg(3) by auto
qed (simp_all add: settledD(2) [OF S] settled_fields [OF S agg(1,2)] split: if_splits)

lemma execute_head_ok:
  assumes ok: "book_ok p ob q"
    and agg: "unat agg < op_size p" "\<not> rec_is_open (op_get p agg)" "rec_instrument_id (op_get p agg) = ob_instrument_id ob"
    and s: "q (opposite sd) i = s # ss" and idx: "unat idx = i"
    and fill: "fill = min (rec_open_qty (op_get p agg)) (rec_open_qty (op_get p s))"
    and ms': "ms' = execute_head iid agg sd idx \<lparr>ms_pool = p, ms_book = ob, ms_next_trade_id = tid, ms_events = evs\<rparr>"
    and pos: "rec_open_qty (op_get p agg) \<noteq> 0"
    and ts: "ts = (if fill = rec_open_qty (op_get p s) then ss else s # ss)"
  shows "book_ok (ms_pool ms') (ms_book ms') (with_queue q (opposite sd) i ts)"
    "ms_next_trade_id ms' = tid + 1"
    "ms_events ms' = evs @ [On_trade tid iid (rec_price (op_get p s)) fill (rec_id (op_get p s)) (rec_id (op_get p agg)) sd]"
    "ob_ladder (ms_book ms') = ob_ladder ob" "ob_instrument_id (ms_book ms') = ob_instrument_id ob"
    "op_get (ms_pool ms') agg = traded fill (op_get p agg)"
    "core (op_get (ms_pool ms') s) = (if fill = rec_open_qty (op_get p s) then closed (traded fill (op_get p s)) else core (traded fill (op_get p s)))"
    "x \<noteq> s \<Longrightarrow> x \<noteq> agg \<Longrightarrow> core (op_get (ms_pool ms') x) = core (op_get p x)"
    "x \<notin> set (q (opposite sd) i) \<Longrightarrow> x \<noteq> agg \<Longrightarrow> op_get (ms_pool ms') x = op_get p x"
    "only_touches {} (ob_instrument_id ob) p (ms_pool ms')"
proof -
  note inv = book_okD(1) [OF ok]
  have fresh: "agg \<notin> set (q sd j)" for sd j using queue_place(4) [OF inv, of agg] agg(2) by blast
  have ne: "agg \<noteq> s" using fresh [of "opposite sd" i] s by auto
  note E = execute_head_settles [where q = q, OF inv agg(1) fresh s idx fill ms' ts]
  note D = settledD [OF E(1)]
  show "book_ok (ms_pool ms') (ms_book ms') (with_queue q (opposite sd) i ts)"
    unfolding book_ok_def using D(1) settled_live [OF ok E(1) fresh s ts] settled_complete [OF ok E(1) agg(2) ne s ts] by blast
  show "ms_next_trade_id ms' = tid + 1"
    "ms_events ms' = evs @ [On_trade tid iid (rec_price (op_get p s)) fill (rec_id (op_get p s)) (rec_id (op_get p agg)) sd]"
    "ob_ladder (ms_book ms') = ob_ladder ob" "ob_instrument_id (ms_book ms') = ob_instrument_id ob"
    "op_get (ms_pool ms') agg = traded fill (op_get p agg)" by (fact E(2,3) D(3-5))+
  show "core (op_get (ms_pool ms') s) = (if fill = rec_open_qty (op_get p s) then closed (traded fill (op_get p s)) else core (traded fill (op_get p s)))"
    by (fact D(6))
  show "x \<noteq> s \<Longrightarrow> x \<noteq> agg \<Longrightarrow> core (op_get (ms_pool ms') x) = core (op_get p x)"
    "x \<notin> set (q (opposite sd) i) \<Longrightarrow> x \<noteq> agg \<Longrightarrow> op_get (ms_pool ms') x = op_get p x" by (fact D(7,8))+
  show "only_touches {} (ob_instrument_id ob) p (ms_pool ms')" by (rule settled_touches [OF inv E(1) agg(2) ne agg(3)])
qed

end
