(* ===== verification/Loop_Refinement.thy ===== *)
theory Loop_Refinement
  imports Matching_Refinement
begin

text \<open>
  The two loops of \<open>run_matching\<close>: the inner one empties a level or the aggressor, the outer
  one goes on to the next best level. Both return; together they are \<open>take_liquidity\<close> on the
  opposite side. Then the scan of \<open>can_fully_fill\<close>.
\<close>

section \<open>The inner loop\<close>

lemma traded_traded: "traded a (traded b r) = traded (b + a) r"
  by (simp add: traded_def algebra_simps)

lemma traded_0 [simp]: "traded 0 r = r"
  by (simp add: traded_def)

lemma traded_sel [simp]:
  "rec_open_qty (traded f r) = rec_open_qty r - f" "rec_filled_qty (traded f r) = rec_filled_qty r + f"
  "rec_id (traded f r) = rec_id r" "rec_is_open (traded f r) = rec_is_open r"
  "rec_instrument_id (traded f r) = rec_instrument_id r" "rec_side (traded f r) = rec_side r" "rec_price (traded f r) = rec_price r"
  by (simp_all add: traded_def)

definition aggressor_ok :: "order_pool \<Rightarrow> order_book \<Rightarrow> slot \<Rightarrow> bool" where
  "aggressor_ok p ob agg \<longleftrightarrow> unat agg < op_size p \<and> \<not> rec_is_open (op_get p agg)
    \<and> rec_instrument_id (op_get p agg) = ob_instrument_id ob"

lemma aggressor_not_queued: "book_inv p ob q \<Longrightarrow> aggressor_ok p ob agg \<Longrightarrow> agg \<notin> set (q sd i)"
  using queue_place(4) [of p ob q agg sd i] by (auto simp: aggressor_ok_def)

lemma aggressor_ok_traded:
  "aggressor_ok p ob agg \<Longrightarrow> only_touches T iid p p' \<Longrightarrow> ob_instrument_id ob' = ob_instrument_id ob
    \<Longrightarrow> op_get p' agg = traded f (op_get p agg) \<Longrightarrow> aggressor_ok p' ob' agg"
  by (simp add: aggressor_ok_def only_touches_size)

abbreviation mstate :: "order_pool \<Rightarrow> order_book \<Rightarrow> trade_id \<Rightarrow> event list \<Rightarrow> match_state" where
  "mstate p ob tid evs \<equiv> \<lparr>ms_pool = p, ms_book = ob, ms_next_trade_id = tid, ms_events = evs\<rparr>"

lemma match_level_stop:
  "rec_open_qty (op_get p agg) = 0 \<or> lvl_head (level_at ob (opposite sd) idx) = kInvalidSlot
    \<Longrightarrow> match_level iid agg sd idx (mstate p ob tid evs) = Some (mstate p ob tid evs)"
  by (subst match_level.simps) (auto simp: word_neq_0_conv)

lemma match_level_step:
  "rec_open_qty (op_get p agg) \<noteq> 0 \<Longrightarrow> lvl_head (level_at ob (opposite sd) idx) \<noteq> kInvalidSlot
    \<Longrightarrow> match_level iid agg sd idx (mstate p ob tid evs) = match_level iid agg sd idx (execute_head iid agg sd idx (mstate p ob tid evs))"
  by (subst match_level.simps) (simp add: word_neq_0_conv)

text \<open>
  What the inner loop leaves of a level: the queue \<open>ts\<close>, whose orders are seen as \<open>L\<close>, when \<open>n\<close> lots of
  the aggressor remain.
\<close>

definition swept :: "order_pool \<Rightarrow> order_book \<Rightarrow> queues \<Rightarrow> slot \<Rightarrow> side \<Rightarrow> nat \<Rightarrow> quantity \<Rightarrow> resting_order list \<Rightarrow> order_pool \<Rightarrow> order_book \<Rightarrow> slot list \<Rightarrow> bool" where
  "swept p ob q agg sd i n L p' ob' ts \<longleftrightarrow>
    book_ok p' ob' (with_queue q sd i ts) \<and> map (view_order (op_get p')) ts = L \<and> (n = 0 \<or> ts = [])
    \<and> op_get p' agg = traded (rec_open_qty (op_get p agg) - n) (op_get p agg)
    \<and> ob_ladder ob' = ob_ladder ob \<and> ob_instrument_id ob' = ob_instrument_id ob \<and> only_touches {} (ob_instrument_id ob) p p'
    \<and> (\<forall>x. x \<notin> set (q sd i) \<longrightarrow> x \<noteq> agg \<longrightarrow> op_get p' x = op_get p x)"

lemma swept_nothing:
  assumes "book_ok p ob q" "n = rec_open_qty (op_get p agg)" "n = 0 \<or> q sd i = []" "L = map (view_order (op_get p)) (q sd i)"
  shows "swept p ob q agg sd i n L p ob (q sd i)"
  using assms by (auto simp: swept_def with_queue_id)

lemma swept_more:
  assumes S: "swept p1 ob1 (with_queue q sd i ss) agg sd i n L p' ob' ts" and q: "q sd i = s # ss"
    and agg: "op_get p1 agg = traded fill (op_get p agg)" and layout: "ob_ladder ob1 = ob_ladder ob" "ob_instrument_id ob1 = ob_instrument_id ob"
    and touches: "only_touches {} (ob_instrument_id ob) p p1" and outside: "\<And>x. x \<notin> set (q sd i) \<Longrightarrow> x \<noteq> agg \<Longrightarrow> op_get p1 x = op_get p x"
  shows "swept p ob q agg sd i n L p' ob' ts"
proof -
  have "with_queue (with_queue q sd i ss) sd i ts = with_queue q sd i ts" by (simp add: with_queue_def)
  moreover have "only_touches {} (ob_instrument_id ob) p p'"
    using only_touches_trans [OF touches] S by (simp add: swept_def layout)
  moreover have "op_get p' x = op_get p x" if "x \<notin> set (q sd i)" "x \<noteq> agg" for x
    using S outside [OF that] that by (simp add: swept_def with_queue_simps q)
  ultimately show ?thesis using S by (simp add: swept_def layout agg traded_traded)
qed

lemma head_valid:
  assumes "book_ok p ob q" "unat idx = i" "i < ladder_size (ob_ladder ob)" "q sd i = s # ss"
  shows "lvl_head (level_at ob sd idx) \<noteq> kInvalidSlot"
proof -
  have "queue_of (op_get p) (level_at ob sd idx) (s # ss)"
    using book_invD(7) [OF book_okD(1) [OF assms(1)] assms(3), of sd] assms(2,4) by (simp add: level_at_def)
  then show ?thesis by (auto simp: queue_of_def)
qed

text \<open>One round of the loop, on a level whose head is \<open>s\<close>.\<close>

lemma execute_round:
  assumes ok: "book_ok p ob q" and aok: "aggressor_ok p ob agg" and idx: "unat idx = i" and i: "i < ladder_size (ob_ladder ob)"
    and q: "q (opposite sd) i = s # ss" and nz: "rec_open_qty (op_get p agg) \<noteq> 0"
    and fill: "fill = min (rec_open_qty (op_get p agg)) (rec_open_qty (op_get p s))"
    and ts: "ts = (if fill = rec_open_qty (op_get p s) then ss else s # ss)"
    and tr: "tr = On_trade tid iid (rec_price (op_get p s)) fill (rec_id (op_get p s)) (rec_id (op_get p agg)) sd"
  obtains p1 ob1 where "execute_head iid agg sd idx (mstate p ob tid evs) = mstate p1 ob1 (tid + 1) (evs @ [tr])"
    "book_ok p1 ob1 (with_queue q (opposite sd) i ts)" "aggressor_ok p1 ob1 agg" "op_get p1 agg = traded fill (op_get p agg)"
    "ob_ladder ob1 = ob_ladder ob" "ob_instrument_id ob1 = ob_instrument_id ob" "only_touches {} (ob_instrument_id ob) p p1"
    "\<And>x. x \<notin> set (q (opposite sd) i) \<Longrightarrow> x \<noteq> agg \<Longrightarrow> op_get p1 x = op_get p x"
    "map (view_order (op_get p1)) ss = map (view_order (op_get p)) ss"
    "fill \<noteq> rec_open_qty (op_get p s) \<Longrightarrow> view_order (op_get p1) s = (view_order (op_get p) s)
      \<lparr>ao_open := rec_open_qty (op_get p s) - fill, ao_filled := rec_filled_qty (op_get p s) + fill\<rparr>"
proof -
  let ?o = "opposite sd"
  note inv = book_okD(1) [OF ok]
  define ms1 where "ms1 = execute_head iid agg sd idx (mstate p ob tid evs)"
  have Q: "queue_of (op_get p) (level_at ob ?o idx) (s # ss)"
    using book_invD(7) [OF inv i, of ?o] q idx by (simp add: level_at_def)
  have a: "unat agg < op_size p" "\<not> rec_is_open (op_get p agg)" "rec_instrument_id (op_get p agg) = ob_instrument_id ob"
    using aok by (simp_all add: aggressor_ok_def)
  note E = execute_head_ok [OF ok a q idx fill ms1_def nz ts]
  have step: "execute_head iid agg sd idx (mstate p ob tid evs) = mstate (ms_pool ms1) (ms_book ms1) (tid + 1) (evs @ [tr])"
    using E(2,3) by (simp add: tr ms1_def [symmetric])
  have not_in: "agg \<notin> set (s # ss)" using aggressor_not_queued [OF inv aok, of ?o i] q by simp
  have ss: "s \<notin> set ss" using Q by (simp add: queue_of_def)
  have same: "map (view_order (op_get (ms_pool ms1))) ss = map (view_order (op_get p)) ss"
    using not_in ss by (intro map_cong refl view_order_core E(8)) auto
  have head: "view_order (op_get (ms_pool ms1)) s = (view_order (op_get p) s)
      \<lparr>ao_open := rec_open_qty (op_get p s) - fill, ao_filled := rec_filled_qty (op_get p s) + fill\<rparr>" if "fill \<noteq> rec_open_qty (op_get p s)"
  proof -
    have "core (op_get (ms_pool ms1) s) = core (traded fill (op_get p s))" using E(7) that by simp
    from core_eqD [OF this] show ?thesis by (simp add: view_order_def)
  qed
  show ?thesis
    by (rule that [OF step E(1) aggressor_ok_traded [OF aok E(10,5,6)] E(6,4,5,10,9) same head])
qed

lemma match_level_swept:
  assumes "book_ok p ob q" "aggressor_ok p ob agg" "unat idx = i" "i < ladder_size (ob_ladder ob)"
    and "take_liquidity iid (rec_id (op_get p agg)) sd (\<lambda>_. True) tid (rec_open_qty (op_get p agg))
      (map (view_order (op_get p)) (q (opposite sd) i)) = (n', L', tid', tr)"
  shows "\<exists>p' ob' ts. match_level iid agg sd idx (mstate p ob tid evs) = Some (mstate p' ob' tid' (evs @ tr))
    \<and> swept p ob q agg (opposite sd) i n' L' p' ob' ts"
  using assms
proof (induction "q (opposite sd) i" arbitrary: p ob q tid evs n' L' tid' tr)
  case Nil
  let ?o = "opposite sd"
  have "queue_of (op_get p) (level_at ob ?o idx) []"
    using book_invD(7) [OF book_okD(1) [OF Nil.prems(1)] Nil.prems(4), of ?o] Nil by (simp add: level_at_def)
  then have "match_level iid agg sd idx (mstate p ob tid evs) = Some (mstate p ob tid evs)"
    by (intro match_level_stop) (simp add: queue_of_def)
  moreover have "swept p ob q agg ?o i n' L' p ob (q ?o i)"
    using Nil.prems(1,5) Nil.hyps by (intro swept_nothing) auto
  ultimately show ?case using Nil.prems(5) Nil.hyps by (intro exI [of _ p] exI [of _ ob] exI [of _ "q ?o i"]) auto
next
  case (Cons s ss)
  let ?o = "opposite sd" and ?n = "rec_open_qty (op_get p agg)" and ?r = "rec_open_qty (op_get p s)"
  note ok = Cons.prems(1) and q = Cons.hyps(2) [symmetric] and T = Cons.prems(5)
  show ?case
  proof (cases "?n = 0")
    case True
    then have "match_level iid agg sd idx (mstate p ob tid evs) = Some (mstate p ob tid evs)" by (intro match_level_stop) simp
    moreover have T1: "n' = ?n" "L' = map (view_order (op_get p)) (q ?o i)" "tid' = tid" "tr = []" using T True by (simp_all add: q)
    moreover have "swept p ob q agg ?o i n' L' p ob (q ?o i)" using ok T1 True by (intro swept_nothing) simp_all
    ultimately show ?thesis by (intro exI [of _ p] exI [of _ ob] exI [of _ "q ?o i"]) simp
  next
    case False
    define fill where "fill = min ?n ?r"
    let ?tr = "On_trade tid iid (rec_price (op_get p s)) fill (rec_id (op_get p s)) (rec_id (op_get p agg)) sd"
    let ?ts = "if fill = ?r then ss else s # ss"
    obtain p1 ob1 where X: "execute_head iid agg sd idx (mstate p ob tid evs) = mstate p1 ob1 (tid + 1) (evs @ [?tr])"
      and R: "book_ok p1 ob1 (with_queue q ?o i ?ts)" "aggressor_ok p1 ob1 agg" "op_get p1 agg = traded fill (op_get p agg)"
      "ob_ladder ob1 = ob_ladder ob" "ob_instrument_id ob1 = ob_instrument_id ob" "only_touches {} (ob_instrument_id ob) p p1"
      "\<And>x. x \<notin> set (q ?o i) \<Longrightarrow> x \<noteq> agg \<Longrightarrow> op_get p1 x = op_get p x" "map (view_order (op_get p1)) ss = map (view_order (op_get p)) ss"
      "fill \<noteq> ?r \<Longrightarrow> view_order (op_get p1) s = (view_order (op_get p) s)\<lparr>ao_open := ?r - fill, ao_filled := rec_filled_qty (op_get p s) + fill\<rparr>"
      using execute_round [OF Cons.prems(1-4) q False fill_def refl refl, where iid = iid and tid = tid and evs = evs] by metis
    have "lvl_head (level_at ob ?o idx) \<noteq> kInvalidSlot" by (rule head_valid [OF ok Cons.prems(3,4) q])
    from match_level_step [OF False this, of iid tid evs] have step: "match_level iid agg sd idx (mstate p ob tid evs)
        = match_level iid agg sd idx (mstate p1 ob1 (tid + 1) (evs @ [?tr]))" by (simp only: X)
    show ?thesis
    proof (cases "fill = ?r")
      case True
      let ?q1 = "with_queue q ?o i ss"
      have q1: "ss = ?q1 ?o i" by (simp add: with_queue_simps)
      obtain tr1 where T1: "take_liquidity iid (rec_id (op_get p agg)) sd (\<lambda>_. True) (tid + 1) (?n - fill)
          (map (view_order (op_get p)) ss) = (n', L', tid', tr1)" "tr = ?tr # tr1"
        using T False True fill_def [symmetric] unfolding q by (auto simp: Let_def split: prod.splits)
      have "take_liquidity iid (rec_id (op_get p1 agg)) sd (\<lambda>_. True) (tid + 1) (rec_open_qty (op_get p1 agg))
          (map (view_order (op_get p1)) (?q1 ?o i)) = (n', L', tid', tr1)"
        unfolding q1 [symmetric] R(8) R(3) using T1(1) by simp
      from Cons.hyps(1) [where q = ?q1, OF q1 _ R(2) Cons.prems(3) _ this, of "evs @ [?tr]"] R(1) True Cons.prems(4) R(4)
      obtain p' ob' ts' where "match_level iid agg sd idx (mstate p1 ob1 (tid + 1) (evs @ [?tr])) = Some (mstate p' ob' tid' ((evs @ [?tr]) @ tr1))"
        "swept p1 ob1 ?q1 agg ?o i n' L' p' ob' ts'" by auto
      with swept_more [OF this(2) q R(3-7)] show ?thesis by (simp add: step T1(2)) blast
    next
      case less: False
      then have f: "fill = ?n" by (simp add: fill_def min_def split: if_splits)
      then have stop: "match_level iid agg sd idx (mstate p1 ob1 (tid + 1) (evs @ [?tr])) = Some (mstate p1 ob1 (tid + 1) (evs @ [?tr]))"
        by (intro match_level_stop) (simp add: R(3))
      have T1: "n' = 0" "tid' = tid + 1" "tr = [?tr]" "L' = map (view_order (op_get p1)) (s # ss)"
        using T False less f fill_def [symmetric] R(8,9) unfolding q by (auto simp: Let_def split: prod.splits)
      have "swept p ob q agg ?o i n' L' p1 ob1 (s # ss)"
        unfolding swept_def using R(1,3-7) less f T1(1,4) by simp
      then show ?thesis using stop by (simp add: step T1(2,3)) blast
    qed
  qed
qed

lemma match_level_ok:
  assumes "book_ok p ob q" "aggressor_ok p ob agg" "unat idx = i" "i < ladder_size (ob_ladder ob)"
    and "take_liquidity iid (rec_id (op_get p agg)) sd (\<lambda>_. True) tid (rec_open_qty (op_get p agg))
      (map (view_order (op_get p)) (q (opposite sd) i)) = (n', L', tid', tr)"
  shows "\<exists>p' ob' ts. match_level iid agg sd idx (mstate p ob tid evs) = Some (mstate p' ob' tid' (evs @ tr))
    \<and> book_ok p' ob' (with_queue q (opposite sd) i ts) \<and> map (view_order (op_get p')) ts = L' \<and> (n' = 0 \<or> ts = [])
    \<and> op_get p' agg = traded (rec_open_qty (op_get p agg) - n') (op_get p agg)
    \<and> ob_ladder ob' = ob_ladder ob \<and> ob_instrument_id ob' = ob_instrument_id ob \<and> only_touches {} (ob_instrument_id ob) p p'
    \<and> (\<forall>x. x \<notin> set (q (opposite sd) i) \<longrightarrow> x \<noteq> agg \<longrightarrow> op_get p' x = op_get p x)"
  using match_level_swept [OF assms, of evs] by (simp only: swept_def)

section \<open>The outer loop\<close>

lemma finite_occupied:
  assumes "book_inv p ob q"
  shows "finite (occupied q sd)"
proof (rule finite_subset)
  show "occupied q sd \<subseteq> {..<ladder_size (ob_ladder ob)}"
    unfolding occupied_def using book_invD(8) [OF assms] by blast
qed simp

lemma has_best_iff: "book_inv p ob q \<Longrightarrow> has_best ob sd \<longleftrightarrow> occupied q sd \<noteq> {}"
  unfolding has_best_def by (rule best_index_of_nonneg [OF book_invD(6)])

lemma best_level:
  assumes inv: "book_inv p ob q" and best: "has_best ob sd"
  defines "i \<equiv> nat (best_index ob sd)"
  shows "i \<in> occupied q sd" "i < ladder_size (ob_ladder ob)" "best_index ob sd = int i"
    "unat (word_of_int (best_index ob sd) :: 32 word) = i" "(word_of_int (best_index ob sd) :: 32 word) = word_of_nat i"
    and "j \<in> occupied q sd \<Longrightarrow> \<not> before sd j i"
proof -
  have nn: "0 \<le> best_index ob sd" using best by (simp add: has_best_def)
  note B = best_index_of_member [OF book_invD(6) [OF inv, of sd] nn]
  from B show occ: "i \<in> occupied q sd" "j \<in> occupied q sd \<Longrightarrow> \<not> before sd j i" by (simp_all add: i_def)
  then show lt: "i < ladder_size (ob_ladder ob)" using book_invD(8) [OF inv, of sd i] by (simp add: occupied_def)
  show int: "best_index ob sd = int i" using nn by (simp add: i_def)
  show "(word_of_int (best_index ob sd) :: 32 word) = word_of_nat i" by (simp add: int)
  with unat_level_index [OF lt] show "unat (word_of_int (best_index ob sd) :: 32 word) = i" by simp
qed

text \<open>The best level is the front of the side, and emptying it leaves the rest.\<close>

lemma side_view_best:
  assumes inv: "book_inv p ob q" and i: "i \<in> occupied q sd" "\<And>j. j \<in> occupied q sd \<Longrightarrow> \<not> before sd j i"
  obtains R where "side_view (op_get p) q sd (ladder_size (ob_ladder ob)) = map (view_order (op_get p)) (q sd i) @ R"
    "\<And>h qs. (\<And>j x. j \<noteq> i \<Longrightarrow> x \<in> set (q sd j) \<Longrightarrow> view_order h x = view_order (op_get p) x)
      \<Longrightarrow> side_view h (with_queue q sd i qs) sd (ladder_size (ob_ladder ob)) = map (view_order h) qs @ R"
proof -
  let ?n = "ladder_size (ob_ladder ob)" and ?f = "\<lambda>j. map (view_order (op_get p)) (q sd j)"
  have lt: "i < ?n" using book_invD(8) [OF inv, of sd i] i(1) by (simp add: occupied_def)
  obtain A B where S: "\<And>g. flat sd ?n (?f(i := g)) = A @ g @ B" "flat sd ?n ?f = A @ ?f i @ B"
    "\<And>x. x \<in> set A \<Longrightarrow> \<exists>j < ?n. before sd j i \<and> x \<in> set (?f j)" "\<And>x. x \<in> set B \<Longrightarrow> \<exists>j < ?n. before sd i j \<and> x \<in> set (?f j)"
    using flat_split [OF lt] by blast
  have "x \<notin> set A" for x
  proof
    assume "x \<in> set A"
    then obtain j where "before sd j i" "x \<in> set (?f j)" using S(3) by blast
    then have "before sd j i" "q sd j \<noteq> []" by auto
    then show False using i(2) [of j] by (simp add: occupied_def)
  qed
  then have "A = []" by (metis list.set_intros(1) neq_Nil_conv)
  show ?thesis
  proof (rule that [of B])
    show "side_view (op_get p) q sd ?n = ?f i @ B" by (simp add: side_view_def S(2) \<open>A = []\<close>)
    fix h qs assume h: "\<And>j x. j \<noteq> i \<Longrightarrow> x \<in> set (q sd j) \<Longrightarrow> view_order h x = view_order (op_get p) x"
    have "side_view h (with_queue q sd i qs) sd ?n = flat sd ?n (?f(i := map (view_order h) qs))"
      unfolding side_view_with_queue using h by (intro flat_cong) simp
    then show "side_view h (with_queue q sd i qs) sd ?n = map (view_order h) qs @ B" by (simp add: S(1) \<open>A = []\<close>)
  qed
qed

lemma side_view_empty: "occupied q sd = {} \<Longrightarrow> side_view h q sd n = []"
  by (simp add: side_view_def flat_def occupied_def)

lemma crosses_acceptable: "\<not> (\<not> is_market \<and> \<not> crosses sd limit_price p) \<longleftrightarrow> acceptable sd is_market limit_price p"
  by (cases sd) (auto simp: acceptable_def)

lemma run_matching_stop:
  "rec_open_qty (op_get p agg) = 0 \<or> \<not> has_best ob (opposite sd)
    \<or> \<not> acceptable sd is_market limit_price (ob_index_to_price ob (word_of_int (best_index ob (opposite sd))))
    \<Longrightarrow> run_matching iid agg sd limit_price is_market (mstate p ob tid evs) = Some (mstate p ob tid evs)"
  unfolding crosses_acceptable [symmetric] by (subst run_matching.simps) (auto simp: word_neq_0_conv Let_def)

lemma run_matching_step:
  assumes "rec_open_qty (op_get p agg) \<noteq> 0" "has_best ob (opposite sd)" "idx = word_of_int (best_index ob (opposite sd))"
    "acceptable sd is_market limit_price (ob_index_to_price ob idx)" "match_level iid agg sd idx (mstate p ob tid evs) = Some ms"
  shows "run_matching iid agg sd limit_price is_market (mstate p ob tid evs) = run_matching iid agg sd limit_price is_market ms"
  using assms unfolding crosses_acceptable [symmetric] by (subst run_matching.simps) (auto simp: word_neq_0_conv Let_def)

text \<open>What matching leaves: \<open>os\<close> on the opposite side, the aggressor's side as it was, \<open>n\<close> lots unfilled.\<close>

definition matched :: "order_pool \<Rightarrow> order_book \<Rightarrow> queues \<Rightarrow> slot \<Rightarrow> side \<Rightarrow> quantity \<Rightarrow> resting_order list \<Rightarrow> order_pool \<Rightarrow> order_book \<Rightarrow> queues \<Rightarrow> bool" where
  "matched p ob q agg sd n os p' ob' q' \<longleftrightarrow>
    book_ok p' ob' q' \<and> side_view (op_get p') q' (opposite sd) (ladder_size (ob_ladder ob)) = os
    \<and> side_view (op_get p') q' sd (ladder_size (ob_ladder ob)) = side_view (op_get p) q sd (ladder_size (ob_ladder ob))
    \<and> op_get p' agg = traded (rec_open_qty (op_get p agg) - n) (op_get p agg)
    \<and> ob_ladder ob' = ob_ladder ob \<and> ob_instrument_id ob' = ob_instrument_id ob \<and> only_touches {} (ob_instrument_id ob) p p'
    \<and> spares {agg} p p'"

lemma matched_refl:
  "book_ok p ob q \<Longrightarrow> n = rec_open_qty (op_get p agg) \<Longrightarrow> os = side_view (op_get p) q (opposite sd) (ladder_size (ob_ladder ob))
    \<Longrightarrow> matched p ob q agg sd n os p ob q"
  by (simp add: matched_def)

lemma matched_trans:
  assumes "matched p ob q agg sd n1 os1 p1 ob1 q1" "matched p1 ob1 q1 agg sd n os p' ob' q'"
  shows "matched p ob q agg sd n os p' ob' q'"
proof -
  have "op_get p' agg = traded (rec_open_qty (op_get p agg) - n) (op_get p agg)"
    using assms by (simp add: matched_def traded_traded)
  then show ?thesis using assms only_touches_trans [of "{}" "ob_instrument_id ob" p p1 p'] spares_trans [of "{agg}" p p1 p'] by (simp add: matched_def)
qed

text \<open>The loop stops where the exchange has nothing to take.\<close>

lemma nothing_acceptable:
  assumes inv: "book_inv p ob q"
    and stop: "n = 0 \<or> \<not> has_best ob sd \<or> \<not> ok (ob_index_to_price ob (word_of_int (best_index ob sd)))"
  shows "take_liquidity iid aid sd' ok tid n (side_view (op_get p) q sd (ladder_size (ob_ladder ob)))
    = (n, side_view (op_get p) q sd (ladder_size (ob_ladder ob)), tid, [])"
proof (cases "has_best ob sd")
  case False
  then have "side_view (op_get p) q sd (ladder_size (ob_ladder ob)) = []" using has_best_iff [OF inv] by (intro side_view_empty) simp
  then show ?thesis by simp
next
  case best: True
  note B = best_level [OF inv best]
  obtain R where R: "side_view (op_get p) q sd (ladder_size (ob_ladder ob)) = map (view_order (op_get p)) (q sd (nat (best_index ob sd))) @ R"
    using side_view_best [OF inv B(1,6)] by blast
  obtain s ss where s: "q sd (nat (best_index ob sd)) = s # ss" using B(1) by (auto simp: occupied_def neq_Nil_conv)
  have "rec_price (op_get p s) = ob_index_to_price ob (word_of_int (best_index ob sd))"
    using queue_place(7) [OF inv, of s sd "nat (best_index ob sd)"] s B(5) by simp
  with stop best show ?thesis unfolding R s by auto
qed

text \<open>The inner loop on the best level takes from the front of the side.\<close>

lemma swept_matched:
  assumes inv: "book_inv p ob q" and aok: "aggressor_ok p ob agg" and S: "swept p ob q agg (opposite sd) i n1 L1 p1 ob1 ts"
    and R: "\<And>h qs. (\<And>j x. j \<noteq> i \<Longrightarrow> x \<in> set (q (opposite sd) j) \<Longrightarrow> view_order h x = view_order (op_get p) x)
        \<Longrightarrow> side_view h (with_queue q (opposite sd) i qs) (opposite sd) (ladder_size (ob_ladder ob)) = map (view_order h) qs @ R"
  shows "matched p ob q agg sd n1 (L1 @ R) p1 ob1 (with_queue q (opposite sd) i ts)"
proof -
  let ?o = "opposite sd" and ?N = "ladder_size (ob_ladder ob)"
  have outside: "op_get p1 x = op_get p x" if "x \<notin> set (q ?o i)" "x \<noteq> agg" for x using S that by (simp add: swept_def)
  have "spares {agg} p p1" using queue_place(4) [OF inv] outside by (fastforce simp: spares_def)
  moreover have other: "view_order (op_get p1) x = view_order (op_get p) x" if "x \<in> set (q sd' j)" "sd' \<noteq> ?o \<or> j \<noteq> i" for x sd' j
  proof -
    have "x \<notin> set (q ?o i)" using queue_unique [OF inv that(1), of ?o i] that(2) by auto
    moreover have "x \<noteq> agg" using aggressor_not_queued [OF inv aok] that(1) by auto
    ultimately show ?thesis using outside by (simp add: view_order_def)
  qed
  moreover have "side_view (op_get p1) (with_queue q ?o i ts) ?o ?N = L1 @ R"
    using R [of "op_get p1" ts] other S by (simp add: swept_def)
  moreover have "side_view (op_get p1) (with_queue q ?o i ts) sd ?N = side_view (op_get p) q sd ?N"
    using other [of _ sd] by (simp add: side_view_other) (rule side_view_cong, simp)
  ultimately show ?thesis using S by (simp add: matched_def swept_def)
qed

text \<open>One round of the outer loop: the best level is used up, or the aggressor is.\<close>

lemma run_matching_round:
  assumes ok: "book_ok p ob q" and aok: "aggressor_ok p ob agg"
    and T: "take_liquidity iid (rec_id (op_get p agg)) sd ok tid (rec_open_qty (op_get p agg))
      (side_view (op_get p) q (opposite sd) (ladder_size (ob_ladder ob))) = (n', os, tid', tr)"
    and best: "has_best ob (opposite sd)" and acc: "ok (ob_index_to_price ob (word_of_int (best_index ob (opposite sd))))"
  obtains p1 ob1 q1 n1 os1 tid1 tr1 tr2 where
    "match_level iid agg sd (word_of_int (best_index ob (opposite sd))) (mstate p ob tid evs) = Some (mstate p1 ob1 tid1 (evs @ tr1))"
    "matched p ob q agg sd n1 os1 p1 ob1 q1" "tr = tr1 @ tr2"
    "n1 = 0 \<and> n' = 0 \<and> os = os1 \<and> tid' = tid1 \<and> tr2 = []
      \<or> card (occupied q1 (opposite sd)) < card (occupied q (opposite sd)) \<and> take_liquidity iid (rec_id (op_get p agg)) sd ok tid1 n1 os1 = (n', os, tid', tr2)"
proof -
  let ?o = "opposite sd" and ?N = "ladder_size (ob_ladder ob)" and ?n = "rec_open_qty (op_get p agg)"
  note inv = book_okD(1) [OF ok]
  note B = best_level [OF inv best]
  define i where "i = nat (best_index ob ?o)"
  note B = B [folded i_def]
  let ?L = "map (view_order (op_get p)) (q ?o i)"
  obtain R where R: "side_view (op_get p) q ?o ?N = ?L @ R"
    "\<And>h qs. (\<And>j x. j \<noteq> i \<Longrightarrow> x \<in> set (q ?o j) \<Longrightarrow> view_order h x = view_order (op_get p) x)
      \<Longrightarrow> side_view h (with_queue q ?o i qs) ?o ?N = map (view_order h) qs @ R"
    using side_view_best [OF inv B(1,6)] by blast
  obtain n1 L1 tid1 tr1 where T1: "take_liquidity iid (rec_id (op_get p agg)) sd (\<lambda>_. True) tid ?n ?L = (n1, L1, tid1, tr1)"
    by (metis prod_cases4)
  have "take_liquidity iid (rec_id (op_get p agg)) sd ok tid ?n ?L = take_liquidity iid (rec_id (op_get p agg)) sd (\<lambda>_. True) tid ?n ?L"
    using acc queue_place(7) [OF inv, of _ ?o i] B(5) by (intro take_liquidity_cong) auto
  note T1' = this [unfolded T1]
  obtain p1 ob1 ts where M: "match_level iid agg sd (word_of_int (best_index ob ?o)) (mstate p ob tid evs) = Some (mstate p1 ob1 tid1 (evs @ tr1))"
    "swept p ob q agg ?o i n1 L1 p1 ob1 ts"
    using match_level_swept [OF ok aok B(4,2) T1, of evs] by blast
  have L1: "map (view_order (op_get p1)) ts = L1" "n1 = 0 \<or> ts = []" using M(2) by (simp_all add: swept_def)
  note matched = swept_matched [OF inv aok M(2) R(2)]
  show thesis
  proof (cases "ts = []")
    case True
    have "occupied (with_queue q ?o i ts) ?o \<subset> occupied q ?o" using B(1) True by (auto simp: occupied_with_queue)
    then have smaller: "card (occupied (with_queue q ?o i ts) ?o) < card (occupied q ?o)"
      by (rule psubset_card_mono [OF finite_occupied [OF inv]])
    obtain tr2 where "take_liquidity iid (rec_id (op_get p agg)) sd ok tid1 n1 (L1 @ R) = (n', os, tid', tr2)" "tr = tr1 @ tr2"
      using T L1(1) True unfolding R(1) take_liquidity_append T1' by (auto split: prod.splits)
    with smaller show thesis by (intro that [OF M(1) matched]) auto
  next
    case False
    with L1 have "n1 = 0" "L1 \<noteq> []" by auto
    then show thesis using T unfolding R(1) take_liquidity_append T1' by (intro that [OF M(1) matched, of "[]"]) simp_all
  qed
qed

lemma run_matching_matched:
  assumes "book_ok p ob q" "aggressor_ok p ob agg"
    and "take_liquidity iid (rec_id (op_get p agg)) sd (acceptable sd is_market limit_price) tid (rec_open_qty (op_get p agg))
      (side_view (op_get p) q (opposite sd) (ladder_size (ob_ladder ob))) = (n', os, tid', tr)"
  shows "\<exists>p' ob' q'. run_matching iid agg sd limit_price is_market (mstate p ob tid evs) = Some (mstate p' ob' tid' (evs @ tr))
    \<and> matched p ob q agg sd n' os p' ob' q'"
  using assms
proof (induction "card (occupied q (opposite sd))" arbitrary: p ob q tid evs n' os tid' tr rule: less_induct)
  case less
  let ?o = "opposite sd" and ?n = "rec_open_qty (op_get p agg)" and ?ok = "acceptable sd is_market limit_price"
  note ok = less.prems(1) and aok = less.prems(2) and T = less.prems(3)
  show ?case
  proof (cases "?n = 0 \<or> \<not> has_best ob ?o \<or> \<not> ?ok (ob_index_to_price ob (word_of_int (best_index ob ?o)))")
    case True
    note stop = run_matching_stop [OF True, of iid tid evs]
    have "n' = ?n" "os = side_view (op_get p) q ?o (ladder_size (ob_ladder ob))" "tid' = tid" "tr = []"
      using T nothing_acceptable [where ok = ?ok and n = ?n and sd = ?o, OF book_okD(1) [OF ok] True] by simp_all
    with stop matched_refl [OF ok] show ?thesis by (intro exI [of _ p] exI [of _ ob] exI [of _ q]) simp
  next
    case False
    then have go: "?n \<noteq> 0" "has_best ob ?o" "?ok (ob_index_to_price ob (word_of_int (best_index ob ?o)))" by simp_all
    obtain p1 ob1 q1 n1 os1 tid1 tr1 tr2 where
      M: "match_level iid agg sd (word_of_int (best_index ob ?o)) (mstate p ob tid evs) = Some (mstate p1 ob1 tid1 (evs @ tr1))"
        "matched p ob q agg sd n1 os1 p1 ob1 q1" "tr = tr1 @ tr2"
      and ends: "n1 = 0 \<and> n' = 0 \<and> os = os1 \<and> tid' = tid1 \<and> tr2 = []
        \<or> card (occupied q1 ?o) < card (occupied q ?o) \<and> take_liquidity iid (rec_id (op_get p agg)) sd ?ok tid1 n1 os1 = (n', os, tid', tr2)"
      by (rule run_matching_round [OF ok aok T go(2,3), of evs])
    note step = run_matching_step [OF go(1,2) refl go(3) M(1)]
    note D = M(2) [unfolded matched_def]
    from ends show ?thesis
    proof (elim disjE conjE)
      assume "n1 = 0" "n' = 0" "os = os1" "tid' = tid1" "tr2 = []"
      moreover from this D have "run_matching iid agg sd limit_price is_market (mstate p1 ob1 tid1 (evs @ tr1)) = Some (mstate p1 ob1 tid1 (evs @ tr1))"
        by (intro run_matching_stop) simp
      ultimately show ?thesis using step M(2,3) by (intro exI [of _ p1] exI [of _ ob1] exI [of _ q1]) simp
    next
      assume smaller: "card (occupied q1 ?o) < card (occupied q ?o)" and "take_liquidity iid (rec_id (op_get p agg)) sd ?ok tid1 n1 os1 = (n', os, tid', tr2)"
      then have T2: "take_liquidity iid (rec_id (op_get p1 agg)) sd ?ok tid1 (rec_open_qty (op_get p1 agg))
          (side_view (op_get p1) q1 ?o (ladder_size (ob_ladder ob1))) = (n', os, tid', tr2)" using D by simp
      have "book_ok p1 ob1 q1" "aggressor_ok p1 ob1 agg" using D aggressor_ok_traded [OF aok, of "{}" "ob_instrument_id ob" p1 ob1] by auto
      from less.hyps [OF smaller this T2, of "evs @ tr1"] obtain p' ob' q' where
        "run_matching iid agg sd limit_price is_market (mstate p1 ob1 tid1 (evs @ tr1)) = Some (mstate p' ob' tid' ((evs @ tr1) @ tr2))"
        "matched p1 ob1 q1 agg sd n' os p' ob' q'" by blast
      with step matched_trans [OF M(2)] M(3) show ?thesis by (intro exI [of _ p'] exI [of _ ob'] exI [of _ q']) simp
    qed
  qed
qed

lemma run_matching_ok:
  assumes "book_ok p ob q" "aggressor_ok p ob agg"
    and "take_liquidity iid (rec_id (op_get p agg)) sd (acceptable sd is_market limit_price) tid (rec_open_qty (op_get p agg))
      (side_view (op_get p) q (opposite sd) (ladder_size (ob_ladder ob))) = (n', os, tid', tr)"
  shows "\<exists>p' ob' q'. run_matching iid agg sd limit_price is_market (mstate p ob tid evs) = Some (mstate p' ob' tid' (evs @ tr))
    \<and> book_ok p' ob' q' \<and> side_view (op_get p') q' (opposite sd) (ladder_size (ob_ladder ob)) = os
    \<and> side_view (op_get p') q' sd (ladder_size (ob_ladder ob)) = side_view (op_get p) q sd (ladder_size (ob_ladder ob))
    \<and> op_get p' agg = traded (rec_open_qty (op_get p agg) - n') (op_get p agg)
    \<and> ob_ladder ob' = ob_ladder ob \<and> ob_instrument_id ob' = ob_instrument_id ob \<and> only_touches {} (ob_instrument_id ob) p p'
    \<and> spares {agg} p p'"
  using run_matching_matched [OF assms, of evs] by (simp only: matched_def)

section \<open>The fill-or-kill check\<close>

definition volume :: "resting_order list \<Rightarrow> nat" where
  "volume os = sum_list (map (\<lambda>x. unat (ao_open x)) os)"

lemma volume_simps [simp]:
  "volume [] = 0" "volume (x # xs) = unat (ao_open x) + volume xs" "volume (xs @ ys) = volume xs + volume ys"
  by (simp_all add: volume_def)

lemma unat_plus_le: "unat (a + b) \<le> unat a + unat b" for a b :: "'a::len word"
  by (simp add: unat_word_ariths)

lemma unat_plus_exact: "unat a + unat b < 2 ^ LENGTH('a) \<Longrightarrow> unat (a + b) = unat a + unat b" for a b :: "'a::len word"
  by (simp add: unat_word_ariths)

text \<open>A level's 32-bit total never exceeds the level's volume, and is exact while that fits.\<close>

lemma total_open_le: "unat (total_open h qs) \<le> volume (map (view_order h) qs)"
proof (induction qs)
  case (Cons s ss)
  with unat_plus_le [of "rec_open_qty (h s)" "total_open h ss"] show ?case by simp
qed simp

lemma total_open_exact: "volume (map (view_order h) qs) < 2 ^ 32 \<Longrightarrow> unat (total_open h qs) = volume (map (view_order h) qs)"
proof (induction qs)
  case (Cons s ss)
  then have "unat (total_open h ss) = volume (map (view_order h) ss)" by simp
  with Cons.prems unat_plus_exact [of "rec_open_qty (h s)" "total_open h ss"] show ?case by simp
qed simp

lemma depth_append_all: "(\<And>x. x \<in> set xs \<Longrightarrow> ok (ao_price x)) \<Longrightarrow> depth ok (xs @ ys) = volume xs + depth ok ys"
  by (induction xs) simp_all

lemma depth_le_volume: "depth ok xs \<le> volume xs"
  by (induction xs) auto

text \<open>What is left of a side from the levels in \<open>S\<close> on.\<close>

definition view_of_levels :: "heap \<Rightarrow> queues \<Rightarrow> side \<Rightarrow> nat \<Rightarrow> nat set \<Rightarrow> resting_order list" where
  "view_of_levels h q sd n S = flat sd n (\<lambda>j. if j \<in> S then map (view_order h) (q sd j) else [])"

lemma view_of_occupied: "view_of_levels h q sd n (occupied q sd) = side_view h q sd n"
  unfolding view_of_levels_def side_view_def by (rule flat_cong) (simp add: occupied_def)

lemma view_of_levels_empty [simp]: "view_of_levels h q sd n {} = []"
  by (simp add: view_of_levels_def flat_def)

lemma view_of_levels_split:
  assumes "i \<in> S" "i < n" "\<And>j. j \<in> S \<Longrightarrow> \<not> before sd j i"
  shows "view_of_levels h q sd n S = map (view_order h) (q sd i) @ view_of_levels h q sd n (S - {i})"
proof -
  let ?f = "\<lambda>S j. if j \<in> S then map (view_order h) (q sd j) else []"
  obtain A B where S: "\<And>g. flat sd n ((?f S)(i := g)) = A @ g @ B" "flat sd n (?f S) = A @ ?f S i @ B"
    "\<And>x. x \<in> set A \<Longrightarrow> \<exists>j < n. before sd j i \<and> x \<in> set (?f S j)" "\<And>x. x \<in> set B \<Longrightarrow> \<exists>j < n. before sd i j \<and> x \<in> set (?f S j)"
    using flat_split [OF assms(2)] by blast
  have "x \<notin> set A" for x using S(3) [of x] assms(3) by (auto split: if_splits)
  then have "A = []" by (metis list.set_intros(1) neq_Nil_conv)
  moreover have "?f (S - {i}) = (?f S)(i := [])" by auto
  ultimately show ?thesis using S(1) [of "[]"] S(2) assms(1) by (simp add: view_of_levels_def)
qed

text \<open>The levels still to be scanned: the occupied ones from the best index \<open>idx\<close> on.\<close>

definition to_scan :: "queues \<Rightarrow> side \<Rightarrow> nat set \<Rightarrow> int \<Rightarrow> bool" where
  "to_scan q sd S idx \<longleftrightarrow> best_index_of sd S idx \<and> S \<subseteq> occupied q sd \<and> (\<forall>i \<in> S. \<forall>j \<in> occupied q sd. before sd i j \<longrightarrow> j \<in> S)"

lemma scan_here:
  assumes inv: "book_inv p ob q" and S: "to_scan q sd S idx" and idx: "0 \<le> idx"
  defines "i \<equiv> nat idx"
  shows "i \<in> S" "\<And>j. j \<in> S \<Longrightarrow> \<not> before sd j i" "i \<in> occupied q sd" "i < ladder_size (ob_ladder ob)"
    "(word_of_int idx :: 32 word) = word_of_nat i" "unat (word_of_int idx :: 32 word) = i"
proof -
  show i: "i \<in> S" "\<And>j. j \<in> S \<Longrightarrow> \<not> before sd j i"
    using best_index_of_member [OF _ idx, of sd S] S by (simp_all add: to_scan_def i_def)
  then show occ: "i \<in> occupied q sd" using S by (auto simp: to_scan_def)
  then show lt: "i < ladder_size (ob_ladder ob)" using book_invD(8) [OF inv, of sd i] by (simp add: occupied_def)
  have "int i = idx" using idx by (simp add: i_def)
  then show "(word_of_int idx :: 32 word) = word_of_nat i" "unat (word_of_int idx :: 32 word) = i"
    using unat_level_index [OF lt] by (metis of_int_of_nat_eq)+
qed

lemma scan_rest:
  assumes inv: "book_inv p ob q" and S: "to_scan q sd S idx" and idx: "0 \<le> idx"
  shows "to_scan q sd (S - {nat idx}) (next_index ob sd idx)" "card (S - {nat idx}) < card S"
proof -
  let ?i = "nat idx"
  note H = scan_here [OF inv S idx]
  have sub: "S \<subseteq> occupied q sd" and up: "\<forall>i \<in> S. \<forall>j \<in> occupied q sd. before sd i j \<longrightarrow> j \<in> S" using S by (simp_all add: to_scan_def)
  have rest: "S - {?i} = {j \<in> occupied q sd. before sd ?i j}"
  proof (intro set_eqI iffI)
    fix j assume j: "j \<in> S - {?i}"
    then have "before sd ?i j" using H(2) [of j] before_total [of sd ?i j] by auto
    with j sub show "j \<in> {j \<in> occupied q sd. before sd ?i j}" by blast
  next
    fix j assume j: "j \<in> {j \<in> occupied q sd. before sd ?i j}"
    then have "j \<noteq> ?i" by auto
    with j up H(1) show "j \<in> S - {?i}" by blast
  qed
  have "finite S" using finite_occupied [OF inv] sub by (rule finite_subset [rotated])
  then show "card (S - {?i}) < card S" using H(1) by (rule card_Diff1_less)
  have "idx < int (bit_capacity (bitmap ob sd))" using H(4) book_invD(4) [OF inv, of sd] idx by linarith
  from bitset.next_best_members [OF _ this idx, of sd]
  have "best_index_of sd (S - {?i}) (next_index ob sd idx)"
    unfolding next_index_eq rest book_invD(5) [OF inv, symmetric] by simp
  moreover have "j \<in> S - {?i}" if "k \<in> S - {?i}" "j \<in> occupied q sd" "before sd k j" for k j
    using that before_trans unfolding rest by blast
  ultimately show "to_scan q sd (S - {?i}) (next_index ob sd idx)" using sub unfolding to_scan_def by blast
qed

text \<open>What the scan adds at a level it may trade at, against what the orders there offer.\<close>

lemma scan_adds:
  fixes available :: quantity
  assumes inv: "book_inv p ob q" and S: "to_scan q sd S idx" and idx: "0 \<le> idx" and acc: "ok (ob_index_to_price ob (word_of_int idx))"
  defines "V \<equiv> view_of_levels (op_get p) q sd (ladder_size (ob_ladder ob))"
  defines "reached \<equiv> available + lvl_total_qty (level_at ob sd (word_of_int idx))"
  obtains n where "depth ok (V S) = n + depth ok (V (S - {nat idx}))" "volume (V S) = n + volume (V (S - {nat idx}))"
    "unat reached \<le> unat available + n" "unat available + volume (V S) < 2 ^ 32 \<longrightarrow> unat reached = unat available + n"
proof -
  note H = scan_here [OF inv S idx]
  let ?L = "map (view_order (op_get p)) (q sd (nat idx))" and ?lq = "lvl_total_qty (level_at ob sd (word_of_int idx))"
  have V: "V S = ?L @ V (S - {nat idx})" unfolding V_def by (rule view_of_levels_split [OF H(1,4,2)])
  have "ao_price x = ob_index_to_price ob (word_of_int idx)" if "x \<in> set ?L" for x
    using view_price [OF inv that] H(5) by (simp add: ob_index_to_price_def)
  then have depth: "depth ok (V S) = volume ?L + depth ok (V (S - {nat idx}))"
    unfolding V using acc by (intro depth_append_all) simp
  have "queue_of (op_get p) (level_at ob sd (word_of_int idx)) (q sd (nat idx))"
    using book_invD(7) [OF inv H(4), of sd] by (simp add: level_at_def H(6))
  then have lq: "?lq = total_open (op_get p) (q sd (nat idx))" by (simp add: queue_of_def)
  have "unat reached \<le> unat available + volume ?L"
    using unat_plus_le [of available ?lq] total_open_le [of "op_get p" "q sd (nat idx)"] lq by (simp add: reached_def)
  moreover have "unat reached = unat available + volume ?L" if "unat available + volume (V S) < 2 ^ 32"
    using that total_open_exact [of "op_get p" "q sd (nat idx)"] lq unat_plus_exact [of available ?lq] unfolding V by (simp add: reached_def)
  moreover have "volume (V S) = volume ?L + volume (V (S - {nat idx}))" by (simp only: V volume_simps)
  ultimately show thesis using depth by (intro that [of "volume ?L"] impI)
qed

lemma scan_refuses:
  assumes inv: "book_inv p ob q" and S: "to_scan q sd S idx" and idx: "0 \<le> idx" and no: "\<not> ok (ob_index_to_price ob (word_of_int idx))"
  shows "depth ok (view_of_levels (op_get p) q sd (ladder_size (ob_ladder ob)) S) = 0"
proof -
  note H = scan_here [OF inv S idx]
  let ?L = "map (view_order (op_get p)) (q sd (nat idx))"
  have "?L \<noteq> []" using H(3) by (simp add: occupied_def)
  then obtain x xs where L: "?L = x # xs" by (meson neq_Nil_conv)
  then have "ao_price x = ob_index_to_price ob (word_of_int idx)"
    using view_price [OF inv, of x sd "nat idx"] H(5) by (simp add: ob_index_to_price_def)
  moreover have "view_of_levels (op_get p) q sd (ladder_size (ob_ladder ob)) S = ?L @ view_of_levels (op_get p) q sd (ladder_size (ob_ladder ob)) (S - {nat idx})"
    by (rule view_of_levels_split [OF H(1,4,2)])
  ultimately show ?thesis using no by (simp add: L)
qed

lemma fill_scan_step:
  assumes "0 \<le> idx"
  shows "fill_scan ob sd is_market limit_price needed available idx =
    (if \<not> acceptable sd is_market limit_price (ob_index_to_price ob (word_of_int idx)) then Some (needed \<le> available)
     else if needed \<le> available + lvl_total_qty (level_at ob (opposite sd) (word_of_int idx)) then Some True
     else fill_scan ob sd is_market limit_price needed (available + lvl_total_qty (level_at ob (opposite sd) (word_of_int idx))) (next_index ob (opposite sd) idx))"
  using assms unfolding crosses_acceptable [symmetric] by (subst fill_scan.simps) (auto simp: Let_def)

lemma fill_scan_to:
  assumes inv: "book_inv p ob q" and "to_scan q (opposite sd) S idx"
  shows "\<exists>v. fill_scan ob sd is_market limit_price needed available idx = Some v
    \<and> (v \<longrightarrow> unat needed \<le> unat available + depth (acceptable sd is_market limit_price) (view_of_levels (op_get p) q (opposite sd) (ladder_size (ob_ladder ob)) S))
    \<and> (unat available + volume (view_of_levels (op_get p) q (opposite sd) (ladder_size (ob_ladder ob)) S) < 2 ^ 32
      \<longrightarrow> v = (unat needed \<le> unat available + depth (acceptable sd is_market limit_price) (view_of_levels (op_get p) q (opposite sd) (ladder_size (ob_ladder ob)) S)))"
  using assms(2)
proof (induction "card S" arbitrary: S idx available rule: less_induct)
  case less
  let ?o = "opposite sd" and ?ok = "acceptable sd is_market limit_price"
  let ?V = "view_of_levels (op_get p) q ?o (ladder_size (ob_ladder ob))" and ?lq = "lvl_total_qty (level_at ob (opposite sd) (word_of_int idx))"
  consider (over) "\<not> 0 \<le> idx" | (limit) "0 \<le> idx" "\<not> ?ok (ob_index_to_price ob (word_of_int idx))" | (level) "0 \<le> idx" "?ok (ob_index_to_price ob (word_of_int idx))" by blast
  then show ?case
  proof cases
    case over
    then have "S = {}" using best_index_of_nonneg [of ?o S idx] less.prems by (simp add: to_scan_def)
    then show ?thesis using over by (subst fill_scan.simps) (simp add: word_le_nat_alt)
  next
    case limit
    then show ?thesis using scan_refuses [where ok = ?ok, OF inv less.prems limit] by (simp add: fill_scan_step word_le_nat_alt)
  next
    case level
    obtain n where N: "depth ?ok (?V S) = n + depth ?ok (?V (S - {nat idx}))" "volume (?V S) = n + volume (?V (S - {nat idx}))"
      "unat (available + ?lq) \<le> unat available + n" "unat available + volume (?V S) < 2 ^ 32 \<longrightarrow> unat (available + ?lq) = unat available + n"
      by (rule scan_adds [where ok = ?ok and available = available, OF inv less.prems level])
    show ?thesis
    proof (cases "needed \<le> available + ?lq")
      case True
      then have "unat needed \<le> unat available + depth ?ok (?V S)" using N(1,3) by (simp add: word_le_nat_alt)
      with True level show ?thesis by (intro exI [of _ True]) (simp add: fill_scan_step)
    next
      case False
      note R = scan_rest [OF inv less.prems level(1)]
      obtain v where IH: "fill_scan ob sd is_market limit_price needed (available + ?lq) (next_index ob ?o idx) = Some v"
        "v \<longrightarrow> unat needed \<le> unat (available + ?lq) + depth ?ok (?V (S - {nat idx}))"
        "unat (available + ?lq) + volume (?V (S - {nat idx})) < 2 ^ 32
          \<longrightarrow> v = (unat needed \<le> unat (available + ?lq) + depth ?ok (?V (S - {nat idx})))"
        using less.hyps [OF R(2,1), of "available + ?lq"] by blast
      have "unat needed \<le> unat available + depth ?ok (?V S)" if v using IH(2) that N(1,3) by simp
      moreover have "v = (unat needed \<le> unat available + depth ?ok (?V S))" if "unat available + volume (?V S) < 2 ^ 32"
        using IH(3) N(4) that N(1,2) by (simp add: add.assoc)
      ultimately show ?thesis using False IH(1) level by (intro exI [of _ v]) (simp add: fill_scan_step)
    qed
  qed
qed

lemma fill_scan_ok:
  assumes inv: "book_inv p ob q"
    and S: "best_index_of (opposite sd) S idx" "S \<subseteq> occupied q (opposite sd)"
      "\<forall>i \<in> S. \<forall>j \<in> occupied q (opposite sd). before (opposite sd) i j \<longrightarrow> j \<in> S"
  defines "V \<equiv> view_of_levels (op_get p) q (opposite sd) (ladder_size (ob_ladder ob)) S"
  shows "\<exists>v. fill_scan ob sd is_market limit_price needed available idx = Some v
    \<and> (v \<longrightarrow> unat needed \<le> unat available + depth (acceptable sd is_market limit_price) V)
    \<and> (unat available + volume V < 2 ^ 32 \<longrightarrow> v = (unat needed \<le> unat available + depth (acceptable sd is_market limit_price) V))"
  unfolding V_def using S by (intro fill_scan_to [OF inv]) (simp add: to_scan_def)

lemma can_fully_fill_ok:
  fixes sd :: side
  assumes inv: "book_inv p ob q" and pos: "needed \<noteq> 0"
  defines "V \<equiv> side_view (op_get p) q (opposite sd) (ladder_size (ob_ladder ob))"
  shows "\<exists>v. can_fully_fill ob sd is_market limit_price needed = Some v
    \<and> (v \<longrightarrow> unat needed \<le> depth (acceptable sd is_market limit_price) V)
    \<and> (volume V < 2 ^ 32 \<longrightarrow> v = (unat needed \<le> depth (acceptable sd is_market limit_price) V))"
proof (cases "has_best ob (opposite sd)")
  case False
  then have "V = []" unfolding V_def using has_best_iff [OF inv] by (intro side_view_empty) simp
  with False pos show ?thesis by (intro exI [of _ False]) (simp add: can_fully_fill_def unat_eq_0)
next
  case True
  with fill_scan_ok [OF inv book_invD(6) [OF inv, of "opposite sd"], of is_market limit_price needed 0]
  show ?thesis by (simp add: can_fully_fill_def V_def view_of_occupied)
qed

end
