(* ===== verification/Book_Refinement.thy ===== *)
theory Book_Refinement
  imports Loop_Refinement
begin

text \<open>
  The three operations of the book on good books, in terms of the view: resting is
  \<open>insert_order\<close>, removal is \<open>remove_order\<close>, replacement in place is \<open>substitute_order\<close>. The
  other instruments' records are untouched.
\<close>

section \<open>Resting\<close>

lemma book_view_eq:
  assumes ok: "book_ok p ob q" and ok': "book_ok p' ob' q'"
    and same: "ob_ladder ob' = ob_ladder ob" "ob_instrument_id ob' = ob_instrument_id ob"
    and own: "side_view (op_get p') q' sd (ladder_size (ob_ladder ob)) = f (side_view (op_get p) q sd (ladder_size (ob_ladder ob)))"
    and other: "\<And>sd'. sd' \<noteq> sd \<Longrightarrow> side_view (op_get p') q' sd' (ladder_size (ob_ladder ob)) = side_view (op_get p) q sd' (ladder_size (ob_ladder ob))"
  shows "book_view p' ob' = set_orders sd (f (ab_orders (book_view p ob) sd)) (book_view p ob)"
  using own other by (auto simp: book_okD(4) [OF ok] book_okD(4) [OF ok'] same set_orders_def)

lemma live_cong:
  assumes "live (op_get p) q" "\<And>sd i x. x \<in> set (q' sd i) \<Longrightarrow> x \<notin> T \<Longrightarrow> x \<in> set (q sd i) \<and> core (op_get p' x) = core (op_get p x)"
    "\<And>x. x \<in> T \<Longrightarrow> rec_open_qty (op_get p' x) \<noteq> 0"
  shows "live (op_get p') q'"
  unfolding live_def
proof (intro allI ballI)
  fix sd i x assume x: "x \<in> set (q' sd i)"
  show "rec_open_qty (op_get p' x) \<noteq> 0"
  proof (cases "x \<in> T")
    case False
    with assms(2) [OF x] have "core (op_get p' x) = core (op_get p x)" "x \<in> set (q sd i)" by simp_all
    with assms(1) core_eqD(4) show ?thesis unfolding live_def by metis
  qed (rule assms(3))
qed

lemma complete_change:
  assumes "complete p ob q" "op_size p' = op_size p" "ob_instrument_id ob' = ob_instrument_id ob"
    and "\<And>x. rec_instrument_id (op_get p' x) = rec_instrument_id (op_get p x)"
    and "\<And>x. rec_is_open (op_get p' x) \<Longrightarrow> x \<in> T \<or> rec_is_open (op_get p x) \<and> x \<notin> gone"
    and "\<And>x sd i. x \<in> set (q sd i) \<Longrightarrow> x \<notin> gone \<Longrightarrow> x \<in> set (q' sd i)" "\<And>x. x \<in> T \<Longrightarrow> \<exists>sd i. x \<in> set (q' sd i)"
  shows "complete p' ob' q'"
  unfolding complete_def
proof (intro allI impI)
  fix x assume x: "unat x < op_size p'" "rec_is_open (op_get p' x)" "rec_instrument_id (op_get p' x) = ob_instrument_id ob'"
  from assms(5) [OF x(2)] show "\<exists>sd j. x \<in> set (q' sd j)"
  proof
    assume "rec_is_open (op_get p x) \<and> x \<notin> gone"
    moreover from this obtain sd j where "x \<in> set (q sd j)" using assms(1) x by (auto simp: complete_def assms(2-4))
    ultimately show ?thesis using assms(6) by blast
  qed (rule assms(7))
qed

text \<open>What \<open>add_resting_inv\<close> says of the records, as far as they are seen.\<close>

lemma rested_fields:
  assumes "\<And>x. core (op_get p' x) = core (if x = s then resting_fields sd price idx (op_get p s) else op_get p x)"
  shows "view_order (op_get p') s = \<lparr>ao_id = rec_id (op_get p s), ao_price = price, ao_open = rec_open_qty (op_get p s), ao_filled = rec_filled_qty (op_get p s)\<rparr>"
    "rec_price (op_get p' s) = price" "rec_open_qty (op_get p' s) = rec_open_qty (op_get p s)"
    "rec_instrument_id (op_get p' x) = rec_instrument_id (op_get p x)" "rec_id (op_get p' x) = rec_id (op_get p x)"
    "x \<noteq> s \<Longrightarrow> core (op_get p' x) = core (op_get p x)" "rec_is_open (op_get p' x) \<Longrightarrow> x = s \<or> rec_is_open (op_get p x)"
proof -
  have "core (op_get p' s) = core (resting_fields sd price idx (op_get p s))" by (simp add: assms)
  note CS = core_eqD [OF this]
  show "view_order (op_get p') s = \<lparr>ao_id = rec_id (op_get p s), ao_price = price, ao_open = rec_open_qty (op_get p s), ao_filled = rec_filled_qty (op_get p s)\<rparr>"
    "rec_price (op_get p' s) = price" "rec_open_qty (op_get p' s) = rec_open_qty (op_get p s)" by (simp_all add: view_order_def CS)
  note C = core_eqD [OF assms [of x]]
  show "rec_instrument_id (op_get p' x) = rec_instrument_id (op_get p x)" "rec_id (op_get p' x) = rec_id (op_get p x)" by (simp_all add: C)
  show "rec_is_open (op_get p' x) \<Longrightarrow> x = s \<or> rec_is_open (op_get p x)" by (simp add: C split: if_splits)
  show "x \<noteq> s \<Longrightarrow> core (op_get p' x) = core (op_get p x)" by (simp add: assms)
qed

lemma add_resting_refines:
  assumes ok: "book_ok p ob q" and s: "unat s < op_size p" "s \<noteq> kInvalidSlot" "\<not> rec_is_open (op_get p s)"
    "rec_instrument_id (op_get p s) = ob_instrument_id ob" "rec_open_qty (op_get p s) \<noteq> 0"
    and price: "in_band (ob_ladder ob) price" and res: "add_resting p ob s sd price = (p', ob')"
  shows "\<exists>q'. book_ok p' ob' q'"
    and "book_view p' ob' = set_orders sd (insert_order sd \<lparr>ao_id = rec_id (op_get p s), ao_price = price,
      ao_open = rec_open_qty (op_get p s), ao_filled = rec_filled_qty (op_get p s)\<rparr> (ab_orders (book_view p ob) sd)) (book_view p ob)"
    and "only_touches {s} (ob_instrument_id ob) p p'" "ob_instrument_id ob' = ob_instrument_id ob" "ob_ladder ob' = ob_ladder ob"
    and "spares {s} p p'"
proof -
  note inv = book_okD(1) [OF ok]
  have fresh: "s \<notin> set (q sd i)" for sd i using queue_place(4) [OF inv, of s] s(3) by blast
  define idx where "idx = (word_of_int (ob_price_to_index ob price) :: 32 word)"
  note A = add_resting_inv [OF inv s(1,2) fresh price s(4) idx_def res]
  note i = band_index [OF book_invD(2) [OF inv] price idx_def]
  note F = rested_fields [OF A(5)]
  let ?i = "unat idx" and ?N = "ladder_size (ob_ladder ob)"
  let ?q = "with_queue q sd ?i (q sd ?i @ [s])"
  have same: "view_order (op_get p') x = view_order (op_get p) x" if "x \<in> set (q sd' j)" for x sd' j
    using that fresh by (intro view_order_core F(6)) auto
  have "live (op_get p') ?q"
  proof (rule live_cong [where T = "{s}"])
    show "live (op_get p) q" using ok by (simp add: book_ok_def)
    show "x \<in> set (q sd' j) \<and> core (op_get p' x) = core (op_get p x)" if "x \<in> set (?q sd' j)" "x \<notin> {s}" for sd' j x
      using that F(6) by (auto simp: with_queue_simps split: if_splits)
  qed (use s(5) in \<open>simp add: F(3)\<close>)
  moreover have "complete p' ob' ?q"
  proof (rule complete_change [where T = "{s}" and gone = "{}", OF _ A(2,4) F(4)])
    show "complete p ob q" using ok by (simp add: book_ok_def)
    show "\<exists>sd' j. x \<in> set (?q sd' j)" if "x \<in> {s}" for x
      using that by (intro exI [of _ sd] exI [of _ ?i]) (simp add: with_queue_simps)
  qed (use F(7) in \<open>auto simp: with_queue_simps\<close>)
  ultimately have ok': "book_ok p' ob' ?q" using A(1) by (simp add: book_ok_def)
  then show "\<exists>q'. book_ok p' ob' q'" by blast
  have "rec_price (op_get p' s) = index_to_price (ob_ladder ob) (word_of_nat ?i)"
    using i(2) by (simp add: F(2) word_of_nat_unat ob_index_to_price_def)
  note V = view_append [OF inv i(1) this same]
  show "book_view p' ob' = set_orders sd (insert_order sd \<lparr>ao_id = rec_id (op_get p s), ao_price = price,
      ao_open = rec_open_qty (op_get p s), ao_filled = rec_filled_qty (op_get p s)\<rparr> (ab_orders (book_view p ob) sd)) (book_view p ob)"
  proof (rule book_view_eq [OF ok ok' A(3,4)])
    show "side_view (op_get p') ?q sd' ?N = side_view (op_get p) q sd' ?N" if "sd' \<noteq> sd" for sd'
      using that same by (simp add: side_view_other) (rule side_view_cong, simp)
  qed (simp add: V F(1))
  have "op_get p' x = op_get p x" if "rec_instrument_id (op_get p x) \<noteq> ob_instrument_id ob" for x
    using A(6) [of x] queue_place(5) [OF inv, of x sd ?i] s(4) that by blast
  with F(4,5,7) A(2) show "only_touches {s} (ob_instrument_id ob) p p'" unfolding only_touches_def by blast
  show "spares {s} p p'" using queue_place(4) [OF inv] A(6) unfolding spares_def by blast
  show "ob_instrument_id ob' = ob_instrument_id ob" "ob_ladder ob' = ob_ladder ob" by (rule A(4), rule A(3))
qed

section \<open>An order that leaves its queue\<close>

text \<open>
  Removal and replacement in place have this in common: in the queue \<open>as @ s # bs\<close>, the order \<open>s\<close> is
  closed and \<open>ms\<close> takes its place: nothing, or a record that was in no queue.
\<close>

definition left_for :: "order_pool \<Rightarrow> order_book \<Rightarrow> queues \<Rightarrow> side \<Rightarrow> nat \<Rightarrow> slot list \<Rightarrow> slot \<Rightarrow> slot list \<Rightarrow> slot list \<Rightarrow> order_pool \<Rightarrow> order_book \<Rightarrow> bool" where
  "left_for p ob q sd i as s bs ms p' ob' \<longleftrightarrow>
    q sd i = as @ s # bs \<and> (\<forall>t \<in> set ms. \<forall>sd i. t \<notin> set (q sd i)) \<and> (\<forall>t \<in> set ms. rec_open_qty (op_get p' t) \<noteq> 0)
    \<and> book_inv p' ob' (with_queue q sd i (as @ ms @ bs)) \<and> op_size p' = op_size p \<and> ob_ladder ob' = ob_ladder ob \<and> ob_instrument_id ob' = ob_instrument_id ob
    \<and> (\<forall>x. x \<noteq> s \<longrightarrow> x \<notin> set ms \<longrightarrow> core (op_get p' x) = core (op_get p x))
    \<and> (\<forall>x. rec_instrument_id (op_get p' x) = rec_instrument_id (op_get p x)) \<and> (\<forall>x. rec_id (op_get p' x) = rec_id (op_get p x))
    \<and> (\<forall>x. rec_is_open (op_get p' x) \<longrightarrow> x \<in> set ms \<or> rec_is_open (op_get p x) \<and> x \<noteq> s)
    \<and> (\<forall>x. x \<notin> set (q sd i) \<longrightarrow> x \<notin> set ms \<longrightarrow> op_get p' x = op_get p x)"

lemma left_forD:
  assumes "left_for p ob q sd i as s bs ms p' ob'"
  shows "q sd i = as @ s # bs" "\<And>t sd i. t \<in> set ms \<Longrightarrow> t \<notin> set (q sd i)" "\<And>t. t \<in> set ms \<Longrightarrow> rec_open_qty (op_get p' t) \<noteq> 0"
    "book_inv p' ob' (with_queue q sd i (as @ ms @ bs))" "op_size p' = op_size p" "ob_ladder ob' = ob_ladder ob" "ob_instrument_id ob' = ob_instrument_id ob"
    "\<And>x. x \<noteq> s \<Longrightarrow> x \<notin> set ms \<Longrightarrow> core (op_get p' x) = core (op_get p x)"
    "\<And>x. rec_instrument_id (op_get p' x) = rec_instrument_id (op_get p x)" "\<And>x. rec_id (op_get p' x) = rec_id (op_get p x)"
    "\<And>x. rec_is_open (op_get p' x) \<Longrightarrow> x \<in> set ms \<or> rec_is_open (op_get p x) \<and> x \<noteq> s"
    "\<And>x. x \<notin> set (q sd i) \<Longrightarrow> x \<notin> set ms \<Longrightarrow> op_get p' x = op_get p x"
  using assms by (simp_all add: left_for_def)

lemma left_for_ok:
  assumes ok: "book_ok p ob q" and L: "left_for p ob q sd i as s bs ms p' ob'"
  shows "book_ok p' ob' (with_queue q sd i (as @ ms @ bs))"
proof -
  note inv = book_okD(1) [OF ok] and D = left_forD [OF L]
  let ?q = "with_queue q sd i (as @ ms @ bs)"
  have s_in: "s \<in> set (q sd i)" by (simp add: D(1))
  have "distinct (as @ s # bs)" using book_invD(7) [OF inv queue_place(3) [OF inv s_in], of sd] D(1) by (simp add: queue_of_def)
  then have nq: "s \<notin> set (?q sd' j)" for sd' j
    using queue_unique [OF inv s_in, of sd' j] D(2) [of s sd i] s_in by (auto simp: with_queue_simps)
  have "live (op_get p') ?q"
  proof (rule live_cong [where T = "set ms"])
    show "live (op_get p) q" using ok by (simp add: book_ok_def)
    show "x \<in> set (q sd' j) \<and> core (op_get p' x) = core (op_get p x)" if "x \<in> set (?q sd' j)" "x \<notin> set ms" for sd' j x
    proof
      have "x \<noteq> s" using nq that(1) by blast
      then show "core (op_get p' x) = core (op_get p x)" using that(2) by (rule D(8))
      show "x \<in> set (q sd' j)" using that D(1) by (auto simp: with_queue_simps split: if_splits)
    qed
  qed (rule D(3))
  moreover have "complete p' ob' ?q"
  proof (rule complete_change [where T = "set ms" and gone = "{s}", OF _ D(5,7,9)])
    show "complete p ob q" using ok by (simp add: book_ok_def)
    show "\<exists>sd' j. x \<in> set (?q sd' j)" if "x \<in> set ms" for x
      using that by (intro exI [of _ sd] exI [of _ i]) (simp add: with_queue_simps)
  qed (use D(1,11) in \<open>auto simp: with_queue_simps\<close>)
  ultimately show ?thesis using D(4) by (simp add: book_ok_def)
qed

lemma left_for_view:
  assumes ok: "book_ok p ob q" and L: "left_for p ob q sd i as s bs ms p' ob'"
    and uniq: "\<forall>sd i. \<forall>t \<in> set (q sd i). rec_id (op_get p t) = rec_id (op_get p s) \<longrightarrow> t = s"
    and subst: "\<And>A B. (\<And>y. y \<in> set A \<union> set B \<Longrightarrow> ao_id y \<noteq> rec_id (op_get p s))
      \<Longrightarrow> f (A @ view_order (op_get p) s # B) = A @ map (view_order (op_get p')) ms @ B"
  shows "book_view p' ob' = set_orders sd (f (ab_orders (book_view p ob) sd)) (book_view p ob)"
proof (rule book_view_eq [OF ok left_for_ok [OF ok L] left_forD(6,7) [OF L]])
  note inv = book_okD(1) [OF ok] and D = left_forD [OF L]
  let ?N = "ladder_size (ob_ladder ob)" and ?q = "with_queue q sd i (as @ ms @ bs)"
  have s_in: "s \<in> set (q sd i)" by (simp add: D(1))
  note P = queue_place [OF inv s_in]
  have "distinct (as @ s # bs)" using book_invD(7) [OF inv P(3), of sd] D(1) by (simp add: queue_of_def)
  then have ns: "s \<notin> set as" "s \<notin> set bs" by simp_all
  have only_i: "j = i" if "s \<in> set (q sd j)" for j using queue_unique(2) [OF inv s_in that] .
  have same: "view_order (op_get p') x = view_order (op_get p) x" if "x \<in> set (q sd' j)" "x \<noteq> s" for x sd' j
    using that D(2) by (intro view_order_core D(8)) auto
  obtain A B where V: "side_view (op_get p) q sd ?N = A @ view_order (op_get p) s # B"
    "\<And>ms. side_view (op_get p') (with_queue q sd i (as @ ms @ bs)) sd ?N = A @ map (view_order (op_get p')) ms @ B"
    "\<And>x. x \<in> set A \<union> set B \<Longrightarrow> \<exists>j t. t \<in> set (q sd j) \<and> t \<noteq> s \<and> x = view_order (op_get p) t"
    using view_middle [where h' = "op_get p'" and h = "op_get p" and q = q and sd = sd and s = s, OF P(3) D(1) _ only_i ns] same by blast
  have "ao_id y \<noteq> rec_id (op_get p s)" if "y \<in> set A \<union> set B" for y
    using V(3) [OF that] uniq by auto
  from subst [OF this] show "side_view (op_get p') ?q sd ?N = f (side_view (op_get p) q sd ?N)" by (simp add: V(1,2))
  show "side_view (op_get p') ?q sd' ?N = side_view (op_get p) q sd' ?N" if "sd' \<noteq> sd" for sd'
  proof -
    have "side_view (op_get p') q sd' ?N = side_view (op_get p) q sd' ?N"
      using queue_unique(1) [OF inv s_in, of sd'] that by (intro side_view_cong same) auto
    with that show ?thesis by (simp add: side_view_other)
  qed
qed

lemma left_for_touches:
  assumes ok: "book_ok p ob q" and L: "left_for p ob q sd i as s bs ms p' ob'"
  shows "\<forall>t \<in> set ms. rec_instrument_id (op_get p t) = ob_instrument_id ob \<Longrightarrow> only_touches (set ms) (ob_instrument_id ob) p p'" "spares (set ms) p p'"
proof -
  note inv = book_okD(1) [OF ok] and D = left_forD [OF L]
  show "only_touches (set ms) (ob_instrument_id ob) p p'" if "\<forall>t \<in> set ms. rec_instrument_id (op_get p t) = ob_instrument_id ob"
  proof -
    have "op_get p' x = op_get p x" if "rec_instrument_id (op_get p x) \<noteq> ob_instrument_id ob" for x
      using D(12) [of x] queue_place(5) [OF inv, of x sd i] that \<open>\<forall>t \<in> set ms. _ t\<close> by blast
    with D(5,9-11) show ?thesis unfolding only_touches_def by blast
  qed
  show "spares (set ms) p p'" using queue_place(4) [OF inv] D(12) unfolding spares_def by blast
qed

text \<open>An open order is in a queue of its side.\<close>

lemma order_queue:
  assumes ok: "book_ok p ob q" and s: "unat s < op_size p" "rec_is_open (op_get p s)" "rec_instrument_id (op_get p s) = ob_instrument_id ob"
  obtains i as bs where "q (rec_side (op_get p s)) i = as @ s # bs"
proof -
  obtain sd i where s_in: "s \<in> set (q sd i)" using book_okD(3) [OF ok s] by blast
  moreover from queue_place(1) [OF book_okD(1) [OF ok] s_in] have "sd = rec_side (op_get p s)" by simp
  ultimately show thesis using split_list [of s "q sd i"] that by metis
qed

section \<open>Removal\<close>

lemma remove_resting_refines:
  assumes ok: "book_ok p ob q" and s: "unat s < op_size p" "rec_is_open (op_get p s)" "rec_instrument_id (op_get p s) = ob_instrument_id ob"
    and uniq: "\<forall>sd i. \<forall>t \<in> set (q sd i). rec_id (op_get p t) = rec_id (op_get p s) \<longrightarrow> t = s"
    and res: "remove_resting p ob s = (p', ob')" and sd: "sd = rec_side (op_get p s)"
  shows "\<exists>q'. book_ok p' ob' q'"
    and "book_view p' ob' = set_orders sd (remove_order (rec_id (op_get p s)) (ab_orders (book_view p ob) sd)) (book_view p ob)"
    and "only_touches {} (ob_instrument_id ob) p p'" "ob_instrument_id ob' = ob_instrument_id ob" "ob_ladder ob' = ob_ladder ob"
    and "\<not> rec_is_open (op_get p' s)"
    and "x \<noteq> s \<Longrightarrow> core (op_get p' x) = core (op_get p x)"
    and "spares {} p p'"
    and "rec_open_qty (op_get p' x) = rec_open_qty (op_get p x)"
proof -
  note inv = book_okD(1) [OF ok]
  obtain i as bs where split: "q sd i = as @ s # bs" using order_queue [OF ok s] sd by metis
  note R = remove_resting_inv [OF inv split res]
  have fields: "rec_instrument_id (op_get p' x) = rec_instrument_id (op_get p x)" "rec_id (op_get p' x) = rec_id (op_get p x)"
    "rec_open_qty (op_get p' x) = rec_open_qty (op_get p x)" "rec_is_open (op_get p' x) \<Longrightarrow> rec_is_open (op_get p x) \<and> x \<noteq> s" for x
    using arg_cong [OF R(5) [of x], of rec_instrument_id] arg_cong [OF R(5) [of x], of rec_id] arg_cong [OF R(5) [of x], of rec_open_qty]
      arg_cong [OF R(5) [of x], of rec_is_open]
    by (auto simp: closed_def split: if_splits)
  have cx: "core (op_get p' x) = core (op_get p x)" if "x \<noteq> s" for x using that by (simp add: R(5))
  then show "x \<noteq> s \<Longrightarrow> core (op_get p' x) = core (op_get p x)" .
  show "rec_open_qty (op_get p' x) = rec_open_qty (op_get p x)" by (rule fields(3))
  show "\<not> rec_is_open (op_get p' s)" using fields(4) by blast
  have L: "left_for p ob q sd i as s bs [] p' ob'"
    unfolding left_for_def using split R(1-4,6) cx fields by simp
  then show "\<exists>q'. book_ok p' ob' q'" using left_for_ok [OF ok] by blast
  show "book_view p' ob' = set_orders sd (remove_order (rec_id (op_get p s)) (ab_orders (book_view p ob) sd)) (book_view p ob)"
  proof (rule left_for_view [OF ok L uniq])
    fix A B :: "resting_order list" assume "\<And>y. y \<in> set A \<union> set B \<Longrightarrow> ao_id y \<noteq> rec_id (op_get p s)"
    then show "remove_order (rec_id (op_get p s)) (A @ view_order (op_get p) s # B) = A @ map (view_order (op_get p')) [] @ B"
      using remove_order_eq [of A B "view_order (op_get p) s"] by simp
  qed
  show "only_touches {} (ob_instrument_id ob) p p'" "spares {} p p'" using left_for_touches [OF ok L] by simp_all
  show "ob_instrument_id ob' = ob_instrument_id ob" "ob_ladder ob' = ob_ladder ob" by (rule R(4), rule R(3))
qed

section \<open>Replacement in place\<close>

lemma replace_in_place_refines:
  assumes ok: "book_ok p ob q" and s: "unat s < op_size p" "rec_is_open (op_get p s)" "rec_instrument_id (op_get p s) = ob_instrument_id ob"
    and uniq: "\<forall>sd i. \<forall>t \<in> set (q sd i). rec_id (op_get p t) = rec_id (op_get p s) \<longrightarrow> t = s"
    and t: "unat t < op_size p" "t \<noteq> kInvalidSlot" "\<not> rec_is_open (op_get p t)" "rec_instrument_id (op_get p t) = ob_instrument_id ob"
      "rec_open_qty (op_get p t) \<noteq> 0"
    and res: "replace_in_place p ob s t = (p', ob')" and sd: "sd = rec_side (op_get p s)"
  shows "\<exists>q'. book_ok p' ob' q'"
    and "book_view p' ob' = set_orders sd (substitute_order (rec_id (op_get p s)) \<lparr>ao_id = rec_id (op_get p t), ao_price = rec_price (op_get p s),
      ao_open = rec_open_qty (op_get p t), ao_filled = rec_filled_qty (op_get p t)\<rparr> (ab_orders (book_view p ob) sd)) (book_view p ob)"
    and "only_touches {t} (ob_instrument_id ob) p p'" "ob_instrument_id ob' = ob_instrument_id ob" "ob_ladder ob' = ob_ladder ob"
    and "\<not> rec_is_open (op_get p' s)"
    and "spares {t} p p'"
proof -
  note inv = book_okD(1) [OF ok]
  have fresh: "t \<notin> set (q sd i)" for sd i using queue_place(4) [OF inv, of t] t(3) by blast
  obtain i as bs where split: "q sd i = as @ s # bs" using order_queue [OF ok s] sd by metis
  then have st: "s \<noteq> t" using fresh [of sd i] by auto
  note R = replace_in_place_inv [OF inv split t(1,2) fresh t(4) res]
  have fields: "rec_instrument_id (op_get p' x) = rec_instrument_id (op_get p x)" "rec_id (op_get p' x) = rec_id (op_get p x)"
    "rec_is_open (op_get p' x) \<Longrightarrow> x = t \<or> rec_is_open (op_get p x) \<and> x \<noteq> s" for x
    using arg_cong [OF R(5) [of x], of rec_instrument_id] arg_cong [OF R(5) [of x], of rec_id] arg_cong [OF R(5) [of x], of rec_is_open]
    by (auto simp: closed_def split: if_splits)
  have "core (op_get p' t) = core (resting_fields sd (rec_price (op_get p s)) (word_of_nat i) (op_get p t))" using st by (simp add: R(5))
  note CT = core_eqD [OF this]
  have cx: "core (op_get p' x) = core (op_get p x)" if "x \<noteq> s" "x \<noteq> t" for x using that by (simp add: R(5))
  show "\<not> rec_is_open (op_get p' s)" using fields(3) [of s] st by blast
  have L: "left_for p ob q sd i as s bs [t] p' ob'"
    unfolding left_for_def using split R(1-4,6) cx fields fresh t(5) by (simp add: CT)
  then show "\<exists>q'. book_ok p' ob' q'" using left_for_ok [OF ok] by blast
  have vt: "view_order (op_get p') t = \<lparr>ao_id = rec_id (op_get p t), ao_price = rec_price (op_get p s),
      ao_open = rec_open_qty (op_get p t), ao_filled = rec_filled_qty (op_get p t)\<rparr>"
    by (simp add: view_order_def CT)
  show "book_view p' ob' = set_orders sd (substitute_order (rec_id (op_get p s)) \<lparr>ao_id = rec_id (op_get p t), ao_price = rec_price (op_get p s),
      ao_open = rec_open_qty (op_get p t), ao_filled = rec_filled_qty (op_get p t)\<rparr> (ab_orders (book_view p ob) sd)) (book_view p ob)"
  proof (rule left_for_view [OF ok L uniq])
    fix A B :: "resting_order list" assume "\<And>y. y \<in> set A \<union> set B \<Longrightarrow> ao_id y \<noteq> rec_id (op_get p s)"
    then show "substitute_order (rec_id (op_get p s)) \<lparr>ao_id = rec_id (op_get p t), ao_price = rec_price (op_get p s),
        ao_open = rec_open_qty (op_get p t), ao_filled = rec_filled_qty (op_get p t)\<rparr> (A @ view_order (op_get p) s # B)
      = A @ map (view_order (op_get p')) [t] @ B"
      using substitute_order_eq [of A B "view_order (op_get p) s"] by (simp add: vt)
  qed
  show "only_touches {t} (ob_instrument_id ob) p p'" "spares {t} p p'" using left_for_touches [OF ok L] t(4) by simp_all
  show "ob_instrument_id ob' = ob_instrument_id ob" "ob_ladder ob' = ob_ladder ob" by (rule R(4), rule R(3))
qed

end
