(* ===== verification/Engine_Invariant.thy ===== *)
theory Engine_Invariant
  imports Book_Refinement
begin

text \<open>
  The invariant that ties the engine's parts together, and the abstraction from an engine to
  an \<open>exchange\<close>. \<open>store_inv X\<close> is about the pool, the books and the two indexes: the instrument
  index names every book, every book is good, the order index maps each known id to the record
  that carries it, and every open record outside \<open>X\<close> is the one its id maps to (\<open>X\<close> holds the
  old slot during a replace that keeps its id).
\<close>

section \<open>Invariant and abstraction\<close>

definition book_good :: "order_pool \<Rightarrow> order_book \<Rightarrow> bool" where
  "book_good p ob \<longleftrightarrow> book_ok p ob (queues_of p ob)"

lemma book_goodI: "book_ok p ob q \<Longrightarrow> book_good p ob"
  by (simp add: book_good_def book_okD(5))

lemma book_good_ex: "book_good p ob \<longleftrightarrow> (\<exists>q. book_ok p ob q)"
  using book_goodI book_good_def by blast

definition books_indexed :: "order_book list \<Rightarrow> flat_hash_map \<Rightarrow> bool" where
  "books_indexed books ii \<longleftrightarrow> fm_ready ii \<and> length books < 2 ^ 32
    \<and> (\<forall>b < length books. fm_lookup ii (ucast (ob_instrument_id (books ! b))) = Some (word_of_nat b))
    \<and> (\<forall>k w. fm_lookup ii k = Some w \<longrightarrow> unat w < length books \<and> k = ucast (ob_instrument_id (books ! unat w)))"

definition orders_indexed :: "slot set \<Rightarrow> order_pool \<Rightarrow> flat_hash_map \<Rightarrow> bool" where
  "orders_indexed X p oi \<longleftrightarrow> fm_ready oi \<and> fm_size oi \<le> op_size p
    \<and> (\<forall>i s. fm_lookup oi i = Some s \<longrightarrow> unat s < op_size p \<and> rec_id (op_get p s) = i)
    \<and> (\<forall>s. unat s < op_size p \<longrightarrow> rec_is_open (op_get p s) \<longrightarrow> s \<notin> X \<longrightarrow> fm_lookup oi (rec_id (op_get p s)) = Some s)"

definition books_good :: "order_pool \<Rightarrow> order_book list \<Rightarrow> bool" where
  "books_good p books \<longleftrightarrow> pool_ok p \<and> (\<forall>b < length books. book_good p (books ! b))
    \<and> (\<forall>s. unat s < op_size p \<longrightarrow> rec_is_open (op_get p s)
        \<longrightarrow> (\<exists>b < length books. ob_instrument_id (books ! b) = rec_instrument_id (op_get p s)))"

definition store_inv :: "slot set \<Rightarrow> engine \<Rightarrow> bool" where
  "store_inv X e \<longleftrightarrow> books_indexed (eng_books e) (eng_instrument_index e)
    \<and> orders_indexed X (eng_pool e) (eng_order_index e) \<and> books_good (eng_pool e) (eng_books e)"

definition eng_inv :: "engine \<Rightarrow> bool" where
  "eng_inv e \<longleftrightarrow> eng_configured e \<and> store_inv {} e"

definition exchange_of :: "engine \<Rightarrow> exchange" where
  "exchange_of e =
    \<lparr>ex_books = map (book_view (eng_pool e)) (eng_books e), ex_used = dom (fm_lookup (eng_order_index e)),
     ex_next_trade_id = eng_next_trade_id e, ex_events = eng_events e\<rparr>"

lemma exchange_of_simps [simp]:
  "length (ex_books (exchange_of e)) = length (eng_books e)"
  "b < length (eng_books e) \<Longrightarrow> ex_books (exchange_of e) ! b = book_view (eng_pool e) (eng_books e ! b)"
  "ex_used (exchange_of e) = dom (fm_lookup (eng_order_index e))"
  "ex_next_trade_id (exchange_of e) = eng_next_trade_id e" "ex_events (exchange_of e) = eng_events e"
  by (simp_all add: exchange_of_def)

lemma book_view_sel [simp]:
  "ab_instrument (book_view p ob) = ob_instrument_id ob" "ab_band_lo (book_view p ob) = pl_band_lo (ob_ladder ob)"
  "ab_band_hi (book_view p ob) = pl_band_hi (ob_ladder ob)"
  by (simp_all add: book_view_def)

lemma emit_simps [simp]:
  "store_inv X (emit ev e) = store_inv X e" "eng_pool (emit ev e) = eng_pool e" "eng_books (emit ev e) = eng_books e"
  "eng_order_index (emit ev e) = eng_order_index e" "eng_configured (emit ev e) = eng_configured e"
  "eng_instrument_index (emit ev e) = eng_instrument_index e"
  "exchange_of (emit ev e) = ex_emit ev (exchange_of e)"
  by (simp_all add: emit_def store_inv_def exchange_of_def ex_emit_def)

lemma eng_inv_emit [simp]: "eng_inv (emit ev e) = eng_inv e"
  by (simp add: eng_inv_def)

section \<open>Finding books\<close>

lemma ucast_inj [simp]: "(ucast x :: 64 word) = ucast y \<longleftrightarrow> x = y" for x y :: "32 word"
proof
  assume "(ucast x :: 64 word) = ucast y"
  then have "(ucast (ucast x :: 64 word) :: 32 word) = ucast (ucast y :: 64 word)" by simp
  then show "x = y" by (simp add: ucast_up_ucast_id is_up)
qed simp

lemma instrument_unique:
  assumes "books_indexed books ii" "b < length books" "c < length books"
    "ob_instrument_id (books ! b) = ob_instrument_id (books ! c)"
  shows "b = c"
proof -
  have "fm_lookup ii (ucast (ob_instrument_id (books ! b))) = Some (word_of_nat b)"
    "fm_lookup ii (ucast (ob_instrument_id (books ! c))) = Some (word_of_nat c)" "length books < 2 ^ 32"
    using assms(1-3) by (simp_all add: books_indexed_def)
  then have "(word_of_nat b :: 32 word) = word_of_nat c" using assms(4) by simp
  then have "unat (word_of_nat b :: 32 word) = unat (word_of_nat c :: 32 word)" by simp
  with assms(2,3) \<open>length books < 2 ^ 32\<close> show ?thesis by (simp add: unat_word_of_nat)
qed

lemma book_index_Some: "book_index ex iid = Some b \<Longrightarrow> b < length (ex_books ex) \<and> ab_instrument (ex_books ex ! b) = iid"
  using nth_length_takeWhile [of "\<lambda>ab. ab_instrument ab \<noteq> iid" "ex_books ex"]
  by (auto simp: book_index_def Let_def split: if_splits)

lemma takeWhile_all: "\<not> length (takeWhile P xs) < length xs \<Longrightarrow> x \<in> set xs \<Longrightarrow> P x"
  by (induction xs) (auto split: if_splits)

lemma book_index_None: "book_index ex iid = None \<Longrightarrow> b < length (ex_books ex) \<Longrightarrow> ab_instrument (ex_books ex ! b) \<noteq> iid"
proof -
  assume "book_index ex iid = None" and b: "b < length (ex_books ex)"
  then have "\<not> length (takeWhile (\<lambda>ab. ab_instrument ab \<noteq> iid) (ex_books ex)) < length (ex_books ex)"
    by (simp add: book_index_def Let_def split: if_splits)
  from takeWhile_all [OF this nth_mem [OF b]] show ?thesis .
qed

lemma book_index_iff:
  assumes "store_inv X e"
  shows "book_index (exchange_of e) iid = Some b \<longleftrightarrow> b < length (eng_books e) \<and> ob_instrument_id (eng_books e ! b) = iid"
proof
  show "book_index (exchange_of e) iid = Some b \<Longrightarrow> b < length (eng_books e) \<and> ob_instrument_id (eng_books e ! b) = iid"
    using book_index_Some [of "exchange_of e" iid b] by auto
  assume b: "b < length (eng_books e) \<and> ob_instrument_id (eng_books e ! b) = iid"
  then obtain c where c: "book_index (exchange_of e) iid = Some c"
    using book_index_None [of "exchange_of e" iid b] by fastforce
  with book_index_Some [OF this] b assms have "c = b"
    by (intro instrument_unique [of "eng_books e" "eng_instrument_index e"]) (auto simp: store_inv_def)
  with c show "book_index (exchange_of e) iid = Some b" by simp
qed

lemma find_book_ok:
  assumes "store_inv X e"
  shows "find_book e iid = Some (book_index (exchange_of e) iid)"
proof -
  let ?ii = "eng_instrument_index e"
  have ii: "books_indexed (eng_books e) ?ii" using assms by (simp add: store_inv_def)
  then have "fm_find ?ii (ucast iid) = Some (fm_lookup ?ii (ucast iid))"
    by (intro hash_map.find) (simp add: books_indexed_def)
  moreover have "map_option unat (fm_lookup ?ii (ucast iid)) = book_index (exchange_of e) iid"
  proof (cases "fm_lookup ?ii (ucast iid)")
    case None
    then have "book_index (exchange_of e) iid \<noteq> Some b" for b
      using ii unfolding book_index_iff [OF assms] by (auto simp: books_indexed_def)
    then have "book_index (exchange_of e) iid = None" by (metis not_None_eq)
    with None show ?thesis by simp
  next
    case (Some w)
    with ii have "unat w < length (eng_books e)" "(ucast iid :: 64 word) = ucast (ob_instrument_id (eng_books e ! unat w))"
      by (auto simp: books_indexed_def)
    then have "book_index (exchange_of e) iid = Some (unat w)" by (simp add: book_index_iff [OF assms])
    with Some show ?thesis by simp
  qed
  ultimately show ?thesis by (simp add: find_book_def)
qed

section \<open>Finding open orders\<close>

lemma store_bookD:
  assumes "store_inv X e" "b < length (eng_books e)"
  obtains q where "book_ok (eng_pool e) (eng_books e ! b) q"
  using assms by (auto simp: store_inv_def books_good_def book_good_ex)

lemma in_all_orders:
  assumes inv: "store_inv X e"
  shows "(b, sd, x) \<in> set (all_orders (exchange_of e)) \<longleftrightarrow>
    (\<exists>s. b < length (eng_books e) \<and> unat s < op_size (eng_pool e) \<and> rec_is_open (rec_of e s)
      \<and> rec_instrument_id (rec_of e s) = ob_instrument_id (eng_books e ! b) \<and> rec_side (rec_of e s) = sd \<and> x = view_order (op_get (eng_pool e)) s)"
proof (cases "b < length (eng_books e)")
  case True
  let ?p = "eng_pool e" and ?ob = "eng_books e ! b"
  obtain q where ok: "book_ok ?p ?ob q" using store_bookD [OF inv True] .
  note bi = book_okD(1) [OF ok]
  have "(b, sd, x) \<in> set (all_orders (exchange_of e)) \<longleftrightarrow> x \<in> set (ab_orders (book_view ?p ?ob) sd)"
    using True by (cases sd) (auto simp: all_orders_def book_orders_def)
  also have "\<dots> \<longleftrightarrow> (\<exists>j s. s \<in> set (q sd j) \<and> x = view_order (op_get ?p) s)"
    using queue_place(3) [OF bi] by (auto simp: book_okD(4) [OF ok] side_view_def set_flat)
  also have "\<dots> \<longleftrightarrow> (\<exists>s. unat s < op_size ?p \<and> rec_is_open (op_get ?p s)
      \<and> rec_instrument_id (op_get ?p s) = ob_instrument_id ?ob \<and> rec_side (op_get ?p s) = sd \<and> x = view_order (op_get ?p) s)"
  proof
    assume "\<exists>j s. s \<in> set (q sd j) \<and> x = view_order (op_get ?p) s"
    then show "\<exists>s. unat s < op_size ?p \<and> rec_is_open (op_get ?p s)
      \<and> rec_instrument_id (op_get ?p s) = ob_instrument_id ?ob \<and> rec_side (op_get ?p s) = sd \<and> x = view_order (op_get ?p) s"
      using queue_place(1,4,5,6) [OF bi] by blast
  next
    assume "\<exists>s. unat s < op_size ?p \<and> rec_is_open (op_get ?p s)
      \<and> rec_instrument_id (op_get ?p s) = ob_instrument_id ?ob \<and> rec_side (op_get ?p s) = sd \<and> x = view_order (op_get ?p) s"
    then obtain s where s: "unat s < op_size ?p" "rec_is_open (op_get ?p s)" "rec_instrument_id (op_get ?p s) = ob_instrument_id ?ob"
      "rec_side (op_get ?p s) = sd" "x = view_order (op_get ?p) s" by blast
    from book_okD(3) [OF ok s(1-3)] obtain sd' j where "s \<in> set (q sd' j)" by blast
    with queue_place(1) [OF bi this] s show "\<exists>j s. s \<in> set (q sd j) \<and> x = view_order (op_get ?p) s" by blast
  qed
  finally show ?thesis using True by simp
next
  case False
  have "c = b \<Longrightarrow> c \<notin> set [0..<length (eng_books e)]" for c using False by simp
  then show ?thesis using False by (auto simp: all_orders_def book_orders_def)
qed

lemma find_unique:
  assumes "x \<in> set xs" "P x" "\<And>y. y \<in> set xs \<Longrightarrow> P y \<Longrightarrow> y = x"
  shows "find P xs = Some x"
proof (cases "find P xs")
  case None
  with assms(1,2) show ?thesis by (auto simp: find_None_iff)
next
  case (Some y)
  then have "P y \<and> y \<in> set xs" by (auto simp: find_Some_iff)
  with assms(3) Some show ?thesis by simp
qed

lemma find_order_None:
  assumes inv: "store_inv {} e" and none: "\<And>s. fm_lookup (eng_order_index e) i = Some s \<Longrightarrow> \<not> rec_is_open (rec_of e s)"
  shows "find_order (exchange_of e) i = None"
proof -
  have "\<not> (case y of (b, sd, x) \<Rightarrow> ao_id x = i)" if "y \<in> set (all_orders (exchange_of e))" for y
  proof -
    obtain b sd x where y: "y = (b, sd, x)" by (cases y)
    from that [unfolded y in_all_orders [OF inv]] obtain s where s: "unat s < op_size (eng_pool e)" "rec_is_open (rec_of e s)"
      "x = view_order (op_get (eng_pool e)) s" by blast
    with inv have "fm_lookup (eng_order_index e) (ao_id x) = Some s" by (simp add: store_inv_def orders_indexed_def)
    with none s(2) y show ?thesis by auto
  qed
  then show ?thesis unfolding find_order_def find_None_iff by blast
qed

lemma find_order_Some:
  assumes inv: "store_inv {} e" and s: "fm_lookup (eng_order_index e) i = Some s" "rec_is_open (rec_of e s)"
    and b: "b < length (eng_books e)" "ob_instrument_id (eng_books e ! b) = rec_instrument_id (rec_of e s)"
  shows "find_order (exchange_of e) i = Some (b, rec_side (rec_of e s), view_order (op_get (eng_pool e)) s)"
  unfolding find_order_def
proof (rule find_unique)
  have oi: "orders_indexed {} (eng_pool e) (eng_order_index e)" using inv by (simp add: store_inv_def)
  then have id: "unat s < op_size (eng_pool e)" "rec_id (rec_of e s) = i" using s(1) by (auto simp: orders_indexed_def)
  then show "(b, rec_side (rec_of e s), view_order (op_get (eng_pool e)) s) \<in> set (all_orders (exchange_of e))"
    using s(2) b by (auto simp: in_all_orders [OF inv])
  show "case (b, rec_side (rec_of e s), view_order (op_get (eng_pool e)) s) of (b, sd, x) \<Rightarrow> ao_id x = i" using id by simp
  fix y assume y: "y \<in> set (all_orders (exchange_of e))" "case y of (b, sd, x) \<Rightarrow> ao_id x = i"
  obtain c sd x where yy: "y = (c, sd, x)" by (cases y)
  from y(1) [unfolded yy in_all_orders [OF inv]] obtain t where t: "c < length (eng_books e)" "unat t < op_size (eng_pool e)"
    "rec_is_open (rec_of e t)" "rec_instrument_id (rec_of e t) = ob_instrument_id (eng_books e ! c)" "rec_side (rec_of e t) = sd"
    "x = view_order (op_get (eng_pool e)) t" by blast
  with oi y(2) yy have "fm_lookup (eng_order_index e) i = Some t" by (auto simp: orders_indexed_def)
  with s(1) have "t = s" by simp
  moreover have "c = b"
    using inv t(1,4) b \<open>t = s\<close> by (intro instrument_unique [of "eng_books e" "eng_instrument_index e"]) (simp_all add: store_inv_def)
  ultimately show "y = (b, rec_side (rec_of e s), view_order (op_get (eng_pool e)) s)" using yy t by simp
qed

end
