(* ===== verification/Engine_Steps.thy ===== *)
theory Engine_Steps
  imports Engine_Invariant
begin

text \<open>
  The building blocks of the handlers, each with its effect on the invariant and on the
  exchange: writing a record that is not open, taking a slot and an id, matching, resting,
  removing and replacing in one of the books.
\<close>

section \<open>Two ways the store changes\<close>

lemma exchange_eqI:
  "ex_books x = ex_books y \<Longrightarrow> ex_used x = ex_used y \<Longrightarrow> ex_next_trade_id x = ex_next_trade_id y
    \<Longrightarrow> ex_events x = ex_events y \<Longrightarrow> x = y" for x y :: exchange
  by (rule exchange.equality) simp_all

lemma ex_books_of: "ex_books (exchange_of e) = map (book_view (eng_pool e)) (eng_books e)"
  by (simp add: exchange_of_def)

text \<open>No open record changes, and none appears.\<close>

lemma pool_change:
  assumes inv: "store_inv X e" and same_books: "eng_books e' = eng_books e" "eng_instrument_index e' = eng_instrument_index e"
    and p': "pool_ok (eng_pool e')" "op_size (eng_pool e) \<le> op_size (eng_pool e')"
    and opened: "\<And>x. unat x < op_size (eng_pool e') \<Longrightarrow> rec_is_open (rec_of e' x) \<Longrightarrow> unat x < op_size (eng_pool e) \<and> rec_is_open (rec_of e x)"
    and same: "\<And>x. unat x < op_size (eng_pool e) \<Longrightarrow> rec_is_open (rec_of e x) \<Longrightarrow> rec_of e' x = rec_of e x"
    and oi: "orders_indexed X' (eng_pool e') (eng_order_index e')"
  shows "store_inv X' e'" "ex_books (exchange_of e') = ex_books (exchange_of e)"
proof -
  let ?p = "eng_pool e" and ?p' = "eng_pool e'"
  have B: "books_good ?p (eng_books e)" using inv by (simp add: store_inv_def)
  have each: "book_good ?p' ob \<and> book_view ?p' ob = book_view ?p ob" if "ob \<in> set (eng_books e)" for ob
  proof -
    obtain b where "b < length (eng_books e)" "ob = eng_books e ! b" using \<open>ob \<in> set (eng_books e)\<close> by (auto simp: in_set_conv_nth)
    with B obtain q where ok: "book_ok ?p ob q" unfolding books_good_def book_good_ex by blast
    note bi = book_okD(1) [OF ok]
    have old: "unat x < op_size ?p \<and> op_get ?p' x = op_get ?p x" if "unat x < op_size ?p'" "rec_is_open (op_get ?p' x)" for x
      using opened [OF that] same [of x] by simp
    have q: "op_get ?p' x = op_get ?p x" if "x \<in> set (q sd i)" for sd i x
      using queue_place(4,6) [OF bi that] by (intro same)
    have "book_ok ?p' ob q" "book_view ?p' ob = book_view ?p ob"
      by (rule book_ok_same [OF ok p']; use q old in blast)+
    then show ?thesis using book_goodI by blast
  qed
  have "\<exists>b < length (eng_books e). ob_instrument_id (eng_books e ! b) = rec_instrument_id (op_get ?p' s)"
    if "unat s < op_size ?p'" "rec_is_open (op_get ?p' s)" for s
    using opened [OF that] same [of s] B by (simp add: books_good_def)
  then have "books_good ?p' (eng_books e)" using p'(1) each by (simp add: books_good_def)
  then show "store_inv X' e'" using inv oi by (simp add: store_inv_def same_books)
  show "ex_books (exchange_of e') = ex_books (exchange_of e)" using each by (simp add: ex_books_of same_books)
qed

text \<open>One book and the records of its instrument change; the slots of \<open>T\<close> may be opened.\<close>

lemma book_change:
  assumes inv: "store_inv X e" and b: "b < length (eng_books e)"
    and e': "eng_books e' = (eng_books e)[b := ob']" "eng_instrument_index e' = eng_instrument_index e" "eng_order_index e' = eng_order_index e"
    and ok': "\<exists>q'. book_ok (eng_pool e') ob' q'"
    and inst: "ob_instrument_id ob' = ob_instrument_id (eng_books e ! b)"
    and touch: "only_touches T (ob_instrument_id (eng_books e ! b)) (eng_pool e) (eng_pool e')"
    and T: "\<And>t. t \<in> T \<Longrightarrow> fm_lookup (eng_order_index e) (rec_id (rec_of e t)) = Some t
      \<and> rec_instrument_id (rec_of e t) = ob_instrument_id (eng_books e ! b)"
    and X: "\<And>s. s \<in> X \<Longrightarrow> s \<notin> X' \<Longrightarrow> \<not> rec_is_open (rec_of e' s)"
  shows "store_inv X' e'" "ex_books (exchange_of e') = (ex_books (exchange_of e))[b := book_view (eng_pool e') ob']"
proof -
  let ?p = "eng_pool e" and ?p' = "eng_pool e'" and ?books = "eng_books e" and ?oi = "eng_order_index e"
  have B: "books_good ?p ?books" and I: "books_indexed ?books (eng_instrument_index e)" and O: "orders_indexed X ?p ?oi"
    using inv by (simp_all add: store_inv_def)
  obtain q' where q': "book_ok ?p' ob' q'" using ok' by blast
  have p': "pool_ok ?p'" by (rule book_invD(1) [OF book_okD(1) [OF q']])
  have size: "op_size ?p' = op_size ?p" by (rule only_touches_size [OF touch])
  have keep: "rec_instrument_id (op_get ?p' x) = rec_instrument_id (op_get ?p x)" "rec_id (op_get ?p' x) = rec_id (op_get ?p x)"
    "x \<notin> T \<Longrightarrow> rec_is_open (op_get ?p' x) \<Longrightarrow> rec_is_open (op_get ?p x)" if "unat x < op_size ?p" for x
    using touch that by (auto simp: only_touches_def)
  have ids: "ob_instrument_id (?books[b := ob'] ! c) = ob_instrument_id (?books ! c)" if "c < length ?books" for c
    using inst that b by (cases "c = b") simp_all
  have other: "book_good ?p' (?books ! c) \<and> book_view ?p' (?books ! c) = book_view ?p (?books ! c)" if c: "c < length ?books" "c \<noteq> b" for c
  proof -
    have ne: "ob_instrument_id (?books ! b) \<noteq> ob_instrument_id (?books ! c)"
      using instrument_unique [OF I b c(1)] c(2) by auto
    obtain q where "book_ok ?p (?books ! c) q" using B c(1) by (auto simp: books_good_def book_good_ex)
    from book_ok_other [OF this p' touch ne] show ?thesis using book_goodI by blast
  qed
  have "book_good ?p' (?books[b := ob'] ! c)" if "c < length ?books" for c
    using other [of c] that b book_goodI [OF q'] by (cases "c = b") simp_all
  moreover have "\<exists>c < length ?books. ob_instrument_id (?books[b := ob'] ! c) = rec_instrument_id (op_get ?p' s)"
    if "unat s < op_size ?p'" "rec_is_open (op_get ?p' s)" for s
  proof (cases "s \<in> T")
    case True
    with T [of s] b inst that show ?thesis by (intro exI [of _ b]) (simp add: size keep)
  next
    case False
    with that have "rec_is_open (op_get ?p s)" by (simp add: size keep)
    with B that(1) obtain c where "c < length ?books" "ob_instrument_id (?books ! c) = rec_instrument_id (op_get ?p s)"
      by (auto simp: size books_good_def)
    with ids that(1) show ?thesis by (intro exI [of _ c]) (simp add: size keep)
  qed
  ultimately have B': "books_good ?p' (eng_books e')" using p' by (simp add: books_good_def e')
  have I': "books_indexed (eng_books e') (eng_instrument_index e')"
    unfolding books_indexed_def e'
  proof (intro conjI allI impI)
    fix k w assume kw: "fm_lookup (eng_instrument_index e) k = Some w"
    then have "unat w < length ?books" "k = ucast (ob_instrument_id (?books ! unat w))" using I unfolding books_indexed_def by blast+
    then show "unat w < length (?books[b := ob'])" "k = ucast (ob_instrument_id (?books[b := ob'] ! unat w))" using ids by simp_all
  qed (use I ids in \<open>simp_all add: books_indexed_def\<close>)
  have O': "orders_indexed X' ?p' ?oi"
    unfolding orders_indexed_def
  proof (intro conjI allI impI)
    show "fm_ready ?oi" "fm_size ?oi \<le> op_size ?p'" using O by (simp_all add: orders_indexed_def size)
    fix i s assume "fm_lookup ?oi i = Some s"
    then have "unat s < op_size ?p" "rec_id (op_get ?p s) = i" using O by (auto simp: orders_indexed_def)
    then show "unat s < op_size ?p'" "rec_id (op_get ?p' s) = i" by (simp_all add: size keep)
  next
    fix s assume s: "unat s < op_size ?p'" "rec_is_open (op_get ?p' s)" "s \<notin> X'"
    then have "s \<notin> X" using X by auto
    show "fm_lookup ?oi (rec_id (op_get ?p' s)) = Some s"
    proof (cases "s \<in> T")
      case True
      with T s(1) show ?thesis by (simp add: size keep)
    next
      case False
      with s have "rec_is_open (op_get ?p s)" by (simp add: size keep)
      with O s(1) \<open>s \<notin> X\<close> show ?thesis by (simp add: orders_indexed_def size keep)
    qed
  qed
  show "store_inv X' e'" using B' I' O' by (simp add: store_inv_def e'(3))
  show "ex_books (exchange_of e') = (ex_books (exchange_of e))[b := book_view ?p' ob']"
  proof (rule nth_equalityI)
    fix c assume "c < length (ex_books (exchange_of e'))"
    then have c: "c < length ?books" by (simp add: e')
    with other [of c] b show "ex_books (exchange_of e') ! c = (ex_books (exchange_of e))[b := book_view ?p' ob'] ! c"
      by (cases "c = b") (simp_all add: ex_books_of e')
  qed (simp add: e')
qed

section \<open>A slot that is known but not open\<close>

definition slot_ready :: "engine \<Rightarrow> slot \<Rightarrow> instrument_id \<Rightarrow> order_id \<Rightarrow> bool" where
  "slot_ready e s iid i \<longleftrightarrow> unat s < op_size (eng_pool e) \<and> s \<noteq> kInvalidSlot \<and> \<not> rec_is_open (rec_of e s)
    \<and> rec_instrument_id (rec_of e s) = iid \<and> rec_id (rec_of e s) = i \<and> fm_lookup (eng_order_index e) i = Some s"

lemma upd_rec_simps [simp]:
  "eng_books (upd_rec s f e) = eng_books e" "eng_instrument_index (upd_rec s f e) = eng_instrument_index e"
  "eng_order_index (upd_rec s f e) = eng_order_index e" "eng_configured (upd_rec s f e) = eng_configured e"
  "eng_next_trade_id (upd_rec s f e) = eng_next_trade_id e" "eng_events (upd_rec s f e) = eng_events e"
  "eng_pool (upd_rec s f e) = op_upd (eng_pool e) s f"
  by (simp_all add: upd_rec_def)

lemma store_pool_ok: "store_inv X e \<Longrightarrow> pool_ok (eng_pool e)"
  by (simp add: store_inv_def books_good_def)

lemma upd_ready:
  assumes inv: "store_inv X e" and s: "slot_ready e s iid i"
    and f: "\<And>r. rec_is_open (f r) = rec_is_open r \<and> rec_id (f r) = rec_id r \<and> rec_instrument_id (f r) = rec_instrument_id r"
  shows "store_inv X (upd_rec s f e)" "exchange_of (upd_rec s f e) = exchange_of e" "slot_ready (upd_rec s f e) s iid i"
    "rec_of (upd_rec s f e) s = f (rec_of e s)"
proof -
  note p = store_pool_ok [OF inv]
  have g: "op_get (op_upd (eng_pool e) s f) = (op_get (eng_pool e))(s := f (rec_of e s))"
    using p s by (simp add: pool_upd slot_ready_def)
  then show "rec_of (upd_rec s f e) s = f (rec_of e s)" by simp
  have oi: "orders_indexed X (eng_pool (upd_rec s f e)) (eng_order_index (upd_rec s f e))"
    using inv f s by (auto simp: store_inv_def orders_indexed_def g pool_upd slot_ready_def)
  have P: "store_inv X (upd_rec s f e)" "ex_books (exchange_of (upd_rec s f e)) = ex_books (exchange_of e)"
    by (rule pool_change [OF inv _ _ _ _ _ _ oi]; use p s f in \<open>auto simp: g pool_upd slot_ready_def split: if_splits\<close>)+
  from P(1) show "store_inv X (upd_rec s f e)" .
  show "exchange_of (upd_rec s f e) = exchange_of e" by (rule exchange_eqI) (simp_all add: P(2))
  show "slot_ready (upd_rec s f e) s iid i" using s f by (simp add: slot_ready_def g pool_upd)
qed

lemma slot_ready_emit [simp]: "slot_ready (emit ev e) = slot_ready e"
  by (intro ext) (simp add: slot_ready_def)

end
