(* ===== verification/Engine_Handlers.thy ===== *)
theory Engine_Handlers
  imports Engine_Steps
begin

text \<open>
  The handlers of \<open>src/engine.cpp\<close> against the exchange. First the three operations on a book
  as seen from the engine, then what follows validation in \<open>submit\<close>, \<open>cancel\<close> and
  \<open>replace\<close>.
\<close>

section \<open>Book operations seen from the engine\<close>

text \<open>The instruments and ladders of the books, which no request changes.\<close>

definition layout :: "engine \<Rightarrow> (instrument_id \<times> price_ladder) list" where
  "layout e = map (\<lambda>ob. (ob_instrument_id ob, ob_ladder ob)) (eng_books e)"

abbreviation kept :: "engine \<Rightarrow> engine \<Rightarrow> bool" where
  "kept e e' \<equiv> eng_configured e' = eng_configured e \<and> op_size (eng_pool e') = op_size (eng_pool e) \<and> layout e' = layout e"

lemma layout_simps [simp]: "layout (emit ev e) = layout e" "layout (upd_rec s f e) = layout e"
  by (simp_all add: layout_def)

lemma layout_upd:
  "eng_books e' = (eng_books e)[b := ob'] \<Longrightarrow> ob_instrument_id ob' = ob_instrument_id (eng_books e ! b) \<Longrightarrow> ob_ladder ob' = ob_ladder (eng_books e ! b)
    \<Longrightarrow> layout e' = layout e"
  by (cases "b < length (eng_books e)") (simp_all add: layout_def map_update list_update_beyond, metis (no_types, lifting) list_update_id nth_map)

lemma layout_eqD:
  assumes "layout e' = layout e"
  shows "length (eng_books e') = length (eng_books e)"
    "b < length (eng_books e) \<Longrightarrow> ob_instrument_id (eng_books e' ! b) = ob_instrument_id (eng_books e ! b)"
    "b < length (eng_books e) \<Longrightarrow> ob_ladder (eng_books e' ! b) = ob_ladder (eng_books e ! b)"
proof -
  show len: "length (eng_books e') = length (eng_books e)" using arg_cong [OF assms, of length] by (simp add: layout_def)
  show "b < length (eng_books e) \<Longrightarrow> ob_instrument_id (eng_books e' ! b) = ob_instrument_id (eng_books e ! b)"
    "b < length (eng_books e) \<Longrightarrow> ob_ladder (eng_books e' ! b) = ob_ladder (eng_books e ! b)"
    using arg_cong [OF assms, of "\<lambda>bs. bs ! b"] len by (simp_all add: layout_def)
qed

lemma with_book_sel:
  assumes "f (eng_pool e) (eng_books e ! b) = (p', ob')" "e' = with_book f b e"
  shows "eng_pool e' = p'" "eng_books e' = (eng_books e)[b := ob']" "eng_order_index e' = eng_order_index e"
    "eng_instrument_index e' = eng_instrument_index e" "eng_configured e' = eng_configured e"
    "eng_next_trade_id e' = eng_next_trade_id e" "eng_events e' = eng_events e"
  using assms by (simp_all add: with_book_def)

lemma exchange_of_upd_book:
  assumes "ex_books (exchange_of e') = (ex_books (exchange_of e))[b := f (ex_books (exchange_of e) ! b)]"
    "eng_order_index e' = eng_order_index e" "eng_next_trade_id e' = eng_next_trade_id e" "eng_events e' = eng_events e"
  shows "exchange_of e' = upd_book b f (exchange_of e)"
  by (rule exchange_eqI) (simp_all add: assms)

text \<open>A slot that is not open keeps its state when other slots of the book change.\<close>

lemma slot_ready_touch:
  assumes "slot_ready e s iid i" "only_touches T iid' (eng_pool e) (eng_pool e')" "s \<notin> T"
    "eng_order_index e' = eng_order_index e"
  shows "slot_ready e' s iid i"
  using assms by (auto simp: slot_ready_def only_touches_def)

lemma slot_ready_spared:
  assumes "slot_ready e s iid i" "spares T (eng_pool e) (eng_pool e')" "s \<notin> T"
    "op_size (eng_pool e) \<le> op_size (eng_pool e')" "fm_lookup (eng_order_index e') i = fm_lookup (eng_order_index e) i"
  shows "slot_ready e' s iid i" "rec_of e' s = rec_of e s"
  using assms sparesD [OF assms(2,3)] by (auto simp: slot_ready_def)

text \<open>What a request leaves alone: the layout, and the orders that are known but not open.\<close>

definition steady :: "engine \<Rightarrow> engine \<Rightarrow> bool" where
  "steady e e' \<longleftrightarrow> layout e' = layout e \<and> op_size (eng_pool e) \<le> op_size (eng_pool e')
    \<and> (\<forall>s iid i. slot_ready e s iid i \<longrightarrow> slot_ready e' s iid i \<and> rec_of e' s = rec_of e s)"

lemma steady_refl [simp]: "steady e e" "steady e (emit ev e') = steady e e'" "steady (emit ev e) e' = steady e e'"
  by (simp_all add: steady_def)

lemma steady_trans: "steady e1 e2 \<Longrightarrow> steady e2 e3 \<Longrightarrow> steady e1 e3"
  unfolding steady_def by auto metis+

lemma steadyD:
  assumes "steady e e'"
  shows "layout e' = layout e" "op_size (eng_pool e) \<le> op_size (eng_pool e')"
    "slot_ready e s iid i \<Longrightarrow> slot_ready e' s iid i" "slot_ready e s iid i \<Longrightarrow> rec_of e' s = rec_of e s"
  using assms by (simp_all add: steady_def)

text \<open>Only new slots are written, and the id they are given was not that of a known order.\<close>

lemma steady_new:
  assumes layout: "layout e' = layout e" and size: "op_size (eng_pool e) \<le> op_size (eng_pool e')"
    and old: "\<And>x. unat x < op_size (eng_pool e) \<Longrightarrow> \<not> rec_is_open (rec_of e x) \<Longrightarrow> rec_of e' x = rec_of e x"
    and index: "\<And>i x. fm_lookup (eng_order_index e) i = Some x \<Longrightarrow> \<not> rec_is_open (rec_of e x) \<Longrightarrow> fm_lookup (eng_order_index e') i = Some x"
  shows "steady e e'"
  using assms by (simp add: steady_def slot_ready_def)

lemma steady_kept: "kept e e' \<Longrightarrow> spares {} (eng_pool e) (eng_pool e') \<Longrightarrow> eng_order_index e' = eng_order_index e \<Longrightarrow> steady e e'"
  by (rule steady_new) (simp_all add: spares_def)

text \<open>After a new slot \<open>t\<close> has been taken, that slot may change too.\<close>

lemma steady_spares:
  assumes "steady e e1" "op_size (eng_pool e) \<le> unat t" "kept e1 e2" "spares {t} (eng_pool e1) (eng_pool e2)" "eng_order_index e2 = eng_order_index e1"
  shows "steady e e2"
  unfolding steady_def
proof (intro conjI allI impI)
  fix s iid i assume s: "slot_ready e s iid i"
  then have "s \<noteq> t" using assms(2) by (auto simp: slot_ready_def)
  with slot_ready_spared [OF steadyD(3) [OF assms(1) s] assms(4)] steadyD(4) [OF assms(1) s] assms(3,5)
  show "slot_ready e2 s iid i" "rec_of e2 s = rec_of e s" by simp_all
qed (use steadyD(1,2) [OF assms(1)] assms(3) in simp_all)

lemma rest_ok:
  assumes inv: "store_inv X e" and s: "slot_ready e s iid i" and b: "b < length (eng_books e)" "ob_instrument_id (eng_books e ! b) = iid"
    and X: "X = {}" and price: "in_band (ob_ladder (eng_books e ! b)) price" and qty: "rec_open_qty (rec_of e s) \<noteq> 0"
    and e': "e' = with_book (\<lambda>p ob. add_resting p ob s sd price) b e"
  shows "store_inv {} e'" "exchange_of e' = ex_rest b sd \<lparr>ao_id = i, ao_price = price,
      ao_open = rec_open_qty (rec_of e s), ao_filled = rec_filled_qty (rec_of e s)\<rparr> (exchange_of e)"
    "kept e e'" "spares {s} (eng_pool e) (eng_pool e')" "eng_order_index e' = eng_order_index e"
proof -
  obtain q where ok: "book_ok (eng_pool e) (eng_books e ! b) q" using store_bookD [OF inv b(1)] .
  obtain p' ob' where res: "add_resting (eng_pool e) (eng_books e ! b) s sd price = (p', ob')" by (rule prod.exhaust)
  have s': "unat s < op_size (eng_pool e)" "s \<noteq> kInvalidSlot" "\<not> rec_is_open (rec_of e s)"
    "rec_instrument_id (rec_of e s) = ob_instrument_id (eng_books e ! b)" using s b(2) by (simp_all add: slot_ready_def)
  note R = add_resting_refines [OF ok s' qty price res]
  note sel = with_book_sel [of "\<lambda>p ob. add_resting p ob s sd price", OF res e']
  have T: "fm_lookup (eng_order_index e) (rec_id (rec_of e t)) = Some t \<and> rec_instrument_id (rec_of e t) = ob_instrument_id (eng_books e ! b)"
    if "t \<in> {s}" for t using that s b(2) by (simp add: slot_ready_def)
  have ok': "\<exists>q'. book_ok (eng_pool e') ob' q'" using R(1) by (simp add: sel)
  have touch: "only_touches {s} (ob_instrument_id (eng_books e ! b)) (eng_pool e) (eng_pool e')" using R(3) by (simp add: sel)
  have none: "\<not> rec_is_open (rec_of e' x)" if "x \<in> X" "x \<notin> {}" for x using that X by simp
  note C = book_change [OF inv b(1) sel(2) sel(4) sel(3) ok' R(4) touch T none]
  from C(1) show "store_inv {} e'" .
  show "exchange_of e' = ex_rest b sd \<lparr>ao_id = i, ao_price = price,
      ao_open = rec_open_qty (rec_of e s), ao_filled = rec_filled_qty (rec_of e s)\<rparr> (exchange_of e)"
    unfolding ex_rest_def
    by (rule exchange_of_upd_book) (use C(2) R(2) b(1) s in \<open>simp_all add: sel slot_ready_def\<close>)
  show "kept e e'" using sel(5) only_touches_size [OF touch] layout_upd [OF sel(2) R(4,5)] by simp
  show "spares {s} (eng_pool e) (eng_pool e')" "eng_order_index e' = eng_order_index e" using R(6) by (simp_all add: sel)
qed

text \<open>The open order that leaves the book: the only one with its id.\<close>

definition leaving :: "slot set \<Rightarrow> engine \<Rightarrow> nat \<Rightarrow> slot \<Rightarrow> bool" where
  "leaving X e b s \<longleftrightarrow> X \<subseteq> {s} \<and> unat s < op_size (eng_pool e) \<and> rec_is_open (rec_of e s)
    \<and> b < length (eng_books e) \<and> ob_instrument_id (eng_books e ! b) = rec_instrument_id (rec_of e s)
    \<and> (\<forall>t. fm_lookup (eng_order_index e) (rec_id (rec_of e s)) = Some t \<longrightarrow> t = s \<or> \<not> rec_is_open (rec_of e t))"

lemma leaving_unique:
  assumes inv: "store_inv X e" and s: "leaving X e b s" and t: "unat t < op_size (eng_pool e)" "rec_is_open (rec_of e t)"
    "rec_id (rec_of e t) = rec_id (rec_of e s)"
  shows "t = s"
proof (cases "t \<in> X")
  case True
  with s show ?thesis unfolding leaving_def by blast
next
  case False
  with inv t(1,2) have "fm_lookup (eng_order_index e) (rec_id (rec_of e t)) = Some t"
    unfolding store_inv_def orders_indexed_def by blast
  with s t(2) show ?thesis unfolding t(3) leaving_def by blast
qed

lemma remove_ok:
  assumes inv: "store_inv X e" and s: "leaving X e b s"
    and e': "e' = with_book (\<lambda>p ob. remove_resting p ob s) b e"
  shows "store_inv {} e'" "exchange_of e' = ex_remove b (rec_side (rec_of e s)) (rec_id (rec_of e s)) (exchange_of e)"
    "kept e e'" "slot_ready e t iid i \<Longrightarrow> slot_ready e' t iid i \<and> rec_of e' t = rec_of e t"
    "ob_ladder (eng_books e' ! b) = ob_ladder (eng_books e ! b)" "ob_instrument_id (eng_books e' ! b) = ob_instrument_id (eng_books e ! b)"
    "length (eng_books e') = length (eng_books e)" "spares {} (eng_pool e) (eng_pool e')" "eng_order_index e' = eng_order_index e"
    "rec_open_qty (rec_of e' x) = rec_open_qty (rec_of e x)"
proof -
  have s': "unat s < op_size (eng_pool e)" "rec_is_open (rec_of e s)" "rec_instrument_id (rec_of e s) = ob_instrument_id (eng_books e ! b)"
    and b: "b < length (eng_books e)" using s by (simp_all add: leaving_def)
  obtain q where ok: "book_ok (eng_pool e) (eng_books e ! b) q" using store_bookD [OF inv b] .
  obtain p' ob' where res: "remove_resting (eng_pool e) (eng_books e ! b) s = (p', ob')" by (rule prod.exhaust)
  have uniq: "\<forall>sd i. \<forall>t \<in> set (q sd i). rec_id (rec_of e t) = rec_id (rec_of e s) \<longrightarrow> t = s"
    using leaving_unique [OF inv s] queue_place(4,6) [OF book_okD(1) [OF ok]] by blast
  note R = remove_resting_refines [OF ok s' uniq res refl]
  note sel = with_book_sel [of "\<lambda>p ob. remove_resting p ob s", OF res e']
  have ok': "\<exists>q'. book_ok (eng_pool e') ob' q'" using R(1) by (simp add: sel)
  have touch: "only_touches {} (ob_instrument_id (eng_books e ! b)) (eng_pool e) (eng_pool e')" using R(3) by (simp add: sel)
  have X: "\<not> rec_is_open (rec_of e' x)" if "x \<in> X" "x \<notin> {}" for x
    using that s R(6) unfolding leaving_def sel(1) by blast
  note C = book_change [OF inv b sel(2) sel(4) sel(3) ok' R(4) touch _ X]
  show "store_inv {} e'" using C(1) by blast
  have "ex_books (exchange_of e') = (ex_books (exchange_of e))[b := book_view p' ob']" using C(2) by (simp add: sel)
  then show "exchange_of e' = ex_remove b (rec_side (rec_of e s)) (rec_id (rec_of e s)) (exchange_of e)"
    unfolding ex_remove_def
    by (intro exchange_of_upd_book) (use R(2) b in \<open>simp_all add: sel\<close>)
  show "kept e e'" using sel(5) only_touches_size [OF touch] layout_upd [OF sel(2) R(4,5)] by simp
  show spared: "spares {} (eng_pool e) (eng_pool e')" "eng_order_index e' = eng_order_index e" using R(8) by (simp_all add: sel)
  show "rec_open_qty (rec_of e' x) = rec_open_qty (rec_of e x)" using R(9) by (simp add: sel)
  show "slot_ready e' t iid i \<and> rec_of e' t = rec_of e t" if t: "slot_ready e t iid i"
    using slot_ready_spared [OF t spared(1)] only_touches_size [OF touch] by (simp add: spared(2))
  show "ob_ladder (eng_books e' ! b) = ob_ladder (eng_books e ! b)" "ob_instrument_id (eng_books e' ! b) = ob_instrument_id (eng_books e ! b)"
    "length (eng_books e') = length (eng_books e)" using R(4,5) b by (simp_all add: sel)
qed

lemma substitute_ok:
  assumes inv: "store_inv X e" and s: "leaving X e b s"
    and t: "slot_ready e t (rec_instrument_id (rec_of e s)) j" "rec_open_qty (rec_of e t) \<noteq> 0"
    and e': "e' = with_book (\<lambda>p ob. replace_in_place p ob s t) b e"
  shows "store_inv {} e'" "exchange_of e' = upd_book b (\<lambda>ab. set_orders (rec_side (rec_of e s)) (substitute_order (rec_id (rec_of e s))
      \<lparr>ao_id = j, ao_price = rec_price (rec_of e s), ao_open = rec_open_qty (rec_of e t), ao_filled = rec_filled_qty (rec_of e t)\<rparr>
      (ab_orders ab (rec_side (rec_of e s)))) ab) (exchange_of e)" "kept e e'"
    "spares {t} (eng_pool e) (eng_pool e')" "eng_order_index e' = eng_order_index e"
proof -
  have s': "unat s < op_size (eng_pool e)" "rec_is_open (rec_of e s)" "rec_instrument_id (rec_of e s) = ob_instrument_id (eng_books e ! b)"
    and b: "b < length (eng_books e)" using s by (simp_all add: leaving_def)
  have t': "unat t < op_size (eng_pool e)" "t \<noteq> kInvalidSlot" "\<not> rec_is_open (rec_of e t)"
    "rec_instrument_id (rec_of e t) = ob_instrument_id (eng_books e ! b)" "rec_id (rec_of e t) = j"
    using t(1) s'(3) by (simp_all add: slot_ready_def)
  obtain q where ok: "book_ok (eng_pool e) (eng_books e ! b) q" using store_bookD [OF inv b] .
  obtain p' ob' where res: "replace_in_place (eng_pool e) (eng_books e ! b) s t = (p', ob')" by (rule prod.exhaust)
  have uniq: "\<forall>sd i. \<forall>t \<in> set (q sd i). rec_id (rec_of e t) = rec_id (rec_of e s) \<longrightarrow> t = s"
    using leaving_unique [OF inv s] queue_place(4,6) [OF book_okD(1) [OF ok]] by blast
  note R = replace_in_place_refines [OF ok s' uniq t'(1-4) t(2) res refl]
  note sel = with_book_sel [of "\<lambda>p ob. replace_in_place p ob s t", OF res e']
  have ok': "\<exists>q'. book_ok (eng_pool e') ob' q'" using R(1) by (simp add: sel)
  have touch: "only_touches {t} (ob_instrument_id (eng_books e ! b)) (eng_pool e) (eng_pool e')" using R(3) by (simp add: sel)
  have X: "\<not> rec_is_open (rec_of e' x)" if "x \<in> X" "x \<notin> {}" for x
    using that s R(6) unfolding leaving_def sel(1) by blast
  have T: "fm_lookup (eng_order_index e) (rec_id (rec_of e x)) = Some x \<and> rec_instrument_id (rec_of e x) = ob_instrument_id (eng_books e ! b)"
    if "x \<in> {t}" for x using that t(1) t' by (simp add: slot_ready_def)
  note C = book_change [OF inv b sel(2) sel(4) sel(3) ok' R(4) touch T X]
  from C(1) show "store_inv {} e'" .
  show "exchange_of e' = upd_book b (\<lambda>ab. set_orders (rec_side (rec_of e s)) (substitute_order (rec_id (rec_of e s))
      \<lparr>ao_id = j, ao_price = rec_price (rec_of e s), ao_open = rec_open_qty (rec_of e t), ao_filled = rec_filled_qty (rec_of e t)\<rparr>
      (ab_orders ab (rec_side (rec_of e s)))) ab) (exchange_of e)"
    by (rule exchange_of_upd_book) (use C(2) R(2) b t'(5) in \<open>simp_all add: sel\<close>)
  show "kept e e'" using sel(5) only_touches_size [OF touch] layout_upd [OF sel(2) R(4,5)] by simp
  show "spares {t} (eng_pool e) (eng_pool e')" "eng_order_index e' = eng_order_index e" using R(7) by (simp_all add: sel)
qed

section \<open>Matching seen from the engine\<close>

lemma ex_match_frame:
  assumes "ex_match b i sd is_market limit_price n ex = (n', ex')"
  shows "length (ex_books ex') = length (ex_books ex)" "ex_used ex' = ex_used ex"
    "ab_instrument (ex_books ex' ! c) = ab_instrument (ex_books ex ! c)"
    "ab_band_lo (ex_books ex' ! c) = ab_band_lo (ex_books ex ! c)" "ab_band_hi (ex_books ex' ! c) = ab_band_hi (ex_books ex ! c)"
    "n' \<le> n"
proof -
  obtain os tid evs where T: "take_liquidity (ab_instrument (ex_books ex ! b)) i sd (acceptable sd is_market limit_price)
      (ex_next_trade_id ex) n (ab_orders (ex_books ex ! b) (opposite sd)) = (n', os, tid, evs)"
    and ex': "ex' = (upd_book b (set_orders (opposite sd) os) ex)\<lparr>ex_next_trade_id := tid, ex_events := ex_events ex @ evs\<rparr>"
    using assms by (auto simp: ex_match_def Let_def split: prod.splits)
  show "length (ex_books ex') = length (ex_books ex)" "ex_used ex' = ex_used ex" by (simp_all add: ex')
  show "n' \<le> n" using take_liquidity_remaining [OF T] by (simp add: word_le_nat_alt)
  have "ex_books ex' ! c = (if c = b \<and> b < length (ex_books ex) then set_orders (opposite sd) os (ex_books ex ! b) else ex_books ex ! c)"
    by (cases "b < length (ex_books ex)") (simp_all add: ex' nth_list_update list_update_beyond)
  then show "ab_instrument (ex_books ex' ! c) = ab_instrument (ex_books ex ! c)"
    "ab_band_lo (ex_books ex' ! c) = ab_band_lo (ex_books ex ! c)" "ab_band_hi (ex_books ex' ! c) = ab_band_hi (ex_books ex ! c)"
    by (simp_all add: set_orders_def)
qed

lemma match_ok:
  assumes inv: "store_inv {} e" and s: "slot_ready e s iid i" and b: "b < length (eng_books e)" "ob_instrument_id (eng_books e ! b) = iid"
    and m: "ex_match b i sd is_market limit_price (rec_open_qty (rec_of e s)) (exchange_of e) = (n', ex')"
  shows "\<exists>e'. match_in_engine e b iid s sd limit_price is_market = Some e' \<and> store_inv {} e' \<and> exchange_of e' = ex'
    \<and> slot_ready e' s iid i \<and> rec_of e' s = traded (rec_open_qty (rec_of e s) - n') (rec_of e s)
    \<and> kept e e' \<and> ob_ladder (eng_books e' ! b) = ob_ladder (eng_books e ! b)
    \<and> spares {s} (eng_pool e) (eng_pool e') \<and> eng_order_index e' = eng_order_index e"
proof -
  let ?p = "eng_pool e" and ?ob = "eng_books e ! b"
  obtain q where ok: "book_ok ?p ?ob q" using store_bookD [OF inv b(1)] .
  let ?n = "ladder_size (ob_ladder ?ob)"
  have id: "rec_id (op_get ?p s) = i" and agg: "aggressor_ok ?p ?ob s" using s b(2) by (simp_all add: slot_ready_def aggressor_ok_def)
  have view: "ab_orders (book_view ?p ?ob) sd' = side_view (op_get ?p) q sd' ?n" for sd' by (simp add: book_okD(4) [OF ok])
  obtain os tid tr where T: "take_liquidity iid i sd (acceptable sd is_market limit_price) (eng_next_trade_id e)
      (rec_open_qty (op_get ?p s)) (side_view (op_get ?p) q (opposite sd) ?n) = (n', os, tid, tr)"
    and ex': "ex' = (upd_book b (set_orders (opposite sd) os) (exchange_of e))\<lparr>ex_next_trade_id := tid, ex_events := eng_events e @ tr\<rparr>"
    using m b by (auto simp: ex_match_def Let_def view split: prod.splits)
  obtain p' ob' q' where R: "run_matching iid s sd limit_price is_market (mstate ?p ?ob (eng_next_trade_id e) (eng_events e))
      = Some (mstate p' ob' tid (eng_events e @ tr))" "book_ok p' ob' q'"
      "side_view (op_get p') q' (opposite sd) ?n = os" "side_view (op_get p') q' sd ?n = side_view (op_get ?p) q sd ?n"
      "op_get p' s = traded (rec_open_qty (op_get ?p s) - n') (op_get ?p s)"
      "ob_ladder ob' = ob_ladder ?ob" "ob_instrument_id ob' = ob_instrument_id ?ob" "only_touches {} (ob_instrument_id ?ob) ?p p'"
      "spares {s} ?p p'"
    using run_matching_ok [OF ok agg T [folded id]] by blast
  define e' where "e' = e\<lparr>eng_pool := p', eng_books := (eng_books e)[b := ob'], eng_next_trade_id := tid, eng_events := eng_events e @ tr\<rparr>"
  have sel: "eng_pool e' = p'" "eng_books e' = (eng_books e)[b := ob']" "eng_order_index e' = eng_order_index e"
    "eng_instrument_index e' = eng_instrument_index e" "eng_configured e' = eng_configured e" by (simp_all add: e'_def)
  have ok': "\<exists>q'. book_ok (eng_pool e') ob' q'" using R(2) by (auto simp: sel)
  have touch: "only_touches {} (ob_instrument_id ?ob) ?p (eng_pool e')" using R(8) by (simp add: sel)
  have none: "\<not> rec_is_open (rec_of e' x)" if "x \<in> {}" "x \<notin> {}" for x using that by simp
  note C = book_change [OF inv b(1) sel(2) sel(4) sel(3) ok' R(7) touch _ none]
  have view': "book_view p' ob' = set_orders (opposite sd) os (book_view ?p ?ob)"
  proof (rule book_view_eq [OF ok R(2) R(6,7), where f = "\<lambda>_. os"])
    show "side_view (op_get p') q' sd' ?n = side_view (op_get ?p) q sd' ?n" if "sd' \<noteq> opposite sd" for sd'
      using that R(4) by (cases sd; cases sd') simp_all
  qed (rule R(3))
  have "ex_books (exchange_of e') = (ex_books (exchange_of e))[b := book_view p' ob']" using C(2) by (simp add: sel)
  then have "exchange_of e' = ex'"
    by (intro exchange_eqI) (simp_all add: ex' view' b(1), simp_all add: e'_def)
  moreover have "store_inv {} e'" using C(1) by blast
  moreover have "slot_ready e' s iid i" using slot_ready_touch [OF s touch _ sel(3)] by simp
  moreover have "match_in_engine e b iid s sd limit_price is_market = Some e'" by (simp add: match_in_engine_def R(1) e'_def)
  moreover have "kept e e'" using only_touches_size [OF touch] layout_upd [OF sel(2) R(7,6)] by (simp add: sel)
  ultimately show ?thesis using R(5,6,9) b(1) by (auto simp: sel)
qed

section \<open>Submit after validation\<close>

text \<open>
  What the fill-or-kill check promises: it admits only what can be filled, and it refuses
  nothing else while the opposite side holds less than \<open>2^32\<close> lots.
\<close>

definition verdict_ok :: "bool \<Rightarrow> exchange \<Rightarrow> nat \<Rightarrow> side \<Rightarrow> bool \<Rightarrow> price \<Rightarrow> quantity \<Rightarrow> bool" where
  "verdict_ok v ex b sd is_market limit_price n \<longleftrightarrow> (v \<longrightarrow> fillable ex b sd is_market limit_price n)
    \<and> (volume (ab_orders (ex_books ex ! b) (opposite sd)) < 2 ^ 32 \<longrightarrow> v = fillable ex b sd is_market limit_price n)"

lemma verdict_exact: "verdict_ok (fillable ex b sd m l n) ex b sd m l n"
  by (simp add: verdict_ok_def)

lemma fillable_emit [simp]:
  "fillable (ex_emit ev ex) = fillable ex" "verdict_ok v (ex_emit ev ex) = verdict_ok v ex"
  by (auto simp: fillable_def verdict_ok_def fun_eq_iff)

lemma check_ok:
  assumes inv: "store_inv X e" and b: "b < length (eng_books e)" and n: "n \<noteq> 0"
  shows "\<exists>v. can_fully_fill (eng_books e ! b) sd is_market limit_price n = Some v
    \<and> verdict_ok v (exchange_of e) b sd is_market limit_price n"
proof -
  obtain q where ok: "book_ok (eng_pool e) (eng_books e ! b) q" using store_bookD [OF inv b] .
  show ?thesis using can_fully_fill_ok [OF book_okD(1) [OF ok] n, of sd is_market limit_price] b
    by (simp add: verdict_ok_def fillable_def book_okD(4) [OF ok])
qed

lemma close_ok:
  assumes inv: "store_inv {} e" and s: "slot_ready e s iid i"
  shows "store_inv {} (upd_rec s (\<lambda>r. r\<lparr>rec_open_qty := 0\<rparr>) e)" "exchange_of (upd_rec s (\<lambda>r. r\<lparr>rec_open_qty := 0\<rparr>) e) = exchange_of e"
    "kept e (upd_rec s (\<lambda>r. r\<lparr>rec_open_qty := 0\<rparr>) e)"
  by (rule upd_ready [OF inv s]; simp)+ (simp add: pool_upd store_pool_ok [OF inv])

lemma spares_upd:
  assumes "store_inv X e" "slot_ready e s iid i"
  shows "spares {s} (eng_pool e) (op_upd (eng_pool e) s f)"
  using store_pool_ok [OF assms(1)] assms(2) by (simp add: spares_def pool_upd slot_ready_def)

text \<open>The handler after \<open>on_accepted\<close>.\<close>

definition after_accept :: "new_order \<Rightarrow> nat \<Rightarrow> slot \<Rightarrow> bool \<Rightarrow> price \<Rightarrow> engine \<Rightarrow> engine option" where
  "after_accept order b slot is_market price e =
      do {
       fillable \<leftarrow> (if no_tif order = kFok
                   then can_fully_fill (eng_books e ! b) (no_side order) is_market price (no_quantity order)
                   else Some True);
       if \<not> fillable
       then Some (emit (On_canceled (no_order_id order) (no_quantity order) kFokUnfillable)
                   (upd_rec slot (\<lambda>r. r\<lparr>rec_open_qty := 0\<rparr>) e))
       else do {
         e \<leftarrow> match_in_engine e b (no_instrument_id order) slot (no_side order) price is_market;
         if 0 < rec_open_qty (rec_of e slot)
         then if no_tif order = kDay
              then Some (with_book (\<lambda>p ob. add_resting p ob slot (no_side order) price) b e)
              else Some (emit (On_canceled (no_order_id order) (rec_open_qty (rec_of e slot))
                                (if is_market then kNoLiquidity
                                 else if no_tif order = kIoc then kIocRemainder else kFokUnfillable))
                             (upd_rec slot (\<lambda>r. r\<lparr>rec_open_qty := 0\<rparr>) e))
         else Some e } }"

lemma submit_accepted_after:
  "submit_accepted e order b slot is_market price = after_accept order b slot is_market price
    (emit (On_accepted (no_order_id order)) (upd_rec slot (\<lambda>r. r\<lparr>rec_open_qty := no_quantity order, rec_filled_qty := 0\<rparr>) e))"
  unfolding submit_accepted_def after_accept_def Let_def ..

text \<open>The three parts of what follows: the fill-or-kill check, its refusal, and the end of a match.\<close>

definition fok_check :: "new_order \<Rightarrow> nat \<Rightarrow> bool \<Rightarrow> price \<Rightarrow> engine \<Rightarrow> bool option" where
  "fok_check order b is_market price e = (if no_tif order = kFok
     then can_fully_fill (eng_books e ! b) (no_side order) is_market price (no_quantity order) else Some True)"

definition killed :: "new_order \<Rightarrow> slot \<Rightarrow> engine \<Rightarrow> engine" where
  "killed order s e = emit (On_canceled (no_order_id order) (no_quantity order) kFokUnfillable)
     (upd_rec s (\<lambda>r. r\<lparr>rec_open_qty := 0\<rparr>) e)"

definition leftover_reason :: "new_order \<Rightarrow> bool \<Rightarrow> cancel_reason" where
  "leftover_reason order is_market = (if is_market then kNoLiquidity else if no_tif order = kIoc then kIocRemainder else kFokUnfillable)"

definition settle_order :: "new_order \<Rightarrow> nat \<Rightarrow> slot \<Rightarrow> bool \<Rightarrow> price \<Rightarrow> engine \<Rightarrow> engine" where
  "settle_order order b s is_market price e = (if 0 < rec_open_qty (rec_of e s)
     then if no_tif order = kDay
          then with_book (\<lambda>p ob. add_resting p ob s (no_side order) price) b e
          else emit (On_canceled (no_order_id order) (rec_open_qty (rec_of e s)) (leftover_reason order is_market))
                 (upd_rec s (\<lambda>r. r\<lparr>rec_open_qty := 0\<rparr>) e)
     else e)"

lemma after_accept_steps:
  "after_accept order b s is_market price e = fok_check order b is_market price e \<bind> (\<lambda>fillable.
     if \<not> fillable then Some (killed order s e)
     else match_in_engine e b (no_instrument_id order) s (no_side order) price is_market
       \<bind> (\<lambda>e. Some (settle_order order b s is_market price e)))"
  unfolding after_accept_def fok_check_def killed_def settle_order_def leftover_reason_def if_distrib [where f = Some] ..

definition ex_settle :: "new_order \<Rightarrow> nat \<Rightarrow> bool \<Rightarrow> price \<Rightarrow> quantity \<Rightarrow> quantity \<Rightarrow> exchange \<Rightarrow> exchange" where
  "ex_settle order b is_market price n filled ex = (if n = 0 then ex
     else if no_tif order = kDay
     then ex_rest b (no_side order) \<lparr>ao_id = no_order_id order, ao_price = price, ao_open = n, ao_filled = filled\<rparr> ex
     else ex_emit (On_canceled (no_order_id order) n (leftover_reason order is_market)) ex)"

lemma settle_order_ok:
  assumes inv: "store_inv {} e" and s: "slot_ready e s (no_instrument_id order) (no_order_id order)"
    and b: "b < length (eng_books e)" "ob_instrument_id (eng_books e ! b) = no_instrument_id order"
    and price: "no_tif order = kDay \<longrightarrow> in_band (ob_ladder (eng_books e ! b)) price"
    and e': "e' = settle_order order b s is_market price e"
  shows "store_inv {} e' \<and> kept e e' \<and> spares {s} (eng_pool e) (eng_pool e') \<and> eng_order_index e' = eng_order_index e
    \<and> exchange_of e' = ex_settle order b is_market price (rec_open_qty (rec_of e s)) (rec_filled_qty (rec_of e s)) (exchange_of e)"
proof -
  consider "rec_open_qty (rec_of e s) = 0" | "rec_open_qty (rec_of e s) \<noteq> 0" "no_tif order = kDay"
    | "rec_open_qty (rec_of e s) \<noteq> 0" "no_tif order \<noteq> kDay" by blast
  then show ?thesis
  proof cases
    case 1
    with inv show ?thesis by (simp add: e' settle_order_def ex_settle_def spares_def)
  next
    case 2
    note R = rest_ok [OF inv s b refl _ 2(1) refl, of price "no_side order"]
    from 2 R price show ?thesis by (simp add: e' settle_order_def ex_settle_def word_greater_zero_iff)
  next
    case 3
    with close_ok [OF inv s] spares_upd [OF inv s] show ?thesis by (simp add: e' settle_order_def ex_settle_def word_greater_zero_iff)
  qed
qed

lemma after_accept_ok:
  assumes inv: "store_inv {} e" and s: "slot_ready e s (no_instrument_id order) (no_order_id order)"
    and r: "rec_open_qty (rec_of e s) = no_quantity order" "rec_filled_qty (rec_of e s) = 0"
    and b: "b < length (eng_books e)" "ob_instrument_id (eng_books e ! b) = no_instrument_id order"
    and qty: "no_quantity order \<noteq> 0" and price: "no_tif order = kDay \<longrightarrow> in_band (ob_ladder (eng_books e ! b)) price"
  shows "\<exists>v e'. after_accept order b s is_market price e = Some e' \<and> store_inv {} e' \<and> kept e e'
    \<and> exchange_of e' = ex_accepted v order b is_market price (exchange_of e)
    \<and> verdict_ok v (exchange_of e) b (no_side order) is_market price (no_quantity order)
    \<and> spares {s} (eng_pool e) (eng_pool e') \<and> eng_order_index e' = eng_order_index e"
proof -
  let ?i = "no_order_id order" and ?iid = "no_instrument_id order" and ?sd = "no_side order" and ?n = "no_quantity order"
  obtain v where v: "verdict_ok v (exchange_of e) b ?sd is_market price ?n"
    "no_tif order = kFok \<longrightarrow> can_fully_fill (eng_books e ! b) ?sd is_market price ?n = Some v"
    using check_ok [OF inv b(1) qty, of ?sd is_market price] by auto
  have check: "fok_check order b is_market price e = Some (no_tif order = kFok \<longrightarrow> v)" using v(2) by (simp add: fok_check_def)
  show ?thesis
  proof (cases "no_tif order = kFok \<and> \<not> v")
    case True
    with close_ok [OF inv s] have "exchange_of (killed order s e) = ex_accepted v order b is_market price (exchange_of e)"
      by (simp add: ex_accepted_def killed_def Let_def)
    with True close_ok [OF inv s] spares_upd [OF inv s] v(1) show ?thesis
      by (intro exI [of _ v] exI [of _ "killed order s e"]) (auto simp: after_accept_steps check, simp_all add: killed_def)
  next
    case False
    then have pass: "no_tif order = kFok \<longrightarrow> v" by blast
    obtain n' ex' where m: "ex_match b ?i ?sd is_market price ?n (exchange_of e) = (n', ex')" by (rule prod.exhaust)
    have acc: "ex_accepted v order b is_market price (exchange_of e) = ex_settle order b is_market price n' (?n - n') ex'"
      using pass m by (auto simp: ex_accepted_def ex_settle_def leftover_reason_def Let_def)
    obtain e2 where e2: "match_in_engine e b ?iid s ?sd price is_market = Some e2" "store_inv {} e2" "exchange_of e2 = ex'"
      "slot_ready e2 s ?iid ?i" "rec_of e2 s = traded (?n - n') (rec_of e s)" "kept e e2"
      "spares {s} (eng_pool e) (eng_pool e2)" "eng_order_index e2 = eng_order_index e"
      using match_ok [OF inv s b, of ?sd is_market price n' ex'] m unfolding r(1) by blast
    have r2: "rec_open_qty (rec_of e2 s) = n'" "rec_filled_qty (rec_of e2 s) = ?n - n'" by (simp_all add: e2(5) r)
    have lay: "layout e2 = layout e" using e2(6) by blast
    have b2: "b < length (eng_books e2)" "ob_instrument_id (eng_books e2 ! b) = ?iid"
      "no_tif order = kDay \<longrightarrow> in_band (ob_ladder (eng_books e2 ! b)) price"
      using layout_eqD [OF lay] b price by simp_all
    define e' where "e' = settle_order order b s is_market price e2"
    note S = settle_order_ok [OF e2(2,4) b2 e'_def]
    have "after_accept order b s is_market price e = Some e'"
      using pass by (simp add: after_accept_steps check e2(1) e'_def)
    moreover have "exchange_of e' = ex_accepted v order b is_market price (exchange_of e)"
      unfolding acc using S by (simp add: r2 e2(3))
    moreover have "spares {s} (eng_pool e) (eng_pool e')" using spares_trans [OF e2(7)] S by blast
    ultimately show ?thesis using S e2(6,8) v(1) by (intro exI [of _ v] exI [of _ e']) simp
  qed
qed

text \<open>The record as \<open>on_accepted\<close> finds it.\<close>

lemma accepting_ok:
  assumes inv: "store_inv {} e" and s: "slot_ready e s (no_instrument_id order) (no_order_id order)"
    and e1: "e1 = upd_rec s (\<lambda>r. r\<lparr>rec_open_qty := no_quantity order, rec_filled_qty := 0\<rparr>) e"
  shows "store_inv {} e1" "slot_ready e1 s (no_instrument_id order) (no_order_id order)" "exchange_of e1 = exchange_of e"
    "rec_open_qty (rec_of e1 s) = no_quantity order" "rec_filled_qty (rec_of e1 s) = 0" "eng_books e1 = eng_books e" "kept e e1"
    "spares {s} (eng_pool e) (eng_pool e1)" "eng_order_index e1 = eng_order_index e"
proof -
  note U = upd_ready [OF inv s, of "\<lambda>r. r\<lparr>rec_open_qty := no_quantity order, rec_filled_qty := 0\<rparr>"]
  show "store_inv {} e1" "slot_ready e1 s (no_instrument_id order) (no_order_id order)" "exchange_of e1 = exchange_of e"
    using U(1-3) by (simp_all add: e1)
  show "rec_open_qty (rec_of e1 s) = no_quantity order" "rec_filled_qty (rec_of e1 s) = 0"
    using U(4) unfolding e1 by simp_all
  show "eng_books e1 = eng_books e" "kept e e1" "spares {s} (eng_pool e) (eng_pool e1)" "eng_order_index e1 = eng_order_index e"
    using store_pool_ok [OF inv] spares_upd [OF inv s] by (simp_all add: e1 pool_upd)
qed

lemma submit_accepted_ok:
  assumes inv: "store_inv {} e" and s: "slot_ready e s (no_instrument_id order) (no_order_id order)"
    and b: "b < length (eng_books e)" "ob_instrument_id (eng_books e ! b) = no_instrument_id order"
    and qty: "no_quantity order \<noteq> 0" and price: "no_tif order = kDay \<longrightarrow> in_band (ob_ladder (eng_books e ! b)) price"
  shows "\<exists>v e'. submit_accepted e order b s is_market price = Some e' \<and> store_inv {} e' \<and> kept e e'
    \<and> exchange_of e' = ex_accept v order b is_market price (exchange_of e)
    \<and> verdict_ok v (exchange_of e) b (no_side order) is_market price (no_quantity order)"
proof -
  define e1 where "e1 = upd_rec s (\<lambda>r. r\<lparr>rec_open_qty := no_quantity order, rec_filled_qty := 0\<rparr>) e"
  note A = accepting_ok [OF inv s e1_def]
  let ?e = "emit (On_accepted (no_order_id order)) e1"
  have sub: "submit_accepted e order b s is_market price = after_accept order b s is_market price ?e"
    unfolding submit_accepted_after e1_def ..
  obtain v e' where "after_accept order b s is_market price ?e = Some e'" "store_inv {} e'" "kept ?e e'"
    "exchange_of e' = ex_accepted v order b is_market price (exchange_of ?e)"
    "verdict_ok v (exchange_of ?e) b (no_side order) is_market price (no_quantity order)"
    using after_accept_ok [where e = ?e and s = s and b = b and order = order and price = price and is_market = is_market]
      A b qty price by auto
  with A(3,7) show ?thesis by (intro exI [of _ v] exI [of _ e']) (simp add: sub ex_accept_split)
qed

section \<open>A new slot and its id\<close>

text \<open>The record written into a fresh slot is not in the books until it is indexed and rests.\<close>

lemma take_slot:
  assumes inv: "store_inv {} e" and room: "op_size (eng_pool e) < 2 ^ 32 - 1"
    and a: "op_allocate al (eng_pool e) = Some (Inr (s, p))" and closed: "\<not> rec_is_open (f default_record)"
    and e': "e' = upd_rec s f (e\<lparr>eng_pool := p\<rparr>)"
  shows "store_inv {} e'" "exchange_of e' = exchange_of e" "op_size (eng_pool e') = Suc (op_size (eng_pool e))"
    "unat s = op_size (eng_pool e)" "s \<noteq> kInvalidSlot" "rec_of e' s = f default_record"
    "unat x < op_size (eng_pool e) \<Longrightarrow> rec_of e' x = rec_of e x"
proof -
  have room': "op_size (eng_pool e) < 2 ^ 32" using room by simp
  have P: "pool_ok p" "op_size p = Suc (op_size (eng_pool e))" "op_get p s = default_record" "s = word_of_nat (op_size (eng_pool e))"
    "unat x < op_size (eng_pool e) \<Longrightarrow> op_get p x = rec_of e x" for x
    using op_allocate_correct [OF store_pool_ok [OF inv] room', of al] a by auto
  show s: "unat s = op_size (eng_pool e)" using room' unfolding P(4) by (rule pool.fresh_slot)
  show "s \<noteq> kInvalidSlot" using s room by (auto simp: kInvalidSlot_def)
  have get: "rec_of e' = (op_get p)(s := f default_record)" using pool_upd(1) [OF P(1), of s f] by (simp add: e' s P(2,3) fun_eq_iff)
  show "rec_of e' s = f default_record" by (simp add: get)
  show size: "op_size (eng_pool e') = Suc (op_size (eng_pool e))" by (simp add: e' pool_upd(3) P(2))
  have old: "rec_of e' x = rec_of e x" if "unat x < op_size (eng_pool e)" for x using that s P(5) by (auto simp: get)
  then show "unat x < op_size (eng_pool e) \<Longrightarrow> rec_of e' x = rec_of e x" .
  have new: "unat x < op_size (eng_pool e) \<and> rec_is_open (rec_of e x)" if "unat x < op_size (eng_pool e')" "rec_is_open (rec_of e' x)" for x
  proof -
    have "x \<noteq> s" using that(2) closed by (auto simp: get)
    with that(1) s have "unat x < op_size (eng_pool e)" by (simp add: size less_Suc_eq word_unat_eq_iff)
    with old that(2) show ?thesis by simp
  qed
  have oi: "orders_indexed {} (eng_pool e') (eng_order_index e')"
  proof -
    have O: "orders_indexed {} (eng_pool e) (eng_order_index e)" using inv by (simp add: store_inv_def)
    have same: "eng_order_index e' = eng_order_index e" by (simp add: e')
    show ?thesis unfolding orders_indexed_def same
    proof (intro conjI allI impI)
      show "fm_ready (eng_order_index e)" "fm_size (eng_order_index e) \<le> op_size (eng_pool e')"
        using O by (simp_all add: orders_indexed_def size)
      fix i x assume "fm_lookup (eng_order_index e) i = Some x"
      then have "unat x < op_size (eng_pool e)" "rec_id (rec_of e x) = i" using O unfolding orders_indexed_def by blast+
      with old show "unat x < op_size (eng_pool e')" "rec_id (rec_of e' x) = i" by (simp_all add: size)
    next
      fix x assume "unat x < op_size (eng_pool e')" "rec_is_open (rec_of e' x)"
      from new [OF this] O old show "fm_lookup (eng_order_index e) (rec_id (rec_of e' x)) = Some x"
        by (simp add: orders_indexed_def)
    qed
  qed
  have ok': "pool_ok (eng_pool e')" using pool_upd(2) [OF P(1)] by (simp add: e')
  have books: "eng_books e' = eng_books e" "eng_instrument_index e' = eng_instrument_index e" by (simp_all add: e')
  note C = pool_change [OF inv books ok' _ new _ oi]
  show "store_inv {} e'" by (rule C(1)) (simp_all add: size old)
  have "ex_books (exchange_of e') = ex_books (exchange_of e)" by (rule C(2)) (simp_all add: size old)
  then show "exchange_of e' = exchange_of e" by (rule exchange_eqI) (simp_all add: e')
qed

text \<open>The id now names the new slot; an open order that had it is the exception of the invariant.\<close>

lemma index_slot:
  assumes inv: "store_inv {} e" and s: "unat s < op_size (eng_pool e)" "s \<noteq> kInvalidSlot" "\<not> rec_is_open (rec_of e s)"
      "rec_instrument_id (rec_of e s) = iid" "rec_id (rec_of e s) = i"
    and oi: "fm_ready oi" "fm_size oi \<le> op_size (eng_pool e)" "fm_lookup oi = (fm_lookup (eng_order_index e))(i \<mapsto> s)"
    and e': "e' = e\<lparr>eng_order_index := oi\<rparr>"
  shows "store_inv {t. fm_lookup (eng_order_index e) i = Some t} e'" "slot_ready e' s iid i"
    "exchange_of e' = (exchange_of e)\<lparr>ex_used := insert i (ex_used (exchange_of e))\<rparr>"
proof -
  have O: "orders_indexed {} (eng_pool e) (eng_order_index e)" using inv by (simp add: store_inv_def)
  have "orders_indexed {t. fm_lookup (eng_order_index e) i = Some t} (eng_pool e) oi"
    unfolding orders_indexed_def
  proof (intro conjI allI impI)
    fix j x assume j: "fm_lookup oi j = Some x"
    show "unat x < op_size (eng_pool e)" "rec_id (rec_of e x) = j"
      using j s(1,5) O by (cases "j = i"; simp add: oi(3) orders_indexed_def)+
  next
    fix x assume x: "unat x < op_size (eng_pool e)" "rec_is_open (rec_of e x)" "x \<notin> {t. fm_lookup (eng_order_index e) i = Some t}"
    then have "fm_lookup (eng_order_index e) (rec_id (rec_of e x)) = Some x" using O by (simp add: orders_indexed_def)
    with x(3) show "fm_lookup oi (rec_id (rec_of e x)) = Some x" by (auto simp: oi(3))
  qed (use oi in auto)
  with inv show "store_inv {t. fm_lookup (eng_order_index e) i = Some t} e'" by (simp add: store_inv_def e')
  show "slot_ready e' s iid i" using s by (simp add: slot_ready_def e' oi(3))
  show "exchange_of e' = (exchange_of e)\<lparr>ex_used := insert i (ex_used (exchange_of e))\<rparr>"
    by (rule exchange_eqI) (simp_all add: e' oi(3) exchange_of_def)
qed

end
