(* ===== verification/Engine_Requests.thy ===== *)
theory Engine_Requests
  imports Engine_Handlers
begin

text \<open>
  The three requests, from validation to the last event: each keeps the engine's invariant and
  does to the exchange what \<open>Matching_Spec\<close> says, or, if the allocator refused a request,
  nothing at all.
\<close>

section \<open>Validation\<close>

lemma ob_ladder_ok:
  assumes "store_inv X e" "b < length (eng_books e)"
  shows "ladder_ok (ob_ladder (eng_books e ! b))"
  by (rule store_bookD [OF assms]) (rule book_invD(2) [OF book_okD(1)])

lemma ob_price_check:
  assumes "store_inv X e" "b < length (eng_books e)"
  shows "ob_price_to_index (eng_books e ! b) p < 0 \<longleftrightarrow> \<not> in_band (ob_ladder (eng_books e ! b)) p"
  unfolding ob_price_to_index_def using ladder.to_index_nonneg_iff [OF ob_ladder_ok [OF assms], of p] by linarith

lemma in_band_within:
  "b < length (eng_books e) \<Longrightarrow> in_band (ob_ladder (eng_books e ! b)) p
    \<longleftrightarrow> is_tick_aligned p \<and> within_band (ex_books (exchange_of e) ! b) p"
  by (simp add: in_band_def within_band_def)

definition order_price :: "new_order \<Rightarrow> price" where
  "order_price order = (if no_type order = kMarket then 0 else no_price order)"

lemma submit_validated_ok:
  assumes inv: "store_inv {} e" and s: "slot_ready e s (no_instrument_id order) (no_order_id order)"
    and b: "b < length (eng_books e)" "ob_instrument_id (eng_books e ! b) = no_instrument_id order"
  shows "\<exists>v e'. submit_validated e order b s = Some e' \<and> store_inv {} e' \<and> kept e e'
    \<and> exchange_of e' = ex_validated v order b (exchange_of e)
    \<and> verdict_ok v (exchange_of e) b (no_side order) (no_type order = kMarket) (order_price order) (no_quantity order)"
proof -
  let ?m = "no_type order = kMarket"
  have rejected: "\<exists>v e'. submit_validated e order b s = Some e' \<and> store_inv {} e' \<and> kept e e'
      \<and> exchange_of e' = ex_validated v order b (exchange_of e)
      \<and> verdict_ok v (exchange_of e) b (no_side order) ?m (order_price order) (no_quantity order)"
    if "submit_validated e order b s = Some (emit ev e)" "\<And>v. ex_validated v order b (exchange_of e) = ex_emit ev (exchange_of e)" for ev
    using that inv by (intro exI [of _ "fillable (exchange_of e) b (no_side order) ?m (order_price order) (no_quantity order)"]
      exI [of _ "emit ev e"]) (simp add: verdict_exact)
  have accepted: "\<exists>v e'. submit_validated e order b s = Some e' \<and> store_inv {} e' \<and> kept e e'
      \<and> exchange_of e' = ex_validated v order b (exchange_of e)
      \<and> verdict_ok v (exchange_of e) b (no_side order) ?m (order_price order) (no_quantity order)"
    if "submit_validated e order b s = submit_accepted e order b s ?m (order_price order)" "no_quantity order \<noteq> 0"
      "\<And>v. ex_validated v order b (exchange_of e) = ex_accept v order b ?m (order_price order) (exchange_of e)"
      "no_tif order = kDay \<longrightarrow> in_band (ob_ladder (eng_books e ! b)) (order_price order)"
    using submit_accepted_ok [OF inv s b that(2,4), of ?m] by (simp add: that(1,3))
  note check = ob_price_check [OF inv b(1)] in_band_within [OF b(1)]
  consider "no_quantity order = 0" | "no_quantity order \<noteq> 0" "?m" "no_tif order = kDay" | "no_quantity order \<noteq> 0" "?m" "no_tif order \<noteq> kDay"
    | "no_quantity order \<noteq> 0" "\<not> ?m" "\<not> is_tick_aligned (no_price order)"
    | "no_quantity order \<noteq> 0" "\<not> ?m" "is_tick_aligned (no_price order)" "\<not> within_band (ex_books (exchange_of e) ! b) (no_price order)"
    | "no_quantity order \<noteq> 0" "\<not> ?m" "is_tick_aligned (no_price order)" "within_band (ex_books (exchange_of e) ! b) (no_price order)"
    by blast
  then show ?thesis
  proof cases
    case 1 show ?thesis by (rule rejected [of "On_rejected (no_order_id order) kInvalidQuantity"])
        (use 1 in \<open>simp_all add: submit_validated_def ex_validated_def\<close>)
  next
    case 2 show ?thesis by (rule rejected [of "On_rejected (no_order_id order) kInvalidTimeInForce"])
        (use 2 in \<open>simp_all add: submit_validated_def ex_validated_def\<close>)
  next
    case 3 show ?thesis by (rule accepted) (use 3 in \<open>simp_all add: submit_validated_def ex_validated_def order_price_def\<close>)
  next
    case 4 show ?thesis by (rule rejected [of "On_rejected (no_order_id order) kInvalidPriceTick"])
        (use 4 in \<open>simp_all add: submit_validated_def ex_validated_def\<close>)
  next
    case 5 show ?thesis by (rule rejected [of "On_rejected (no_order_id order) kPriceOutOfBand"])
        (use 5 in \<open>simp_all add: submit_validated_def ex_validated_def check del: exchange_of_simps(2)\<close>)
  next
    case 6 show ?thesis by (rule accepted)
        (use 6 in \<open>simp_all add: submit_validated_def ex_validated_def order_price_def check del: exchange_of_simps(2)\<close>)
  qed
qed

section \<open>Submit\<close>

lemma order_index_upd: "eng_order_index (upd_rec s f (e\<lparr>eng_pool := p\<rparr>)) = eng_order_index e"
  by simp

definition submit_verdict :: "bool \<Rightarrow> new_order \<Rightarrow> exchange \<Rightarrow> bool" where
  "submit_verdict v order ex \<longleftrightarrow> (\<forall>b. book_index ex (no_instrument_id order) = Some b
    \<longrightarrow> verdict_ok v ex b (no_side order) (no_type order = kMarket) (order_price order) (no_quantity order))"

lemma verdict_used [simp]: "verdict_ok v (ex\<lparr>ex_used := U\<rparr>) = verdict_ok v ex"
  by (auto simp: verdict_ok_def fillable_def fun_eq_iff)

lemma some_verdict: "\<exists>v. submit_verdict v order ex"
  by (cases "book_index ex (no_instrument_id order)") (auto simp: submit_verdict_def intro: verdict_exact)

text \<open>What a request does when it runs to its end, and when the allocator stops it.\<close>

definition done_or_dropped :: "allocator \<Rightarrow> exchange \<Rightarrow> exchange \<Rightarrow> exchange \<Rightarrow> bool" where
  "done_or_dropped al ex target ex' \<longleftrightarrow> ex' = target \<or> ex' = ex \<and> (\<exists>r. al r \<noteq> None)"

lemma eng_inv_sel: "eng_inv e \<Longrightarrow> eng_configured e" "eng_inv e \<Longrightarrow> store_inv {} e"
  by (simp_all add: eng_inv_def)

lemma order_index_ready: "eng_inv e \<Longrightarrow> fm_ready (eng_order_index e)"
  by (simp add: eng_inv_def store_inv_def orders_indexed_def)

text \<open>
  How \<open>submit\<close> and \<open>replace\<close> take a slot and give it its id: the allocator may stop either of
  the two, and then the exchange has not changed.
\<close>

lemma take_and_index:
  assumes inv: "eng_inv e" and room: "op_size (eng_pool e) < 2 ^ 32 - 1"
    and f: "\<not> rec_is_open (f default_record)" "rec_instrument_id (f default_record) = iid" "rec_id (f default_record) = i"
    and index: "\<And>t. (\<exists>oi. index t = Some (Inr oi) \<and> fm_ready oi \<and> fm_size oi \<le> Suc (fm_size (eng_order_index e))
        \<and> fm_lookup oi = (fm_lookup (eng_order_index e))(i \<mapsto> t)) \<or> (\<exists>x r. index t = Some (Inl x) \<and> al r = Some x)"
  obtains (no_slot) x r where "op_allocate al (eng_pool e) = Some (Inl x)" "al r = Some x"
  | (no_id) t p x r where "op_allocate al (eng_pool e) = Some (Inr (t, p))" "index t = Some (Inl x)" "al r = Some x"
      "eng_inv (upd_rec t f (e\<lparr>eng_pool := p\<rparr>))" "exchange_of (upd_rec t f (e\<lparr>eng_pool := p\<rparr>)) = exchange_of e"
      "op_size (eng_pool (upd_rec t f (e\<lparr>eng_pool := p\<rparr>))) = Suc (op_size (eng_pool e))"
      "steady e (upd_rec t f (e\<lparr>eng_pool := p\<rparr>))"
  | (ready) t p oi e2 where "op_allocate al (eng_pool e) = Some (Inr (t, p))" "index t = Some (Inr oi)"
      "e2 = (upd_rec t f (e\<lparr>eng_pool := p\<rparr>))\<lparr>eng_order_index := oi\<rparr>"
      "store_inv {t. fm_lookup (eng_order_index e) i = Some t} e2" "slot_ready e2 t iid i"
      "exchange_of e2 = (exchange_of e)\<lparr>ex_used := insert i (ex_used (exchange_of e))\<rparr>"
      "eng_configured e2" "eng_books e2 = eng_books e" "op_size (eng_pool e2) = Suc (op_size (eng_pool e))"
      "rec_of e2 t = f default_record" "unat t = op_size (eng_pool e)" "\<And>x. unat x < op_size (eng_pool e) \<Longrightarrow> rec_of e2 x = rec_of e x"
      "fm_lookup (eng_order_index e2) = (fm_lookup (eng_order_index e))(i \<mapsto> t)"
      "(\<And>x. fm_lookup (eng_order_index e) i = Some x \<Longrightarrow> rec_is_open (rec_of e x)) \<Longrightarrow> steady e e2"
proof -
  note conf = eng_inv_sel(1) [OF inv] and sinv = eng_inv_sel(2) [OF inv]
  have O: "fm_ready (eng_order_index e)" "fm_size (eng_order_index e) \<le> op_size (eng_pool e)" using sinv by (simp_all add: store_inv_def orders_indexed_def)
  have room': "op_size (eng_pool e) < 2 ^ 32" using room by simp
  from pool.alloc [OF store_pool_ok [OF sinv] room', of al] show thesis
  proof (elim disjE exE conjE)
    fix x r assume "op_allocate al (eng_pool e) = Some (Inl x)" "al r = Some x"
    then show thesis by (rule no_slot)
  next
    fix p assume a: "op_allocate al (eng_pool e) = Some (Inr (word_of_nat (op_size (eng_pool e)), p))"
    let ?t = "word_of_nat (op_size (eng_pool e)) :: slot"
    define e1 where "e1 = upd_rec ?t f (e\<lparr>eng_pool := p\<rparr>)"
    note T = take_slot [OF sinv room a f(1) e1_def]
    have same: "eng_order_index e1 = eng_order_index e" "eng_books e1 = eng_books e" "eng_configured e1" using conf by (simp_all add: e1_def)
    have inv1: "eng_inv e1" using T(1) same(3) by (simp add: eng_inv_def)
    from index [of ?t] show thesis
    proof (elim disjE exE conjE)
      fix x r assume "index ?t = Some (Inl x)" "al r = Some x"
      moreover have "steady e e1" by (rule steady_new) (use T(3,7) in \<open>simp_all add: e1_def layout_def\<close>)
      ultimately show thesis using no_id [OF a] inv1 T(2,3) by (simp add: e1_def)
    next
      fix oi assume ins: "index ?t = Some (Inr oi)" "fm_ready oi" "fm_size oi \<le> Suc (fm_size (eng_order_index e))"
        "fm_lookup oi = (fm_lookup (eng_order_index e))(i \<mapsto> ?t)"
      define e2 where "e2 = e1\<lparr>eng_order_index := oi\<rparr>"
      have t1: "unat ?t < op_size (eng_pool e1)" "\<not> rec_is_open (rec_of e1 ?t)" "rec_instrument_id (rec_of e1 ?t) = iid"
        "rec_id (rec_of e1 ?t) = i" "fm_size oi \<le> op_size (eng_pool e1)"
        using T(3,4,6) ins(3) O(2) f by simp_all
      have look: "fm_lookup oi = (fm_lookup (eng_order_index e1))(i \<mapsto> ?t)" by (simp add: same ins(4))
      note I = index_slot [OF T(1) t1(1) T(5) t1(2-4) ins(2) t1(5) look e2_def]
      show thesis
      proof (rule ready [OF a ins(1), of e2])
        assume fresh: "\<And>x. fm_lookup (eng_order_index e) i = Some x \<Longrightarrow> rec_is_open (rec_of e x)"
        show "steady e e2"
          by (rule steady_new) (use T(3,7) ins(4) fresh in \<open>auto simp: e2_def e1_def layout_def\<close>)
      qed (use I T same ins(4) in \<open>simp_all add: e2_def e1_def\<close>)
    qed
  qed
qed

lemma insert_index:
  assumes "eng_inv e" "op_size (eng_pool e) < 2 ^ 32 - 1" "fm_lookup (eng_order_index e) i = None"
  shows "(\<exists>oi. fm_insert al (eng_order_index e) i t = Some (Inr oi) \<and> fm_ready oi \<and> fm_size oi \<le> Suc (fm_size (eng_order_index e))
      \<and> fm_lookup oi = (fm_lookup (eng_order_index e))(i \<mapsto> t)) \<or> (\<exists>x r. fm_insert al (eng_order_index e) i t = Some (Inl x) \<and> al r = Some x)"
proof -
  have "fm_size (eng_order_index e) \<le> op_size (eng_pool e)" using assms(1) by (simp add: eng_inv_def store_inv_def orders_indexed_def)
  with assms(2) have "fm_size (eng_order_index e) < 2 ^ 32" by linarith
  from hash_map.insert [OF order_index_ready [OF assms(1)] assms(3) this, of al t] show ?thesis by auto
qed

text \<open>
  The record \<open>submit\<close> writes into the slot it has taken, and \<open>submit\<close> itself once the instrument is known
  and the id new.
\<close>

definition submitted_record :: "new_order \<Rightarrow> order_record \<Rightarrow> order_record" where
  "submitted_record order = (\<lambda>r. r\<lparr>rec_id := no_order_id order, rec_instrument_id := no_instrument_id order, rec_side := no_side order\<rparr>)"

lemma submitted_record:
  "\<not> rec_is_open (submitted_record order default_record)"
  "rec_instrument_id (submitted_record order default_record) = no_instrument_id order"
  "rec_id (submitted_record order default_record) = no_order_id order"
  by (simp_all add: submitted_record_def default_record_def)

lemma submit_checks:
  assumes "eng_inv e"
  shows "find_book e (no_instrument_id order) = Some (book_index (exchange_of e) (no_instrument_id order))"
    and "fm_contains (eng_order_index e) (no_order_id order) = Some (no_order_id order \<in> ex_used (exchange_of e))"
  using find_book_ok [OF eng_inv_sel(2) [OF assms]] hash_map.contains [OF order_index_ready [OF assms]] by auto

lemma submit_fresh:
  assumes "eng_inv e" "book_index (exchange_of e) (no_instrument_id order) = Some b" "no_order_id order \<notin> ex_used (exchange_of e)"
  shows "submit al e order = op_allocate al (eng_pool e) \<bind> (\<lambda>a. case a of Inl _ \<Rightarrow> Some e
      | Inr (t, p) \<Rightarrow> fm_insert al (eng_order_index e) (no_order_id order) t \<bind> (\<lambda>ins. case ins of
            Inl _ \<Rightarrow> Some (upd_rec t (submitted_record order) (e\<lparr>eng_pool := p\<rparr>))
          | Inr oi \<Rightarrow> submit_validated ((upd_rec t (submitted_record order) (e\<lparr>eng_pool := p\<rparr>))\<lparr>eng_order_index := oi\<rparr>) order b t))"
  unfolding submit_def Let_def submitted_record_def
  using assms(2,3) by (simp add: eng_inv_sel [OF assms(1)] submit_checks [OF assms(1)] del: exchange_of_simps(3) cong del: sum.case_cong_weak)

lemma submit_ok:
  assumes inv: "eng_inv e" and room: "op_size (eng_pool e) < 2 ^ 32 - 1"
  shows "\<exists>v e'. submit al e order = Some e' \<and> eng_inv e' \<and> op_size (eng_pool e') \<le> Suc (op_size (eng_pool e))
    \<and> submit_verdict v order (exchange_of e)
    \<and> done_or_dropped al (exchange_of e) (ex_submit v order (exchange_of e)) (exchange_of e')"
proof -
  let ?i = "no_order_id order" and ?iid = "no_instrument_id order" and ?ex = "exchange_of e" and ?oi = "eng_order_index e"
  note conf = eng_inv_sel(1) [OF inv] and sinv = eng_inv_sel(2) [OF inv] and find = submit_checks(1) [OF inv, of order] and dup = submit_checks(2) [OF inv, of order]
  obtain v0 where v0: "submit_verdict v0 order ?ex" using some_verdict by blast
  have simple: "?thesis" if "submit al e order = Some (emit ev e)" "ex_submit v0 order ?ex = ex_emit ev ?ex" for ev
    using that inv v0 by (intro exI [of _ v0] exI [of _ "emit ev e"]) (simp add: done_or_dropped_def)
  have dropped: "?thesis" if "submit al e order = Some e'" "al r \<noteq> None" "exchange_of e' = ?ex" "eng_inv e'"
    "op_size (eng_pool e') \<le> Suc (op_size (eng_pool e))" for e' r
    using that v0 by (intro exI [of _ v0] exI [of _ e']) (auto simp: done_or_dropped_def)
  show ?thesis
  proof (cases "book_index ?ex ?iid")
    case None
    show ?thesis by (rule simple [of "On_rejected ?i kUnknownInstrument"])
        (simp_all add: submit_def ex_submit_def conf find None Let_def)
  next
    case (Some b)
    show ?thesis
    proof (cases "?i \<in> ex_used ?ex")
      case True
      show ?thesis by (rule simple [of "On_rejected ?i kDuplicateOrderId"])
          (use True dup in \<open>simp_all add: submit_def ex_submit_def conf find Some Let_def\<close>)
    next
      case False
      then have fresh: "fm_lookup ?oi ?i = None" by auto
      note sub = submit_fresh [OF inv Some False, of al]
      show ?thesis
        using inv room submitted_record [of order] insert_index [OF inv room fresh, of al]
      proof (cases rule: take_and_index)
        case (no_slot x r)
        then show ?thesis by (intro dropped [of e r]) (simp_all add: sub inv)
      next
        case (no_id t p x r)
        then show ?thesis by (intro dropped [of "upd_rec t (submitted_record order) (e\<lparr>eng_pool := p\<rparr>)" r]) (simp_all add: sub)
      next
        case (ready t p oi e2)
        have inv2: "store_inv {} e2" using ready(4) fresh by simp
        have b2: "b < length (eng_books e2)" "ob_instrument_id (eng_books e2 ! b) = ?iid"
          using Some unfolding book_index_iff [OF sinv] ready(8) by simp_all
        obtain v e' where V: "submit_validated e2 order b t = Some e'" "store_inv {} e'" "kept e2 e'"
          "exchange_of e' = ex_validated v order b (exchange_of e2)"
          "verdict_ok v (exchange_of e2) b (no_side order) (no_type order = kMarket) (order_price order) (no_quantity order)"
          using submit_validated_ok [OF inv2 ready(5) b2] by blast
        have "submit al e order = Some e'" using V(1) by (simp add: sub ready(1-3))
        moreover have "eng_inv e'" "op_size (eng_pool e') \<le> Suc (op_size (eng_pool e))"
          using V(2,3) ready(7,9) by (simp_all add: eng_inv_def)
        moreover have "submit_verdict v order ?ex" using V(5) Some by (simp add: submit_verdict_def ready(6))
        moreover have "exchange_of e' = ex_submit v order ?ex"
          using False by (simp add: V(4) ready(6) ex_submit_def Some Let_def del: exchange_of_simps(3))
        ultimately show ?thesis by (intro exI [of _ v] exI [of _ e']) (simp add: done_or_dropped_def)
      qed
    qed
  qed
qed

section \<open>Cancel\<close>

lemma open_order:
  assumes inv: "store_inv {} e" and s: "fm_lookup (eng_order_index e) i = Some s" "rec_is_open (rec_of e s)"
  obtains b where "book_index (exchange_of e) (rec_instrument_id (rec_of e s)) = Some b" "leaving {} e b s" "rec_id (rec_of e s) = i"
    "find_order (exchange_of e) i = Some (b, rec_side (rec_of e s), view_order (op_get (eng_pool e)) s)"
proof -
  have O: "unat s < op_size (eng_pool e)" "rec_id (rec_of e s) = i"
    using inv s(1) unfolding store_inv_def orders_indexed_def by blast+
  obtain b where b: "b < length (eng_books e)" "ob_instrument_id (eng_books e ! b) = rec_instrument_id (rec_of e s)"
    using inv O(1) s(2) unfolding store_inv_def books_good_def by blast
  show ?thesis
  proof (rule that)
    show "book_index (exchange_of e) (rec_instrument_id (rec_of e s)) = Some b" using b by (simp add: book_index_iff [OF inv])
    show "leaving {} e b s" using O s b by (simp add: leaving_def)
  qed (rule O(2), rule find_order_Some [OF inv s b])
qed

text \<open>What \<open>cancel\<close> and \<open>replace\<close> find under an id.\<close>

lemma lookup_cases:
  assumes inv: "eng_inv e"
  obtains (unknown) "fm_find (eng_order_index e) i = Some None" "find_order (exchange_of e) i = None"
  | (closed) s where "fm_find (eng_order_index e) i = Some (Some s)" "\<not> rec_is_open (rec_of e s)" "find_order (exchange_of e) i = None"
  | (live) s b where "fm_find (eng_order_index e) i = Some (Some s)" "fm_lookup (eng_order_index e) i = Some s" "rec_is_open (rec_of e s)"
      "find_book e (rec_instrument_id (rec_of e s)) = Some (Some b)" "leaving {} e b s" "rec_id (rec_of e s) = i"
      "find_order (exchange_of e) i = Some (b, rec_side (rec_of e s), view_order (op_get (eng_pool e)) s)"
proof -
  note sinv = eng_inv_sel(2) [OF inv]
  have find: "fm_find (eng_order_index e) i = Some (fm_lookup (eng_order_index e) i)"
    by (rule hash_map.find [OF order_index_ready [OF inv]])
  show thesis
  proof (cases "fm_lookup (eng_order_index e) i")
    case None
    with find show thesis by (intro unknown find_order_None [OF sinv]) simp_all
  next
    case (Some s)
    show thesis
    proof (cases "rec_is_open (rec_of e s)")
      case True
      obtain b where b: "book_index (exchange_of e) (rec_instrument_id (rec_of e s)) = Some b" "leaving {} e b s" "rec_id (rec_of e s) = i"
        "find_order (exchange_of e) i = Some (b, rec_side (rec_of e s), view_order (op_get (eng_pool e)) s)"
        using open_order [OF sinv Some True] .
      show thesis by (rule live [of s b]) (use b True Some find find_book_ok [OF sinv] in simp_all)
    next
      case False
      with find Some show thesis by (intro closed [of s] find_order_None [OF sinv]) simp_all
    qed
  qed
qed

lemma cancel_ok:
  assumes inv: "eng_inv e"
  shows "\<exists>e'. cancel e req = Some e' \<and> eng_inv e' \<and> op_size (eng_pool e') = op_size (eng_pool e)
    \<and> exchange_of e' = ex_cancel req (exchange_of e) \<and> steady e e'"
  using inv
proof (cases rule: lookup_cases [where i = "co_order_id req"])
  case unknown
  then show ?thesis using inv by (simp add: cancel_def ex_cancel_def eng_inv_sel)
next
  case (closed s)
  then show ?thesis using inv by (simp add: cancel_def ex_cancel_def eng_inv_sel)
next
  case (live s b)
  note R = remove_ok [OF eng_inv_sel(2) [OF inv] live(5) refl]
  have "cancel e req = Some (emit (On_canceled (co_order_id req) (rec_open_qty (rec_of e s)) kUserRequested)
      (with_book (\<lambda>p ob. remove_resting p ob s) b e))"
    by (simp add: cancel_def eng_inv_sel [OF inv] live)
  with R(1-3) steady_kept [OF R(3,8,9)] show ?thesis using inv by (simp add: eng_inv_def ex_cancel_def live)
qed

section \<open>Replace\<close>

lemma replace_commit_ok:
  assumes inv: "store_inv X e" and old: "leaving X e b s" "rec_of e s = oc" "rec_id oc = ro_order_id req"
    and new: "slot_ready e t (rec_instrument_id oc) (ro_new_order_id req)" "rec_open_qty (rec_of e t) = n"
      "rec_filled_qty (rec_of e t) = rec_filled_qty oc" "n \<noteq> 0"
    and price: "in_band (ob_ladder (eng_books e ! b)) (ro_new_price req)"
  shows "\<exists>e'. replace_commit e req b oc s t n = Some e' \<and> store_inv {} e' \<and> kept e e'
    \<and> exchange_of e' = ex_commit req b (rec_side oc) (view_order (op_get (eng_pool e)) s) n (exchange_of e)
    \<and> spares {t} (eng_pool e) (eng_pool e') \<and> eng_order_index e' = eng_order_index e"
proof -
  let ?i = "ro_order_id req" and ?j = "ro_new_order_id req" and ?p = "ro_new_price req" and ?sd = "rec_side oc"
  let ?iid = "rec_instrument_id oc"
  let ?ev = "On_replaced ?i ?j ?p n"
  have b: "b < length (eng_books e)" "ob_instrument_id (eng_books e ! b) = ?iid" using old(1,2) by (simp_all add: leaving_def)
  show ?thesis
  proof (cases "?p = rec_price oc \<and> n \<le> rec_open_qty oc")
    case True
    have t: "slot_ready e t (rec_instrument_id (rec_of e s)) ?j" "rec_open_qty (rec_of e t) \<noteq> 0" using new by (simp_all add: old(2))
    note S = substitute_ok [OF inv old(1) t refl]
    have "?p = rec_price oc" "\<not> rec_open_qty oc < n" using True by auto
    then have "replace_commit e req b oc s t n = Some (emit ?ev (with_book (\<lambda>p ob. replace_in_place p ob s t) b e))"
      by (simp add: replace_commit_def)
    with S True show ?thesis by (simp add: ex_commit_def Let_def old(2,3) new(2,3))
  next
    case False
    define e1 where "e1 = emit ?ev (with_book (\<lambda>p ob. remove_resting p ob s) b e)"
    note R = remove_ok [OF inv old(1) refl]
    have inv1: "store_inv {} e1" and ex1: "exchange_of e1 = ex_emit ?ev (ex_remove b ?sd ?i (exchange_of e))" and k1: "kept e e1"
      and s1: "slot_ready e1 t ?iid ?j" and r1: "rec_of e1 t = rec_of e t"
      and b1: "b < length (eng_books e1)" "ob_instrument_id (eng_books e1 ! b) = ?iid" "in_band (ob_ladder (eng_books e1 ! b)) ?p"
      and f1: "spares {t} (eng_pool e) (eng_pool e1)" "eng_order_index e1 = eng_order_index e"
      using R(1-3) R(4) [OF new(1)] R(5-9) b price by (simp_all add: e1_def old(2,3) spares_def)
    define matched where "matched = (if ?p \<noteq> rec_price oc then match_in_engine e1 b ?iid t ?sd ?p False else Some e1)"
    have com: "replace_commit e req b oc s t n = matched \<bind> (\<lambda>e. if 0 < rec_open_qty (rec_of e t)
          then Some (with_book (\<lambda>p ob. add_resting p ob t ?sd ?p) b e) else Some e)"
      using False by (auto simp: replace_commit_def e1_def matched_def Let_def not_less)
    obtain m ex' where M: "(if ?p = rec_price oc then (n, exchange_of e1) else ex_match b ?j ?sd False ?p n (exchange_of e1)) = (m, ex')"
      by (rule prod.exhaust)
    have spec: "ex_commit req b ?sd (view_order (op_get (eng_pool e)) s) n (exchange_of e) =
        (if m = 0 then ex' else ex_rest b ?sd \<lparr>ao_id = ?j, ao_price = ?p, ao_open = m, ao_filled = rec_filled_qty oc + (n - m)\<rparr> ex')"
    proof -
      have v: "ao_price (view_order (op_get (eng_pool e)) s) = rec_price oc" "ao_open (view_order (op_get (eng_pool e)) s) = rec_open_qty oc"
        "ao_filled (view_order (op_get (eng_pool e)) s) = rec_filled_qty oc" by (simp_all add: old(2))
      show ?thesis unfolding ex_commit_def Let_def v ex1 [symmetric] M using False by auto
    qed
    have "\<exists>e2. matched = Some e2 \<and> store_inv {} e2 \<and> exchange_of e2 = ex' \<and> slot_ready e2 t ?iid ?j
      \<and> rec_open_qty (rec_of e2 t) = m \<and> rec_filled_qty (rec_of e2 t) = rec_filled_qty oc + (n - m) \<and> kept e e2
      \<and> b < length (eng_books e2) \<and> ob_instrument_id (eng_books e2 ! b) = ?iid \<and> in_band (ob_ladder (eng_books e2 ! b)) ?p
      \<and> spares {t} (eng_pool e) (eng_pool e2) \<and> eng_order_index e2 = eng_order_index e"
    proof (cases "?p = rec_price oc")
      case True
      then show ?thesis using M inv1 s1 k1 b1 f1 by (simp add: matched_def r1 new(2,3))
    next
      case moved: False
      then have m: "ex_match b ?j ?sd False ?p (rec_open_qty (rec_of e1 t)) (exchange_of e1) = (m, ex')" using M by (simp add: r1 new(2))
      obtain e2 where e2: "match_in_engine e1 b ?iid t ?sd ?p False = Some e2" "store_inv {} e2" "exchange_of e2 = ex'"
        "slot_ready e2 t ?iid ?j" "rec_of e2 t = traded (rec_open_qty (rec_of e1 t) - m) (rec_of e1 t)" "kept e1 e2"
        "ob_ladder (eng_books e2 ! b) = ob_ladder (eng_books e1 ! b)" "spares {t} (eng_pool e1) (eng_pool e2)" "eng_order_index e2 = eng_order_index e1"
        using match_ok [OF inv1 s1 b1(1,2) m] by blast
      have "b < length (eng_books e2)" "ob_instrument_id (eng_books e2 ! b) = ?iid"
        using ex_match_frame(1) [OF m] ex_match_frame(3) [OF m, of b] b1 by (simp_all flip: e2(3))
      with e2 moved b1 k1 f1 spares_trans [OF f1(1) e2(8)] show ?thesis by (intro exI [of _ e2]) (simp add: matched_def r1 new(2,3))
    qed
    then obtain e2 where e2: "matched = Some e2" "store_inv {} e2" "exchange_of e2 = ex'" "slot_ready e2 t ?iid ?j"
      "rec_open_qty (rec_of e2 t) = m" "rec_filled_qty (rec_of e2 t) = rec_filled_qty oc + (n - m)" "kept e e2"
      "b < length (eng_books e2)" "ob_instrument_id (eng_books e2 ! b) = ?iid" "in_band (ob_ladder (eng_books e2 ! b)) ?p"
      "spares {t} (eng_pool e) (eng_pool e2)" "eng_order_index e2 = eng_order_index e" by blast
    show ?thesis
    proof (cases "m = 0")
      case True
      with e2 show ?thesis by (simp add: com spec)
    next
      case False
      then have "rec_open_qty (rec_of e2 t) \<noteq> 0" by (simp add: e2(5))
      note Q = rest_ok [OF e2(2,4,8,9) refl e2(10) this refl, of ?sd]
      with False e2 spares_trans [OF e2(11) Q(4)] show ?thesis by (simp add: com spec word_greater_zero_iff)
    qed
  qed
qed

text \<open>The record and the index entry that \<open>replace\<close> gives the slot it has taken.\<close>

definition replaced_record :: "replace_order \<Rightarrow> quantity \<Rightarrow> order_record \<Rightarrow> order_record \<Rightarrow> order_record" where
  "replaced_record req n old = (\<lambda>r. r\<lparr>rec_id := ro_new_order_id req, rec_instrument_id := rec_instrument_id old, rec_side := rec_side old,
      rec_price := ro_new_price req, rec_open_qty := n, rec_filled_qty := rec_filled_qty old\<rparr>)"

definition replaced_index :: "allocator \<Rightarrow> flat_hash_map \<Rightarrow> replace_order \<Rightarrow> slot \<Rightarrow> flat_hash_map outcome" where
  "replaced_index al oi req t = (if ro_new_order_id req = ro_order_id req
      then map_option Inr (fm_assign_existing oi (ro_new_order_id req) t) else fm_insert al oi (ro_new_order_id req) t)"

lemma replaced_record:
  "\<not> rec_is_open (replaced_record req n old default_record)"
  "rec_instrument_id (replaced_record req n old default_record) = rec_instrument_id old"
  "rec_id (replaced_record req n old default_record) = ro_new_order_id req"
  by (simp_all add: replaced_record_def default_record_def)

lemma replaced_fields [simp]:
  "rec_open_qty (replaced_record req n old r) = n" "rec_filled_qty (replaced_record req n old r) = rec_filled_qty old"
  by (simp_all add: replaced_record_def)

lemma replaced_index:
  assumes "eng_inv e" "op_size (eng_pool e) < 2 ^ 32 - 1" "fm_lookup (eng_order_index e) (ro_order_id req) = Some s"
    and "ro_new_order_id req = ro_order_id req \<or> fm_lookup (eng_order_index e) (ro_new_order_id req) = None"
  shows "(\<exists>oi. replaced_index al (eng_order_index e) req t = Some (Inr oi) \<and> fm_ready oi \<and> fm_size oi \<le> Suc (fm_size (eng_order_index e))
      \<and> fm_lookup oi = (fm_lookup (eng_order_index e))(ro_new_order_id req \<mapsto> t))
    \<or> (\<exists>x r. replaced_index al (eng_order_index e) req t = Some (Inl x) \<and> al r = Some x)"
proof (cases "ro_new_order_id req = ro_order_id req")
  case True
  then show ?thesis using hash_map.assign [OF order_index_ready [OF assms(1)], of "ro_new_order_id req" t] assms(3)
    by (auto simp: replaced_index_def)
next
  case False
  with assms(4) have "fm_lookup (eng_order_index e) (ro_new_order_id req) = None" by simp
  from insert_index [OF assms(1,2) this, of al t] False show ?thesis by (simp add: replaced_index_def)
qed

lemma replace_validated_steps:
  "replace_validated al e req b r s n = op_allocate al (eng_pool e) \<bind> (\<lambda>a. case a of Inl _ \<Rightarrow> Some e
    | Inr (t, p) \<Rightarrow> replaced_index al (eng_order_index e) req t \<bind> (\<lambda>ins. case ins of
          Inl _ \<Rightarrow> Some (upd_rec t (replaced_record req n r) (e\<lparr>eng_pool := p\<rparr>))
        | Inr oi \<Rightarrow> replace_commit ((upd_rec t (replaced_record req n r) (e\<lparr>eng_pool := p\<rparr>))\<lparr>eng_order_index := oi\<rparr>) req b r s t n))"
  unfolding replace_validated_def Let_def replaced_record_def replaced_index_def order_index_upd ..

text \<open>The old order is still the only open one with its id once the new slot is indexed.\<close>

lemma leaving_indexed:
  assumes s: "fm_lookup (eng_order_index e) i = Some s" "leaving {} e b s" "rec_id (rec_of e s) = i" "j = i \<or> fm_lookup (eng_order_index e) j = None"
    and e2: "rec_of e2 s = rec_of e s" "\<not> rec_is_open (rec_of e2 t)" "fm_lookup (eng_order_index e2) = (fm_lookup (eng_order_index e))(j \<mapsto> t)"
      "eng_books e2 = eng_books e" "op_size (eng_pool e) \<le> op_size (eng_pool e2)"
  shows "leaving {t. fm_lookup (eng_order_index e) j = Some t} e2 b s"
proof -
  have X: "{t. fm_lookup (eng_order_index e) j = Some t} \<subseteq> {s}" using s(1,4) by auto
  have "x = s \<or> \<not> rec_is_open (rec_of e2 x)" if "fm_lookup (eng_order_index e2) i = Some x" for x
    using that s(1) e2(2) by (auto simp: e2(3) split: if_splits)
  then show ?thesis using s(2,3) X e2(4,5) unfolding leaving_def e2(1) by auto
qed

lemma validated_ok:
  assumes inv: "eng_inv e" and room: "op_size (eng_pool e) < 2 ^ 32 - 1"
    and s: "fm_lookup (eng_order_index e) (ro_order_id req) = Some s" "leaving {} e b s" "rec_id (rec_of e s) = ro_order_id req"
    and fresh: "ro_new_order_id req = ro_order_id req \<or> fm_lookup (eng_order_index e) (ro_new_order_id req) = None"
    and price: "in_band (ob_ladder (eng_books e ! b)) (ro_new_price req)" and n: "n \<noteq> 0"
  shows "\<exists>e'. replace_validated al e req b (rec_of e s) s n = Some e' \<and> eng_inv e' \<and> op_size (eng_pool e') \<le> Suc (op_size (eng_pool e))
    \<and> done_or_dropped al (exchange_of e) (ex_commit req b (rec_side (rec_of e s)) (view_order (op_get (eng_pool e)) s) n
        ((exchange_of e)\<lparr>ex_used := insert (ro_new_order_id req) (ex_used (exchange_of e))\<rparr>)) (exchange_of e') \<and> steady e e'"
proof -
  let ?j = "ro_new_order_id req" and ?r = "rec_of e s"
  have dropped: "?thesis" if "replace_validated al e req b ?r s n = Some e'" "al r \<noteq> None" "exchange_of e' = exchange_of e" "eng_inv e'"
    "op_size (eng_pool e') \<le> Suc (op_size (eng_pool e))" "steady e e'" for e' r
    using that by (intro exI [of _ e']) (auto simp: done_or_dropped_def)
  show ?thesis
    using inv room replaced_record [of req n ?r] replaced_index [OF inv room s(1) fresh, of al]
  proof (cases rule: take_and_index)
    case (no_slot x r)
    then show ?thesis by (intro dropped [of e r]) (simp_all add: replace_validated_steps inv)
  next
    case (no_id t p x r)
    then show ?thesis by (intro dropped [of "upd_rec t (replaced_record req n ?r) (e\<lparr>eng_pool := p\<rparr>)" r]) (simp_all add: replace_validated_steps)
  next
    case (ready t p oi e2)
    have s2: "rec_of e2 s = ?r" using ready(12) [of s] s(2) by (simp add: leaving_def)
    note leave = leaving_indexed [OF s fresh s2 _ ready(13) ready(8), unfolded ready(9,10)]
    have new: "rec_open_qty (rec_of e2 t) = n" "rec_filled_qty (rec_of e2 t) = rec_filled_qty ?r"
      "in_band (ob_ladder (eng_books e2 ! b)) (ro_new_price req)"
      using price by (simp_all add: ready(8,10))
    obtain e' where C: "replace_commit e2 req b ?r s t n = Some e'" "store_inv {} e'" "kept e2 e'"
      "exchange_of e' = ex_commit req b (rec_side ?r) (view_order (op_get (eng_pool e2)) s) n (exchange_of e2)"
      "spares {t} (eng_pool e2) (eng_pool e')" "eng_order_index e' = eng_order_index e2"
      using replace_commit_ok [OF ready(4) leave s2 s(3) ready(5) new(1,2) n new(3)] replaced_record(1) by auto
    have "x = s" if "fm_lookup (eng_order_index e) ?j = Some x" for x using that s(1) fresh by auto
    then have "steady e e2" by (intro ready(14)) (use s(2) in \<open>auto simp: leaving_def\<close>)
    then have "steady e e'" by (rule steady_spares [OF _ _ C(3,5,6)]) (simp add: ready(11))
    moreover have "view_order (op_get (eng_pool e2)) s = view_order (op_get (eng_pool e)) s" using s2 by (simp add: view_order_def)
    moreover have "replace_validated al e req b ?r s n = Some e'" using C(1) by (simp add: replace_validated_steps ready(1-3))
    moreover have "eng_inv e'" "op_size (eng_pool e') \<le> Suc (op_size (eng_pool e))"
      using C(2,3) ready(7,9) by (simp_all add: eng_inv_def)
    ultimately show ?thesis using C(4) by (intro exI [of _ e']) (simp add: done_or_dropped_def ready(6))
  qed
qed

lemma replace_ok:
  assumes inv: "eng_inv e" and room: "op_size (eng_pool e) < 2 ^ 32 - 1"
  shows "\<exists>e'. replace al e req = Some e' \<and> eng_inv e' \<and> op_size (eng_pool e') \<le> Suc (op_size (eng_pool e))
    \<and> done_or_dropped al (exchange_of e) (ex_replace req (exchange_of e)) (exchange_of e') \<and> steady e e'"
  using inv
proof (cases rule: lookup_cases [where i = "ro_order_id req"])
  case unknown
  then show ?thesis using inv
    by (intro exI [of _ "emit (On_rejected (ro_new_order_id req) kUnknownOrder) e"])
      (simp add: replace_def ex_replace_def done_or_dropped_def eng_inv_sel)
next
  case (closed s)
  then show ?thesis using inv
    by (intro exI [of _ "emit (On_rejected (ro_new_order_id req) kUnknownOrder) e"])
      (simp add: replace_def ex_replace_def done_or_dropped_def eng_inv_sel)
next
  case (live s b)
  let ?i = "ro_order_id req" and ?j = "ro_new_order_id req" and ?p = "ro_new_price req" and ?q = "ro_new_quantity req"
  let ?ex = "exchange_of e" and ?oi = "eng_order_index e" and ?r = "rec_of e s"
  note conf = eng_inv_sel(1) [OF inv] and sinv = eng_inv_sel(2) [OF inv]
  have b: "b < length (eng_books e)" "ob_instrument_id (eng_books e ! b) = rec_instrument_id ?r" using live(5) by (simp_all add: leaving_def)
  define n where "n = ?q - rec_filled_qty ?r"
  have O: "fm_ready ?oi" "fm_size ?oi \<le> op_size (eng_pool e)" using sinv by (simp_all add: store_inv_def orders_indexed_def)
  have dup: "(if ?j = ?i then Some False else fm_contains ?oi ?j) = Some (?j \<noteq> ?i \<and> ?j \<in> ex_used ?ex)"
    using hash_map.contains [OF O(1), of ?j] by auto
  have simple: "?thesis" if "replace al e req = Some e'" "eng_inv e'" "op_size (eng_pool e') = op_size (eng_pool e)"
    "exchange_of e' = ex_replace req ?ex" "steady e e'" for e'
    using that by (intro exI [of _ e']) (simp add: done_or_dropped_def)
  show ?thesis
  proof (cases "?q \<le> rec_filled_qty ?r")
    case True
    note R = remove_ok [OF sinv live(5) refl]
    show ?thesis
    proof (rule simple)
      show "replace al e req = Some (emit (On_canceled ?i (rec_open_qty ?r) kUserRequested) (with_book (\<lambda>p ob. remove_resting p ob s) b e))"
        using True [folded linorder_not_less] by (simp add: replace_def Let_def conf live(1,3,4))
    qed (use R(1-3) steady_kept [OF R(3,8,9)] conf True in \<open>simp_all add: eng_inv_def ex_replace_def Let_def live\<close>)
  next
    case more: False
    then have "rec_filled_qty ?r < ?q" "?q \<noteq> rec_filled_qty ?r" by auto
    then have n: "(if rec_filled_qty ?r < ?q then ?q - rec_filled_qty ?r else 0) = n" "n \<noteq> 0" by (simp_all add: n_def)
    have rep: "replace al e req = (if ?j \<noteq> ?i \<and> ?j \<in> ex_used ?ex then Some (emit (On_rejected ?j kDuplicateOrderId) e)
        else if \<not> is_tick_aligned ?p then Some (emit (On_rejected ?j kInvalidPriceTick) e)
        else if \<not> in_band (ob_ladder (eng_books e ! b)) ?p then Some (emit (On_rejected ?j kPriceOutOfBand) e)
        else replace_validated al e req b ?r s n)"
      unfolding replace_def Let_def using n(2)
      by (simp add: conf live(1,3,4) n(1) dup ob_price_check [OF sinv b(1)] del: exchange_of_simps(3))
    have spec: "ex_replace req ?ex = (if ?j \<noteq> ?i \<and> ?j \<in> ex_used ?ex then ex_emit (On_rejected ?j kDuplicateOrderId) ?ex
        else if \<not> is_tick_aligned ?p then ex_emit (On_rejected ?j kInvalidPriceTick) ?ex
        else if \<not> in_band (ob_ladder (eng_books e ! b)) ?p then ex_emit (On_rejected ?j kPriceOutOfBand) ?ex
        else ex_commit req b (rec_side ?r) (view_order (op_get (eng_pool e)) s) n (?ex\<lparr>ex_used := insert ?j (ex_used ?ex)\<rparr>))"
      using more by (auto simp: ex_replace_def live(7) n_def in_band_within [OF b(1)] Let_def)
    have rejected: "?thesis" if "replace al e req = Some (emit ev e)" "ex_replace req ?ex = ex_emit ev ?ex" for ev
      by (rule simple [of "emit ev e"]) (use that inv in simp_all)
    show ?thesis
    proof (cases "(?j \<noteq> ?i \<and> ?j \<in> ex_used ?ex) \<or> \<not> in_band (ob_ladder (eng_books e ! b)) ?p")
      case True
      then consider "?j \<noteq> ?i \<and> ?j \<in> ex_used ?ex"
        | "\<not> (?j \<noteq> ?i \<and> ?j \<in> ex_used ?ex)" "\<not> is_tick_aligned ?p"
        | "\<not> (?j \<noteq> ?i \<and> ?j \<in> ex_used ?ex)" "is_tick_aligned ?p" "\<not> in_band (ob_ladder (eng_books e ! b)) ?p" by blast
      then show ?thesis
      proof cases
        case 1 show ?thesis by (rule rejected; unfold rep spec if_P [OF 1]; rule refl)
      next
        case 2 show ?thesis by (rule rejected; unfold rep spec if_not_P [OF 2(1)] if_P [OF 2(2)]; rule refl)
      next
        case 3 then show ?thesis
          by (intro rejected [of "On_rejected ?j kPriceOutOfBand"]; unfold rep spec if_not_P [OF 3(1)]; simp)
      qed
    next
      case False
      then have fresh: "?j = ?i \<or> fm_lookup ?oi ?j = None" and price: "in_band (ob_ladder (eng_books e ! b)) ?p" by auto
      then have rep: "replace al e req = replace_validated al e req b ?r s n"
        and spec: "ex_replace req ?ex = ex_commit req b (rec_side ?r) (view_order (op_get (eng_pool e)) s) n
          (?ex\<lparr>ex_used := insert ?j (ex_used ?ex)\<rparr>)"
      proof -
        have ok: "\<not> (?j \<noteq> ?i \<and> ?j \<in> ex_used ?ex)" "is_tick_aligned ?p" using False by (auto simp: in_band_def)
        show "replace al e req = replace_validated al e req b ?r s n"
          "ex_replace req ?ex = ex_commit req b (rec_side ?r) (view_order (op_get (eng_pool e)) s) n
            (?ex\<lparr>ex_used := insert ?j (ex_used ?ex)\<rparr>)"
          unfolding rep spec if_not_P [OF ok(1)] using ok(2) price by simp_all
      qed
      show ?thesis using validated_ok [OF inv room live(2,5) live(6) fresh price n(2)] by (simp add: rep spec)
    qed
  qed
qed

end
