(* ===== verification/Engine_Configure.thy ===== *)
theory Engine_Configure
  imports Engine_Requests
begin

text \<open>
  \<open>configure\<close>: it succeeds exactly on valid configurations (unless the allocator refuses), leaves
  the engine as it was on every failure, and on success establishes the invariant with every
  book empty.
\<close>

section \<open>Valid configurations\<close>

text \<open>
  A band of \<open>w\<close> cents has at most \<open>w div 100 + 1\<close> ticks; the code counts them in 32 bits. This
  is what an accepted configuration has to satisfy for its ladder to be right.
\<close>

definition ladder_fits :: "instrument_config \<Rightarrow> bool" where
  "ladder_fits cfg \<longleftrightarrow> (band_hi_of (ic_reference_price cfg) (ic_band_bps cfg)
    - band_lo_of (ic_reference_price cfg) (ic_band_bps cfg)) div 100 + 1 < 2 ^ 32"

definition valid_configs :: "instrument_config list \<Rightarrow> bool" where
  "valid_configs cfgs \<longleftrightarrow> cfgs \<noteq> [] \<and> length cfgs < 2 ^ 32 \<and> distinct (map ic_instrument_id cfgs)
    \<and> (\<forall>cfg \<in> set cfgs. \<not> config_invalid cfg)"

definition book_of :: "instrument_config \<Rightarrow> order_book" where
  "book_of cfg = configured_book (ic_instrument_id cfg) (ic_reference_price cfg) (ic_band_bps cfg)"

definition empty_abook :: "instrument_config \<Rightarrow> abook" where
  "empty_abook cfg = \<lparr>ab_instrument = ic_instrument_id cfg,
    ab_band_lo = band_lo_of (ic_reference_price cfg) (ic_band_bps cfg),
    ab_band_hi = band_hi_of (ic_reference_price cfg) (ic_band_bps cfg), ab_orders = (\<lambda>_. [])\<rparr>"

lemma book_of_sel: "ob_instrument_id (book_of cfg) = ic_instrument_id cfg"
  "ob_ladder (book_of cfg) = ladder_build (band_lo_of (ic_reference_price cfg) (ic_band_bps cfg)) (band_hi_of (ic_reference_price cfg) (ic_band_bps cfg))"
  by (simp_all add: book_of_def configured_book_def Let_def)

lemma ladder_fits_ok: "ladder_fits cfg \<Longrightarrow> ladder_ok (ob_ladder (book_of cfg))"
  unfolding book_of_def ladder_fits_def
  by (intro configured_book_ladder_ok le_less_trans [OF card_grid_le]) (simp add: nat_less_iff)

lemma new_book_good:
  assumes "ladder_fits cfg" "pool_ok p" "op_size p = 0"
  shows "book_good p (book_of cfg)" "book_view p (book_of cfg) = empty_abook cfg"
proof -
  have inv: "book_inv p (book_of cfg) (\<lambda>_ _. [])"
    using configured_book_inv [OF assms(2)] ladder_fits_ok [OF assms(1)] by (simp add: book_of_def)
  then have ok: "book_ok p (book_of cfg) (\<lambda>_ _. [])" using assms(3) by (simp add: book_ok_def live_def complete_def)
  then show "book_good p (book_of cfg)" by (rule book_goodI)
  have "side_view (op_get p) (\<lambda>_ _. []) sd n = []" for sd n by (rule side_view_empty) (simp add: occupied_def)
  then show "book_view p (book_of cfg) = empty_abook cfg"
    by (simp add: book_okD(4) [OF ok] empty_abook_def book_of_sel ladder_build_def Let_def split: prod.split)
qed

section \<open>The loop over the instruments\<close>

definition prefix_indexed :: "nat \<Rightarrow> order_book list \<Rightarrow> flat_hash_map \<Rightarrow> bool" where
  "prefix_indexed i books m \<longleftrightarrow> fm_ready m \<and> fm_size m = i \<and> i \<le> length books \<and> length books < 2 ^ 32
    \<and> (\<forall>b < i. fm_lookup m (ucast (ob_instrument_id (books ! b))) = Some (word_of_nat b))
    \<and> (\<forall>k w. fm_lookup m k = Some w \<longrightarrow> unat w < i \<and> k = ucast (ob_instrument_id (books ! unat w)))"

lemma prefix_step:
  assumes P: "prefix_indexed i books m" and i: "i < length books"
    and new: "fm_lookup m (ucast (ob_instrument_id ob)) = None"
    and m': "fm_ready m'" "fm_size m' = Suc (fm_size m)" "fm_lookup m' = (fm_lookup m)(ucast (ob_instrument_id ob) \<mapsto> word_of_nat i)"
  shows "prefix_indexed (Suc i) (books[i := ob]) m'"
  unfolding prefix_indexed_def
proof (intro conjI allI impI)
  show "fm_ready m'" "fm_size m' = Suc i" "Suc i \<le> length (books[i := ob])" "length (books[i := ob]) < 2 ^ 32"
    using P i m' by (simp_all add: prefix_indexed_def)
  have i32: "unat (word_of_nat i :: 32 word) = i" using P i by (intro unat_word_of_nat) (simp add: prefix_indexed_def)
  show "fm_lookup m' (ucast (ob_instrument_id (books[i := ob] ! b))) = Some (word_of_nat b)" if "b < Suc i" for b
  proof (cases "b = i")
    case True
    with i show ?thesis by (simp add: m'(3))
  next
    case False
    with that P have look: "fm_lookup m (ucast (ob_instrument_id (books ! b))) = Some (word_of_nat b)" by (simp add: prefix_indexed_def)
    with new have "ob_instrument_id (books ! b) \<noteq> ob_instrument_id ob" by auto
    with False look show ?thesis by (simp add: m'(3))
  qed
  fix k w assume kw: "fm_lookup m' k = Some w"
  have "unat w < Suc i \<and> k = ucast (ob_instrument_id (books[i := ob] ! unat w))"
  proof (cases "k = ucast (ob_instrument_id ob)")
    case True
    with kw have "w = word_of_nat i" by (simp add: m'(3))
    with True i i32 show ?thesis by simp
  next
    case False
    with kw have "fm_lookup m k = Some w" by (simp add: m'(3))
    then have "unat w < i" "k = ucast (ob_instrument_id (books ! unat w))" using P unfolding prefix_indexed_def by blast+
    then show ?thesis by simp
  qed
  then show "unat w < Suc i" "k = ucast (ob_instrument_id (books[i := ob] ! unat w))" by blast+
qed

text \<open>
  Most of \<open>configure\<close> allocates: \<open>runs al m P\<close> says that \<open>m\<close> returns a result with \<open>P\<close>, or
  throws what the allocator threw.
\<close>

definition runs :: "allocator \<Rightarrow> 'a outcome \<Rightarrow> ('a \<Rightarrow> bool) \<Rightarrow> bool" where
  "runs al m P \<longleftrightarrow> (\<exists>x. m = Some (Inr x) \<and> P x) \<or> (\<exists>x q. m = Some (Inl x) \<and> al q = Some x)"

lemma runs_returns: "P x \<Longrightarrow> runs al (returns x) P"
  by (simp add: runs_def returns_def)

lemma runs_bind: "runs al m P \<Longrightarrow> (\<And>x. P x \<Longrightarrow> runs al (f x) Q) \<Longrightarrow> runs al (and_then m f) Q"
proof -
  assume m: "runs al m P" and f: "\<And>x. P x \<Longrightarrow> runs al (f x) Q"
  from m consider x where "m = Some (Inr x)" "P x" | x q where "m = Some (Inl x)" "al q = Some x" unfolding runs_def by blast
  then show ?thesis
  proof cases
    case 1 with f [OF 1(2)] show ?thesis by simp
  next
    case 2 then show ?thesis by (auto simp: runs_def)
  qed
qed

lemma runs_mono: "runs al m P \<Longrightarrow> (\<And>x. P x \<Longrightarrow> Q x) \<Longrightarrow> runs al m Q"
  by (auto simp: runs_def)

lemma runs_request: "runs al (request al r) (\<lambda>_. True)"
  using request_cases [of al r] by (auto simp: runs_def returns_def)

lemma runs_fm_new: "runs al (fm_new al) (\<lambda>m. fm_ready m \<and> fm_size m = 0 \<and> fm_lookup m = Map.empty)"
  unfolding fm_new_correct using blank_16
  by (intro runs_bind [OF runs_request] runs_returns) (simp add: fm_ready_def)

lemma runs_fm_reserve:
  assumes "fm_ready m" "n \<le> 2 ^ 32" "fm_size m \<le> n"
  shows "runs al (fm_reserve al m n) (\<lambda>m'. fm_ready m' \<and> fm_size m' = fm_size m \<and> fm_lookup m' = fm_lookup m)"
proof -
  obtain m' where "fm_reserve al m n = (if fm_capacity m < capacity_for n
      then and_then (request al (Alloc_slots (capacity_for n))) (\<lambda>_. returns m') else returns m')"
    "fm_ready m' \<and> fm_size m' = fm_size m \<and> fm_lookup m' = fm_lookup m"
    using fm_reserve_correct [OF assms, of al] by blast
  then show ?thesis by (auto intro: runs_bind [OF runs_request] runs_returns)
qed

lemma runs_fm_insert:
  "fm_ready m \<Longrightarrow> fm_lookup m k = None \<Longrightarrow> fm_size m < 2 ^ 32 \<Longrightarrow>
    runs al (fm_insert al m k v) (\<lambda>m'. fm_ready m' \<and> fm_size m' = Suc (fm_size m) \<and> fm_lookup m' = (fm_lookup m)(k \<mapsto> v))"
  unfolding runs_def by (rule hash_map.insert)

lemma runs_request_for: "runs al (request_for al r n) (\<lambda>_. True)"
  by (simp add: request_for_def runs_request runs_returns)

lemma runs_ob_configure: "runs al (ob_configure al i r b) (\<lambda>ob. ob = configured_book i r b)"
  unfolding ob_configure_def Let_def by (intro runs_bind [OF runs_request] runs_bind [OF runs_request_for] runs_returns) simp

lemma runs_pool: "runs al (op_new al) (\<lambda>p. pool_ok p \<and> op_size p = 0)"
  "pool_ok p \<Longrightarrow> op_size p = 0 \<Longrightarrow> runs al (op_reserve al p n) (\<lambda>p. pool_ok p \<and> op_size p = 0)"
proof -
  show "runs al (op_new al) (\<lambda>p. pool_ok p \<and> op_size p = 0)"
    unfolding op_new_def by (intro runs_bind [OF runs_request] runs_returns) (simp add: pool_ok_def)
  assume "pool_ok p" "op_size p = 0"
  from op_reserve_cases [OF this, of al n] show "runs al (op_reserve al p n) (\<lambda>p. pool_ok p \<and> op_size p = 0)"
    unfolding runs_def returns_def by (elim disjE exE conjE) blast+
qed

lemma runs_engine_new:
  "runs al (engine_new al) (\<lambda>e. \<not> eng_configured e \<and> eng_events e = [] \<and> fm_ready (eng_instrument_index e)
    \<and> fm_lookup (eng_instrument_index e) = Map.empty)"
  unfolding engine_new_def by (intro runs_bind [OF runs_fm_new] runs_bind [OF runs_pool(1)] runs_returns) simp

definition new_ids :: "instrument_config list \<Rightarrow> flat_hash_map \<Rightarrow> bool" where
  "new_ids cfgs m \<longleftrightarrow> distinct (map ic_instrument_id cfgs)
    \<and> (\<forall>cfg \<in> set cfgs. \<not> config_invalid cfg \<and> fm_lookup m (ucast (ic_instrument_id cfg)) = None)"

definition books_end :: "instrument_config list \<Rightarrow> flat_hash_map \<Rightarrow> order_book list
    \<Rightarrow> configure_result + order_book list \<times> flat_hash_map \<Rightarrow> bool" where
  "books_end cfgs m books r \<longleftrightarrow> (case r of Inl res \<Rightarrow> res = kInvalidArgument \<and> \<not> new_ids cfgs m
    | Inr (books', m') \<Rightarrow> new_ids cfgs m \<and> books' = books \<and> prefix_indexed (length books) books m')"

lemma configure_books_ok:
  assumes "prefix_indexed i books m" "length books = i + length cfgs"
  shows "runs al (configure_books al cfgs i m books) (books_end cfgs m (take i books @ map book_of cfgs))"
  using assms
proof (induction cfgs arbitrary: i m books)
  case Nil
  then show ?case by (auto intro!: runs_returns simp: new_ids_def books_end_def)
next
  case (Cons cfg cfgs)
  let ?key = "ucast (ic_instrument_id cfg) :: 64 word"
  have i: "i < length books" "fm_size m < 2 ^ 32" "fm_ready m" using Cons.prems by (simp_all add: prefix_indexed_def)
  have contains: "fm_contains m ?key = Some (fm_lookup m ?key \<noteq> None)" by (rule hash_map.contains [OF i(3)])
  show ?case
  proof (cases "config_invalid cfg \<or> fm_lookup m ?key \<noteq> None")
    case True
    then show ?thesis by (auto intro!: runs_returns simp: new_ids_def books_end_def contains)
  next
    case False
    then have fresh: "fm_lookup m ?key = None" and valid: "\<not> config_invalid cfg" by simp_all
    have body: "configure_books al (cfg # cfgs) i m books =
        and_then (ob_configure al (ic_instrument_id cfg) (ic_reference_price cfg) (ic_band_bps cfg)) (\<lambda>book.
           and_then (fm_insert al m ?key (word_of_nat i)) (\<lambda>m. configure_books al cfgs (i + 1) m (books[i := book])))"
      by (simp add: valid contains fresh)
    show ?thesis unfolding body
    proof (rule runs_bind [OF runs_ob_configure runs_bind [OF runs_fm_insert [OF i(3) fresh i(2)]]])
      fix ob m' assume ob: "ob = configured_book (ic_instrument_id cfg) (ic_reference_price cfg) (ic_band_bps cfg)"
        and m': "fm_ready m' \<and> fm_size m' = Suc (fm_size m) \<and> fm_lookup m' = (fm_lookup m)(?key \<mapsto> word_of_nat i)"
      have ob: "ob = book_of cfg" by (simp add: ob book_of_def)
      let ?books = "books[i := book_of cfg]"
      have P: "prefix_indexed (Suc i) ?books m'"
        by (rule prefix_step [OF Cons.prems(1) i(1)]) (use m' fresh in \<open>simp_all add: book_of_sel\<close>)
      have len: "length ?books = Suc i + length cfgs" using Cons.prems(2) by simp
      have books: "take (Suc i) ?books @ map book_of cfgs = take i books @ map book_of (cfg # cfgs)"
        using i(1) by (simp add: take_Suc_conv_app_nth)
      have "ic_instrument_id c = ic_instrument_id cfg \<Longrightarrow> c \<in> set cfgs \<Longrightarrow> ic_instrument_id cfg \<in> ic_instrument_id ` set cfgs" for c
        by (metis image_eqI)
      then have ids: "new_ids cfgs m' \<longleftrightarrow> new_ids (cfg # cfgs) m"
        using fresh valid m' unfolding new_ids_def by auto
      have ends: "books_end cfgs m' = books_end (cfg # cfgs) m" unfolding books_end_def ids ..
      show "runs al (configure_books al cfgs (i + 1) m' (books[i := ob])) (books_end (cfg # cfgs) m (take i books @ map book_of (cfg # cfgs)))"
        using Cons.IH [OF P len] ends unfolding ob books by simp
    qed
  qed
qed

section \<open>\<open>configure\<close>\<close>

definition configured_exchange :: "instrument_config list \<Rightarrow> engine \<Rightarrow> exchange" where
  "configured_exchange cfgs e =
    \<lparr>ex_books = map empty_abook cfgs, ex_used = {}, ex_next_trade_id = eng_next_trade_id e, ex_events = eng_events e\<rparr>"

text \<open>The four ways a \<open>configure\<close> of an engine that is not configured can end.\<close>

definition configure_end :: "allocator \<Rightarrow> engine \<Rightarrow> instrument_config list \<Rightarrow> configure_result \<times> engine \<Rightarrow> bool" where
  "configure_end al e cfgs r \<longleftrightarrow>
    (case r of
       (kOk, e') \<Rightarrow> valid_configs cfgs \<and> eng_inv e' \<and> exchange_of e' = configured_exchange cfgs e \<and> op_size (eng_pool e') = 0
     | (kInvalidArgument, e') \<Rightarrow> \<not> valid_configs cfgs \<and> e' = e
     | (kOutOfMemory, e') \<Rightarrow> (\<exists>q. al q = Some Bad_alloc) \<and> e' = e
     | (kInternalError, e') \<Rightarrow> (\<exists>q. al q = Some Other_exn) \<and> e' = e
     | (kAlreadyConfigured, e') \<Rightarrow> False)"

lemma configured_inv:
  assumes P: "prefix_indexed (length cfgs) (map book_of cfgs) m" and fits: "\<forall>cfg \<in> set cfgs. ladder_fits cfg"
    and p: "pool_ok p" "op_size p = 0" and oi: "fm_ready oi" "fm_size oi = 0" "fm_lookup oi = Map.empty"
    and e': "e' = e\<lparr>eng_books := map book_of cfgs, eng_pool := p, eng_instrument_index := m, eng_order_index := oi, eng_configured := True\<rparr>"
  shows "eng_inv e'" "exchange_of e' = configured_exchange cfgs e"
proof -
  have "books_indexed (map book_of cfgs) m" using P unfolding books_indexed_def prefix_indexed_def length_map by blast
  moreover have "books_good p (map book_of cfgs)" using fits p new_book_good(1) by (simp add: books_good_def)
  moreover have "orders_indexed {} p oi" using p oi by (simp add: orders_indexed_def)
  ultimately show "eng_inv e'" by (simp add: eng_inv_def store_inv_def e')
  show "exchange_of e' = configured_exchange cfgs e"
    using fits new_book_good(2) p by (auto simp: exchange_of_def configured_exchange_def e' oi(3))
qed

lemma configure_body_ok:
  assumes fresh: "\<not> eng_configured e" and fits: "\<forall>cfg \<in> set cfgs. \<not> config_invalid cfg \<longrightarrow> ladder_fits cfg"
  shows "runs al (configure_body al e (Some cfgs)) (configure_end al e cfgs)"
proof (cases "cfgs = [] \<or> 2 ^ 32 - 1 < length cfgs")
  case True
  then have "configure_body al e (Some cfgs) = returns (kInvalidArgument, e)" using fresh by (auto simp: configure_body_def)
  moreover have "\<not> valid_configs cfgs" using True by (auto simp: valid_configs_def)
  ultimately show ?thesis by (simp add: runs_returns configure_end_def)
next
  case False
  then have len: "cfgs \<noteq> []" "length cfgs < 2 ^ 32" "length cfgs \<le> 2 ^ 32" by simp_all
  define commit where "commit = (\<lambda>books index p oi. e\<lparr>eng_books := books, eng_pool := p, eng_instrument_index := index,
      eng_order_index := oi, eng_configured := True\<rparr>)"
  define finish where "finish = (\<lambda>r. case r of Inl res \<Rightarrow> returns (res, e)
    | Inr (books, index) \<Rightarrow> and_then (op_new al) (\<lambda>p. and_then (op_reserve al p kDefaultOrderCapacity) (\<lambda>p.
        and_then (fm_new al) (\<lambda>oi. and_then (fm_reserve al oi kDefaultOrderCapacity) (\<lambda>oi.
          returns (kOk, commit books index p oi))))))"
  have body: "configure_body al e (Some cfgs) = and_then (request al (Alloc_books (length cfgs))) (\<lambda>_.
      and_then (fm_new al) (\<lambda>index. and_then (fm_reserve al index (length cfgs)) (\<lambda>index.
        and_then (configure_books al cfgs 0 index (replicate (length cfgs) blank_book)) finish)))"
    unfolding configure_body_def finish_def commit_def using fresh False by simp
  have finish: "runs al (finish r) (configure_end al e cfgs)"
    if m: "fm_lookup m = Map.empty" and r: "books_end cfgs m (map book_of cfgs) r" for m r
  proof -
    have valid: "new_ids cfgs m \<longleftrightarrow> valid_configs cfgs" using len m by (auto simp: new_ids_def valid_configs_def)
    show ?thesis
    proof (cases r)
      case (Inl res)
      with r show ?thesis by (auto simp: finish_def books_end_def valid configure_end_def intro!: runs_returns)
    next
      case (Inr bi)
      then obtain index where R: "r = Inr (map book_of cfgs, index)" "valid_configs cfgs" "prefix_indexed (length cfgs) (map book_of cfgs) index"
        using r by (auto simp: books_end_def valid)
      have fits': "\<forall>cfg \<in> set cfgs. ladder_fits cfg" using fits R(2) by (simp add: valid_configs_def)
      have "runs al (finish (Inr (map book_of cfgs, index))) (configure_end al e cfgs)"
        unfolding finish_def sum.case prod.case
      proof (rule runs_bind [OF runs_pool(1)], rule runs_bind [OF runs_pool(2)], simp, simp,
          rule runs_bind [OF runs_fm_new], rule runs_bind [OF runs_fm_reserve])
        fix p :: order_pool and oi oi' :: flat_hash_map
        assume p: "pool_ok p \<and> op_size p = 0" and oi: "fm_ready oi \<and> fm_size oi = 0 \<and> fm_lookup oi = Map.empty"
        show "fm_ready oi" "kDefaultOrderCapacity \<le> 2 ^ 32" "fm_size oi \<le> kDefaultOrderCapacity"
          using oi by (simp_all add: kDefaultOrderCapacity_def)
        assume oi': "fm_ready oi' \<and> fm_size oi' = fm_size oi \<and> fm_lookup oi' = fm_lookup oi"
        have C: "eng_inv (commit (map book_of cfgs) index p oi')"
          "exchange_of (commit (map book_of cfgs) index p oi') = configured_exchange cfgs e"
          by (rule configured_inv [OF R(3) fits']; use p oi oi' in \<open>simp add: commit_def\<close>)+
        show "runs al (returns (kOk, commit (map book_of cfgs) index p oi')) (configure_end al e cfgs)"
          by (rule runs_returns) (use C R(2) p in \<open>simp add: configure_end_def commit_def\<close>)
      qed
      then show ?thesis by (simp only: R(1))
    qed
  qed
  show ?thesis unfolding body
  proof (rule runs_bind [OF runs_request], rule runs_bind [OF runs_fm_new], rule runs_bind [OF runs_fm_reserve])
    fix m m' :: flat_hash_map assume m: "fm_ready m \<and> fm_size m = 0 \<and> fm_lookup m = Map.empty"
    show "fm_ready m" "length cfgs \<le> 2 ^ 32" "fm_size m \<le> length cfgs" using m len by simp_all
    assume m': "fm_ready m' \<and> fm_size m' = fm_size m \<and> fm_lookup m' = fm_lookup m"
    have P: "prefix_indexed 0 (replicate (length cfgs) blank_book) m'" using m m' len(2) by (simp add: prefix_indexed_def)
    show "runs al (and_then (configure_books al cfgs 0 m' (replicate (length cfgs) blank_book)) finish) (configure_end al e cfgs)"
    proof (rule runs_bind)
      show "runs al (configure_books al cfgs 0 m' (replicate (length cfgs) blank_book)) (books_end cfgs m' (map book_of cfgs))"
        using configure_books_ok [OF P] by simp
      show "runs al (finish r) (configure_end al e cfgs)" if "books_end cfgs m' (map book_of cfgs) r" for r
        by (rule finish [OF _ that]) (use m m' in simp)
    qed
  qed
qed

lemma configure_ok:
  assumes fresh: "\<not> eng_configured e" and fits: "\<forall>cfg \<in> set cfgs. \<not> config_invalid cfg \<longrightarrow> ladder_fits cfg"
  shows "\<exists>r. configure al e (Some cfgs) = Some r \<and> configure_end al e cfgs r"
  using configure_body_ok [OF assms, of al] unfolding runs_def
proof (elim disjE exE conjE)
  fix x q assume "configure_body al e (Some cfgs) = Some (Inl x)" "al q = Some x"
  then show ?thesis by (cases x) (auto simp: configure_def configure_end_def)
qed (simp add: configure_def)

end
