(* ===== verification/Listener.thy ===== *)
theory Listener
  imports Engine
begin

text \<open>
  The handlers of \<open>src/engine.cpp\<close> with a listener whose calls may throw. Every handler is the
  body of a \<open>try\<close> block whose \<open>catch (...)\<close> swallows the exception, so a callback that throws
  ends the request where it stands: the state is the one at the call. \<open>Engine\<close> has the handlers
  for a listener that never throws; the last section shows that they are the special case.
\<close>

section \<open>Calls that may throw\<close>

text \<open>Whether a call throws, given the calls made before it.\<close>

type_synonym listener = "event list \<Rightarrow> event \<Rightarrow> bool"

abbreviation quiet :: listener where
  "quiet \<equiv> \<lambda>_ _. False"

text \<open>
  \<open>Some (Inl s)\<close>: an exception is in flight and the state is \<open>s\<close>; \<open>Some (Inr s)\<close>: the code goes on
  in state \<open>s\<close>; \<open>None\<close>: a loop does not end.
\<close>

type_synonym 's flight = "('s + 's) option"

definition resume :: "'s flight \<Rightarrow> ('s \<Rightarrow> 's flight) \<Rightarrow> 's flight" where
  "resume m f = do { r \<leftarrow> m; case r of Inl s \<Rightarrow> Some (Inl s) | Inr s \<Rightarrow> f s }"

definition caught :: "'s flight \<Rightarrow> 's option" where
  "caught m = map_option (case_sum id id) m"

definition notify :: "listener \<Rightarrow> event \<Rightarrow> engine \<Rightarrow> engine flight" where
  "notify li ev e = Some (if li (eng_events e) ev then Inl (emit ev e) else Inr (emit ev e))"

section \<open>Matching\<close>

text \<open>The call of \<open>on_trade\<close>: it comes after the trade id is taken and before any quantity changes.\<close>

definition head_trade :: "instrument_id \<Rightarrow> slot \<Rightarrow> side \<Rightarrow> 32 word \<Rightarrow> match_state \<Rightarrow> event" where
  "head_trade instrument_id agg sd idx ms =
    (let p = ms_pool ms;
         resting_slot = lvl_head (level_at (ms_book ms) (opposite sd) idx);
         fill = min (rec_open_qty (op_get p agg)) (rec_open_qty (op_get p resting_slot))
     in On_trade (ms_next_trade_id ms) instrument_id (rec_price (op_get p resting_slot)) fill
          (rec_id (op_get p resting_slot)) (rec_id (op_get p agg)) sd)"

definition trade_thrown :: "event \<Rightarrow> match_state \<Rightarrow> match_state" where
  "trade_thrown ev ms = ms\<lparr>ms_next_trade_id := ms_next_trade_id ms + 1, ms_events := ms_events ms @ [ev]\<rparr>"

partial_function (option) match_level_with :: "listener \<Rightarrow> instrument_id \<Rightarrow> slot \<Rightarrow> side \<Rightarrow> 32 word \<Rightarrow> match_state \<Rightarrow> match_state flight" where
  "match_level_with li instrument_id agg sd idx ms =
    (if 0 < rec_open_qty (op_get (ms_pool ms) agg) \<and> lvl_head (level_at (ms_book ms) (opposite sd) idx) \<noteq> kInvalidSlot
     then let ev = head_trade instrument_id agg sd idx ms
          in if li (ms_events ms) ev then Some (Inl (trade_thrown ev ms))
             else match_level_with li instrument_id agg sd idx (execute_head instrument_id agg sd idx ms)
     else Some (Inr ms))"

partial_function (option) run_matching_with :: "listener \<Rightarrow> instrument_id \<Rightarrow> slot \<Rightarrow> side \<Rightarrow> price \<Rightarrow> bool \<Rightarrow> match_state \<Rightarrow> match_state flight" where
  "run_matching_with li instrument_id agg sd limit_price is_market ms =
    (if 0 < rec_open_qty (op_get (ms_pool ms) agg) \<and> has_best (ms_book ms) (opposite sd)
     then let idx = word_of_int (best_index (ms_book ms) (opposite sd));
              resting_price = ob_index_to_price (ms_book ms) idx
          in if \<not> is_market \<and> \<not> crosses sd limit_price resting_price then Some (Inr ms)
             else do { r \<leftarrow> match_level_with li instrument_id agg sd idx ms;
                       case r of Inl ms \<Rightarrow> Some (Inl ms)
                       | Inr ms \<Rightarrow> run_matching_with li instrument_id agg sd limit_price is_market ms }
     else Some (Inr ms))"

definition match_in_engine_with :: "listener \<Rightarrow> engine \<Rightarrow> nat \<Rightarrow> instrument_id \<Rightarrow> slot \<Rightarrow> side \<Rightarrow> price \<Rightarrow> bool \<Rightarrow> engine flight" where
  "match_in_engine_with li e b instrument_id agg sd limit_price is_market =
    do { r \<leftarrow> run_matching_with li instrument_id agg sd limit_price is_market
           \<lparr>ms_pool = eng_pool e, ms_book = eng_books e ! b, ms_next_trade_id = eng_next_trade_id e,
            ms_events = eng_events e\<rparr>;
         let back = (\<lambda>ms. e\<lparr>eng_pool := ms_pool ms, eng_books := (eng_books e)[b := ms_book ms],
                            eng_next_trade_id := ms_next_trade_id ms, eng_events := ms_events ms\<rparr>);
         Some (map_sum back back r) }"

section \<open>Submit\<close>

definition submit_accepted_with :: "listener \<Rightarrow> engine \<Rightarrow> new_order \<Rightarrow> nat \<Rightarrow> slot \<Rightarrow> bool \<Rightarrow> price \<Rightarrow> engine flight" where
  "submit_accepted_with li e order b slot is_market price =
    resume (notify li (On_accepted (no_order_id order))
        (upd_rec slot (\<lambda>r. r\<lparr>rec_open_qty := no_quantity order, rec_filled_qty := 0\<rparr>) e)) (\<lambda>e.
      do {
       fillable \<leftarrow> (if no_tif order = kFok
                   then can_fully_fill (eng_books e ! b) (no_side order) is_market price (no_quantity order)
                   else Some True);
       if \<not> fillable
       then notify li (On_canceled (no_order_id order) (no_quantity order) kFokUnfillable)
              (upd_rec slot (\<lambda>r. r\<lparr>rec_open_qty := 0\<rparr>) e)
       else resume (match_in_engine_with li e b (no_instrument_id order) slot (no_side order) price is_market) (\<lambda>e.
         if 0 < rec_open_qty (rec_of e slot)
         then if no_tif order = kDay
              then Some (Inr (with_book (\<lambda>p ob. add_resting p ob slot (no_side order) price) b e))
              else let reason = (if is_market then kNoLiquidity
                                 else if no_tif order = kIoc then kIocRemainder else kFokUnfillable);
                       remainder = rec_open_qty (rec_of e slot)
                   in notify li (On_canceled (no_order_id order) remainder reason)
                        (upd_rec slot (\<lambda>r. r\<lparr>rec_open_qty := 0\<rparr>) e)
         else Some (Inr e)) })"

definition submit_validated_with :: "listener \<Rightarrow> engine \<Rightarrow> new_order \<Rightarrow> nat \<Rightarrow> slot \<Rightarrow> engine flight" where
  "submit_validated_with li e order b slot =
    (let reject = (\<lambda>reason. notify li (On_rejected (no_order_id order) reason) e);
         is_market = (no_type order = kMarket)
     in if no_quantity order = 0 then reject kInvalidQuantity
        else if is_market \<and> no_tif order = kDay then reject kInvalidTimeInForce
        else if \<not> is_market then
          if \<not> is_tick_aligned (no_price order) then reject kInvalidPriceTick
          else if ob_price_to_index (eng_books e ! b) (no_price order) < 0 then reject kPriceOutOfBand
          else submit_accepted_with li e order b slot is_market (no_price order)
        else submit_accepted_with li e order b slot is_market 0)"

text \<open>A refused allocation is an exception in flight as well.\<close>

definition submit_with :: "listener \<Rightarrow> allocator \<Rightarrow> engine \<Rightarrow> new_order \<Rightarrow> engine option" where
  "submit_with li al e order = caught
    (let reject = (\<lambda>reason. notify li (On_rejected (no_order_id order) reason) e)
     in if \<not> eng_configured e then reject kNotConfigured
        else do {
          book \<leftarrow> find_book e (no_instrument_id order);
          case book of
            None \<Rightarrow> reject kUnknownInstrument
          | Some b \<Rightarrow> do {
              dup \<leftarrow> fm_contains (eng_order_index e) (no_order_id order);
              if dup then reject kDuplicateOrderId
              else do {
                a \<leftarrow> op_allocate al (eng_pool e);
                case a of
                  Inl _ \<Rightarrow> Some (Inl e)
                | Inr (slot, p) \<Rightarrow> do {
                    let e = upd_rec slot (\<lambda>r. r\<lparr>rec_id := no_order_id order,
                        rec_instrument_id := no_instrument_id order, rec_side := no_side order\<rparr>) (e\<lparr>eng_pool := p\<rparr>);
                    ins \<leftarrow> fm_insert al (eng_order_index e) (no_order_id order) slot;
                    case ins of
                      Inl _ \<Rightarrow> Some (Inl e)
                    | Inr oi \<Rightarrow> submit_validated_with li (e\<lparr>eng_order_index := oi\<rparr>) order b slot } } } })"

section \<open>Cancel\<close>

definition cancel_with :: "listener \<Rightarrow> engine \<Rightarrow> cancel_order \<Rightarrow> engine option" where
  "cancel_with li e req = caught
    (let reject = (\<lambda>reason. notify li (On_rejected (co_order_id req) reason) e)
     in if \<not> eng_configured e then reject kNotConfigured
        else do {
          r \<leftarrow> fm_find (eng_order_index e) (co_order_id req);
          case r of
            None \<Rightarrow> reject kUnknownOrder
          | Some slot \<Rightarrow>
              if \<not> rec_is_open (rec_of e slot) then reject kUnknownOrder
              else do {
                book \<leftarrow> find_book e (rec_instrument_id (rec_of e slot));
                b \<leftarrow> book;
                let open_qty = rec_open_qty (rec_of e slot);
                notify li (On_canceled (co_order_id req) open_qty kUserRequested)
                  (with_book (\<lambda>p ob. remove_resting p ob slot) b e) } })"

section \<open>Replace\<close>

text \<open>The old order has left the book when \<open>on_replaced\<close> is called, unless it is replaced in place.\<close>

definition replace_commit_with :: "listener \<Rightarrow> engine \<Rightarrow> replace_order \<Rightarrow> nat \<Rightarrow> order_record \<Rightarrow> slot \<Rightarrow> slot \<Rightarrow> quantity \<Rightarrow> engine flight" where
  "replace_commit_with li e req b old_copy old_slot new_slot new_open =
    (let price_changed = (ro_new_price req \<noteq> rec_price old_copy);
         qty_increased = (rec_open_qty old_copy < new_open);
         ev = On_replaced (ro_order_id req) (ro_new_order_id req) (ro_new_price req) new_open
     in if price_changed \<or> qty_increased then
          resume (notify li ev (with_book (\<lambda>p ob. remove_resting p ob old_slot) b e)) (\<lambda>e.
          resume (if price_changed
               then match_in_engine_with li e b (rec_instrument_id old_copy) new_slot (rec_side old_copy) (ro_new_price req) False
               else Some (Inr e)) (\<lambda>e.
          if 0 < rec_open_qty (rec_of e new_slot)
          then Some (Inr (with_book (\<lambda>p ob. add_resting p ob new_slot (rec_side old_copy) (ro_new_price req)) b e))
          else Some (Inr e)))
        else notify li ev (with_book (\<lambda>p ob. replace_in_place p ob old_slot new_slot) b e))"

definition replace_validated_with :: "listener \<Rightarrow> allocator \<Rightarrow> engine \<Rightarrow> replace_order \<Rightarrow> nat \<Rightarrow> order_record \<Rightarrow> slot \<Rightarrow> quantity \<Rightarrow> engine flight" where
  "replace_validated_with li al e req b old_copy old_slot new_open =
    do {
      a \<leftarrow> op_allocate al (eng_pool e);
      case a of
        Inl _ \<Rightarrow> Some (Inl e)
      | Inr (new_slot, p) \<Rightarrow> do {
          let e = upd_rec new_slot (\<lambda>r. r\<lparr>rec_id := ro_new_order_id req,
              rec_instrument_id := rec_instrument_id old_copy, rec_side := rec_side old_copy,
              rec_price := ro_new_price req, rec_open_qty := new_open,
              rec_filled_qty := rec_filled_qty old_copy\<rparr>) (e\<lparr>eng_pool := p\<rparr>);
          ins \<leftarrow> (if ro_new_order_id req = ro_order_id req
                 then map_option Inr (fm_assign_existing (eng_order_index e) (ro_new_order_id req) new_slot)
                 else fm_insert al (eng_order_index e) (ro_new_order_id req) new_slot);
          case ins of
            Inl _ \<Rightarrow> Some (Inl e)
          | Inr oi \<Rightarrow> replace_commit_with li (e\<lparr>eng_order_index := oi\<rparr>) req b old_copy old_slot new_slot new_open } }"

definition replace_with :: "listener \<Rightarrow> allocator \<Rightarrow> engine \<Rightarrow> replace_order \<Rightarrow> engine option" where
  "replace_with li al e req = caught
    (let reject = (\<lambda>reason. notify li (On_rejected (ro_new_order_id req) reason) e)
     in if \<not> eng_configured e then reject kNotConfigured
        else do {
          r \<leftarrow> fm_find (eng_order_index e) (ro_order_id req);
          case r of
            None \<Rightarrow> reject kUnknownOrder
          | Some old_slot \<Rightarrow>
              if \<not> rec_is_open (rec_of e old_slot) then reject kUnknownOrder
              else do {
                let old_copy = rec_of e old_slot;
                book \<leftarrow> find_book e (rec_instrument_id old_copy);
                b \<leftarrow> book;
                let new_open = (if rec_filled_qty old_copy < ro_new_quantity req
                                then ro_new_quantity req - rec_filled_qty old_copy else 0);
                if new_open = 0
                then notify li (On_canceled (ro_order_id req) (rec_open_qty old_copy) kUserRequested)
                  (with_book (\<lambda>p ob. remove_resting p ob old_slot) b e)
                else do {
                  dup \<leftarrow> (if ro_new_order_id req = ro_order_id req then Some False
                         else fm_contains (eng_order_index e) (ro_new_order_id req));
                  if dup then reject kDuplicateOrderId
                  else if \<not> is_tick_aligned (ro_new_price req) then reject kInvalidPriceTick
                  else if ob_price_to_index (eng_books e ! b) (ro_new_price req) < 0 then reject kPriceOutOfBand
                  else replace_validated_with li al e req b old_copy old_slot new_open } } })"

fun step_with :: "listener \<Rightarrow> allocator \<Rightarrow> engine \<Rightarrow> command \<Rightarrow> engine option" where
  "step_with li al e (Submit order) = submit_with li al e order"
| "step_with li al e (Cancel req) = cancel_with li e req"
| "step_with li al e (Replace req) = replace_with li al e req"

section \<open>A listener that never throws\<close>

lemma resume_simps [simp]: "resume None f = None" "resume (Some (Inl s)) f = Some (Inl s)" "resume (Some (Inr s)) f = f s"
  by (simp_all add: resume_def)

lemma caught_simps [simp]: "caught None = None" "caught (Some (Inl s)) = Some s" "caught (Some (Inr s)) = Some s"
  by (simp_all add: caught_def)

text \<open>The last call of a handler leaves the same state whether it throws or not.\<close>

lemma caught_notify [simp]: "caught (notify li ev e) = Some (emit ev e)"
  by (simp add: notify_def)

lemma notify_quiet [simp]: "notify quiet ev e = Some (Inr (emit ev e))"
  by (simp add: notify_def)

abbreviation goes_on :: "slot \<Rightarrow> side \<Rightarrow> 32 word \<Rightarrow> match_state \<Rightarrow> bool" where
  "goes_on agg sd idx ms \<equiv> 0 < rec_open_qty (op_get (ms_pool ms) agg) \<and> lvl_head (level_at (ms_book ms) (opposite sd) idx) \<noteq> kInvalidSlot"

lemma level_go: "goes_on agg sd idx ms \<Longrightarrow> match_level iid agg sd idx ms = match_level iid agg sd idx (execute_head iid agg sd idx ms)"
  by (subst match_level.simps) (rule if_P)

lemma level_stop: "\<not> goes_on agg sd idx ms \<Longrightarrow> match_level iid agg sd idx ms = Some ms"
  by (subst match_level.simps) (rule if_not_P)

lemma level_with_go:
  assumes "goes_on agg sd idx ms" "\<not> li (ms_events ms) (head_trade iid agg sd idx ms)"
  shows "match_level_with li iid agg sd idx ms = match_level_with li iid agg sd idx (execute_head iid agg sd idx ms)"
  by (subst match_level_with.simps) (simp only: if_P [OF assms(1)] if_not_P [OF assms(2)] Let_def)

lemma level_with_throw:
  assumes "goes_on agg sd idx ms" "li (ms_events ms) (head_trade iid agg sd idx ms)"
  shows "match_level_with li iid agg sd idx ms = Some (Inl (trade_thrown (head_trade iid agg sd idx ms) ms))"
  by (subst match_level_with.simps) (simp only: if_P [OF assms(1)] if_P [OF assms(2)] Let_def)

lemma level_with_stop: "\<not> goes_on agg sd idx ms \<Longrightarrow> match_level_with li iid agg sd idx ms = Some (Inr ms)"
  by (subst match_level_with.simps) (rule if_not_P)

text \<open>
  Where a loop may be interrupted: at the call for the head of level \<open>idx\<close>, after any number of
  its orders have been executed; then, level after level, in \<open>run_matching\<close>.
\<close>

inductive in_level :: "instrument_id \<Rightarrow> slot \<Rightarrow> side \<Rightarrow> 32 word \<Rightarrow> match_state \<Rightarrow> match_state \<Rightarrow> bool"
  for iid agg sd idx where
  at_head: "goes_on agg sd idx ms \<Longrightarrow> in_level iid agg sd idx ms ms"
| past_head: "goes_on agg sd idx ms \<Longrightarrow> in_level iid agg sd idx (execute_head iid agg sd idx ms) mid \<Longrightarrow> in_level iid agg sd idx ms mid"

definition best_level_of :: "side \<Rightarrow> match_state \<Rightarrow> 32 word" where
  "best_level_of sd ms = word_of_int (best_index (ms_book ms) (opposite sd))"

definition searches :: "slot \<Rightarrow> side \<Rightarrow> price \<Rightarrow> bool \<Rightarrow> match_state \<Rightarrow> bool" where
  "searches agg sd limit_price is_market ms \<longleftrightarrow> 0 < rec_open_qty (op_get (ms_pool ms) agg) \<and> has_best (ms_book ms) (opposite sd)
    \<and> \<not> (\<not> is_market \<and> \<not> crosses sd limit_price (ob_index_to_price (ms_book ms) (best_level_of sd ms)))"

inductive in_matching :: "instrument_id \<Rightarrow> slot \<Rightarrow> side \<Rightarrow> price \<Rightarrow> bool \<Rightarrow> match_state \<Rightarrow> 32 word \<Rightarrow> match_state \<Rightarrow> bool"
  for iid agg sd limit_price is_market where
  at_level: "searches agg sd limit_price is_market ms \<Longrightarrow> in_level iid agg sd (best_level_of sd ms) ms mid
    \<Longrightarrow> in_matching iid agg sd limit_price is_market ms (best_level_of sd ms) mid"
| past_level: "searches agg sd limit_price is_market ms \<Longrightarrow> match_level iid agg sd (best_level_of sd ms) ms = Some ms1
    \<Longrightarrow> in_matching iid agg sd limit_price is_market ms1 idx mid \<Longrightarrow> in_matching iid agg sd limit_price is_market ms idx mid"

text \<open>The loops with a listener run as without, up to a call that throws.\<close>

definition level_outcome :: "listener \<Rightarrow> instrument_id \<Rightarrow> slot \<Rightarrow> side \<Rightarrow> 32 word \<Rightarrow> match_state \<Rightarrow> match_state \<Rightarrow> bool" where
  "level_outcome li iid agg sd idx ms ms' \<longleftrightarrow> match_level_with li iid agg sd idx ms = Some (Inr ms')
    \<or> (\<exists>mid. in_level iid agg sd idx ms mid \<and> li (ms_events mid) (head_trade iid agg sd idx mid)
        \<and> match_level_with li iid agg sd idx ms = Some (Inl (trade_thrown (head_trade iid agg sd idx mid) mid)))"

lemma level_with_outcome:
  assumes "match_level iid agg sd idx ms = Some ms'"
  shows "level_outcome li iid agg sd idx ms ms'"
proof (rule match_level.raw_induct [where P = "\<lambda>iid agg sd idx ms ms'. level_outcome li iid agg sd idx ms ms'", OF _ assms])
  fix go iid agg sd idx ms ms'
  assume IH: "\<And>iid agg sd idx ms ms'. go iid agg sd idx ms = Some ms' \<Longrightarrow> level_outcome li iid agg sd idx ms ms'"
    and body: "(if goes_on agg sd idx ms then go iid agg sd idx (execute_head iid agg sd idx ms) else Some ms) = Some ms'"
  show "level_outcome li iid agg sd idx ms ms'"
  proof (cases "goes_on agg sd idx ms")
    case True
    show ?thesis
    proof (cases "li (ms_events ms) (head_trade iid agg sd idx ms)")
      case throws: True
      with level_with_throw [where li = li and iid = iid, OF True] at_head [OF True] show ?thesis unfolding level_outcome_def by blast
    next
      case False
      from body have "go iid agg sd idx (execute_head iid agg sd idx ms) = Some ms'" by (simp only: if_P [OF True])
      from IH [OF this] show ?thesis
        unfolding level_outcome_def level_with_go [where li = li and iid = iid, OF True False] by (blast intro: past_head [OF True])
    qed
  next
    case False
    from body have "ms = ms'" by (simp only: if_not_P [OF False] option.inject)
    with level_with_stop [OF False] show ?thesis unfolding level_outcome_def by blast
  qed
qed

definition run_outcome :: "listener \<Rightarrow> instrument_id \<Rightarrow> slot \<Rightarrow> side \<Rightarrow> price \<Rightarrow> bool \<Rightarrow> match_state \<Rightarrow> match_state \<Rightarrow> bool" where
  "run_outcome li iid agg sd limit_price is_market ms ms' \<longleftrightarrow> run_matching_with li iid agg sd limit_price is_market ms = Some (Inr ms')
    \<or> (\<exists>idx mid. in_matching iid agg sd limit_price is_market ms idx mid \<and> li (ms_events mid) (head_trade iid agg sd idx mid)
        \<and> run_matching_with li iid agg sd limit_price is_market ms = Some (Inl (trade_thrown (head_trade iid agg sd idx mid) mid)))"

lemma run_with_stop:
  "\<not> searches agg sd limit_price is_market ms \<Longrightarrow> run_matching_with li iid agg sd limit_price is_market ms = Some (Inr ms)"
  by (subst run_matching_with.simps) (auto simp: searches_def best_level_of_def Let_def)

lemma run_with_go:
  "searches agg sd limit_price is_market ms \<Longrightarrow> run_matching_with li iid agg sd limit_price is_market ms =
    match_level_with li iid agg sd (best_level_of sd ms) ms \<bind>
      (\<lambda>r. case r of Inl ms \<Rightarrow> Some (Inl ms) | Inr ms \<Rightarrow> run_matching_with li iid agg sd limit_price is_market ms)"
  by (subst run_matching_with.simps) (simp only: searches_def best_level_of_def Let_def if_P if_not_P simp_thms)

lemma run_with_outcome:
  assumes "run_matching iid agg sd limit_price is_market ms = Some ms'"
  shows "run_outcome li iid agg sd limit_price is_market ms ms'"
proof (rule run_matching.raw_induct [where P = "\<lambda>iid agg sd limit_price is_market ms ms'. run_outcome li iid agg sd limit_price is_market ms ms'", OF _ assms])
  fix run iid agg sd limit_price is_market ms ms'
  assume IH: "\<And>iid agg sd limit_price is_market ms ms'. run iid agg sd limit_price is_market ms = Some ms'
      \<Longrightarrow> run_outcome li iid agg sd limit_price is_market ms ms'"
    and body: "(if 0 < rec_open_qty (op_get (ms_pool ms) agg) \<and> has_best (ms_book ms) (opposite sd)
     then let idx = word_of_int (best_index (ms_book ms) (opposite sd));
              resting_price = ob_index_to_price (ms_book ms) idx
          in if \<not> is_market \<and> \<not> crosses sd limit_price resting_price then Some ms
             else do { ms \<leftarrow> match_level iid agg sd idx ms; run iid agg sd limit_price is_market ms }
     else Some ms) = Some ms'"
  let ?idx = "best_level_of sd ms"
  show "run_outcome li iid agg sd limit_price is_market ms ms'"
  proof (cases "searches agg sd limit_price is_market ms")
    case True
    then have "match_level iid agg sd ?idx ms \<bind> run iid agg sd limit_price is_market = Some ms'"
      using body by (simp only: searches_def best_level_of_def Let_def if_P if_not_P simp_thms)
    then obtain ms1 where ms1: "match_level iid agg sd ?idx ms = Some ms1" "run iid agg sd limit_price is_market ms1 = Some ms'"
      by (auto simp: bind_eq_Some_conv)
    note go = run_with_go [OF True, of li iid]
    show ?thesis
    proof (cases "match_level_with li iid agg sd ?idx ms = Some (Inr ms1)")
      case calm: True
      from IH [OF ms1(2)] show ?thesis
        unfolding run_outcome_def go calm Option.bind.simps sum.case by (blast intro: past_level [OF True ms1(1)])
    next
      case False
      with level_with_outcome [OF ms1(1), of li] obtain mid where mid: "in_level iid agg sd ?idx ms mid"
        "li (ms_events mid) (head_trade iid agg sd ?idx mid)"
        "match_level_with li iid agg sd ?idx ms = Some (Inl (trade_thrown (head_trade iid agg sd ?idx mid) mid))"
        unfolding level_outcome_def by blast
      from at_level [OF True mid(1)] mid(2) show ?thesis unfolding run_outcome_def go mid(3) Option.bind.simps sum.case by blast
    qed
  next
    case False
    with body have "ms = ms'" by (auto simp: searches_def best_level_of_def Let_def split: if_splits)
    with run_with_stop [OF False] show ?thesis unfolding run_outcome_def by blast
  qed
qed

section \<open>The quiet listener\<close>

text \<open>With a listener that never throws these are the loops and handlers of \<open>Engine\<close>.\<close>

lemma level_with_quiet_Some:
  assumes "match_level_with quiet iid agg sd idx ms = Some r"
  shows "\<exists>ms'. r = Inr ms' \<and> match_level iid agg sd idx ms = Some ms'"
proof -
  let ?P = "\<lambda>li iid agg sd idx ms r. li = quiet \<longrightarrow> (\<exists>ms'. r = Inr ms' \<and> match_level iid agg sd idx ms = Some ms')"
  have "?P quiet iid agg sd idx ms r"
  proof (rule match_level_with.raw_induct [where P = ?P, OF _ assms])
    fix go li iid agg sd idx ms r
    assume IH: "\<And>li iid agg sd idx ms r. go li iid agg sd idx ms = Some r
        \<Longrightarrow> li = quiet \<longrightarrow> (\<exists>ms'. r = Inr ms' \<and> match_level iid agg sd idx ms = Some ms')"
      and body: "(if goes_on agg sd idx ms
       then let ev = head_trade iid agg sd idx ms
            in if li (ms_events ms) ev then Some (Inl (trade_thrown ev ms)) else go li iid agg sd idx (execute_head iid agg sd idx ms)
       else Some (Inr ms)) = Some r"
    show "li = quiet \<longrightarrow> (\<exists>ms'. r = Inr ms' \<and> match_level iid agg sd idx ms = Some ms')"
    proof (cases "goes_on agg sd idx ms")
      case True
      with body IH [of li iid agg sd idx "execute_head iid agg sd idx ms" r] level_go [OF True, of iid] show ?thesis
        by (simp only: if_P Let_def) auto
    next
      case False
      from body have "r = Inr ms" by (simp only: if_not_P [OF False] option.inject)
      with level_stop [OF False, of iid] show ?thesis by blast
    qed
  qed
  then show ?thesis by simp
qed

lemma level_with_quiet: "match_level_with quiet iid agg sd idx ms = map_option Inr (match_level iid agg sd idx ms)"
proof (cases "match_level_with quiet iid agg sd idx ms")
  case None
  then have "match_level iid agg sd idx ms = None"
    using level_with_outcome [of iid agg sd idx ms _ quiet] by (cases "match_level iid agg sd idx ms") (auto simp: level_outcome_def)
  with None show ?thesis by simp
qed (auto dest: level_with_quiet_Some)

lemma run_stop: "\<not> searches agg sd limit_price is_market ms \<Longrightarrow> run_matching iid agg sd limit_price is_market ms = Some ms"
  by (subst run_matching.simps) (auto simp: searches_def best_level_of_def Let_def)

lemma run_go:
  "searches agg sd limit_price is_market ms \<Longrightarrow> run_matching iid agg sd limit_price is_market ms =
    match_level iid agg sd (best_level_of sd ms) ms \<bind> run_matching iid agg sd limit_price is_market"
  by (subst run_matching.simps) (simp only: searches_def best_level_of_def Let_def if_P if_not_P simp_thms)

lemma run_with_quiet_Some:
  assumes "run_matching_with quiet iid agg sd limit_price is_market ms = Some r"
  shows "\<exists>ms'. r = Inr ms' \<and> run_matching iid agg sd limit_price is_market ms = Some ms'"
proof -
  let ?P = "\<lambda>li iid agg sd limit_price is_market ms r. li = quiet \<longrightarrow> (\<exists>ms'. r = Inr ms' \<and> run_matching iid agg sd limit_price is_market ms = Some ms')"
  have "?P quiet iid agg sd limit_price is_market ms r"
  proof (rule run_matching_with.raw_induct [where P = ?P, OF _ assms])
    fix run li iid agg sd limit_price is_market ms r
    assume IH: "\<And>li iid agg sd limit_price is_market ms r. run li iid agg sd limit_price is_market ms = Some r
        \<Longrightarrow> li = quiet \<longrightarrow> (\<exists>ms'. r = Inr ms' \<and> run_matching iid agg sd limit_price is_market ms = Some ms')"
      and body: "(if 0 < rec_open_qty (op_get (ms_pool ms) agg) \<and> has_best (ms_book ms) (opposite sd)
       then let idx = word_of_int (best_index (ms_book ms) (opposite sd));
                resting_price = ob_index_to_price (ms_book ms) idx
            in if \<not> is_market \<and> \<not> crosses sd limit_price resting_price then Some (Inr ms)
               else do { r \<leftarrow> match_level_with li iid agg sd idx ms;
                         case r of Inl ms \<Rightarrow> Some (Inl ms) | Inr ms \<Rightarrow> run li iid agg sd limit_price is_market ms }
       else Some (Inr ms)) = Some r"
    show "li = quiet \<longrightarrow> (\<exists>ms'. r = Inr ms' \<and> run_matching iid agg sd limit_price is_market ms = Some ms')"
    proof (intro impI, cases "searches agg sd limit_price is_market ms")
      case True
      assume quiet: "li = quiet"
      have "match_level_with li iid agg sd (best_level_of sd ms) ms \<bind>
          (\<lambda>r. case r of Inl ms \<Rightarrow> Some (Inl ms) | Inr ms \<Rightarrow> run li iid agg sd limit_price is_market ms) = Some r"
        using True body by (simp only: searches_def best_level_of_def Let_def if_P if_not_P simp_thms)
      then obtain ms1 where "match_level iid agg sd (best_level_of sd ms) ms = Some ms1" "run li iid agg sd limit_price is_market ms1 = Some r"
        unfolding quiet level_with_quiet by (auto simp: bind_eq_Some_conv)
      with IH quiet run_go [OF True, of iid] show "\<exists>ms'. r = Inr ms' \<and> run_matching iid agg sd limit_price is_market ms = Some ms'"
        by simp
    next
      case False
      with body have "r = Inr ms" by (auto simp: searches_def best_level_of_def Let_def split: if_splits)
      with run_stop [OF False] show "\<exists>ms'. r = Inr ms' \<and> run_matching iid agg sd limit_price is_market ms = Some ms'" by simp
    qed
  qed
  then show ?thesis by simp
qed

lemma run_with_quiet:
  "run_matching_with quiet iid agg sd limit_price is_market ms = map_option Inr (run_matching iid agg sd limit_price is_market ms)"
proof (cases "run_matching_with quiet iid agg sd limit_price is_market ms")
  case None
  then have "run_matching iid agg sd limit_price is_market ms = None"
    using run_with_outcome [of iid agg sd limit_price is_market ms _ quiet]
    by (cases "run_matching iid agg sd limit_price is_market ms") (auto simp: run_outcome_def)
  with None show ?thesis by simp
qed (auto dest: run_with_quiet_Some)

lemma match_in_engine_quiet:
  "match_in_engine_with quiet e b iid s sd limit_price is_market = map_option Inr (match_in_engine e b iid s sd limit_price is_market)"
  unfolding match_in_engine_with_def match_in_engine_def run_with_quiet
  by (cases "run_matching iid s sd limit_price is_market \<lparr>ms_pool = eng_pool e, ms_book = eng_books e ! b,
    ms_next_trade_id = eng_next_trade_id e, ms_events = eng_events e\<rparr>") simp_all

lemma resume_quiet: "resume (map_option Inr m) f = m \<bind> f"
  by (cases m) simp_all

lemma caught_map_Inr [simp]: "caught (map_option Inr m) = m"
  by (cases m) (simp_all add: caught_def)

lemma Some_Inr: "Some (Inr x) = map_option Inr (Some x)"
  by simp

lemma map_Inr_bind: "map_option Inr (m \<bind> f) = m \<bind> (\<lambda>x. map_option Inr (f x))"
  by (cases m) simp_all

lemma map_Inr_if: "map_option Inr (if c then x else y) = (if c then map_option Inr x else map_option Inr y)"
  by simp

lemma submit_accepted_quiet:
  "submit_accepted_with quiet e order b s is_market price = map_option Inr (submit_accepted e order b s is_market price)"
  unfolding submit_accepted_with_def submit_accepted_def notify_quiet resume_simps match_in_engine_quiet resume_quiet Let_def
    map_Inr_bind map_Inr_if option.map ..

lemma submit_validated_quiet:
  "submit_validated_with quiet e order b s = map_option Inr (submit_validated e order b s)"
  unfolding submit_validated_with_def submit_validated_def notify_quiet submit_accepted_quiet Let_def map_Inr_if option.map ..

lemma replace_commit_quiet:
  "replace_commit_with quiet e req b oc s t n = map_option Inr (replace_commit e req b oc s t n)"
proof -
  have if_Inr: "resume (if c then map_option Inr m else Some (Inr e)) f = (if c then m else Some e) \<bind> f" for c and m :: "engine option" and e f
    by (cases c) (simp_all add: resume_quiet)
  show ?thesis
    unfolding replace_commit_with_def replace_commit_def notify_quiet resume_simps match_in_engine_quiet if_Inr Let_def
      map_Inr_bind map_Inr_if option.map ..
qed

lemma caught_bind: "caught (m \<bind> f) = m \<bind> (\<lambda>x. caught (f x))"
  by (cases m) simp_all

lemma caught_if: "caught (if c then x else y) = (if c then caught x else caught y)"
  by simp

lemma caught_cases:
  "caught (case r of None \<Rightarrow> x | Some a \<Rightarrow> f a) = (case r of None \<Rightarrow> caught x | Some a \<Rightarrow> caught (f a))"
  "caught (case u of Inl a \<Rightarrow> g a | Inr c \<Rightarrow> h c) = (case u of Inl a \<Rightarrow> caught (g a) | Inr c \<Rightarrow> caught (h c))"
  "caught (case pr of (a, c) \<Rightarrow> k a c) = (case pr of (a, c) \<Rightarrow> caught (k a c))"
  by (simp_all split: option.split sum.split prod.split)

lemmas caught_inside = caught_bind caught_if caught_cases

lemma submit_quiet: "submit_with quiet al e order = submit al e order"
  unfolding submit_with_def submit_def Let_def caught_inside caught_notify caught_simps submit_validated_quiet caught_map_Inr ..

lemma cancel_quiet: "cancel_with li e req = cancel e req"
  unfolding cancel_with_def cancel_def Let_def caught_inside caught_notify ..

lemma replace_validated_quiet:
  "caught (replace_validated_with quiet al e req b oc s n) = replace_validated al e req b oc s n"
  unfolding replace_validated_with_def replace_validated_def Let_def caught_inside caught_simps replace_commit_quiet caught_map_Inr ..

lemma replace_quiet: "replace_with quiet al e req = replace al e req"
  unfolding replace_with_def replace_def Let_def caught_inside caught_notify replace_validated_quiet ..

lemma step_quiet: "step_with quiet al e c = step al e c"
  by (cases c) (simp_all add: submit_quiet cancel_quiet replace_quiet)

end
