(* ===== verification/Exchange_Invariant.thy ===== *)
theory Exchange_Invariant
  imports Matching_Spec "HOL-Library.Multiset"
begin

text \<open>
  What every exchange reachable from an empty one satisfies: each side in price-time order, no
  bid at or above an ask, only positive quantities that fit in 32 bits together with what was
  filled, prices on the grid and in the band, ids unique and spent.
\<close>

section \<open>Sound books\<close>

definition order_sound :: "abook \<Rightarrow> resting_order \<Rightarrow> bool" where
  "order_sound ab x \<longleftrightarrow> ao_open x \<noteq> 0 \<and> unat (ao_open x) + unat (ao_filled x) < 2 ^ 32
    \<and> is_tick_aligned (ao_price x) \<and> within_band ab (ao_price x)"

definition uncrossed :: "abook \<Rightarrow> bool" where
  "uncrossed ab \<longleftrightarrow> (\<forall>x \<in> set (ab_orders ab kBuy). \<forall>y \<in> set (ab_orders ab kSell). ao_price x < ao_price y)"

definition book_sound :: "abook \<Rightarrow> bool" where
  "book_sound ab \<longleftrightarrow> (\<forall>sd. priority_sorted sd (ab_orders ab sd) \<and> (\<forall>x \<in> set (ab_orders ab sd). order_sound ab x)) \<and> uncrossed ab"

text \<open>Order \<open>x\<close> is open on side \<open>sd\<close> of book \<open>b\<close>.\<close>

definition open_at :: "exchange \<Rightarrow> nat \<Rightarrow> side \<Rightarrow> resting_order \<Rightarrow> bool" where
  "open_at ex b sd x \<longleftrightarrow> b < length (ex_books ex) \<and> x \<in> set (ab_orders (ex_books ex ! b) sd)"

definition ids_unique :: "exchange \<Rightarrow> bool" where
  "ids_unique ex \<longleftrightarrow> (\<forall>b < length (ex_books ex). \<forall>sd. distinct (map ao_id (ab_orders (ex_books ex ! b) sd)))
    \<and> (\<forall>b sd x c sd' y. open_at ex b sd x \<longrightarrow> open_at ex c sd' y \<longrightarrow> ao_id x = ao_id y \<longrightarrow> b = c \<and> sd = sd')"

definition ids_spent :: "exchange \<Rightarrow> bool" where
  "ids_spent ex \<longleftrightarrow> (\<forall>b sd x. open_at ex b sd x \<longrightarrow> ao_id x \<in> ex_used ex)"

definition exchange_inv :: "exchange \<Rightarrow> bool" where
  "exchange_inv ex \<longleftrightarrow> (\<forall>b < length (ex_books ex). book_sound (ex_books ex ! b)) \<and> ids_unique ex \<and> ids_spent ex"

lemma exchange_invD:
  assumes "exchange_inv ex"
  shows "b < length (ex_books ex) \<Longrightarrow> book_sound (ex_books ex ! b)" "ids_unique ex" "ids_spent ex"
  using assms by (simp_all add: exchange_inv_def)

section \<open>Lists in priority order\<close>

lemma better_trans: "better sd p q \<Longrightarrow> better sd q r \<Longrightarrow> better sd p r"
  by (cases sd) simp_all

lemma better_irrefl [simp]: "\<not> better sd p p"
  by (cases sd) simp_all

lemma better_total: "better sd p q \<or> p = q \<or> better sd q p"
  by (cases sd) auto

lemma not_better_trans: "\<not> better sd q p \<Longrightarrow> \<not> better sd r q \<Longrightarrow> \<not> better sd r p"
  by (cases sd) simp_all

lemma better_opposite [simp]: "better (opposite sd) p q \<longleftrightarrow> better sd q p"
  by (cases sd) simp_all

lemma sorted_Cons: "priority_sorted sd (x # xs) \<longleftrightarrow> (\<forall>y \<in> set xs. \<not> better sd (ao_price y) (ao_price x)) \<and> priority_sorted sd xs"
  by (simp add: priority_sorted_def)

lemma sorted_append: "priority_sorted sd (xs @ ys) \<longleftrightarrow> priority_sorted sd xs \<and> priority_sorted sd ys
    \<and> (\<forall>x \<in> set xs. \<forall>y \<in> set ys. \<not> better sd (ao_price y) (ao_price x))"
  by (auto simp: priority_sorted_def sorted_wrt_append)

lemma insert_order_set [simp]: "set (insert_order sd r os) = insert r (set os)"
  unfolding insert_order_def by (metis Un_insert_right list.set(2) set_append takeWhile_dropWhile_id)

lemma insert_order_sorted: "priority_sorted sd os \<Longrightarrow> priority_sorted sd (insert_order sd r os)"
proof -
  assume s: "priority_sorted sd os"
  let ?P = "\<lambda>x. \<not> better sd (ao_price r) (ao_price x)"
  have split: "priority_sorted sd (takeWhile ?P os)" "priority_sorted sd (dropWhile ?P os)"
    "\<And>x y. x \<in> set (takeWhile ?P os) \<Longrightarrow> y \<in> set (dropWhile ?P os) \<Longrightarrow> \<not> better sd (ao_price y) (ao_price x)"
    using s sorted_append [of sd "takeWhile ?P os" "dropWhile ?P os"] by simp_all
  have after: "\<not> better sd (ao_price y) (ao_price r)" if y: "y \<in> set (dropWhile ?P os)" for y
  proof (cases "dropWhile ?P os")
    case Nil
    with y show ?thesis by simp
  next
    case (Cons z zs)
    then have z: "better sd (ao_price r) (ao_price z)" by (metis (mono_tags, lifting) dropWhile_eq_Cons_conv)
    have "\<not> better sd (ao_price y) (ao_price z)" using y split(2) unfolding Cons sorted_Cons by auto
    with z show ?thesis using better_trans by blast
  qed
  have before: "\<not> better sd (ao_price r) (ao_price x)" if "x \<in> set (takeWhile ?P os)" for x
    using that by (rule set_takeWhileD [THEN conjunct2])
  have tail: "priority_sorted sd (r # dropWhile ?P os)" unfolding sorted_Cons using after split(2) by blast
  have cross: "\<not> better sd (ao_price y) (ao_price x)" if "x \<in> set (takeWhile ?P os)" "y \<in> set (r # dropWhile ?P os)" for x y
    using that before [OF that(1)] split(3) [OF that(1)] by (cases "y = r") simp_all
  show ?thesis unfolding insert_order_def sorted_append using split(1) tail cross by blast
qed

lemma filter_sorted: "priority_sorted sd os \<Longrightarrow> priority_sorted sd (filter P os)"
  by (induction os) (auto simp: sorted_Cons)

lemma substitute_sorted:
  "priority_sorted sd os \<Longrightarrow> (\<And>x. x \<in> set os \<Longrightarrow> ao_id x = i \<Longrightarrow> ao_price x = ao_price r) \<Longrightarrow> priority_sorted sd (substitute_order i r os)"
  unfolding substitute_order_def by (induction os) (auto simp: sorted_Cons)

section \<open>What matching leaves\<close>

text \<open>
  Every order left is an order of the list, its open and filled quantities changed by a trade;
  what is left over for the aggressor finds no acceptable order any more.
\<close>

definition partly_filled :: "resting_order \<Rightarrow> resting_order \<Rightarrow> bool" where
  "partly_filled x y \<longleftrightarrow> ao_id y = ao_id x \<and> ao_price y = ao_price x \<and> ao_open y \<noteq> 0
    \<and> unat (ao_open y) + unat (ao_filled y) = unat (ao_open x) + unat (ao_filled x)"

lemma partial_fill_sums:
  fixes a f n :: "32 word"
  assumes "n < a" "unat a + unat f < 2 ^ 32"
  shows "unat (a - n) + unat (f + n) = unat a + unat f" "a - n \<noteq> 0"
proof -
  have n: "unat n < unat a" using assms(1) by (simp add: word_less_nat_alt)
  then have "unat (a - n) = unat a - unat n" by (simp add: unat_sub word_le_nat_alt)
  moreover have "unat (f + n) = unat f + unat n" using n assms(2) by (simp add: unat_word_ariths)
  ultimately show "unat (a - n) + unat (f + n) = unat a + unat f" using n by simp
  show "a - n \<noteq> 0" using assms(1) by auto
qed

lemma take_cases:
  assumes "take_liquidity iid agg sd ok tid n (r # rs) = (n', os', tid', evs)"
  obtains (stop) "n = 0 \<or> \<not> ok (ao_price r)" "n' = n" "os' = r # rs" "tid' = tid" "evs = []"
  | (whole) evs1 where "n \<noteq> 0" "ok (ao_price r)" "ao_open r \<le> n"
      "take_liquidity iid agg sd ok (tid + 1) (n - ao_open r) rs = (n', os', tid', evs1)"
      "evs = On_trade tid iid (ao_price r) (ao_open r) (ao_id r) agg sd # evs1"
  | (part) "n \<noteq> 0" "ok (ao_price r)" "n < ao_open r" "n' = 0" "tid' = tid + 1"
      "os' = r\<lparr>ao_open := ao_open r - n, ao_filled := ao_filled r + n\<rparr> # rs"
      "evs = [On_trade tid iid (ao_price r) n (ao_id r) agg sd]"
proof (cases "n = 0 \<or> \<not> ok (ao_price r)")
  case True
  then have "take_liquidity iid agg sd ok tid n (r # rs) = (n, r # rs, tid, [])" by simp
  with assms True show thesis by (intro stop) auto
next
  case go: False
  show thesis
  proof (cases "ao_open r \<le> n")
    case True
    obtain m os1 tid1 evs1 where rec: "take_liquidity iid agg sd ok (tid + 1) (n - ao_open r) rs = (m, os1, tid1, evs1)" by (rule prod_cases4)
    then have "take_liquidity iid agg sd ok tid n (r # rs) = (m, os1, tid1, On_trade tid iid (ao_price r) (ao_open r) (ao_id r) agg sd # evs1)"
      using go True by (simp add: Let_def min_def)
    with assms rec go True show thesis by (intro whole) auto
  next
    case False
    then have "take_liquidity iid agg sd ok tid n (r # rs) =
        (0, r\<lparr>ao_open := ao_open r - n, ao_filled := ao_filled r + n\<rparr> # rs, tid + 1, [On_trade tid iid (ao_price r) n (ao_id r) agg sd])"
      using go by (auto simp: Let_def min_def)
    with assms go False show thesis by (intro part) auto
  qed
qed

definition fits32 :: "resting_order \<Rightarrow> bool" where
  "fits32 x \<longleftrightarrow> ao_open x \<noteq> 0 \<and> unat (ao_open x) + unat (ao_filled x) < 2 ^ 32"

lemma take_liquidity_left:
  assumes "take_liquidity iid agg sd ok tid n os = (n', os', tid', evs)" "\<forall>x \<in> set os. fits32 x"
  shows "os' = [] \<or> (\<exists>k. k < length os \<and> tl os' = drop (Suc k) os \<and> partly_filled (os ! k) (hd os') \<and> os' \<noteq> [])"
  using assms
proof (induction os arbitrary: tid n evs)
  case (Cons r rs)
  have r: "ao_open r \<noteq> 0" "unat (ao_open r) + unat (ao_filled r) < 2 ^ 32" using Cons.prems(2) by (simp_all add: fits32_def)
  from Cons.prems(1) show ?case
  proof (cases rule: take_cases)
    case stop
    with r show ?thesis by (intro disjI2 exI [of _ 0]) (simp add: partly_filled_def)
  next
    case (whole evs1)
    from Cons.IH [OF whole(4)] Cons.prems(2)
    have "os' = [] \<or> (\<exists>k. k < length rs \<and> tl os' = drop (Suc k) rs \<and> partly_filled (rs ! k) (hd os') \<and> os' \<noteq> [])" by simp
    then show ?thesis
    proof (elim disjE exE conjE)
      fix k assume "k < length rs" "tl os' = drop (Suc k) rs" "partly_filled (rs ! k) (hd os')" "os' \<noteq> []"
      then show ?thesis by (intro disjI2 exI [of _ "Suc k"]) simp
    qed simp
  next
    case part
    with partial_fill_sums [OF part(3) r(2)] show ?thesis
      by (intro disjI2 exI [of _ 0]) (simp add: partly_filled_def)
  qed
qed simp

lemma take_liquidity_stuck:
  assumes "take_liquidity iid agg sd ok tid n os = (n', os', tid', evs)" "n' \<noteq> 0" "os' \<noteq> []"
  shows "\<not> ok (ao_price (hd os'))"
  using assms
proof (induction os arbitrary: tid n evs)
  case (Cons r rs)
  from Cons.prems(1) show ?case
  proof (cases rule: take_cases)
    case (whole evs1)
    show ?thesis by (rule Cons.IH [OF whole(4) Cons.prems(2,3)])
  qed (use Cons.prems in auto)
qed simp

lemma take_liquidity_suffix:
  assumes "take_liquidity iid agg sd ok tid n os = (n', os', tid', evs)" "\<forall>x \<in> set os. fits32 x"
  shows "\<exists>k. map ao_id os' = drop k (map ao_id os) \<and> map ao_price os' = drop k (map ao_price os)"
    and "y \<in> set os' \<Longrightarrow> \<exists>x \<in> set os. partly_filled x y"
proof -
  have refl: "partly_filled x x" if "x \<in> set os" for x using assms(2) that by (simp add: partly_filled_def fits32_def)
  from take_liquidity_left [OF assms] consider "os' = []"
    | k where "k < length os" "tl os' = drop (Suc k) os" "partly_filled (os ! k) (hd os')" "os' \<noteq> []" by blast
  then have "(\<exists>k. map ao_id os' = drop k (map ao_id os) \<and> map ao_price os' = drop k (map ao_price os))
    \<and> (\<forall>y \<in> set os'. \<exists>x \<in> set os. partly_filled x y)"
  proof cases
    case 1
    then show ?thesis by (intro conjI exI [of _ "length os"]) simp_all
  next
    case (2 k)
    then obtain y ys where os': "os' = y # ys" by (cases os') auto
    with 2 have ys: "ys = drop (Suc k) os" "partly_filled (os ! k) y" by simp_all
    have "drop k os = os ! k # ys" using 2(1) ys(1) by (simp add: Cons_nth_drop_Suc)
    then have "map ao_id os' = map ao_id (drop k os) \<and> map ao_price os' = map ao_price (drop k os)"
      using ys(2) by (simp add: os' partly_filled_def)
    moreover have "\<exists>x \<in> set os. partly_filled x z" if "z \<in> set os'" for z
      using that 2(1) ys refl by (auto simp: os' dest: in_set_dropD)
    ultimately show ?thesis by (intro conjI exI [of _ k] ballI) (simp_all add: drop_map)
  qed
  then show "\<exists>k. map ao_id os' = drop k (map ao_id os) \<and> map ao_price os' = drop k (map ao_price os)"
    "y \<in> set os' \<Longrightarrow> \<exists>x \<in> set os. partly_filled x y" by blast+
qed

lemma sorted_prices: "priority_sorted sd os \<longleftrightarrow> sorted_wrt (\<lambda>p q. \<not> better sd q p) (map ao_price os)"
  by (simp add: priority_sorted_def sorted_wrt_map)

section \<open>Changing one side of a book\<close>

lemma set_orders_sel [simp]:
  "ab_orders (set_orders sd os ab) = (ab_orders ab)(sd := os)" "ab_instrument (set_orders sd os ab) = ab_instrument ab"
  "ab_band_lo (set_orders sd os ab) = ab_band_lo ab" "ab_band_hi (set_orders sd os ab) = ab_band_hi ab"
  "within_band (set_orders sd os ab) = within_band ab" "order_sound (set_orders sd os ab) = order_sound ab"
  by (auto simp: set_orders_def within_band_def order_sound_def fun_eq_iff)

lemma uncrossed_side: "uncrossed ab \<longleftrightarrow>
    (\<forall>y \<in> set (ab_orders ab sd). \<forall>x \<in> set (ab_orders ab (opposite sd)). better sd (ao_price x) (ao_price y))"
  by (cases sd) (auto simp: uncrossed_def)

lemma all_sides: "(\<forall>s. P s) \<longleftrightarrow> P sd \<and> P (opposite sd)" for P :: "side \<Rightarrow> bool"
  by (metis (full_types) opposite.simps side.exhaust)

lemma set_orders_sound:
  assumes "book_sound ab" "priority_sorted sd os" "\<forall>y \<in> set os. order_sound ab y"
    "\<forall>y \<in> set os. \<forall>x \<in> set (ab_orders ab (opposite sd)). better sd (ao_price x) (ao_price y)"
  shows "book_sound (set_orders sd os ab)"
  using assms unfolding book_sound_def uncrossed_side [of _ sd] all_sides [of _ sd] by simp

definition id_free :: "exchange \<Rightarrow> order_id \<Rightarrow> bool" where
  "id_free ex j \<longleftrightarrow> (\<forall>b sd x. open_at ex b sd x \<longrightarrow> ao_id x \<noteq> j)"

text \<open>The one way the exchange changes, apart from its events and trade counter.\<close>

lemma change_side_inv:
  assumes inv: "exchange_inv ex" and b: "b < length (ex_books ex)"
    and ex': "ex_books ex' = (ex_books ex)[b := set_orders sd os (ex_books ex ! b)]" "ex_used ex \<subseteq> ex_used ex'"
    and sound: "book_sound (set_orders sd os (ex_books ex ! b))" and ids: "distinct (map ao_id os)"
    and known: "\<forall>y \<in> set os. ao_id y \<in> ao_id ` set (ab_orders (ex_books ex ! b) sd) \<or> id_free ex (ao_id y) \<and> ao_id y \<in> ex_used ex'"
  shows "exchange_inv ex'"
proof -
  note I = exchange_invD [OF inv]
  have open': "open_at ex' c s x \<longleftrightarrow> (if c = b \<and> s = sd then x \<in> set os else open_at ex c s x)" for c s x
    using b by (auto simp: open_at_def ex'(1) nth_list_update)
  have old: "\<exists>x. open_at ex b sd x \<and> ao_id x = ao_id y" if "y \<in> set os" "\<not> id_free ex (ao_id y)" for y
    using known that b unfolding open_at_def by fastforce
  have unique: "c = d \<and> s = t" if "open_at ex c s x" "open_at ex d t y" "ao_id x = ao_id y" for c d s t x y
    using I(2) that unfolding ids_unique_def by blast
  have "c = d \<and> s = t" if x: "open_at ex' c s x" and y: "open_at ex' d t y" and eq: "ao_id x = ao_id y" for c d s t x y
  proof -
    have mixed: "c = b \<and> s = sd" if "open_at ex c s x" "y \<in> set os" "ao_id x = ao_id y" for c s x y
    proof -
      have "\<not> id_free ex (ao_id y)" using that(1,3) unfolding id_free_def by metis
      from old [OF that(2) this] obtain z where "open_at ex b sd z" "ao_id z = ao_id y" by blast
      with unique [OF that(1) this(1)] that(3) show ?thesis by simp
    qed
    show ?thesis
      using x y eq mixed [of c s x y] mixed [of d t y x] unique [of c s x d t y] unfolding open' by (metis (full_types))
  qed
  moreover have "distinct (map ao_id (ab_orders (ex_books ex' ! c) s))" if "c < length (ex_books ex')" for c s
    using that I(2) ids b by (auto simp: ex'(1) nth_list_update ids_unique_def)
  ultimately have "ids_unique ex'" unfolding ids_unique_def by blast
  moreover have "ids_spent ex'"
    unfolding ids_spent_def
  proof (intro allI impI)
    fix c s x assume x: "open_at ex' c s x"
    show "ao_id x \<in> ex_used ex'"
    proof (cases "c = b \<and> s = sd")
      case True
      with x have m: "x \<in> set os" by (simp add: open')
      show ?thesis
      proof (cases "ao_id x \<in> ex_used ex'")
        case False
        with known m have "ao_id x \<in> ao_id ` set (ab_orders (ex_books ex ! b) sd)" by blast
        then obtain z where "open_at ex b sd z" "ao_id z = ao_id x" using b by (auto simp: open_at_def)
        with I(3) have "ao_id x \<in> ex_used ex" unfolding ids_spent_def by metis
        with ex'(2) show ?thesis by blast
      qed
    next
      case False
      with x have "open_at ex c s x" unfolding open' by metis
      with I(3) ex'(2) show ?thesis unfolding ids_spent_def by blast
    qed
  qed
  moreover have "book_sound (ex_books ex' ! c)" if "c < length (ex_books ex')" for c
    using that I(1) sound b by (auto simp: ex'(1) nth_list_update)
  ultimately show ?thesis by (simp add: exchange_inv_def)
qed

lemma emit_inv [simp]: "exchange_inv (ex_emit ev ex) \<longleftrightarrow> exchange_inv ex" "open_at (ex_emit ev ex) = open_at ex" "id_free (ex_emit ev ex) = id_free ex"
  by (simp_all add: exchange_inv_def ids_unique_def ids_spent_def open_at_def id_free_def ex_emit_def fun_eq_iff)

lemma use_id_inv: "exchange_inv ex \<Longrightarrow> exchange_inv (ex\<lparr>ex_used := insert j (ex_used ex)\<rparr>)"
  by (auto simp: exchange_inv_def ids_unique_def ids_spent_def open_at_def)

lemma id_free_used [simp]: "id_free (ex\<lparr>ex_used := U\<rparr>) = id_free ex"
  by (simp add: id_free_def open_at_def fun_eq_iff)

lemma unused_free: "exchange_inv ex \<Longrightarrow> j \<notin> ex_used ex \<Longrightarrow> id_free ex j"
  by (auto simp: exchange_inv_def ids_spent_def id_free_def)

subsection \<open>Matching\<close>

lemma order_sound_fits: "order_sound ab x \<Longrightarrow> fits32 x"
  by (simp add: order_sound_def fits32_def)

lemma partly_filled_sound: "partly_filled x y \<Longrightarrow> order_sound ab x \<Longrightarrow> order_sound ab y"
  by (simp add: partly_filled_def order_sound_def)

lemma match_inv:
  assumes inv: "exchange_inv ex" and b: "b < length (ex_books ex)"
    and m: "ex_match b i sd is_market limit_price n ex = (n', ex')"
  shows "exchange_inv ex'" "ex_used ex' = ex_used ex" "length (ex_books ex') = length (ex_books ex)"
    "id_free ex j \<Longrightarrow> id_free ex' j" "within_band (ex_books ex' ! b) = within_band (ex_books ex ! b)" "n' \<le> n"
    "n' \<noteq> 0 \<Longrightarrow> x \<in> set (ab_orders (ex_books ex' ! b) (opposite sd)) \<Longrightarrow> \<not> acceptable sd is_market limit_price (ao_price x)"
proof -
  let ?ab = "ex_books ex ! b"
  obtain os tid evs where T: "take_liquidity (ab_instrument ?ab) i sd (acceptable sd is_market limit_price)
      (ex_next_trade_id ex) n (ab_orders ?ab (opposite sd)) = (n', os, tid, evs)"
    and ex': "ex' = (upd_book b (set_orders (opposite sd) os) ex)\<lparr>ex_next_trade_id := tid, ex_events := ex_events ex @ evs\<rparr>"
    using m by (auto simp: ex_match_def Let_def split: prod.splits)
  have books: "ex_books ex' = (ex_books ex)[b := set_orders (opposite sd) os ?ab]" "ex_used ex' = ex_used ex"
    by (simp_all add: ex' upd_book_def)
  then show "ex_used ex' = ex_used ex" "length (ex_books ex') = length (ex_books ex)"
    "within_band (ex_books ex' ! b) = within_band ?ab" using b by simp_all
  show "n' \<le> n" using take_liquidity_remaining [OF T] by (simp add: word_le_nat_alt)
  note I = exchange_invD [OF inv]
  have sound: "book_sound ?ab" by (rule I(1) [OF b])
  then have fits: "\<forall>x \<in> set (ab_orders ?ab (opposite sd)). fits32 x" and sorted: "priority_sorted (opposite sd) (ab_orders ?ab (opposite sd))"
    and orders: "\<forall>x \<in> set (ab_orders ?ab (opposite sd)). order_sound ?ab x"
    using order_sound_fits by (auto simp: book_sound_def)
  note S = take_liquidity_suffix [OF T fits]
  obtain k where k: "map ao_id os = drop k (map ao_id (ab_orders ?ab (opposite sd)))" "map ao_price os = drop k (map ao_price (ab_orders ?ab (opposite sd)))"
    using S(1) by blast
  have sorted': "priority_sorted (opposite sd) os" using sorted unfolding sorted_prices k(2) by (rule sorted_wrt_drop)
  have left: "\<exists>x \<in> set (ab_orders ?ab (opposite sd)). partly_filled x y" if "y \<in> set os" for y using S(2) that .
  have "book_sound (set_orders (opposite sd) os ?ab)"
  proof (rule set_orders_sound [OF sound sorted'])
    show "\<forall>y \<in> set os. order_sound ?ab y" using left orders partly_filled_sound by blast
    show "\<forall>y \<in> set os. \<forall>x \<in> set (ab_orders ?ab (opposite (opposite sd))). better (opposite sd) (ao_price x) (ao_price y)"
    proof (intro ballI)
      fix y x assume y: "y \<in> set os" and x: "x \<in> set (ab_orders ?ab (opposite (opposite sd)))"
      obtain z where "z \<in> set (ab_orders ?ab (opposite sd))" "ao_price y = ao_price z" using left [OF y] by (auto simp: partly_filled_def)
      with x sound show "better (opposite sd) (ao_price x) (ao_price y)"
        unfolding book_sound_def uncrossed_side [of _ "opposite sd"] by simp
    qed
  qed
  moreover have "distinct (map ao_id os)" using I(2) b unfolding k(1) ids_unique_def by (blast intro: distinct_drop)
  moreover have same_id: "ao_id y \<in> ao_id ` set (ab_orders ?ab (opposite sd))" if "y \<in> set os" for y
    using left [OF that] by (auto simp: partly_filled_def)
  ultimately show "exchange_inv ex'"
    by (intro change_side_inv [OF inv b books(1)]) (simp_all add: books(2))
  show "id_free ex' j" if "id_free ex j"
    unfolding id_free_def
  proof (intro allI impI)
    fix c s x assume x: "open_at ex' c s x"
    show "ao_id x \<noteq> j"
    proof (cases "c = b \<and> s = opposite sd")
      case True
      with x b have "x \<in> set os" by (simp add: open_at_def books(1))
      from same_id [OF this] obtain z where "open_at ex b (opposite sd) z" "ao_id z = ao_id x" using b by (auto simp: open_at_def)
      with that show ?thesis unfolding id_free_def by metis
    next
      case False
      with x have "open_at ex c s x" using b by (auto simp: open_at_def books(1) nth_list_update split: if_splits)
      with that show ?thesis unfolding id_free_def by blast
    qed
  qed
  show "\<not> acceptable sd is_market limit_price (ao_price x)" if "n' \<noteq> 0" "x \<in> set (ab_orders (ex_books ex' ! b) (opposite sd))"
  proof -
    have x: "x \<in> set os" using that(2) b by (simp add: books(1))
    then obtain y ys where os: "os = y # ys" by (cases os) auto
    have y: "\<not> acceptable sd is_market limit_price (ao_price y)" using take_liquidity_stuck [OF T that(1)] by (simp add: os)
    have "x = y \<or> \<not> better sd (ao_price y) (ao_price x)" using x sorted' by (auto simp: os sorted_Cons)
    with y show ?thesis using not_better_trans by (auto simp: acceptable_def) 
  qed
qed

subsection \<open>Resting and leaving\<close>

lemma insert_order_distinct:
  "distinct (map ao_id os) \<Longrightarrow> ao_id r \<notin> ao_id ` set os \<Longrightarrow> distinct (map ao_id (insert_order sd r os))"
proof -
  assume *: "distinct (map ao_id os)" "ao_id r \<notin> ao_id ` set os"
  let ?P = "\<lambda>x. \<not> better sd (ao_price r) (ao_price x)"
  have "mset (insert_order sd r os) = mset (r # os)"
    unfolding insert_order_def by (metis (no_types, lifting) mset.simps(2) mset_append takeWhile_dropWhile_id union_mset_add_mset_right)
  then have "mset (map ao_id (insert_order sd r os)) = mset (map ao_id (r # os))" by simp
  then have "distinct (map ao_id (insert_order sd r os)) = distinct (map ao_id (r # os))" by (rule mset_eq_imp_distinct_iff)
  with * show ?thesis by simp
qed

lemma rest_inv:
  assumes inv: "exchange_inv ex" and b: "b < length (ex_books ex)" and r: "id_free ex (ao_id r)" "ao_id r \<in> ex_used ex" "order_sound (ex_books ex ! b) r"
    and price: "\<And>x. x \<in> set (ab_orders (ex_books ex ! b) (opposite sd)) \<Longrightarrow> better sd (ao_price x) (ao_price r)"
  shows "exchange_inv (ex_rest b sd r ex)"
proof (rule change_side_inv [OF inv b])
  let ?ab = "ex_books ex ! b"
  let ?os = "insert_order sd r (ab_orders ?ab sd)"
  note I = exchange_invD [OF inv]
  show "ex_books (ex_rest b sd r ex) = (ex_books ex)[b := set_orders sd ?os ?ab]" "ex_used ex \<subseteq> ex_used (ex_rest b sd r ex)"
    by (simp_all add: ex_rest_def upd_book_def)
  have sound: "book_sound ?ab" by (rule I(1) [OF b])
  show "book_sound (set_orders sd ?os ?ab)"
  proof (rule set_orders_sound [OF sound])
    show "priority_sorted sd ?os" using sound by (intro insert_order_sorted) (simp add: book_sound_def)
    show "\<forall>y \<in> set ?os. order_sound ?ab y" using sound r(3) by (simp add: book_sound_def)
    show "\<forall>y \<in> set ?os. \<forall>x \<in> set (ab_orders ?ab (opposite sd)). better sd (ao_price x) (ao_price y)"
      using sound price unfolding book_sound_def uncrossed_side [of _ sd] by simp
  qed
  have "ao_id r \<notin> ao_id ` set (ab_orders ?ab sd)" using r(1) b unfolding id_free_def open_at_def by fastforce
  then show "distinct (map ao_id ?os)" using I(2) b by (intro insert_order_distinct) (simp_all add: ids_unique_def)
  show "\<forall>y \<in> set ?os. ao_id y \<in> ao_id ` set (ab_orders ?ab sd) \<or> id_free ex (ao_id y) \<and> ao_id y \<in> ex_used (ex_rest b sd r ex)"
    using r by (simp add: ex_rest_def upd_book_def)
qed

lemma remove_inv:
  assumes inv: "exchange_inv ex" and x: "open_at ex b sd x"
  shows "exchange_inv (ex_remove b sd (ao_id x) ex)" "id_free (ex_remove b sd (ao_id x) ex) (ao_id x)"
    "id_free ex j \<Longrightarrow> id_free (ex_remove b sd (ao_id x) ex) j"
    "ab_orders (ex_books (ex_remove b sd (ao_id x) ex) ! b) (opposite sd) = ab_orders (ex_books ex ! b) (opposite sd)"
    "order_sound (ex_books (ex_remove b sd (ao_id x) ex) ! b) = order_sound (ex_books ex ! b)"
proof -
  let ?i = "ao_id x" and ?ab = "ex_books ex ! b"
  let ?os = "remove_order ?i (ab_orders ?ab sd)" and ?ex = "ex_remove b sd (ao_id x) ex"
  have b: "b < length (ex_books ex)" using x by (simp add: open_at_def)
  note I = exchange_invD [OF inv]
  have books: "ex_books ?ex = (ex_books ex)[b := set_orders sd ?os ?ab]" "ex_used ?ex = ex_used ex"
    by (simp_all add: ex_remove_def upd_book_def)
  have sound: "book_sound ?ab" by (rule I(1) [OF b])
  show "exchange_inv ?ex"
  proof (rule change_side_inv [OF inv b books(1)])
    show "book_sound (set_orders sd ?os ?ab)"
      using sound by (intro set_orders_sound [OF sound])
        (auto simp: book_sound_def remove_order_def filter_sorted uncrossed_side [of _ sd])
    show "distinct (map ao_id ?os)" using I(2) b by (simp add: remove_order_def ids_unique_def distinct_map_filter)
  qed (auto simp: books(2) remove_order_def)
  have sub: "open_at ex c s y \<and> \<not> (c = b \<and> s = sd \<and> ao_id y = ?i)" if "open_at ?ex c s y" for c s y
    using that b by (auto simp: open_at_def books(1) nth_list_update remove_order_def split: if_splits)
  show "id_free ?ex ?i"
    unfolding id_free_def using sub x I(2) unfolding ids_unique_def by blast
  show "id_free ex j \<Longrightarrow> id_free ?ex j" unfolding id_free_def using sub by blast
  show "ab_orders (ex_books ?ex ! b) (opposite sd) = ab_orders ?ab (opposite sd)" "order_sound (ex_books ?ex ! b) = order_sound ?ab"
    using b by (simp_all add: books(1))
qed

section \<open>The requests keep the invariant\<close>

lemma not_acceptable_better: "\<not> acceptable sd False limit_price p \<Longrightarrow> better sd p limit_price"
  by (simp add: acceptable_def)

text \<open>What is left of an aggressor after matching rests at its limit.\<close>

lemma match_and_rest_inv:
  assumes inv: "exchange_inv ex" and b: "b < length (ex_books ex)" and j: "id_free ex j" "j \<in> ex_used ex"
    and price: "is_tick_aligned price" "within_band (ex_books ex ! b) price"
    and m: "ex_match b j sd False price n ex = (n', ex')" "n' \<noteq> 0"
    and fits: "unat n' + unat f < 2 ^ 32"
  shows "exchange_inv (ex_rest b sd \<lparr>ao_id = j, ao_price = price, ao_open = n', ao_filled = f\<rparr> ex')"
proof -
  note M = match_inv [OF inv b m(1)]
  show ?thesis
  proof (rule rest_inv [OF M(1)])
    show "better sd (ao_price x) (ao_price \<lparr>ao_id = j, ao_price = price, ao_open = n', ao_filled = f\<rparr>)"
      if "x \<in> set (ab_orders (ex_books ex' ! b) (opposite sd))" for x
      using not_acceptable_better [OF M(7) [OF m(2) that]] by simp
  qed (use b j price m(2) fits M in \<open>simp_all add: order_sound_def\<close>)
qed

lemma sum_split_fits: "m \<le> q \<Longrightarrow> unat m + unat (q - m) < 2 ^ 32" for m q :: "32 word"
  using unsigned_less [of q] by (simp add: unat_sub word_le_nat_alt)

lemma accepted_inv:
  assumes inv: "exchange_inv ex" and b: "b < length (ex_books ex)" and i: "id_free ex (no_order_id order)" "no_order_id order \<in> ex_used ex"
    and day: "no_tif order = kDay \<Longrightarrow> \<not> is_market \<and> is_tick_aligned price \<and> within_band (ex_books ex ! b) price"
  shows "exchange_inv (ex_accepted v order b is_market price ex)"
proof -
  let ?i = "no_order_id order"
  obtain n' ex' where m: "ex_match b ?i (no_side order) is_market price (no_quantity order) ex = (n', ex')" by (rule prod.exhaust)
  note M = match_inv [OF inv b m]
  show ?thesis
  proof (cases "(no_tif order = kFok \<and> \<not> v) \<or> n' = 0 \<or> no_tif order \<noteq> kDay")
    case True
    then show ?thesis using inv M(1) by (auto simp: ex_accepted_def Let_def m)
  next
    case False
    then have d: "no_tif order = kDay" "n' \<noteq> 0" by auto
    have acc: "ex_accepted v order b is_market price ex = ex_rest b (no_side order)
        \<lparr>ao_id = ?i, ao_price = price, ao_open = n', ao_filled = no_quantity order - n'\<rparr> ex'"
      using d by (simp add: ex_accepted_def Let_def m)
    show ?thesis unfolding acc
      by (rule match_and_rest_inv [OF inv b i _ _ _ d(2) sum_split_fits [OF M(6)]]) (use day [OF d(1)] m in simp_all)
  qed
qed

lemma accept_inv:
  assumes "exchange_inv ex" "b < length (ex_books ex)" "id_free ex (no_order_id order)" "no_order_id order \<in> ex_used ex"
    and "no_tif order = kDay \<Longrightarrow> \<not> is_market \<and> is_tick_aligned price \<and> within_band (ex_books ex ! b) price"
  shows "exchange_inv (ex_accept v order b is_market price ex)"
  unfolding ex_accept_split using assms by (intro accepted_inv) simp_all

lemma book_index_less: "book_index ex iid = Some b \<Longrightarrow> b < length (ex_books ex)"
  by (simp add: book_index_def Let_def split: if_splits)

lemma submit_inv:
  assumes inv: "exchange_inv ex"
  shows "exchange_inv (ex_submit v order ex)"
proof (cases "book_index ex (no_instrument_id order)")
  case None
  then show ?thesis using inv by (simp add: ex_submit_def)
next
  case (Some b)
  note b = book_index_less [OF Some]
  show ?thesis
  proof (cases "no_order_id order \<in> ex_used ex")
    case True
    then show ?thesis using inv Some by (simp add: ex_submit_def)
  next
    case False
    let ?ex = "ex\<lparr>ex_used := insert (no_order_id order) (ex_used ex)\<rparr>"
    have inv': "exchange_inv ?ex" and b': "b < length (ex_books ?ex)" and i': "id_free ?ex (no_order_id order)" "no_order_id order \<in> ex_used ?ex"
      using use_id_inv [OF inv] unused_free [OF inv False] b by simp_all
    have sub: "ex_submit v order ex = ex_validated v order b ?ex" using False by (simp add: ex_submit_def Some)
    show ?thesis unfolding sub ex_validated_def Let_def
      using inv' by (auto intro!: accept_inv [OF inv' b' i'])
  qed
qed

lemma find_order_open:
  assumes "find_order ex i = Some (b, sd, x)"
  shows "open_at ex b sd x" "ao_id x = i"
proof -
  from assms have "(b, sd, x) \<in> set (all_orders ex) \<and> ao_id x = i"
    unfolding find_order_def find_Some_iff by (metis (mono_tags, lifting) nth_mem prod.case)
  then show "open_at ex b sd x" "ao_id x = i" by (auto simp: all_orders_def book_orders_def open_at_def)
qed

lemma cancel_inv: "exchange_inv ex \<Longrightarrow> exchange_inv (ex_cancel req ex)"
  using remove_inv(1) find_order_open by (fastforce simp: ex_cancel_def split: option.splits)

lemma substitute_inv:
  assumes inv: "exchange_inv ex" and x: "open_at ex b sd x" and r: "order_sound (ex_books ex ! b) r" "ao_price r = ao_price x"
    and j: "ao_id r = ao_id x \<or> id_free ex (ao_id r)" "ao_id r \<in> ex_used ex"
  shows "exchange_inv (upd_book b (\<lambda>ab. set_orders sd (substitute_order (ao_id x) r (ab_orders ab sd)) ab) ex)" (is "exchange_inv ?ex'")
proof -
  let ?ab = "ex_books ex ! b"
  let ?L = "ab_orders ?ab sd"
  let ?os = "substitute_order (ao_id x) r ?L"
  have b: "b < length (ex_books ex)" and mem: "x \<in> set ?L" using x by (simp_all add: open_at_def)
  note I = exchange_invD [OF inv]
  have sound: "book_sound ?ab" by (rule I(1) [OF b])
  have dist: "distinct (map ao_id ?L)" using I(2) b by (simp add: ids_unique_def)
  have same: "y = x" if "y \<in> set ?L" "ao_id y = ao_id x" for y
    using dist mem that by (simp add: distinct_map inj_on_def)
  have books: "ex_books ?ex' = (ex_books ex)[b := set_orders sd ?os ?ab]" "ex_used ?ex' = ex_used ex" by (simp_all add: upd_book_def)
  have elems: "y = r \<or> y \<in> set ?L" if "y \<in> set ?os" for y using that by (auto simp: substitute_order_def split: if_splits)
  show ?thesis
  proof (rule change_side_inv [OF inv b books(1)])
    show "book_sound (set_orders sd ?os ?ab)"
    proof (rule set_orders_sound [OF sound])
      show "priority_sorted sd ?os"
        using sound same r(2) by (intro substitute_sorted) (auto simp: book_sound_def)
      show "\<forall>y \<in> set ?os. order_sound ?ab y" using elems sound r(1) by (auto simp: book_sound_def)
      show "\<forall>y \<in> set ?os. \<forall>z \<in> set (ab_orders ?ab (opposite sd)). better sd (ao_price z) (ao_price y)"
        using elems sound r(2) mem unfolding book_sound_def uncrossed_side [of _ sd] by metis
    qed
    have new: "ao_id r \<notin> ao_id ` (set ?L - {x})"
    proof
      assume "ao_id r \<in> ao_id ` (set ?L - {x})"
      then obtain y where "y \<in> set ?L - {x}" "ao_id r = ao_id y" by blast
      then have y: "y \<in> set ?L" "y \<noteq> x" "ao_id y = ao_id r" by auto
      with j(1) same b show False unfolding id_free_def open_at_def by metis
    qed
    have "map ao_id ?os = map (\<lambda>y. if ao_id y = ao_id x then ao_id r else ao_id y) ?L" by (simp add: substitute_order_def)
    moreover have "inj_on (\<lambda>y. if ao_id y = ao_id x then ao_id r else ao_id y) (set ?L)"
    proof (rule inj_onI)
      fix y z assume y: "y \<in> set ?L" and z: "z \<in> set ?L"
        and eq: "(if ao_id y = ao_id x then ao_id r else ao_id y) = (if ao_id z = ao_id x then ao_id r else ao_id z)"
      have "ao_id w \<noteq> ao_id r" if "w \<in> set ?L" "w \<noteq> x" for w using new that by (metis DiffI empty_iff image_eqI insert_iff)
      with y z eq same [OF y] same [OF z] dist show "y = z" by (auto simp: distinct_map inj_on_def split: if_splits)
    qed
    ultimately show "distinct (map ao_id ?os)" using dist by (simp add: distinct_map)
    show "\<forall>y \<in> set ?os. ao_id y \<in> ao_id ` set ?L \<or> id_free ex (ao_id y) \<and> ao_id y \<in> ex_used ?ex'"
      using elems j mem by (metis books(2) image_eqI)
  qed (simp add: books(2))
qed

text \<open>What becomes of a replace: unknown, a cancellation, a rejection, or a replacement.\<close>

lemma replace_outcomes:
  assumes found: "find_order ex (ro_order_id req) = Some (b, sd, r)"
  obtains (cancel) "ro_new_quantity req \<le> ao_filled r"
      "ex_replace req ex = ex_emit (On_canceled (ro_order_id req) (ao_open r) kUserRequested) (ex_remove b sd (ro_order_id req) ex)"
    | (reject) reason where "ex_replace req ex = ex_emit (On_rejected (ro_new_order_id req) reason) ex"
    | (commit) "ao_filled r < ro_new_quantity req" "ro_new_order_id req = ro_order_id req \<or> ro_new_order_id req \<notin> ex_used ex"
        "is_tick_aligned (ro_new_price req)" "within_band (ex_books ex ! b) (ro_new_price req)"
        "ex_replace req ex = ex_commit req b sd r (ro_new_quantity req - ao_filled r) (ex\<lparr>ex_used := insert (ro_new_order_id req) (ex_used ex)\<rparr>)"
proof (cases "ro_new_quantity req \<le> ao_filled r")
  case True
  then show thesis by (intro cancel) (simp_all add: ex_replace_def found Let_def)
next
  case more: False
  let ?bad = "(ro_new_order_id req \<noteq> ro_order_id req \<and> ro_new_order_id req \<in> ex_used ex) \<or> \<not> is_tick_aligned (ro_new_price req)
    \<or> \<not> within_band (ex_books ex ! b) (ro_new_price req)"
  show thesis
  proof (cases ?bad)
    case True
    then have "\<exists>reason. ex_replace req ex = ex_emit (On_rejected (ro_new_order_id req) reason) ex"
      using more by (auto simp: ex_replace_def found Let_def)
    then show thesis using reject by blast
  next
    case False
    then show thesis using more by (intro commit) (auto simp: ex_replace_def found Let_def)
  qed
qed

text \<open>The three ways to replace: in place, at the end of the same price, at another price.\<close>

lemma requeue_inv:
  assumes inv: "exchange_inv ex" "exchange_inv ex1" and r: "open_at ex b sd r" and b: "b < length (ex_books ex1)" and j: "id_free ex1 (ao_id y)" "ao_id y \<in> ex_used ex1"
    and same: "ab_orders (ex_books ex1 ! b) (opposite sd) = ab_orders (ex_books ex ! b) (opposite sd)" "ao_price y = ao_price r"
    and y: "order_sound (ex_books ex1 ! b) y"
  shows "exchange_inv (ex_rest b sd y ex1)"
proof (rule rest_inv [OF inv(2) b])
  have "book_sound (ex_books ex ! b)" using exchange_invD(1) [OF inv(1)] r by (simp add: open_at_def)
  then show "better sd (ao_price x) (ao_price y)" if "x \<in> set (ab_orders (ex_books ex1 ! b) (opposite sd))" for x
    using that r unfolding same book_sound_def uncrossed_side [of _ sd] open_at_def by simp
qed (use j y in simp_all)

lemma moved_inv:
  assumes inv: "exchange_inv ex" and b: "b < length (ex_books ex)" and j: "id_free ex j" "j \<in> ex_used ex"
    and price: "is_tick_aligned p" "within_band (ex_books ex ! b) p" and sum: "unat n + unat f < 2 ^ 32" and m: "ex_match b j sd False p n ex = (m, ex')"
  shows "exchange_inv (if m = 0 then ex' else ex_rest b sd \<lparr>ao_id = j, ao_price = p, ao_open = m, ao_filled = f + (n - m)\<rparr> ex')"
proof -
  note M = match_inv [OF inv b m]
  have "unat (n - m) = unat n - unat m" "unat m \<le> unat n" using M(6) by (simp_all add: unat_sub word_le_nat_alt)
  then have fits: "unat m + unat (f + (n - m)) < 2 ^ 32" using sum by (simp add: unat_word_ariths)
  have "m \<noteq> 0 \<Longrightarrow> exchange_inv (ex_rest b sd \<lparr>ao_id = j, ao_price = p, ao_open = m, ao_filled = f + (n - m)\<rparr> ex')"
    using match_and_rest_inv [OF inv b j _ _ m _ fits] price by simp
  then show ?thesis using M(1) by simp
qed

lemma commit_inv:
  assumes inv: "exchange_inv ex" and r: "open_at ex b sd r" "ao_id r = ro_order_id req" and j: "ro_new_order_id req = ro_order_id req \<or> id_free ex (ro_new_order_id req)"
    "ro_new_order_id req \<in> ex_used ex" and price: "is_tick_aligned (ro_new_price req)" "within_band (ex_books ex ! b) (ro_new_price req)"
    and sum: "unat n + unat (ao_filled r) < 2 ^ 32" "n \<noteq> 0"
  shows "exchange_inv (ex_commit req b sd r n ex)"
proof -
  let ?i = "ro_order_id req" and ?j = "ro_new_order_id req" and ?p = "ro_new_price req"
  let ?r = "\<lparr>ao_id = ?j, ao_price = ?p, ao_open = n, ao_filled = ao_filled r\<rparr>" and ?ex1 = "ex_emit (On_replaced ?i ?j ?p n) (ex_remove b sd ?i ex)"
  note R = remove_inv [OF inv r(1), unfolded r(2)]
  have b: "b < length (ex_books ex)" using r(1) by (simp add: open_at_def)
  have inv1: "exchange_inv ?ex1" and b1: "b < length (ex_books ?ex1)" and j1: "id_free ?ex1 ?j" "?j \<in> ex_used ?ex1"
    using R(1-3) j b by (auto simp: ex_remove_def)
  have band: "within_band (ex_books ?ex1 ! b) = within_band (ex_books ex ! b)" using b by (simp add: ex_remove_def)
  consider (keeps) "?p = ao_price r" "n \<le> ao_open r" | (requeued) "?p = ao_price r" "\<not> n \<le> ao_open r" | (moved) "?p \<noteq> ao_price r" by blast
  then show ?thesis
  proof cases
    case keeps
    have "exchange_inv (upd_book b (\<lambda>ab. set_orders sd (substitute_order (ao_id r) ?r (ab_orders ab sd)) ab) ex)"
      by (rule substitute_inv [OF inv r(1)]) (use keeps j r(2) price sum in \<open>simp_all add: order_sound_def\<close>)
    then show ?thesis using keeps by (simp add: ex_commit_def Let_def r(2))
  next
    case requeued
    then have "ex_commit req b sd r n ex = ex_rest b sd ?r ?ex1" using sum(2) by (simp add: ex_commit_def Let_def)
    moreover have "exchange_inv (ex_rest b sd ?r ?ex1)"
      by (rule requeue_inv [OF inv inv1 r(1) b1]) (use j1 R(4) requeued price sum band in \<open>simp_all add: order_sound_def\<close>)
    ultimately show ?thesis by simp
  next
    case moved
    obtain m ex' where m: "ex_match b ?j sd False ?p n ?ex1 = (m, ex')" by (rule prod.exhaust)
    then have "ex_commit req b sd r n ex = (if m = 0 then ex' else ex_rest b sd \<lparr>ao_id = ?j, ao_price = ?p, ao_open = m, ao_filled = ao_filled r + (n - m)\<rparr> ex')"
      using moved by (simp add: ex_commit_def Let_def)
    moreover have "within_band (ex_books ?ex1 ! b) ?p" using band price(2) by simp
    ultimately show ?thesis using moved_inv [OF inv1 b1 j1 price(1) _ sum(1) m] by simp
  qed
qed

lemma replace_inv:
  assumes inv: "exchange_inv ex"
  shows "exchange_inv (ex_replace req ex)"
proof (cases "find_order ex (ro_order_id req)")
  case None
  then show ?thesis using inv by (simp add: ex_replace_def)
next
  case (Some bsr)
  obtain b sd r where found: "find_order ex (ro_order_id req) = Some (b, sd, r)" using Some by (cases bsr) auto
  have r: "open_at ex b sd r" "ao_id r = ro_order_id req" using find_order_open [OF found] by simp_all
  from found show ?thesis
  proof (cases rule: replace_outcomes)
    case cancel
    then show ?thesis using remove_inv(1) [OF inv r(1)] by (simp add: r(2))
  next
    case reject
    then show ?thesis using inv by simp
  next
    case commit
    let ?n = "ro_new_quantity req - ao_filled r" and ?j = "ro_new_order_id req"
    let ?ex = "ex\<lparr>ex_used := insert ?j (ex_used ex)\<rparr>"
    have sum: "unat ?n + unat (ao_filled r) = unat (ro_new_quantity req)" "?n \<noteq> 0" using commit(1)
      by (auto simp: unat_sub word_le_nat_alt word_less_nat_alt less_imp_le)
    then have fits: "unat ?n + unat (ao_filled r) < 2 ^ 32" using unsigned_less [of "ro_new_quantity req"] by simp
    have "exchange_inv ?ex" "open_at ?ex b sd r" using use_id_inv [OF inv] r(1) by (simp_all add: open_at_def)
    moreover have "?j = ro_order_id req \<or> id_free ?ex ?j" using commit(2) unused_free [OF inv, of ?j] by auto
    ultimately show ?thesis unfolding commit(5) using commit(3,4) fits sum(2) r(2) by (intro commit_inv) simp_all
  qed
qed

end
