(* ===== verification/Interrupted_Matching.thy ===== *)
theory Interrupted_Matching
  imports Loop_Refinement Listener Exchange_Invariant
begin

text \<open>
  Matching that a throwing \<open>on_trade\<close> interrupts: the orders executed before the call are gone
  whole, the one at the call is untouched, although its trade has an id and an event. The book
  is the one that a smaller aggressor, of just the quantity executed so far, would leave.
\<close>

section \<open>Stopping at a trade\<close>

text \<open>
  An aggressor of \<open>n\<close> lots reaches the trade \<open>ev\<close> after \<open>m\<close> lots, when \<open>os1\<close> is what is left of
  the side, \<open>tid1\<close> the id of the trade and \<open>tr1\<close> the trades before it.
\<close>

definition stops_at :: "instrument_id \<Rightarrow> order_id \<Rightarrow> side \<Rightarrow> (price \<Rightarrow> bool) \<Rightarrow> trade_id \<Rightarrow> quantity \<Rightarrow> resting_order list
    \<Rightarrow> quantity \<Rightarrow> resting_order list \<Rightarrow> trade_id \<Rightarrow> event list \<Rightarrow> event \<Rightarrow> bool" where
  "stops_at iid agg sd ok tid n os m os1 tid1 tr1 ev \<longleftrightarrow> m < n \<and> os1 \<noteq> []
    \<and> take_liquidity iid agg sd ok tid m os = (0, os1, tid1, tr1)
    \<and> (\<exists>n' os' tid' tr2. take_liquidity iid agg sd ok tid n os = (n', os', tid', tr1 @ ev # tr2))"

lemma stops_here:
  assumes "n \<noteq> 0" "ok (ao_price r)"
  shows "stops_at iid agg sd ok tid n (r # rs) 0 (r # rs) tid [] (On_trade tid iid (ao_price r) (min n (ao_open r)) (ao_id r) agg sd)"
proof -
  have "\<exists>n' os' tid' tr2. take_liquidity iid agg sd ok tid n (r # rs)
      = (n', os', tid', On_trade tid iid (ao_price r) (min n (ao_open r)) (ao_id r) agg sd # tr2)"
    using assms by (auto simp: Let_def split: prod.split)
  with assms(1) show ?thesis by (simp add: stops_at_def word_neq_0_conv del: take_liquidity.simps)
qed

lemma stops_past:
  assumes "ao_open r < n" "ao_open r \<noteq> 0" "ok (ao_price r)" and S: "stops_at iid agg sd ok (tid + 1) (n - ao_open r) rs m os1 tid1 tr1 ev"
  shows "stops_at iid agg sd ok tid n (r # rs) (ao_open r + m) os1 tid1
    (On_trade tid iid (ao_price r) (ao_open r) (ao_id r) agg sd # tr1) ev"
proof -
  let ?ev = "On_trade tid iid (ao_price r) (ao_open r) (ao_id r) agg sd" and ?m = "ao_open r + m"
  have m: "m < n - ao_open r" using S by (simp add: stops_at_def)
  have sum: "unat ?m = unat (ao_open r) + unat m" "unat (ao_open r) + unat m < unat n"
  proof -
    have "unat (n - ao_open r) = unat n - unat (ao_open r)" using assms(1) by (simp add: unat_sub)
    with m have lt: "unat (ao_open r) + unat m < unat n" by (simp add: word_less_nat_alt)
    then show "unat (ao_open r) + unat m < unat n" .
    have "unat n < 2 ^ 32" using unsigned_less [of n] by simp
    with lt show "unat ?m = unat (ao_open r) + unat m" by (intro unat_plus_exact) simp
  qed
  have pos: "?m \<noteq> 0" "ao_open r \<le> ?m" "?m < n" "n \<noteq> 0"
    using sum assms(2) by (auto simp: word_less_nat_alt word_le_nat_alt unat_eq_0)
  have step: "take_liquidity iid agg sd ok tid k (r # rs) = (case take_liquidity iid agg sd ok (tid + 1) (k - ao_open r) rs of
      (n', os', tid', tr) \<Rightarrow> (n', os', tid', ?ev # tr))" if "k \<noteq> 0" "ao_open r \<le> k" for k
    using that assms(3) by (simp add: Let_def min_def)
  show ?thesis
    using S step [OF pos(1,2)] step [OF pos(4)] assms(1) pos(3) by (auto simp: stops_at_def simp del: take_liquidity.simps)
qed

lemma stops_append:
  assumes "stops_at iid agg sd ok tid n xs m os1 tid1 tr1 ev"
  shows "stops_at iid agg sd ok tid n (xs @ ys) m (os1 @ ys) tid1 tr1 ev"
proof -
  obtain n' os' tid' tr2 where T: "m < n" "os1 \<noteq> []" "take_liquidity iid agg sd ok tid m xs = (0, os1, tid1, tr1)"
    "take_liquidity iid agg sd ok tid n xs = (n', os', tid', tr1 @ ev # tr2)" using assms unfolding stops_at_def by blast
  have "\<exists>n' os' tid' tr2. take_liquidity iid agg sd ok tid n (xs @ ys) = (n', os', tid', tr1 @ ev # tr2)"
    unfolding take_liquidity_append T(4) by (auto split: prod.split)
  with T(1-3) show ?thesis by (simp add: stops_at_def take_liquidity_append)
qed

lemma stops_behind:
  assumes "take_liquidity iid agg sd ok tid n xs = (n1, [], tid1, tr1)" "\<forall>x \<in> set xs. ao_open x \<noteq> 0"
    and "stops_at iid agg sd ok tid1 n1 ys m os2 tid2 tr2 ev"
  shows "stops_at iid agg sd ok tid n (xs @ ys) (n - n1 + m) os2 tid2 (tr1 @ tr2) ev"
  using assms
proof (induction xs arbitrary: tid n tr1)
  case (Cons r rs)
  have n1: "n1 \<noteq> 0" using Cons.prems(3) by (auto simp: stops_at_def)
  from Cons.prems(1) show ?case
  proof (cases rule: take_cases)
    case (whole tr)
    have le: "unat n1 \<le> unat (n - ao_open r)" using take_liquidity_remaining [OF whole(4)] by simp
    then have "n - ao_open r \<noteq> 0" using n1 by (auto simp: unat_eq_0)
    with whole(3) have lt: "ao_open r < n" by (cases "ao_open r = n") auto
    have "stops_at iid agg sd ok (tid + 1) (n - ao_open r) (rs @ ys) (n - ao_open r - n1 + m) os2 tid2 (tr @ tr2) ev"
      by (rule Cons.IH [OF whole(4) _ Cons.prems(3)]) (use Cons.prems(2) in simp)
    from stops_past [OF lt _ whole(2) this] Cons.prems(2) show ?thesis by (simp add: whole(5) algebra_simps)
  qed (use n1 in auto)
qed simp

section \<open>Inside a level\<close>

lemma in_level_goes_on: "in_level iid agg sd idx ms mid \<Longrightarrow> goes_on agg sd idx ms"
  by (cases rule: in_level.cases)

lemma head_trade_event:
  assumes "lvl_head (level_at ob (opposite sd) idx) = s"
  shows "head_trade iid agg sd idx (mstate p ob tid evs) = On_trade tid iid (rec_price (op_get p s))
    (min (rec_open_qty (op_get p agg)) (rec_open_qty (op_get p s))) (rec_id (op_get p s)) (rec_id (op_get p agg)) sd"
  using assms by (simp add: head_trade_def Let_def)

lemma live_view: "book_ok p ob q \<Longrightarrow> x \<in> set (map (view_order (op_get p)) (q sd i)) \<Longrightarrow> ao_open x \<noteq> 0"
  by (auto simp: book_ok_def live_def)

text \<open>The state at a call inside level \<open>i\<close>, and what it has in common with the one before.\<close>

definition level_cut :: "instrument_id \<Rightarrow> order_pool \<Rightarrow> order_book \<Rightarrow> queues \<Rightarrow> slot \<Rightarrow> side \<Rightarrow> 32 word \<Rightarrow> trade_id \<Rightarrow> event list
    \<Rightarrow> match_state \<Rightarrow> order_pool \<Rightarrow> order_book \<Rightarrow> slot list \<Rightarrow> quantity \<Rightarrow> trade_id \<Rightarrow> event list \<Rightarrow> bool" where
  "level_cut iid p ob q agg sd idx tid evs mid p1 ob1 ts m tid1 tr1 \<longleftrightarrow> mid = mstate p1 ob1 tid1 (evs @ tr1)
    \<and> book_ok p1 ob1 (with_queue q (opposite sd) (unat idx) ts)
    \<and> stops_at iid (rec_id (op_get p agg)) sd (\<lambda>_. True) tid (rec_open_qty (op_get p agg))
        (map (view_order (op_get p)) (q (opposite sd) (unat idx))) m (map (view_order (op_get p1)) ts) tid1 tr1
        (head_trade iid agg sd idx mid)
    \<and> op_get p1 agg = traded m (op_get p agg)
    \<and> ob_ladder ob1 = ob_ladder ob \<and> ob_instrument_id ob1 = ob_instrument_id ob \<and> only_touches {} (ob_instrument_id ob) p p1
    \<and> (\<forall>x. x \<notin> set (q (opposite sd) (unat idx)) \<longrightarrow> x \<noteq> agg \<longrightarrow> op_get p1 x = op_get p x)"

lemma level_cut_stops:
  "level_cut iid p ob q agg sd idx tid evs mid p1 ob1 ts m tid1 tr1
    \<Longrightarrow> stops_at iid (rec_id (op_get p agg)) sd (\<lambda>_. True) tid (rec_open_qty (op_get p agg))
        (map (view_order (op_get p)) (q (opposite sd) (unat idx))) m (map (view_order (op_get p1)) ts) tid1 tr1
        (head_trade iid agg sd idx mid)"
  unfolding level_cut_def by blast

text \<open>The loop goes on where a level has a head.\<close>

lemma goes_on_head:
  assumes ok: "book_ok p ob q" and i: "unat idx < ladder_size (ob_ladder ob)" and go: "goes_on agg sd idx (mstate p ob tid evs)"
  obtains s ss where "q (opposite sd) (unat idx) = s # ss" "lvl_head (level_at ob (opposite sd) idx) = s" "rec_open_qty (op_get p agg) \<noteq> 0"
proof -
  have Q: "queue_of (op_get p) (level_at ob (opposite sd) idx) (q (opposite sd) (unat idx))"
    using book_invD(7) [OF book_okD(1) [OF ok] i, of "opposite sd"] by (simp add: level_at_def)
  from go have go: "rec_open_qty (op_get p agg) \<noteq> 0" "lvl_head (level_at ob (opposite sd) idx) \<noteq> kInvalidSlot" by auto
  with Q obtain s ss where s: "q (opposite sd) (unat idx) = s # ss" by (cases "q (opposite sd) (unat idx)") (auto simp: queue_of_def)
  with Q have "lvl_head (level_at ob (opposite sd) idx) = s" by (intro level_head) simp
  with s go(1) show thesis by (intro that)
qed

lemma level_cut_here:
  assumes ok: "book_ok p ob q" and s: "q (opposite sd) (unat idx) = s # ss" "lvl_head (level_at ob (opposite sd) idx) = s"
    and nz: "rec_open_qty (op_get p agg) \<noteq> 0"
  shows "level_cut iid p ob q agg sd idx tid evs (mstate p ob tid evs) p ob (s # ss) 0 tid []"
proof -
  have "stops_at iid (rec_id (op_get p agg)) sd (\<lambda>_. True) tid (rec_open_qty (op_get p agg)) (map (view_order (op_get p)) (s # ss)) 0
      (map (view_order (op_get p)) (s # ss)) tid [] (head_trade iid agg sd idx (mstate p ob tid evs))"
    unfolding head_trade_event [OF s(2), of iid agg p tid evs] using stops_here [OF nz, of "\<lambda>_. True" "view_order (op_get p) s"] by simp
  moreover have "with_queue q (opposite sd) (unat idx) (s # ss) = q" using s(1) by (intro with_queue_id)
  ultimately show ?thesis using ok s(1) by (simp add: level_cut_def)
qed

lemma level_cut_past:
  assumes ok: "book_ok p ob q" and s: "q (opposite sd) (unat idx) = s # ss" and fill: "rec_open_qty (op_get p s) < rec_open_qty (op_get p agg)"
    and tr: "tr = On_trade tid iid (rec_price (op_get p s)) (rec_open_qty (op_get p s)) (rec_id (op_get p s)) (rec_id (op_get p agg)) sd"
    and agg: "op_get p1 agg = traded (rec_open_qty (op_get p s)) (op_get p agg)" and layout: "ob_ladder ob1 = ob_ladder ob" "ob_instrument_id ob1 = ob_instrument_id ob"
    and touches: "only_touches {} (ob_instrument_id ob) p p1" and outside: "\<And>x. x \<notin> set (q (opposite sd) (unat idx)) \<Longrightarrow> x \<noteq> agg \<Longrightarrow> op_get p1 x = op_get p x"
    and same: "map (view_order (op_get p1)) ss = map (view_order (op_get p)) ss"
    and C: "level_cut iid p1 ob1 (with_queue q (opposite sd) (unat idx) ss) agg sd idx (tid + 1) (evs @ [tr]) mid p2 ob2 ts m tid2 tr2"
  shows "level_cut iid p ob q agg sd idx tid evs mid p2 ob2 ts (rec_open_qty (op_get p s) + m) tid2 (tr # tr2)"
proof -
  let ?o = "opposite sd" and ?i = "unat idx" and ?n = "rec_open_qty (op_get p agg)" and ?r = "rec_open_qty (op_get p s)"
  let ?q1 = "with_queue q ?o ?i ss"
  have q1: "?q1 ?o ?i = ss" by (simp add: with_queue_simps)
  have "stops_at iid (rec_id (op_get p agg)) sd (\<lambda>_. True) (tid + 1) (?n - ?r) (map (view_order (op_get p)) ss) m
      (map (view_order (op_get p2)) ts) tid2 tr2 (head_trade iid agg sd idx mid)"
    using level_cut_stops [OF C] unfolding q1 same agg by simp
  then have S: "stops_at iid (rec_id (op_get p agg)) sd (\<lambda>_. True) tid ?n (map (view_order (op_get p)) (s # ss)) (?r + m)
      (map (view_order (op_get p2)) ts) tid2 (tr # tr2) (head_trade iid agg sd idx mid)"
    using stops_past [of "view_order (op_get p) s" ?n "\<lambda>_. True"] fill live_view [OF ok, of "view_order (op_get p) s" ?o ?i] s by (simp add: tr)
  have "op_get p2 agg = traded (?r + m) (op_get p agg)"
    using C by (simp add: level_cut_def agg traded_traded add.commute)
  moreover have "with_queue ?q1 ?o ?i ts = with_queue q ?o ?i ts" by (simp add: with_queue_def)
  moreover have "only_touches {} (ob_instrument_id ob) p p2"
    using C only_touches_trans [OF touches] by (simp add: level_cut_def layout)
  moreover have "op_get p2 x = op_get p x" if "x \<notin> set (q ?o ?i)" "x \<noteq> agg" for x
    using C outside [OF that] that s by (simp add: level_cut_def q1)
  ultimately show ?thesis using C S layout s by (simp add: level_cut_def)
qed

lemma in_level_ok:
  assumes "in_level iid agg sd idx ms mid" "ms = mstate p ob tid evs" "book_ok p ob q" "aggressor_ok p ob agg"
    and "unat idx < ladder_size (ob_ladder ob)"
  shows "\<exists>p1 ob1 ts m tid1 tr1. level_cut iid p ob q agg sd idx tid evs mid p1 ob1 ts m tid1 tr1"
  using assms
proof (induction arbitrary: p ob q tid evs rule: in_level.induct)
  case (at_head ms)
  have go: "goes_on agg sd idx (mstate p ob tid evs)" using at_head.hyps at_head.prems(1) by simp
  obtain s ss where s: "q (opposite sd) (unat idx) = s # ss" "lvl_head (level_at ob (opposite sd) idx) = s" "rec_open_qty (op_get p agg) \<noteq> 0"
    by (rule goes_on_head [OF at_head.prems(2,4) go])
  from level_cut_here [OF at_head.prems(2) s] show ?case unfolding at_head.prems(1) by blast
next
  case (past_head ms mid)
  let ?o = "opposite sd" and ?i = "unat idx" and ?n = "rec_open_qty (op_get p agg)"
  note ok = past_head.prems(2) and aok = past_head.prems(3) and i = past_head.prems(4)
  have go: "goes_on agg sd idx (mstate p ob tid evs)" using past_head.hyps(1) past_head.prems(1) by simp
  obtain s ss where s: "q ?o ?i = s # ss" "lvl_head (level_at ob ?o idx) = s" "?n \<noteq> 0" by (rule goes_on_head [OF ok i go])
  let ?r = "rec_open_qty (op_get p s)"
  let ?tr = "On_trade tid iid (rec_price (op_get p s)) (min ?n ?r) (rec_id (op_get p s)) (rec_id (op_get p agg)) sd"
  obtain p1 ob1 where X: "execute_head iid agg sd idx (mstate p ob tid evs) = mstate p1 ob1 (tid + 1) (evs @ [?tr])"
    and R: "book_ok p1 ob1 (with_queue q ?o ?i (if min ?n ?r = ?r then ss else s # ss))" "aggressor_ok p1 ob1 agg" "op_get p1 agg = traded (min ?n ?r) (op_get p agg)"
      "ob_ladder ob1 = ob_ladder ob" "ob_instrument_id ob1 = ob_instrument_id ob" "only_touches {} (ob_instrument_id ob) p p1"
      "\<And>x. x \<notin> set (q ?o ?i) \<Longrightarrow> x \<noteq> agg \<Longrightarrow> op_get p1 x = op_get p x" "map (view_order (op_get p1)) ss = map (view_order (op_get p)) ss"
    using execute_round [OF ok aok refl i s(1,3) refl refl refl, where iid = iid and tid = tid and evs = evs] by metis
  have "0 < rec_open_qty (op_get p1 agg)"
    using in_level_goes_on [OF past_head.hyps(2)] by (simp add: past_head.prems(1) X)
  then have "min ?n ?r \<noteq> ?n" by (auto simp: R(3))
  then have fill: "min ?n ?r = ?r" "?r < ?n" by (auto simp: min_def split: if_splits)
  have i1: "unat idx < ladder_size (ob_ladder ob1)" using i by (simp add: R(4))
  from past_head.IH [OF _ R(1) [unfolded fill(1) if_P [OF refl]] R(2) i1] obtain p2 ob2 ts m tid2 tr2 where
    "level_cut iid p1 ob1 (with_queue q ?o ?i ss) agg sd idx (tid + 1) (evs @ [?tr]) mid p2 ob2 ts m tid2 tr2"
    by (auto simp: past_head.prems(1) X)
  from level_cut_past [OF ok s(1) fill(2) refl R(3) [unfolded fill(1)] R(4-8) this [unfolded fill(1)]] show ?case by blast
qed

section \<open>Across levels\<close>

text \<open>The state at a call of \<open>run_matching\<close>: the own side is as before.\<close>

definition run_cut :: "instrument_id \<Rightarrow> order_pool \<Rightarrow> order_book \<Rightarrow> queues \<Rightarrow> slot \<Rightarrow> side \<Rightarrow> (price \<Rightarrow> bool) \<Rightarrow> trade_id \<Rightarrow> event list
    \<Rightarrow> 32 word \<Rightarrow> match_state \<Rightarrow> order_pool \<Rightarrow> order_book \<Rightarrow> queues \<Rightarrow> quantity \<Rightarrow> trade_id \<Rightarrow> event list \<Rightarrow> bool" where
  "run_cut iid p ob q agg sd ok tid evs idx mid p1 ob1 q1 m tid1 tr1 \<longleftrightarrow> mid = mstate p1 ob1 tid1 (evs @ tr1)
    \<and> book_ok p1 ob1 q1
    \<and> stops_at iid (rec_id (op_get p agg)) sd ok tid (rec_open_qty (op_get p agg))
        (side_view (op_get p) q (opposite sd) (ladder_size (ob_ladder ob))) m
        (side_view (op_get p1) q1 (opposite sd) (ladder_size (ob_ladder ob))) tid1 tr1 (head_trade iid agg sd idx mid)
    \<and> side_view (op_get p1) q1 sd (ladder_size (ob_ladder ob)) = side_view (op_get p) q sd (ladder_size (ob_ladder ob))
    \<and> op_get p1 agg = traded m (op_get p agg)
    \<and> ob_ladder ob1 = ob_ladder ob \<and> ob_instrument_id ob1 = ob_instrument_id ob \<and> only_touches {} (ob_instrument_id ob) p p1"

lemma run_cut_stops:
  "run_cut iid p ob q agg sd ok tid evs idx mid p1 ob1 q1 m tid1 tr1
    \<Longrightarrow> stops_at iid (rec_id (op_get p agg)) sd ok tid (rec_open_qty (op_get p agg))
        (side_view (op_get p) q (opposite sd) (ladder_size (ob_ladder ob))) m
        (side_view (op_get p1) q1 (opposite sd) (ladder_size (ob_ladder ob))) tid1 tr1 (head_trade iid agg sd idx mid)"
  unfolding run_cut_def by blast

text \<open>What a step on the best level leaves alone.\<close>

lemma level_frame:
  assumes inv: "book_inv p ob q" and aok: "aggressor_ok p ob agg" and i: "i \<in> occupied q (opposite sd)" "\<And>j. j \<in> occupied q (opposite sd) \<Longrightarrow> \<not> before (opposite sd) j i"
    and other: "\<And>x. x \<notin> set (q (opposite sd) i) \<Longrightarrow> x \<noteq> agg \<Longrightarrow> op_get p1 x = op_get p x"
  obtains R where "side_view (op_get p) q (opposite sd) (ladder_size (ob_ladder ob)) = map (view_order (op_get p)) (q (opposite sd) i) @ R"
    "\<And>ts. side_view (op_get p1) (with_queue q (opposite sd) i ts) (opposite sd) (ladder_size (ob_ladder ob)) = map (view_order (op_get p1)) ts @ R"
    "\<And>ts. side_view (op_get p1) (with_queue q (opposite sd) i ts) sd (ladder_size (ob_ladder ob)) = side_view (op_get p) q sd (ladder_size (ob_ladder ob))"
proof -
  let ?o = "opposite sd" and ?N = "ladder_size (ob_ladder ob)"
  obtain R where R: "side_view (op_get p) q ?o ?N = map (view_order (op_get p)) (q ?o i) @ R"
    "\<And>h qs. (\<And>j x. j \<noteq> i \<Longrightarrow> x \<in> set (q ?o j) \<Longrightarrow> view_order h x = view_order (op_get p) x)
      \<Longrightarrow> side_view h (with_queue q ?o i qs) ?o ?N = map (view_order h) qs @ R"
    using side_view_best [OF inv i] by blast
  have same: "view_order (op_get p1) x = view_order (op_get p) x" if "x \<in> set (q sd' j)" "sd' \<noteq> ?o \<or> j \<noteq> i" for x sd' j
  proof -
    have "x \<notin> set (q ?o i)" using queue_unique [OF inv that(1), of ?o i] that(2) by auto
    moreover have "x \<noteq> agg" using aggressor_not_queued [OF inv aok] that(1) by auto
    ultimately show ?thesis using other by (simp add: view_order_def)
  qed
  show ?thesis
  proof (rule that [OF R(1)])
    show "side_view (op_get p1) (with_queue q ?o i ts) ?o ?N = map (view_order (op_get p1)) ts @ R" for ts
      using R(2) [of "op_get p1" ts] same by simp
    show "side_view (op_get p1) (with_queue q ?o i ts) sd ?N = side_view (op_get p) q sd ?N" for ts
      using same [of _ sd] by (simp add: side_view_other) (rule side_view_cong, simp)
  qed
qed

lemma searches_iff:
  "searches agg sd limit_price is_market (mstate p ob tid evs) \<longleftrightarrow> rec_open_qty (op_get p agg) \<noteq> 0 \<and> has_best ob (opposite sd)
    \<and> acceptable sd is_market limit_price (ob_index_to_price ob (word_of_int (best_index ob (opposite sd))))"
  unfolding searches_def best_level_of_def crosses_acceptable by (simp add: word_greater_zero_iff)

lemma stops_cong:
  assumes "\<And>x. x \<in> set os \<Longrightarrow> ok (ao_price x) = ok' (ao_price x)"
  shows "stops_at iid agg sd ok tid n os m os1 tid1 tr1 ev = stops_at iid agg sd ok' tid n os m os1 tid1 tr1 ev"
  using take_liquidity_cong [of os ok ok' iid agg sd tid] assms by (simp add: stops_at_def)

lemma run_cut_here:
  assumes ok: "book_ok p ob q" and aok: "aggressor_ok p ob agg" and best: "has_best ob (opposite sd)"
    and acc: "ok (ob_index_to_price ob (word_of_int (best_index ob (opposite sd))))"
    and C: "level_cut iid p ob q agg sd (word_of_int (best_index ob (opposite sd))) tid evs mid p1 ob1 ts m tid1 tr1"
  shows "\<exists>q1. run_cut iid p ob q agg sd ok tid evs (word_of_int (best_index ob (opposite sd))) mid p1 ob1 q1 m tid1 tr1"
proof -
  let ?o = "opposite sd" and ?N = "ladder_size (ob_ladder ob)" and ?idx = "word_of_int (best_index ob (opposite sd)) :: 32 word"
  note inv = book_okD(1) [OF ok]
  note B = best_level [OF inv best]
  define i where "i = nat (best_index ob ?o)"
  note B = B [folded i_def]
  note C = C [unfolded level_cut_def B(4)]
  obtain R where R: "side_view (op_get p) q ?o ?N = map (view_order (op_get p)) (q ?o i) @ R"
    "\<And>ts. side_view (op_get p1) (with_queue q ?o i ts) ?o ?N = map (view_order (op_get p1)) ts @ R"
    "\<And>ts. side_view (op_get p1) (with_queue q ?o i ts) sd ?N = side_view (op_get p) q sd ?N"
    using level_frame [OF inv aok B(1,6), of p1] C by blast
  have "stops_at iid (rec_id (op_get p agg)) sd ok tid (rec_open_qty (op_get p agg)) (map (view_order (op_get p)) (q ?o i)) m
      (map (view_order (op_get p1)) ts) tid1 tr1 (head_trade iid agg sd ?idx mid)"
    using C acc queue_place(7) [OF inv, of _ ?o i] B(5) by (subst stops_cong [where ok' = "\<lambda>_. True"]) auto
  from stops_append [OF this, of R] C R show ?thesis by (intro exI [of _ "with_queue q ?o i ts"]) (simp add: run_cut_def)
qed

text \<open>Past a level that has been used up, the cut is one of the matching that goes on.\<close>

lemma run_cut_past:
  assumes ok: "book_ok p ob q" and aok: "aggressor_ok p ob agg" and best: "has_best ob (opposite sd)"
    and acc: "ok (ob_index_to_price ob (word_of_int (best_index ob (opposite sd))))"
    and T: "take_liquidity iid (rec_id (op_get p agg)) sd (\<lambda>_. True) tid (rec_open_qty (op_get p agg))
      (map (view_order (op_get p)) (q (opposite sd) (nat (best_index ob (opposite sd))))) = (n1, L1, tid1, tr1)"
    and S: "swept p ob q agg (opposite sd) (nat (best_index ob (opposite sd))) n1 L1 p1 ob1 ts"
    and C: "run_cut iid p1 ob1 (with_queue q (opposite sd) (nat (best_index ob (opposite sd))) ts) agg sd ok tid1 (evs @ tr1) idx mid p2 ob2 q2 m tid2 tr2"
  shows "run_cut iid p ob q agg sd ok tid evs idx mid p2 ob2 q2 (rec_open_qty (op_get p agg) - n1 + m) tid2 (tr1 @ tr2)"
proof -
  let ?o = "opposite sd" and ?N = "ladder_size (ob_ladder ob)" and ?n = "rec_open_qty (op_get p agg)"
  note inv = book_okD(1) [OF ok]
  note B = best_level [OF inv best]
  define i where "i = nat (best_index ob ?o)"
  note B = B [folded i_def] and T = T [folded i_def] and C = C [folded i_def]
  have M: "map (view_order (op_get p1)) ts = L1" "n1 = 0 \<or> ts = []" "op_get p1 agg = traded (?n - n1) (op_get p agg)"
    "ob_ladder ob1 = ob_ladder ob" "ob_instrument_id ob1 = ob_instrument_id ob" "only_touches {} (ob_instrument_id ob) p p1"
    "\<And>x. x \<notin> set (q ?o i) \<Longrightarrow> x \<noteq> agg \<Longrightarrow> op_get p1 x = op_get p x" using S by (simp_all add: swept_def i_def)
  obtain R where R: "side_view (op_get p) q ?o ?N = map (view_order (op_get p)) (q ?o i) @ R"
    "\<And>ts. side_view (op_get p1) (with_queue q ?o i ts) ?o ?N = map (view_order (op_get p1)) ts @ R"
    "\<And>ts. side_view (op_get p1) (with_queue q ?o i ts) sd ?N = side_view (op_get p) q sd ?N"
    using level_frame [OF inv aok B(1,6) M(7)] by blast
  note stops = run_cut_stops [OF C]
  note C = C [unfolded run_cut_def M(4)]
  have "n1 \<noteq> 0" using C by (auto simp: stops_at_def M(3))
  then have ts: "ts = []" using M(2) by simp
  have "take_liquidity iid (rec_id (op_get p agg)) sd ok tid ?n (map (view_order (op_get p)) (q ?o i)) = (n1, [], tid1, tr1)"
    using T M(1) acc queue_place(7) [OF inv, of _ ?o i] B(5) by (subst take_liquidity_cong [where ok' = "\<lambda>_. True"]) (auto simp: ts)
  moreover have "stops_at iid (rec_id (op_get p agg)) sd ok tid1 n1 R m (side_view (op_get p2) q2 ?o ?N) tid2 tr2 (head_trade iid agg sd idx mid)"
    using stops by (simp add: R(2) ts M(3,4))
  ultimately have "stops_at iid (rec_id (op_get p agg)) sd ok tid ?n (side_view (op_get p) q ?o ?N) (?n - n1 + m)
      (side_view (op_get p2) q2 ?o ?N) tid2 (tr1 @ tr2) (head_trade iid agg sd idx mid)"
    using stops_behind live_view [OF ok] unfolding R(1) by blast
  moreover have "op_get p2 agg = traded (?n - n1 + m) (op_get p agg)" using C by (simp add: M(3) traded_traded add.commute)
  moreover have "only_touches {} (ob_instrument_id ob) p p2" using C only_touches_trans [OF M(6)] by (simp add: M(5))
  ultimately show ?thesis using C R(3) M(4,5) by (simp add: run_cut_def)
qed

lemma in_matching_ok:
  assumes "in_matching iid agg sd limit_price is_market ms idx mid" "ms = mstate p ob tid evs" "book_ok p ob q" "aggressor_ok p ob agg"
  shows "\<exists>p1 ob1 q1 m tid1 tr1. run_cut iid p ob q agg sd (acceptable sd is_market limit_price) tid evs idx mid p1 ob1 q1 m tid1 tr1"
  using assms
proof (induction arbitrary: p ob q tid evs rule: in_matching.induct)
  case (at_level ms mid)
  note ok = at_level.prems(2) and aok = at_level.prems(3)
  have idx: "best_level_of sd ms = word_of_int (best_index ob (opposite sd))" using at_level.prems(1) by (simp add: best_level_of_def)
  have search: "has_best ob (opposite sd)" "acceptable sd is_market limit_price (ob_index_to_price ob (word_of_int (best_index ob (opposite sd))))"
    using at_level.hyps(1) at_level.prems(1) by (simp_all add: searches_iff)
  note B = best_level [OF book_okD(1) [OF ok] search(1)]
  have "unat (word_of_int (best_index ob (opposite sd)) :: 32 word) < ladder_size (ob_ladder ob)" using B(2,4) by simp
  from in_level_ok [OF at_level.hyps(2) [unfolded idx] at_level.prems(1) ok aok this]
  obtain p1 ob1 ts m tid1 tr1 where
    "level_cut iid p ob q agg sd (word_of_int (best_index ob (opposite sd))) tid evs mid p1 ob1 ts m tid1 tr1" by blast
  from run_cut_here [where ok = "acceptable sd is_market limit_price", OF ok aok search this] show ?case unfolding idx by metis
next
  case (past_level ms ms1 idx mid)
  note ok = past_level.prems(2) and aok = past_level.prems(3)
  let ?o = "opposite sd" and ?ok = "acceptable sd is_market limit_price" and ?idx = "word_of_int (best_index ob (opposite sd)) :: 32 word"
  let ?i = "nat (best_index ob ?o)"
  have search: "has_best ob ?o" "?ok (ob_index_to_price ob ?idx)" using past_level.hyps(1) past_level.prems(1) by (simp_all add: searches_iff)
  note B = best_level [OF book_okD(1) [OF ok] search(1)]
  obtain n1 L1 tid1 tr1 where T: "take_liquidity iid (rec_id (op_get p agg)) sd (\<lambda>_. True) tid (rec_open_qty (op_get p agg))
      (map (view_order (op_get p)) (q ?o ?i)) = (n1, L1, tid1, tr1)" by (metis prod_cases4)
  obtain p1 ob1 ts where M: "match_level iid agg sd ?idx (mstate p ob tid evs) = Some (mstate p1 ob1 tid1 (evs @ tr1))"
    "swept p ob q agg ?o ?i n1 L1 p1 ob1 ts"
    using match_level_swept [OF ok aok B(4,2) T, of evs] by blast
  have ms1: "ms1 = mstate p1 ob1 tid1 (evs @ tr1)" using M(1) past_level.hyps(2) past_level.prems(1) by (simp add: best_level_of_def)
  have "book_ok p1 ob1 (with_queue q ?o ?i ts)" "aggressor_ok p1 ob1 agg"
    using M(2) aggressor_ok_traded [OF aok, of "{}" "ob_instrument_id ob" p1 ob1] by (auto simp: swept_def)
  from past_level.IH [OF ms1 this] show ?case using run_cut_past [where ok = ?ok, OF ok aok search T M(2)] by blast
qed

end
