(* ===== verification/Interrupted_Requests.thy ===== *)
theory Interrupted_Requests
  imports Engine_Requests Interrupted_Matching "HOL-Library.Sublist"
begin

text \<open>
  What a throwing listener leaves of a request. A request ends as with a quiet listener, or it
  is cut short at \<open>on_accepted\<close>, at \<open>on_replaced\<close> or at a trade: then the engine's invariant
  still holds, and the exchange is where the handler had come to. In each case the listener has
  heard the beginning of what a quiet one hears.
\<close>

section \<open>Where the exchange may be cut\<close>

text \<open>
  Matching for \<open>n\<close> lots cut at its trade \<open>ev\<close>: a smaller quantity \<open>m\<close> has been matched, the
  trade has its id, the quantities do not know of it yet.
\<close>

definition ex_match_cut :: "nat \<Rightarrow> order_id \<Rightarrow> side \<Rightarrow> bool \<Rightarrow> price \<Rightarrow> quantity \<Rightarrow> exchange \<Rightarrow> exchange \<Rightarrow> bool" where
  "ex_match_cut b i sd is_market limit_price n ex ex' \<longleftrightarrow> (\<exists>m ex1 ev. m < n
    \<and> ex_match b i sd is_market limit_price m ex = (0, ex1)
    \<and> ex' = ex_emit ev (ex1\<lparr>ex_next_trade_id := ex_next_trade_id ex1 + 1\<rparr>)
    \<and> prefix (ex_events ex') (ex_events (snd (ex_match b i sd is_market limit_price n ex))))"

definition accept_cut :: "new_order \<Rightarrow> nat \<Rightarrow> bool \<Rightarrow> price \<Rightarrow> exchange \<Rightarrow> exchange \<Rightarrow> bool" where
  "accept_cut order b is_market price ex ex' \<longleftrightarrow> (\<exists>ex1. ex1 = ex_emit (On_accepted (no_order_id order)) ex
    \<and> (ex' = ex1 \<or> ex_match_cut b (no_order_id order) (no_side order) is_market price (no_quantity order) ex1 ex'))"

definition order_valid :: "new_order \<Rightarrow> abook \<Rightarrow> bool" where
  "order_valid order ab \<longleftrightarrow> no_quantity order \<noteq> 0 \<and> (if no_type order = kMarket then no_tif order \<noteq> kDay
    else is_tick_aligned (no_price order) \<and> within_band ab (no_price order))"

definition submit_cut :: "new_order \<Rightarrow> exchange \<Rightarrow> exchange \<Rightarrow> bool" where
  "submit_cut order ex ex' \<longleftrightarrow> (\<exists>b. book_index ex (no_instrument_id order) = Some b \<and> no_order_id order \<notin> ex_used ex
    \<and> order_valid order (ex_books ex ! b)
    \<and> accept_cut order b (no_type order = kMarket) (order_price order) (ex\<lparr>ex_used := insert (no_order_id order) (ex_used ex)\<rparr>) ex')"

definition commit_cut :: "replace_order \<Rightarrow> nat \<Rightarrow> side \<Rightarrow> resting_order \<Rightarrow> quantity \<Rightarrow> exchange \<Rightarrow> exchange \<Rightarrow> bool" where
  "commit_cut req b sd r n ex ex' \<longleftrightarrow> (\<exists>ex1. ex1 = ex_emit (On_replaced (ro_order_id req) (ro_new_order_id req) (ro_new_price req) n)
        (ex_remove b sd (ro_order_id req) ex)
    \<and> (ro_new_price req \<noteq> ao_price r \<or> ao_open r < n)
    \<and> (ex' = ex1 \<or> ro_new_price req \<noteq> ao_price r
        \<and> ex_match_cut b (ro_new_order_id req) sd False (ro_new_price req) n ex1 ex'))"

definition replace_cut :: "replace_order \<Rightarrow> exchange \<Rightarrow> exchange \<Rightarrow> bool" where
  "replace_cut req ex ex' \<longleftrightarrow> (\<exists>b sd r. find_order ex (ro_order_id req) = Some (b, sd, r) \<and> ao_filled r < ro_new_quantity req
    \<and> (ro_new_order_id req = ro_order_id req \<or> ro_new_order_id req \<notin> ex_used ex)
    \<and> is_tick_aligned (ro_new_price req) \<and> within_band (ex_books ex ! b) (ro_new_price req)
    \<and> commit_cut req b sd r (ro_new_quantity req - ao_filled r)
        (ex\<lparr>ex_used := insert (ro_new_order_id req) (ex_used ex)\<rparr>) ex')"

subsection \<open>The cut exchange is sound\<close>

lemma bump_inv [simp]: "exchange_inv (ex\<lparr>ex_next_trade_id := t\<rparr>) = exchange_inv ex"
  by (simp add: exchange_inv_def ids_unique_def ids_spent_def open_at_def)

lemma match_cut_inv:
  assumes "exchange_inv ex" "b < length (ex_books ex)" "ex_match_cut b i sd is_market limit_price n ex ex'"
  shows "exchange_inv ex'"
  using assms match_inv(1) [OF assms(1,2)] unfolding ex_match_cut_def by auto

lemma submit_cut_inv:
  assumes inv: "exchange_inv ex" and cut: "submit_cut order ex ex'"
  shows "exchange_inv ex'"
proof -
  let ?ex = "ex_emit (On_accepted (no_order_id order)) (ex\<lparr>ex_used := insert (no_order_id order) (ex_used ex)\<rparr>)"
  obtain b where b: "book_index ex (no_instrument_id order) = Some b"
    "ex' = ?ex \<or> ex_match_cut b (no_order_id order) (no_side order) (no_type order = kMarket) (order_price order) (no_quantity order) ?ex ex'"
    using cut unfolding submit_cut_def accept_cut_def by blast
  have "exchange_inv ?ex" "b < length (ex_books ?ex)" using use_id_inv [OF inv] book_index_less [OF b(1)] by simp_all
  with b(2) match_cut_inv show ?thesis by blast
qed

lemma replace_cut_inv:
  assumes inv: "exchange_inv ex" and cut: "replace_cut req ex ex'"
  shows "exchange_inv ex'"
proof -
  let ?ex = "ex\<lparr>ex_used := insert (ro_new_order_id req) (ex_used ex)\<rparr>"
  obtain b sd r n ex1 where C: "find_order ex (ro_order_id req) = Some (b, sd, r)"
    "ex1 = ex_emit (On_replaced (ro_order_id req) (ro_new_order_id req) (ro_new_price req) n) (ex_remove b sd (ro_order_id req) ?ex)"
    "ex' = ex1 \<or> ex_match_cut b (ro_new_order_id req) sd False (ro_new_price req) n ex1 ex'"
    using cut unfolding replace_cut_def commit_cut_def by blast
  note found = find_order_open [OF C(1)]
  have "open_at ?ex b sd r" using found(1) by (simp add: open_at_def)
  from remove_inv(1) [OF use_id_inv [OF inv] this] have "exchange_inv ex1" by (simp add: C(2) found(2))
  moreover have "b < length (ex_books ex1)" using found(1) by (simp add: C(2) open_at_def ex_remove_def)
  ultimately show ?thesis using C(3) match_cut_inv by blast
qed

section \<open>Matching seen from the engine\<close>

lemma match_with_ok:
  assumes inv: "store_inv {} e" and s: "slot_ready e s iid i" and b: "b < length (eng_books e)" "ob_instrument_id (eng_books e ! b) = iid"
  obtains (through) e' where "match_in_engine e b iid s sd limit_price is_market = Some e'"
      "match_in_engine_with li e b iid s sd limit_price is_market = Some (Inr e')"
  | (cut) e' where "match_in_engine_with li e b iid s sd limit_price is_market = Some (Inl e')"
      "store_inv {} e'" "kept e e'" "ex_match_cut b i sd is_market limit_price (rec_open_qty (rec_of e s)) (exchange_of e) (exchange_of e')"
proof -
  let ?p = "eng_pool e" and ?ob = "eng_books e ! b" and ?ms = "mstate (eng_pool e) (eng_books e ! b) (eng_next_trade_id e) (eng_events e)"
  let ?ok = "acceptable sd is_market limit_price" and ?qty = "rec_open_qty (rec_of e s)"
  obtain q where ok: "book_ok ?p ?ob q" using store_bookD [OF inv b(1)] .
  let ?n = "ladder_size (ob_ladder ?ob)"
  have id: "rec_id (op_get ?p s) = i" and agg: "aggressor_ok ?p ?ob s" using s b(2) by (simp_all add: slot_ready_def aggressor_ok_def)
  obtain n1 ex1 where "ex_match b i sd is_market limit_price ?qty (exchange_of e) = (n1, ex1)" by (rule prod.exhaust)
  from match_ok [OF inv s b this] obtain e1 where e1: "match_in_engine e b iid s sd limit_price is_market = Some e1" by blast
  then obtain ms1 where ms1: "run_matching iid s sd limit_price is_market ?ms = Some ms1"
    by (auto simp: match_in_engine_def bind_eq_Some_conv)
  define into where "into ms = e\<lparr>eng_pool := ms_pool ms, eng_books := (eng_books e)[b := ms_book ms],
      eng_next_trade_id := ms_next_trade_id ms, eng_events := ms_events ms\<rparr>" for ms :: match_state
  have eng: "match_in_engine_with li e b iid s sd limit_price is_market = map_option (map_sum into into) (run_matching_with li iid s sd limit_price is_market ?ms)"
    unfolding match_in_engine_with_def into_def by (cases "run_matching_with li iid s sd limit_price is_market ?ms") (simp_all add: Let_def)
  have e1': "e1 = into ms1" using e1 ms1 by (simp add: match_in_engine_def into_def)
  show thesis
  proof (cases "run_matching_with li iid s sd limit_price is_market ?ms = Some (Inr ms1)")
    case True
    then show ?thesis by (intro through [OF e1]) (simp add: eng e1')
  next
    case False
    with run_with_outcome [OF ms1, of li] obtain idx mid where mid: "in_matching iid s sd limit_price is_market ?ms idx mid"
      "run_matching_with li iid s sd limit_price is_market ?ms = Some (Inl (trade_thrown (head_trade iid s sd idx mid) mid))"
      unfolding run_outcome_def by blast
    let ?ev = "head_trade iid s sd idx mid"
    obtain p' ob' q' m tid tr where C: "run_cut iid ?p ?ob q s sd ?ok (eng_next_trade_id e) (eng_events e) idx mid p' ob' q' m tid tr"
      using in_matching_ok [OF mid(1) refl ok agg] by blast
    note S = run_cut_stops [OF C]
    note C = C [unfolded run_cut_def]
    define e' where "e' = into (trade_thrown ?ev mid)"
    have sel: "eng_pool e' = p'" "eng_books e' = (eng_books e)[b := ob']" "eng_order_index e' = eng_order_index e"
      "eng_instrument_index e' = eng_instrument_index e" "eng_configured e' = eng_configured e"
      "eng_next_trade_id e' = tid + 1" "eng_events e' = eng_events e @ tr @ [?ev]"
      using C by (simp_all add: e'_def into_def trade_thrown_def)
    have ok': "\<exists>q'. book_ok (eng_pool e') ob' q'" using C by (auto simp: sel)
    have touch: "only_touches {} (ob_instrument_id ?ob) ?p (eng_pool e')" using C by (simp add: sel)
    have same: "ob_instrument_id ob' = ob_instrument_id ?ob" using C by simp
    have none: "\<not> rec_is_open (rec_of e' x)" if "x \<in> {}" "x \<notin> {}" for x using that by simp
    note K = book_change [OF inv b(1) sel(2) sel(4) sel(3) ok' same touch _ none]
    let ?os = "side_view (op_get p') q' (opposite sd) ?n"
    have view': "book_view p' ob' = set_orders (opposite sd) ?os (book_view ?p ?ob)"
    proof (rule book_view_eq [OF ok, where f = "\<lambda>_. ?os"])
      show "side_view (op_get p') q' sd' ?n = side_view (op_get ?p) q sd' ?n" if "sd' \<noteq> opposite sd" for sd'
        using that C by (cases sd; cases sd') simp_all
    qed (use C in auto)
    have books: "ex_books (exchange_of e') = (ex_books (exchange_of e))[b := book_view p' ob']" using K(2) by (simp add: sel)
    have view: "ab_orders (book_view ?p ?ob) (opposite sd) = side_view (op_get ?p) q (opposite sd) ?n" by (simp add: book_okD(4) [OF ok])
    define ex1 where "ex1 = (upd_book b (set_orders (opposite sd) ?os) (exchange_of e))\<lparr>ex_next_trade_id := tid, ex_events := eng_events e @ tr\<rparr>"
    obtain n' os' tid' tr2 where T: "m < ?qty" "take_liquidity iid i sd ?ok (eng_next_trade_id e) m (side_view (op_get ?p) q (opposite sd) ?n) = (0, ?os, tid, tr)"
      "take_liquidity iid i sd ?ok (eng_next_trade_id e) ?qty (side_view (op_get ?p) q (opposite sd) ?n) = (n', os', tid', tr @ ?ev # tr2)"
      using S unfolding stops_at_def id by blast
    have "ex_match b i sd is_market limit_price m (exchange_of e) = (0, ex1)"
      using b by (simp add: ex_match_def view T(2) ex1_def)
    moreover have "exchange_of e' = ex_emit ?ev (ex1\<lparr>ex_next_trade_id := ex_next_trade_id ex1 + 1\<rparr>)"
      by (rule exchange_eqI) (use b books in \<open>simp_all add: ex1_def view' sel\<close>)
    moreover have "prefix (ex_events (exchange_of e')) (ex_events (snd (ex_match b i sd is_market limit_price ?qty (exchange_of e))))"
      using b by (simp add: ex_match_def view T(3) sel)
    ultimately have "ex_match_cut b i sd is_market limit_price ?qty (exchange_of e) (exchange_of e')"
      unfolding ex_match_cut_def using T(1) by blast
    moreover have "store_inv {} e'" using K(1) by blast
    moreover have "kept e e'" using only_touches_size [OF touch] layout_upd [OF sel(2) same] C by (simp add: sel)
    moreover have "match_in_engine_with li e b iid s sd limit_price is_market = Some (Inl e')" by (simp add: eng mid(2) e'_def)
    ultimately show ?thesis by (intro cut)
  qed
qed

section \<open>The handlers\<close>

text \<open>\<open>m\<close> is the run with the listener, \<open>q\<close> the quiet one, and \<open>C\<close> says where it may be cut.\<close>

definition cut_or_same :: "engine option \<Rightarrow> engine option \<Rightarrow> engine \<Rightarrow> (exchange \<Rightarrow> exchange \<Rightarrow> bool) \<Rightarrow> bool" where
  "cut_or_same m q e C \<longleftrightarrow> m = q \<or> (\<exists>e' e''. m = Some e' \<and> q = Some e'' \<and> store_inv {} e' \<and> kept e e'
    \<and> C (exchange_of e) (exchange_of e') \<and> prefix (eng_events e') (eng_events e''))"

lemma same_run: "m = q \<Longrightarrow> cut_or_same m q e C"
  by (simp add: cut_or_same_def)

lemma cut_run:
  "m = Some e' \<Longrightarrow> q = Some e'' \<Longrightarrow> store_inv {} e' \<Longrightarrow> kept e e' \<Longrightarrow> C (exchange_of e) (exchange_of e')
    \<Longrightarrow> prefix (eng_events e') (eng_events e'') \<Longrightarrow> cut_or_same m q e C"
  by (simp add: cut_or_same_def)

lemma with_book_events [simp]: "eng_events (with_book f b e) = eng_events e"
  by (simp add: with_book_def split: prod.split)

lemma emit_events: "eng_events (emit ev e) = eng_events e @ [ev]"
  by (simp add: emit_def)

lemma match_events: "prefix (ex_events ex) (ex_events (snd (ex_match b i sd is_market limit_price n ex)))"
  by (simp add: ex_match_def Let_def split: prod.split)

lemma accept_events: "prefix (ex_events ex @ [On_accepted (no_order_id order)]) (ex_events (ex_accept v order b is_market price ex))"
proof -
  let ?ex = "ex_emit (On_accepted (no_order_id order)) ex"
  obtain n ex' where m: "ex_match b (no_order_id order) (no_side order) is_market price (no_quantity order) ?ex = (n, ex')" by (rule prod.exhaust)
  with match_events [of ?ex b "no_order_id order" "no_side order" is_market price "no_quantity order"]
  have "prefix (ex_events ex @ [On_accepted (no_order_id order)]) (ex_events ex')" by simp
  then show ?thesis by (simp add: ex_accept_def m Let_def ex_rest_def)
qed

text \<open>Matching, and what a handler does when it is over.\<close>

lemma cut_or_same_after:
  "cut_or_same m q e1 C1 \<Longrightarrow> kept e e1 \<Longrightarrow> (\<And>ex'. C1 (exchange_of e1) ex' \<Longrightarrow> C (exchange_of e) ex') \<Longrightarrow> cut_or_same m q e C"
  unfolding cut_or_same_def by auto

lemma match_heard:
  assumes "store_inv {} e" "slot_ready e s iid i" "b < length (eng_books e)" "ob_instrument_id (eng_books e ! b) = iid"
  obtains e' where "match_in_engine e b iid s sd limit_price is_market = Some e'" "prefix (eng_events e) (eng_events e')"
    "eng_events e' = ex_events (snd (ex_match b i sd is_market limit_price (rec_open_qty (rec_of e s)) (exchange_of e)))"
proof -
  obtain n ex where m: "ex_match b i sd is_market limit_price (rec_open_qty (rec_of e s)) (exchange_of e) = (n, ex)" by (rule prod.exhaust)
  obtain e' where e': "match_in_engine e b iid s sd limit_price is_market = Some e'" "exchange_of e' = ex" using match_ok [OF assms m] by blast
  have ev: "ex_events ex = eng_events e'" unfolding e'(2) [symmetric] by simp
  show thesis
    by (rule that [OF e'(1)])
      (use match_events [of "exchange_of e" b i sd is_market limit_price "rec_open_qty (rec_of e s)"] in \<open>simp_all add: m ev\<close>)
qed

lemma match_then_cut:
  assumes ok: "store_inv {} e" "slot_ready e s iid i" "b < length (eng_books e)" "ob_instrument_id (eng_books e ! b) = iid"
    and f: "\<And>e. prefix (eng_events e) (eng_events (f e))"
  shows "cut_or_same (caught (resume (match_in_engine_with li e b iid s sd limit_price is_market) (\<lambda>e. Some (Inr (f e)))))
    (match_in_engine e b iid s sd limit_price is_market \<bind> (\<lambda>e. Some (f e))) e
    (ex_match_cut b i sd is_market limit_price (rec_open_qty (rec_of e s)))"
  using ok
proof (cases rule: match_with_ok [where sd = sd and is_market = is_market and limit_price = limit_price and li = li])
  case (through e2)
  then show ?thesis by (intro same_run) simp
next
  case (cut e2)
  obtain e3 where e3: "match_in_engine e b iid s sd limit_price is_market = Some e3"
    "eng_events e3 = ex_events (snd (ex_match b i sd is_market limit_price (rec_open_qty (rec_of e s)) (exchange_of e)))"
    using match_heard [OF ok, of sd limit_price is_market] by blast
  have "prefix (eng_events e2) (eng_events e3)" using cut(4) unfolding ex_match_cut_def e3(2) by auto
  then have "prefix (eng_events e2) (eng_events (f e3))" using f [of e3] prefix_order.trans by blast
  with cut e3(1) show ?thesis by (intro cut_run) simp_all
qed

subsection \<open>Submit\<close>

lemma settle_events: "prefix (eng_events e) (eng_events (settle_order order b s is_market price e))"
  by (simp add: settle_order_def emit_events)

lemma submit_accepted_with_steps:
  assumes e1: "e1 = emit (On_accepted (no_order_id order)) (upd_rec s (\<lambda>r. r\<lparr>rec_open_qty := no_quantity order, rec_filled_qty := 0\<rparr>) e)"
  shows "caught (submit_accepted_with li e order b s is_market price) =
    (if li (eng_events e) (On_accepted (no_order_id order)) then Some e1
     else fok_check order b is_market price e1 \<bind> (\<lambda>fillable. if \<not> fillable then Some (killed order s e1)
       else caught (resume (match_in_engine_with li e1 b (no_instrument_id order) s (no_side order) price is_market)
         (\<lambda>e. Some (Inr (settle_order order b s is_market price e))))))"
proof (cases "li (eng_events e) (On_accepted (no_order_id order))")
  case True
  then show ?thesis by (simp add: submit_accepted_with_def notify_def e1)
next
  case False
  have tail: "caught (resume m (\<lambda>e. if 0 < rec_open_qty (rec_of e s)
       then if no_tif order = kDay
            then Some (Inr (with_book (\<lambda>p ob. add_resting p ob s (no_side order) price) b e))
            else let reason = (if is_market then kNoLiquidity
                               else if no_tif order = kIoc then kIocRemainder else kFokUnfillable);
                     remainder = rec_open_qty (rec_of e s)
                 in notify li (On_canceled (no_order_id order) remainder reason) (upd_rec s (\<lambda>r. r\<lparr>rec_open_qty := 0\<rparr>) e)
       else Some (Inr e))) = caught (resume m (\<lambda>e. Some (Inr (settle_order order b s is_market price e))))" for m
  proof (cases m)
    case (Some r)
    then show ?thesis by (cases r) (simp_all add: settle_order_def leftover_reason_def Let_def caught_if)
  qed simp
  from False have n: "notify li (On_accepted (no_order_id order))
      (upd_rec s (\<lambda>r. r\<lparr>rec_open_qty := no_quantity order, rec_filled_qty := 0\<rparr>) e) = Some (Inr e1)"
    by (simp add: notify_def e1)
  show ?thesis
    unfolding submit_accepted_with_def if_not_P [OF False] n resume_simps fok_check_def
      caught_bind caught_if tail caught_notify killed_def ..
qed

lemma submit_accepted_cut:
  assumes inv: "store_inv {} e" and s: "slot_ready e s (no_instrument_id order) (no_order_id order)"
    and b: "b < length (eng_books e)" "ob_instrument_id (eng_books e ! b) = no_instrument_id order"
    and qty: "no_quantity order \<noteq> 0" and price: "no_tif order = kDay \<longrightarrow> in_band (ob_ladder (eng_books e ! b)) price"
  shows "cut_or_same (caught (submit_accepted_with li e order b s is_market price)) (submit_accepted e order b s is_market price) e
    (accept_cut order b is_market price)"
proof -
  let ?i = "no_order_id order"
  define e0 where "e0 = upd_rec s (\<lambda>r. r\<lparr>rec_open_qty := no_quantity order, rec_filled_qty := 0\<rparr>) e"
  define e1 where "e1 = emit (On_accepted ?i) e0"
  note A = accepting_ok [OF inv s e0_def]
  have ok: "store_inv {} e1" "slot_ready e1 s (no_instrument_id order) ?i" "b < length (eng_books e1)"
    "ob_instrument_id (eng_books e1 ! b) = no_instrument_id order" and k1: "kept e e1"
    and ex1: "exchange_of e1 = ex_emit (On_accepted ?i) (exchange_of e)" and r1: "rec_open_qty (rec_of e1 s) = no_quantity order"
    using A b by (simp_all add: e1_def)
  have ev1: "eng_events e1 = ex_events (exchange_of e) @ [On_accepted ?i]" by (simp add: e1_def e0_def emit_events)
  have quiet: "submit_accepted e order b s is_market price = after_accept order b s is_market price e1"
    by (simp add: submit_accepted_after e1_def e0_def)
  note loud = submit_accepted_with_steps [OF e1_def [unfolded e0_def], of li b is_market price]
  show ?thesis
  proof (cases "li (eng_events e) (On_accepted ?i)")
    case True
    obtain v0 e2 where e2: "submit_accepted e order b s is_market price = Some e2"
      "exchange_of e2 = ex_accept v0 order b is_market price (exchange_of e)"
      using submit_accepted_ok [OF inv s b qty price, of is_market] by blast
    have "prefix (eng_events e1) (ex_events (exchange_of e2))" unfolding ev1 e2(2) by (rule accept_events)
    then show ?thesis
      by (intro cut_run [OF _ e2(1) ok(1) k1]) (simp_all add: loud True accept_cut_def ex1)
  next
    case calm: False
    obtain v where v: "fok_check order b is_market price e1 = Some v"
      using check_ok [OF ok(1,3) qty, of "no_side order" is_market price] by (cases "no_tif order = kFok") (auto simp: fok_check_def)
    show ?thesis
    proof (cases v)
      case False
      then show ?thesis by (intro same_run) (simp add: loud calm quiet after_accept_steps v)
    next
      case True
      note M = match_then_cut [where li = li and sd = "no_side order" and limit_price = price and is_market = is_market
          and f = "settle_order order b s is_market price", OF ok settle_events]
      have "accept_cut order b is_market price (exchange_of e) ex'"
        if "ex_match_cut b ?i (no_side order) is_market price (rec_open_qty (rec_of e1 s)) (exchange_of e1) ex'" for ex'
        using that by (simp add: accept_cut_def ex1 r1)
      from cut_or_same_after [where C = "accept_cut order b is_market price", OF M k1 this] show ?thesis using True by (simp add: loud calm quiet after_accept_steps v)
    qed
  qed
qed

text \<open>The parts of a handler before its first notification do not depend on the listener.\<close>

lemma submit_validated_cut:
  assumes inv: "store_inv {} e" and s: "slot_ready e s (no_instrument_id order) (no_order_id order)"
    and b: "b < length (eng_books e)" "ob_instrument_id (eng_books e ! b) = no_instrument_id order"
  shows "cut_or_same (caught (submit_validated_with li e order b s)) (submit_validated e order b s) e
    (\<lambda>ex ex'. order_valid order (ex_books ex ! b) \<and> accept_cut order b (no_type order = kMarket) (order_price order) ex ex')"
proof -
  let ?m = "no_type order = kMarket"
  show ?thesis
  proof (cases "no_quantity order \<noteq> 0 \<and> (if ?m then no_tif order \<noteq> kDay
      else is_tick_aligned (no_price order) \<and> \<not> ob_price_to_index (eng_books e ! b) (no_price order) < 0)")
    case True
    then have with_eq: "submit_validated_with li e order b s = submit_accepted_with li e order b s ?m (order_price order)"
      and eq: "submit_validated e order b s = submit_accepted e order b s ?m (order_price order)"
      by (cases ?m; simp add: submit_validated_with_def submit_validated_def order_price_def)+
    have "order_valid order (ex_books (exchange_of e) ! b)"
      using True ob_price_check [OF inv b(1), of "no_price order"] in_band_within [OF b(1), of "no_price order"]
      by (auto simp: order_valid_def split: if_splits)
    moreover have "cut_or_same (caught (submit_accepted_with li e order b s ?m (order_price order)))
        (submit_accepted e order b s ?m (order_price order)) e (accept_cut order b ?m (order_price order))"
    proof (rule submit_accepted_cut [OF inv s b])
      show "no_tif order = kDay \<longrightarrow> in_band (ob_ladder (eng_books e ! b)) (order_price order)"
        using True ob_price_check [OF inv b(1), of "no_price order"] by (auto simp: order_price_def split: if_splits)
    qed (use True in simp)
    ultimately show ?thesis unfolding with_eq eq cut_or_same_def by blast
  next
    case False
    then show ?thesis
      by (intro same_run) (auto simp: submit_validated_with_def submit_validated_def Let_def split: if_splits)
  qed
qed

text \<open>An engine run that is cut short keeps the invariant, and has room for one more slot at most.\<close>

definition cut_request :: "engine option \<Rightarrow> engine option \<Rightarrow> engine \<Rightarrow> (exchange \<Rightarrow> exchange \<Rightarrow> bool) \<Rightarrow> bool" where
  "cut_request m q e C \<longleftrightarrow> m = q \<or> (\<exists>e' e''. m = Some e' \<and> q = Some e'' \<and> eng_inv e' \<and> op_size (eng_pool e') \<le> Suc (op_size (eng_pool e))
    \<and> C (exchange_of e) (exchange_of e') \<and> prefix (eng_events e') (eng_events e''))"

lemma cut_requestI:
  assumes "cut_or_same m q e1 C1" "eng_configured e1" "op_size (eng_pool e1) \<le> Suc (op_size (eng_pool e))"
    "\<And>ex'. C1 (exchange_of e1) ex' \<Longrightarrow> C (exchange_of e) ex'"
  shows "cut_request m q e C"
  using assms unfolding cut_or_same_def cut_request_def eng_inv_def by auto

lemma submit_with_fresh:
  assumes "eng_inv e" "book_index (exchange_of e) (no_instrument_id order) = Some b" "no_order_id order \<notin> ex_used (exchange_of e)"
  shows "submit_with li al e order = op_allocate al (eng_pool e) \<bind> (\<lambda>a. case a of Inl _ \<Rightarrow> Some e
      | Inr (t, p) \<Rightarrow> fm_insert al (eng_order_index e) (no_order_id order) t \<bind> (\<lambda>ins. case ins of
            Inl _ \<Rightarrow> Some (upd_rec t (submitted_record order) (e\<lparr>eng_pool := p\<rparr>))
          | Inr oi \<Rightarrow> caught (submit_validated_with li ((upd_rec t (submitted_record order) (e\<lparr>eng_pool := p\<rparr>))\<lparr>eng_order_index := oi\<rparr>) order b t)))"
  unfolding submit_with_def Let_def submitted_record_def caught_inside
  using assms(2,3)
  by (simp add: eng_inv_sel [OF assms(1)] submit_checks [OF assms(1)] caught_inside del: exchange_of_simps(3) cong del: sum.case_cong_weak)

lemma submit_cut_ok:
  assumes inv: "eng_inv e" and room: "op_size (eng_pool e) < 2 ^ 32 - 1"
  shows "cut_request (submit_with li al e order) (submit al e order) e (submit_cut order)"
proof -
  let ?i = "no_order_id order" and ?iid = "no_instrument_id order" and ?ex = "exchange_of e" and ?oi = "eng_order_index e"
  note conf = eng_inv_sel(1) [OF inv] and sinv = eng_inv_sel(2) [OF inv]
  note find = submit_checks(1) [OF inv, of order] and dup = submit_checks(2) [OF inv, of order]
  have same: ?thesis if "submit_with li al e order = submit al e order" using that by (simp add: cut_request_def)
  show ?thesis
  proof (cases "book_index ?ex ?iid")
    case None
    show ?thesis by (rule same) (simp add: submit_def submit_with_def conf find None)
  next
    case (Some b)
    show ?thesis
    proof (cases "?i \<in> ex_used ?ex")
      case True
      show ?thesis by (rule same) (use True dup in \<open>simp add: submit_def submit_with_def conf find Some\<close>)
    next
      case False
      then have fresh: "fm_lookup ?oi ?i = None" by auto
      note sub = submit_fresh [OF inv Some False, of al] and loud = submit_with_fresh [OF inv Some False, of li al]
      show ?thesis
        using inv room submitted_record [of order] insert_index [OF inv room fresh, of al]
      proof (cases rule: take_and_index)
        case (no_slot x r)
        then show ?thesis by (intro same) (simp add: sub loud)
      next
        case (no_id t p x r)
        then show ?thesis by (intro same) (simp add: sub loud)
      next
        case (ready t p oi e2)
        have inv2: "store_inv {} e2" using ready(4) fresh by simp
        have b2: "b < length (eng_books e2)" "ob_instrument_id (eng_books e2 ! b) = ?iid"
          using Some unfolding book_index_iff [OF sinv] ready(8) by simp_all
        have "cut_or_same (submit_with li al e order) (submit al e order) e2
            (\<lambda>ex ex'. order_valid order (ex_books ex ! b) \<and> accept_cut order b (no_type order = kMarket) (order_price order) ex ex')"
          using submit_validated_cut [OF inv2 ready(5) b2, of li] by (simp add: sub loud ready(1-3))
        then show ?thesis
        proof (rule cut_requestI)
          show "submit_cut order ?ex ex'" if "order_valid order (ex_books (exchange_of e2) ! b)
              \<and> accept_cut order b (no_type order = kMarket) (order_price order) (exchange_of e2) ex'" for ex'
            using that Some False unfolding submit_cut_def ready(6) by auto
        qed (use ready in simp_all)
      qed
    qed
  qed
qed

subsection \<open>Replace\<close>

lemma replace_commit_with_steps:
  assumes loses: "ro_new_price req \<noteq> rec_price oc \<or> rec_open_qty oc < n"
  shows "caught (replace_commit_with li e req b oc s t n) =
    (if li (eng_events e) (On_replaced (ro_order_id req) (ro_new_order_id req) (ro_new_price req) n)
     then Some (emit (On_replaced (ro_order_id req) (ro_new_order_id req) (ro_new_price req) n)
       (with_book (\<lambda>p ob. remove_resting p ob s) b e))
     else caught (resume (if ro_new_price req \<noteq> rec_price oc
       then match_in_engine_with li (emit (On_replaced (ro_order_id req) (ro_new_order_id req) (ro_new_price req) n)
         (with_book (\<lambda>p ob. remove_resting p ob s) b e)) b (rec_instrument_id oc) t (rec_side oc) (ro_new_price req) False
       else Some (Inr (emit (On_replaced (ro_order_id req) (ro_new_order_id req) (ro_new_price req) n)
         (with_book (\<lambda>p ob. remove_resting p ob s) b e))))
       (\<lambda>e. Some (Inr (if 0 < rec_open_qty (rec_of e t)
         then with_book (\<lambda>p ob. add_resting p ob t (rec_side oc) (ro_new_price req)) b e else e)))))"
    (is "_ = (if ?throws then Some ?e1 else _)")
proof -
  have n: "notify li (On_replaced (ro_order_id req) (ro_new_order_id req) (ro_new_price req) n) (with_book (\<lambda>p ob. remove_resting p ob s) b e)
      = Some (if ?throws then Inl ?e1 else Inr ?e1)"
    by (simp add: notify_def)
  show ?thesis
    unfolding replace_commit_with_def Let_def if_P [OF loses] n if_distrib [where f = "\<lambda>e. Some (Inr e)"] by (cases ?throws) simp_all
qed

lemma replace_commit_cut:
  assumes inv: "store_inv X e" and old: "leaving X e b s" "rec_of e s = oc" "rec_id oc = ro_order_id req"
    and new: "slot_ready e t (rec_instrument_id oc) (ro_new_order_id req)" "rec_open_qty (rec_of e t) = n"
  shows "cut_or_same (caught (replace_commit_with li e req b oc s t n)) (replace_commit e req b oc s t n) e
    (commit_cut req b (rec_side oc) (view_order (op_get (eng_pool e)) s) n)"
proof -
  let ?i = "ro_order_id req" and ?j = "ro_new_order_id req" and ?p = "ro_new_price req" and ?sd = "rec_side oc"
  let ?iid = "rec_instrument_id oc" and ?r = "view_order (op_get (eng_pool e)) s"
  let ?ev = "On_replaced ?i ?j ?p n"
  have b: "b < length (eng_books e)" "ob_instrument_id (eng_books e ! b) = ?iid" using old(1,2) by (simp_all add: leaving_def)
  show ?thesis
  proof (cases "?p \<noteq> rec_price oc \<or> rec_open_qty oc < n")
    case False
    then show ?thesis
      by (intro same_run) (simp add: replace_commit_with_def replace_commit_def)
  next
    case loses: True
    define e1 where "e1 = emit ?ev (with_book (\<lambda>p ob. remove_resting p ob s) b e)"
    note R = remove_ok [OF inv old(1) refl]
    have inv1: "store_inv {} e1" and ex1: "exchange_of e1 = ex_emit ?ev (ex_remove b ?sd ?i (exchange_of e))" and k1: "kept e e1"
      and s1: "slot_ready e1 t ?iid ?j" and r1: "rec_open_qty (rec_of e1 t) = n"
      and b1: "b < length (eng_books e1)" "ob_instrument_id (eng_books e1 ! b) = ?iid"
      using R(1-3) R(4) [OF new(1)] R(5-7) b new(2) by (simp_all add: e1_def old(2,3))
    define finish where "finish e = (if 0 < rec_open_qty (rec_of e t)
        then with_book (\<lambda>p ob. add_resting p ob t ?sd ?p) b e else e)" for e
    have finish: "eng_events (finish e) = eng_events e" for e by (simp add: finish_def)
    have quiet: "replace_commit e req b oc s t n =
        (if ?p \<noteq> rec_price oc then match_in_engine e1 b ?iid t ?sd ?p False else Some e1) \<bind> (\<lambda>e. Some (finish e))"
      using loses unfolding replace_commit_def Let_def finish_def e1_def if_distrib [where f = Some] by (simp only: if_P)
    have loud: "caught (replace_commit_with li e req b oc s t n) = (if li (eng_events e) ?ev then Some e1 else
         caught (resume (if ?p \<noteq> rec_price oc then match_in_engine_with li e1 b ?iid t ?sd ?p False else Some (Inr e1)) (\<lambda>e. Some (Inr (finish e)))))"
      unfolding finish_def e1_def by (rule replace_commit_with_steps [OF loses])
    have cut_at: "commit_cut req b ?sd ?r n (exchange_of e) ex'"
      if "ex' = exchange_of e1 \<or> ?p \<noteq> rec_price oc \<and> ex_match_cut b ?j ?sd False ?p n (exchange_of e1) ex'" for ex'
      using that loses unfolding commit_cut_def ex1 by (auto simp: old(2))
    show ?thesis
    proof (cases "li (eng_events e) ?ev")
      case True
      obtain e3 where e3: "match_in_engine e1 b ?iid t ?sd ?p False = Some e3" "prefix (eng_events e1) (eng_events e3)"
        using match_heard [OF inv1 s1 b1] by blast
      define e2 where "e2 = (if ?p \<noteq> rec_price oc then finish e3 else finish e1)"
      have "replace_commit e req b oc s t n = Some e2" by (simp add: quiet e3(1) e2_def)
      moreover have "prefix (eng_events e1) (eng_events e2)" using e3(2) by (simp add: e2_def finish)
      moreover have "caught (replace_commit_with li e req b oc s t n) = Some e1" by (simp add: loud True)
      ultimately show ?thesis using inv1 k1 cut_at by (intro cut_run) simp_all
    next
      case calm: False
      show ?thesis
      proof (cases "?p = rec_price oc")
        case True
        with calm show ?thesis by (intro same_run) (simp add: loud quiet)
      next
        case moved: False
        have "prefix (eng_events e) (eng_events (finish e))" for e by (simp add: finish)
        note M = match_then_cut [where li = li and sd = ?sd and limit_price = ?p and is_market = False, OF inv1 s1 b1 this]
        have "commit_cut req b ?sd ?r n (exchange_of e) ex'"
          if "ex_match_cut b ?j ?sd False ?p (rec_open_qty (rec_of e1 t)) (exchange_of e1) ex'" for ex'
          using that moved by (intro cut_at) (simp add: r1)
        from cut_or_same_after [where C = "commit_cut req b ?sd ?r n", OF M k1 this] show ?thesis using calm moved by (simp add: loud quiet)
      qed
    qed
  qed
qed

lemma replace_validated_with_steps:
  "caught (replace_validated_with li al e req b r s n) = op_allocate al (eng_pool e) \<bind> (\<lambda>a. case a of Inl _ \<Rightarrow> Some e
    | Inr (t, p) \<Rightarrow> replaced_index al (eng_order_index e) req t \<bind> (\<lambda>ins. case ins of
          Inl _ \<Rightarrow> Some (upd_rec t (replaced_record req n r) (e\<lparr>eng_pool := p\<rparr>))
        | Inr oi \<Rightarrow> caught (replace_commit_with li ((upd_rec t (replaced_record req n r) (e\<lparr>eng_pool := p\<rparr>))\<lparr>eng_order_index := oi\<rparr>) req b r s t n)))"
  unfolding replace_validated_with_def Let_def replaced_record_def replaced_index_def order_index_upd caught_inside caught_simps ..

lemma replace_validated_cut:
  assumes inv: "eng_inv e" and room: "op_size (eng_pool e) < 2 ^ 32 - 1"
    and s: "fm_lookup (eng_order_index e) (ro_order_id req) = Some s" "leaving {} e b s" "rec_id (rec_of e s) = ro_order_id req"
    and fresh: "ro_new_order_id req = ro_order_id req \<or> fm_lookup (eng_order_index e) (ro_new_order_id req) = None"
  shows "cut_request (caught (replace_validated_with li al e req b (rec_of e s) s n)) (replace_validated al e req b (rec_of e s) s n) e
    (\<lambda>ex. commit_cut req b (rec_side (rec_of e s)) (view_order (op_get (eng_pool e)) s) n
      (ex\<lparr>ex_used := insert (ro_new_order_id req) (ex_used ex)\<rparr>))"
proof -
  let ?r = "rec_of e s"
  note quiet = replace_validated_steps [of al e req b ?r s n] and loud = replace_validated_with_steps [of li al e req b ?r s n]
  have same: ?thesis if "caught (replace_validated_with li al e req b ?r s n) = replace_validated al e req b ?r s n"
    using that by (simp add: cut_request_def)
  show ?thesis
    using inv room replaced_record [of req n ?r] replaced_index [OF inv room s(1) fresh, of al]
  proof (cases rule: take_and_index)
    case (no_slot x r)
    then show ?thesis by (intro same) (simp add: quiet loud)
  next
    case (no_id t p x r)
    then show ?thesis by (intro same) (simp add: quiet loud)
  next
    case (ready t p oi e2)
    have s2: "rec_of e2 s = ?r" using ready(12) [of s] s(2) by (simp add: leaving_def)
    note leave = leaving_indexed [OF s fresh s2 _ ready(13) ready(8), unfolded ready(9,10)]
    have "rec_open_qty (rec_of e2 t) = n" by (simp add: ready(10))
    note C = replace_commit_cut [OF ready(4) leave s2 s(3) ready(5) this, of li, OF replaced_record(1)]
    have "view_order (op_get (eng_pool e2)) s = view_order (op_get (eng_pool e)) s" using s2 by (simp add: view_order_def)
    with C have "cut_or_same (caught (replace_validated_with li al e req b ?r s n)) (replace_validated al e req b ?r s n) e2
        (commit_cut req b (rec_side ?r) (view_order (op_get (eng_pool e)) s) n)"
      by (simp add: quiet loud ready(1-3))
    then show ?thesis by (rule cut_requestI) (use ready(6,7,9) in simp_all)
  qed
qed

text \<open>\<open>replace\<close> of an open order, as a list of checks.\<close>

lemma replace_with_live:
  assumes inv: "eng_inv e" and live: "fm_find (eng_order_index e) (ro_order_id req) = Some (Some s)" "rec_is_open (rec_of e s)"
      "find_book e (rec_instrument_id (rec_of e s)) = Some (Some b)"
    and n: "n = (if rec_filled_qty (rec_of e s) < ro_new_quantity req then ro_new_quantity req - rec_filled_qty (rec_of e s) else 0)"
    and reject: "reject = (\<lambda>reason. Some (emit (On_rejected (ro_new_order_id req) reason) e))"
  shows "replace_with li al e req = (if n = 0
        then Some (emit (On_canceled (ro_order_id req) (rec_open_qty (rec_of e s)) kUserRequested) (with_book (\<lambda>p ob. remove_resting p ob s) b e))
        else if ro_new_order_id req \<noteq> ro_order_id req \<and> fm_lookup (eng_order_index e) (ro_new_order_id req) \<noteq> None then reject kDuplicateOrderId
        else if \<not> is_tick_aligned (ro_new_price req) then reject kInvalidPriceTick
        else if ob_price_to_index (eng_books e ! b) (ro_new_price req) < 0 then reject kPriceOutOfBand
        else caught (replace_validated_with li al e req b (rec_of e s) s n))"
proof -
  let ?j = "ro_new_order_id req"
  have dup: "(if ?j = ro_order_id req then Some False else fm_contains (eng_order_index e) ?j)
      = Some (?j \<noteq> ro_order_id req \<and> fm_lookup (eng_order_index e) ?j \<noteq> None)"
    using hash_map.contains [OF order_index_ready [OF inv], of ?j] by auto
  show ?thesis
    unfolding replace_with_def Let_def n [symmetric] reject caught_inside caught_notify
    by (simp add: eng_inv_sel [OF inv] live n [symmetric] dup caught_inside)
qed

lemma replace_cut_ok:
  assumes inv: "eng_inv e" and room: "op_size (eng_pool e) < 2 ^ 32 - 1"
  shows "cut_request (replace_with li al e req) (replace al e req) e (replace_cut req)"
proof -
  have same: ?thesis if "replace_with li al e req = replace al e req" using that by (simp add: cut_request_def)
  show ?thesis
    using inv
  proof (cases rule: lookup_cases [where i = "ro_order_id req"])
    case unknown
    then show ?thesis by (intro same) (simp add: replace_def replace_with_def caught_inside)
  next
    case (closed s)
    then show ?thesis by (intro same) (simp add: replace_def replace_with_def caught_inside)
  next
    case (live s b)
    let ?i = "ro_order_id req" and ?j = "ro_new_order_id req" and ?p = "ro_new_price req" and ?r = "rec_of e s" and ?oi = "eng_order_index e"
    define n where "n = (if rec_filled_qty ?r < ro_new_quantity req then ro_new_quantity req - rec_filled_qty ?r else 0)"
    note eq = replace_with_live [OF inv live(1,3,4) n_def refl]
    show ?thesis
    proof (cases "n = 0 \<or> ?j \<noteq> ?i \<and> fm_lookup ?oi ?j \<noteq> None \<or> \<not> is_tick_aligned ?p \<or> ob_price_to_index (eng_books e ! b) ?p < 0")
      case True
      then show ?thesis by (intro same) (auto simp: eq simp flip: replace_quiet)
    next
      case False
      then have pass: "n \<noteq> 0" "\<not> (?j \<noteq> ?i \<and> fm_lookup ?oi ?j \<noteq> None)" "is_tick_aligned ?p"
        "\<not> ob_price_to_index (eng_books e ! b) ?p < 0" by blast+
      have loud: "replace_with li al e req = caught (replace_validated_with li al e req b ?r s n)" for li
        unfolding eq if_not_P [OF pass(2)] using pass(1,3,4) by simp
      from loud [of quiet] have quiet: "replace al e req = replace_validated al e req b ?r s n"
        by (simp add: replace_quiet replace_validated_quiet)
      from pass(1) have n: "n = ro_new_quantity req - rec_filled_qty ?r" "rec_filled_qty ?r < ro_new_quantity req"
        by (simp_all add: n_def split: if_splits)
      have b: "b < length (eng_books e)" using live(5) by (simp add: leaving_def)
      have band: "within_band (ex_books (exchange_of e) ! b) ?p"
        using pass(4) ob_price_check [OF eng_inv_sel(2) [OF inv] b, of ?p] in_band_within [OF b, of ?p] by blast
      have fresh: "?j = ?i \<or> fm_lookup ?oi ?j = None" using False by blast
      have "replace_cut req (exchange_of e) ex'" if "commit_cut req b (rec_side ?r) (view_order (op_get (eng_pool e)) s) n
          ((exchange_of e)\<lparr>ex_used := insert ?j (ex_used (exchange_of e))\<rparr>) ex'" for ex'
        using that live(7) pass(2,3) n(2) band unfolding replace_cut_def n(1) by auto
      with replace_validated_cut [OF inv room live(2,5,6) fresh, of li al n] show ?thesis
        unfolding cut_request_def loud quiet by blast
    qed
  qed
qed

text \<open>
  The exception of \<open>on_replaced\<close> itself, when the order loses its place: the old order is off
  the book and nothing has taken its place.
\<close>

lemma replace_commit_thrown:
  assumes inv: "store_inv X e" and old: "leaving X e b s" "rec_of e s = oc" "rec_id oc = ro_order_id req"
    and loses: "ro_new_price req \<noteq> rec_price oc \<or> rec_open_qty oc < n"
    and throws: "li (eng_events e) (On_replaced (ro_order_id req) (ro_new_order_id req) (ro_new_price req) n)"
  shows "\<exists>e1. caught (replace_commit_with li e req b oc s t n) = Some e1 \<and> store_inv {} e1 \<and> kept e e1
    \<and> exchange_of e1 = ex_emit (On_replaced (ro_order_id req) (ro_new_order_id req) (ro_new_price req) n)
        (ex_remove b (rec_side oc) (ro_order_id req) (exchange_of e))"
proof -
  note R = remove_ok [OF inv old(1) refl]
  show ?thesis
    using R(1-3) throws unfolding replace_commit_with_def Let_def if_P [OF loses]
    by (simp add: notify_def old(2,3))
qed

lemma replace_thrown_ok:
  assumes inv: "eng_inv e" and room: "op_size (eng_pool e) < 2 ^ 32 - 1" and granted: "\<forall>r. al r = None"
    and found: "find_order (exchange_of e) (ro_order_id req) = Some (b, sd, x)"
    and fresh: "ro_new_order_id req = ro_order_id req \<or> ro_new_order_id req \<notin> ex_used (exchange_of e)"
    and qty: "ao_filled x < ro_new_quantity req" and n: "n = ro_new_quantity req - ao_filled x"
    and price: "is_tick_aligned (ro_new_price req)" "within_band (ex_books (exchange_of e) ! b) (ro_new_price req)"
    and loses: "ro_new_price req \<noteq> ao_price x \<or> ao_open x < n"
    and throws: "li (eng_events e) (On_replaced (ro_order_id req) (ro_new_order_id req) (ro_new_price req) n)"
  shows "\<exists>e'. replace_with li al e req = Some e' \<and> eng_inv e'
    \<and> exchange_of e' = ex_emit (On_replaced (ro_order_id req) (ro_new_order_id req) (ro_new_price req) n)
        (ex_remove b sd (ro_order_id req) ((exchange_of e)\<lparr>ex_used := insert (ro_new_order_id req) (ex_used (exchange_of e))\<rparr>))"
  using inv
proof (cases rule: lookup_cases [where i = "ro_order_id req"])
  case (live s c)
  let ?i = "ro_order_id req" and ?j = "ro_new_order_id req" and ?p = "ro_new_price req" and ?r = "rec_of e s" and ?oi = "eng_order_index e"
  have eqs: "c = b" "rec_side ?r = sd" "x = view_order (op_get (eng_pool e)) s" using found live(7) by simp_all
  have b: "b < length (eng_books e)" using live(5) by (simp add: leaving_def eqs(1))
  have n': "n = (if rec_filled_qty ?r < ro_new_quantity req then ro_new_quantity req - rec_filled_qty ?r else 0)"
    using qty by (simp add: n eqs(3))
  have fresh': "?j = ?i \<or> fm_lookup ?oi ?j = None" using fresh by auto
  have "n \<noteq> 0" "\<not> (?j \<noteq> ?i \<and> fm_lookup ?oi ?j \<noteq> None)" "\<not> ob_price_to_index (eng_books e ! b) ?p < 0"
    using qty price fresh' ob_price_check [OF eng_inv_sel(2) [OF inv] b, of ?p] in_band_within [OF b, of ?p] by (auto simp: n)
  with price(1) have rep: "replace_with li al e req = caught (replace_validated_with li al e req b ?r s n)"
    using replace_with_live [OF inv live(1,3,4) n' refl, of li al] unfolding eqs(1) by (simp only: if_not_P if_False if_True not_not simp_thms)
  show ?thesis
    using inv room replaced_record [of req n ?r] replaced_index [OF inv room live(2) fresh', of al]
  proof (cases rule: take_and_index)
    case (ready t p oi e2)
    have s2: "rec_of e2 s = ?r" using ready(12) [of s] live(5) by (simp add: leaving_def)
    note leave = leaving_indexed [OF live(2) live(5) [unfolded eqs(1)] live(6) fresh' s2 _ ready(13) ready(8), unfolded ready(9,10)]
    have "eng_events e2 = eng_events e" by (simp add: ready(3))
    with throws have throws2: "li (eng_events e2) (On_replaced ?i ?j ?p n)" by simp
    have loses2: "?p \<noteq> rec_price ?r \<or> rec_open_qty ?r < n" using loses by (simp add: eqs(3))
    obtain e1 where C: "caught (replace_commit_with li e2 req b ?r s t n) = Some e1" "store_inv {} e1" "kept e2 e1"
      "exchange_of e1 = ex_emit (On_replaced ?i ?j ?p n) (ex_remove b sd ?i (exchange_of e2))"
      using replace_commit_thrown [where t = t and li = li, OF ready(4) leave s2 live(6) loses2 throws2] replaced_record(1) unfolding eqs(2) by auto
    have "replace_with li al e req = Some e1" using C(1) by (simp add: rep replace_validated_with_steps ready(1-3))
    moreover have "eng_inv e1" using C(2,3) ready(7) by (simp add: eng_inv_def)
    ultimately show ?thesis using C(4) by (simp add: ready(6))
  qed (use granted in simp_all)
qed (use found in simp_all)

section \<open>Any request\<close>

fun command_cut :: "command \<Rightarrow> exchange \<Rightarrow> exchange \<Rightarrow> bool" where
  "command_cut (Submit order) ex ex' \<longleftrightarrow> submit_cut order ex ex'"
| "command_cut (Cancel creq) ex ex' \<longleftrightarrow> False"
| "command_cut (Replace rreq) ex ex' \<longleftrightarrow> replace_cut rreq ex ex'"

lemma step_cut_ok:
  assumes "eng_inv e" "op_size (eng_pool e) < 2 ^ 32 - 1"
  shows "cut_request (step_with li al e c) (step al e c) e (command_cut c)"
proof (cases c)
  case (Submit order)
  with submit_cut_ok [OF assms, of li al order] show ?thesis by (simp add: cut_request_def)
next
  case (Cancel creq)
  then show ?thesis by (simp add: cut_request_def cancel_quiet)
next
  case (Replace rreq)
  with replace_cut_ok [OF assms, of li al rreq] show ?thesis by (simp add: cut_request_def)
qed

lemma command_cut_inv: "exchange_inv ex \<Longrightarrow> command_cut c ex ex' \<Longrightarrow> exchange_inv ex'"
  by (cases c) (auto dest: submit_cut_inv replace_cut_inv)

end
