(* ===== verification/Engine_Runs.thy ===== *)
theory Engine_Runs
  imports Engine_Configure Interrupted_Requests
begin

text \<open>
  The exchange as a state machine, the engine's runs as its runs, and the engine's reachable
  states. A request that the allocator stops is no step of the exchange.
\<close>

section \<open>Steps of the exchange\<close>

inductive ex_step :: "exchange \<Rightarrow> command \<Rightarrow> exchange \<Rightarrow> bool" where
  submit: "submit_verdict v order ex \<Longrightarrow> ex_step ex (Submit order) (ex_submit v order ex)"
| cancel: "ex_step ex (Cancel creq) (ex_cancel creq ex)"
| replace: "ex_step ex (Replace rreq) (ex_replace rreq ex)"

inductive_cases ex_step_cases: "ex_step ex c ex'"

inductive_simps ex_step_simps:
  "ex_step ex (Submit order) ex'" "ex_step ex (Cancel creq) ex'" "ex_step ex (Replace rreq) ex'"

inductive ex_run :: "exchange \<Rightarrow> command list \<Rightarrow> exchange \<Rightarrow> bool" where
  finished: "ex_run ex [] ex"
| further: "ex_step ex c ex1 \<Longrightarrow> ex_run ex1 cs ex2 \<Longrightarrow> ex_run ex (c # cs) ex2"

inductive_simps ex_run_simps [simp]: "ex_run ex [] ex'" "ex_run ex (c # cs) ex'"

lemma ex_step_inv: "ex_step ex c ex' \<Longrightarrow> exchange_inv ex \<Longrightarrow> exchange_inv ex'"
  by (induction rule: ex_step.induct) (simp_all add: submit_inv cancel_inv replace_inv)

lemma ex_run_inv: "ex_run ex cs ex' \<Longrightarrow> exchange_inv ex \<Longrightarrow> exchange_inv ex'"
  by (induction rule: ex_run.induct) (simp_all add: ex_step_inv)

lemma ex_run_append: "ex_run ex (cs @ ds) ex2 \<longleftrightarrow> (\<exists>ex1. ex_run ex cs ex1 \<and> ex_run ex1 ds ex2)"
  by (induction cs arbitrary: ex) auto

section \<open>Steps of the engine\<close>

lemma step_ok:
  assumes inv: "eng_inv e" and room: "op_size (eng_pool e) < 2 ^ 32 - 1"
  shows "\<exists>e'. step al e c = Some e' \<and> eng_inv e' \<and> op_size (eng_pool e') \<le> Suc (op_size (eng_pool e))
    \<and> (ex_step (exchange_of e) c (exchange_of e') \<or> exchange_of e' = exchange_of e \<and> (\<exists>r. al r \<noteq> None))"
proof (cases c)
  case (Submit order)
  then show ?thesis using submit_ok [OF inv room, of al order] unfolding done_or_dropped_def
    by (auto simp: ex_step_simps)
next
  case (Cancel req)
  then show ?thesis using cancel_ok [OF inv, of req] by (auto simp: ex_step_simps)
next
  case (Replace req)
  then show ?thesis using replace_ok [OF inv room, of al req] unfolding done_or_dropped_def
    by (auto simp: ex_step_simps)
qed

definition granted :: "(allocator \<times> command) list \<Rightarrow> bool" where
  "granted cs \<longleftrightarrow> (\<forall>(al, c) \<in> set cs. \<forall>r. al r = None)"

lemma run_ok:
  assumes "eng_inv e" "op_size (eng_pool e) + length cs < 2 ^ 32"
  shows "\<exists>e' served. run e cs = Some e' \<and> eng_inv e' \<and> ex_run (exchange_of e) served (exchange_of e')
    \<and> subseq served (map snd cs) \<and> (granted cs \<longrightarrow> served = map snd cs)"
  using assms
proof (induction cs arbitrary: e)
  case Nil
  then show ?case by (simp add: granted_def)
next
  case (Cons ac cs)
  obtain al c where ac: "ac = (al, c)" by (cases ac)
  have room: "op_size (eng_pool e) < 2 ^ 32 - 1" using Cons.prems(2) by simp
  obtain e1 where e1: "step al e c = Some e1" "eng_inv e1" "op_size (eng_pool e1) \<le> Suc (op_size (eng_pool e))"
    "ex_step (exchange_of e) c (exchange_of e1) \<or> exchange_of e1 = exchange_of e \<and> (\<exists>r. al r \<noteq> None)"
    using step_ok [OF Cons.prems(1) room, of al c] by blast
  have room1: "op_size (eng_pool e1) + length cs < 2 ^ 32" using e1(3) Cons.prems(2) by simp
  obtain e' served where R: "run e1 cs = Some e'" "eng_inv e'" "ex_run (exchange_of e1) served (exchange_of e')"
    "subseq served (map snd cs)" "granted cs \<longrightarrow> served = map snd cs"
    using Cons.IH [OF e1(2) room1] by blast
  have run: "run e (ac # cs) = Some e'" by (simp add: ac e1(1) R(1))
  from e1(4) show ?case
  proof (elim disjE conjE)
    assume "ex_step (exchange_of e) c (exchange_of e1)"
    with R run show ?thesis by (intro exI [of _ e'] exI [of _ "c # served"]) (auto simp: ac granted_def)
  next
    assume "exchange_of e1 = exchange_of e" "\<exists>r. al r \<noteq> None"
    with R run show ?thesis by (intro exI [of _ e'] exI [of _ served]) (auto simp: ac granted_def)
  qed
qed

text \<open>The same with a listener that may throw: a request may also be cut short.\<close>

lemma step_with_ok:
  assumes inv: "eng_inv e" and room: "op_size (eng_pool e) < 2 ^ 32 - 1"
  shows "\<exists>e'. step_with li al e c = Some e' \<and> eng_inv e' \<and> op_size (eng_pool e') \<le> Suc (op_size (eng_pool e))
    \<and> (ex_step (exchange_of e) c (exchange_of e') \<or> command_cut c (exchange_of e) (exchange_of e')
      \<or> exchange_of e' = exchange_of e \<and> (\<exists>r. al r \<noteq> None))"
  using step_cut_ok [OF assms, of li al c] step_ok [OF assms, of al c] unfolding cut_request_def by metis

section \<open>Reachable engines\<close>

text \<open>
  Every state a caller can bring about: create an engine, configure it any number of times,
  send requests, with any behaviour of the allocator and of the listener, whose calls may throw, while fewer than \<open>2^32 - 1\<close> slots are in
  use. The ladders of accepted configurations are assumed to fit in 32 bits.
\<close>

definition all_fit :: "instrument_config list option \<Rightarrow> bool" where
  "all_fit cfgs \<longleftrightarrow> (case cfgs of None \<Rightarrow> True | Some cs \<Rightarrow> \<forall>cfg \<in> set cs. ladder_fits cfg)"

inductive reachable :: "engine \<Rightarrow> bool" where
  created: "engine_new al = Some (Inr e) \<Longrightarrow> reachable e"
| configured: "reachable e \<Longrightarrow> all_fit cfgs \<Longrightarrow> configure al e cfgs = Some (res, e') \<Longrightarrow> reachable e'"
| requested: "reachable e \<Longrightarrow> op_size (eng_pool e) < 2 ^ 32 - 1 \<Longrightarrow> step_with li al e c = Some e' \<Longrightarrow> reachable e'"

lemma reachable_requested:
  "reachable e \<Longrightarrow> op_size (eng_pool e) < 2 ^ 32 - 1 \<Longrightarrow> step al e c = Some e' \<Longrightarrow> reachable e'"
  unfolding step_quiet [symmetric] by (rule reachable.requested)

lemma configured_sound: "exchange_inv (configured_exchange cfgs e)"
  by (auto simp: exchange_inv_def configured_exchange_def empty_abook_def book_sound_def priority_sorted_def uncrossed_def
    ids_unique_def ids_spent_def open_at_def)

lemma unconfigured_step:
  assumes "\<not> eng_configured e"
  shows "\<exists>i. step al e c = Some (emit (On_rejected i kNotConfigured) e)"
  using assms by (cases c) (auto simp: submit_def cancel_def replace_def)

lemma unconfigured_step_with:
  assumes "\<not> eng_configured e"
  shows "\<exists>i. step_with li al e c = Some (emit (On_rejected i kNotConfigured) e)"
  using assms by (cases c) (auto simp: submit_with_def cancel_with_def replace_with_def)

lemma configure_cases:
  assumes "configure al e cfgs = Some (res, e')" "\<not> eng_configured e" "all_fit cfgs"
  shows "e' = e \<or> (\<exists>cs. cfgs = Some cs \<and> res = kOk \<and> eng_inv e' \<and> exchange_of e' = configured_exchange cs e)"
proof (cases cfgs)
  case None
  then have "configure al e cfgs = Some (kInvalidArgument, e)" using assms(2) by (simp add: configure_def configure_body_def returns_def)
  with assms(1) show ?thesis by simp
next
  case (Some cs)
  with assms(3) have "\<forall>cfg \<in> set cs. \<not> config_invalid cfg \<longrightarrow> ladder_fits cfg" by (simp add: all_fit_def)
  from configure_ok [OF assms(2) this, of al] assms(1) Some have "configure_end al e cs (res, e')" by simp
  with Some show ?thesis by (cases res) (auto simp: configure_end_def)
qed

lemma already_configured: "eng_configured e \<Longrightarrow> configure al e cfgs = Some (kAlreadyConfigured, e)"
  by (simp add: configure_def configure_body_def returns_def)

lemma reachable_sound: "reachable e \<Longrightarrow> eng_configured e \<Longrightarrow> eng_inv e \<and> exchange_inv (exchange_of e)"
proof (induction rule: reachable.induct)
  case (created al e)
  then show ?case
    by (auto simp: engine_new_def and_then_def returns_def split: option.splits sum.splits)
next
  case (configured e cfgs al res e')
  show ?case
  proof (cases "eng_configured e")
    case True
    with configured show ?thesis by (simp add: already_configured)
  next
    case False
    with configure_cases [OF configured(3) False configured(2)] configured(5) show ?thesis
      using configured_sound by auto
  qed
next
  case (requested e li al c e')
  show ?case
  proof (cases "eng_configured e")
    case True
    with requested have inv: "eng_inv e" "exchange_inv (exchange_of e)" by simp_all
    from step_with_ok [OF inv(1) requested(2), of li al c] requested(3) inv(2) show ?thesis
      using ex_step_inv command_cut_inv by auto
  next
    case False
    with unconfigured_step_with [OF False, of li al c] requested(3,5) show ?thesis by (auto simp: emit_def)
  qed
qed

end
