(* ===== verification/Trades.thy ===== *)
theory Trades
  imports Engine_Runs
begin

text \<open>
  What the trades of a request look like: which resting orders they execute, in which order,
  at which price and for how much, and that no quantity is lost or made.
\<close>

section \<open>Trades among the events\<close>

fun is_trade :: "event \<Rightarrow> bool" where
  "is_trade (On_trade _ _ _ _ _ _ _) = True"
| "is_trade _ = False"

fun trade_quantity :: "event \<Rightarrow> nat" where
  "trade_quantity (On_trade _ _ _ q _ _ _) = unat q"
| "trade_quantity _ = 0"

definition total_traded :: "event list \<Rightarrow> nat" where
  "total_traded evs = sum_list (map trade_quantity evs)"

definition trades :: "event list \<Rightarrow> event list" where
  "trades evs = filter is_trade evs"

lemma trades_simps [simp]:
  "total_traded [] = 0" "total_traded (ev # evs) = trade_quantity ev + total_traded evs"
  "total_traded (evs @ evs') = total_traded evs + total_traded evs'"
  "trades [] = []" "trades (ev # evs) = (if is_trade ev then ev # trades evs else trades evs)"
  "trades (evs @ evs') = trades evs @ trades evs'"
  by (simp_all add: total_traded_def trades_def)

text \<open>
  The trades execute the orders of \<open>os\<close> one after the other from the first, at their price,
  each in full except possibly the last, with consecutive ids.
\<close>

definition in_priority :: "instrument_id \<Rightarrow> order_id \<Rightarrow> side \<Rightarrow> (price \<Rightarrow> bool) \<Rightarrow> trade_id \<Rightarrow> resting_order list \<Rightarrow> event list \<Rightarrow> bool" where
  "in_priority iid agg sd ok tid os evs \<longleftrightarrow> length evs \<le> length os
    \<and> (\<forall>k < length evs. \<exists>q. evs ! k = On_trade (tid + word_of_nat k) iid (ao_price (os ! k)) q (ao_id (os ! k)) agg sd
        \<and> ok (ao_price (os ! k)) \<and> q \<noteq> 0 \<and> q \<le> ao_open (os ! k) \<and> (Suc k < length evs \<longrightarrow> q = ao_open (os ! k)))"

lemma in_priority_Nil [simp]: "in_priority iid agg sd ok tid os []"
  by (simp add: in_priority_def)

lemma in_priority_Cons:
  assumes "in_priority iid agg sd ok (tid + 1) os evs" "ok (ao_price r)" "q \<noteq> 0" "q \<le> ao_open r" "evs \<noteq> [] \<Longrightarrow> q = ao_open r"
  shows "in_priority iid agg sd ok tid (r # os) (On_trade tid iid (ao_price r) q (ao_id r) agg sd # evs)"
  unfolding in_priority_def
proof (intro conjI allI impI)
  show "length (On_trade tid iid (ao_price r) q (ao_id r) agg sd # evs) \<le> length (r # os)" using assms(1) by (simp add: in_priority_def)
  fix k assume k: "k < length (On_trade tid iid (ao_price r) q (ao_id r) agg sd # evs)"
  show "\<exists>q'. (On_trade tid iid (ao_price r) q (ao_id r) agg sd # evs) ! k
      = On_trade (tid + word_of_nat k) iid (ao_price ((r # os) ! k)) q' (ao_id ((r # os) ! k)) agg sd
    \<and> ok (ao_price ((r # os) ! k)) \<and> q' \<noteq> 0 \<and> q' \<le> ao_open ((r # os) ! k)
    \<and> (Suc k < length (On_trade tid iid (ao_price r) q (ao_id r) agg sd # evs) \<longrightarrow> q' = ao_open ((r # os) ! k))"
  proof (cases k)
    case 0
    then show ?thesis using assms(2-5) by (intro exI [of _ q]) auto
  next
    case (Suc j)
    with k have "j < length evs" by simp
    with assms(1) obtain q' where "evs ! j = On_trade (tid + 1 + word_of_nat j) iid (ao_price (os ! j)) q' (ao_id (os ! j)) agg sd"
      "ok (ao_price (os ! j))" "q' \<noteq> 0" "q' \<le> ao_open (os ! j)" "Suc j < length evs \<longrightarrow> q' = ao_open (os ! j)"
      unfolding in_priority_def by blast
    then show ?thesis by (intro exI [of _ q']) (simp add: Suc algebra_simps)
  qed
qed

lemma take_liquidity_trades:
  assumes "take_liquidity iid agg sd ok tid n os = (n', os', tid', evs)" "\<forall>x \<in> set os. ao_open x \<noteq> 0"
  shows "in_priority iid agg sd ok tid os evs" "\<forall>ev \<in> set evs. is_trade ev"
    "unat n = unat n' + total_traded evs" "volume os = volume os' + total_traded evs" "tid' = tid + word_of_nat (length evs)"
    "length evs = 0 \<longrightarrow> os' = os" "n = 0 \<longrightarrow> evs = []"
proof -
  have "in_priority iid agg sd ok tid os evs \<and> (\<forall>ev \<in> set evs. is_trade ev) \<and> unat n = unat n' + total_traded evs
    \<and> volume os = volume os' + total_traded evs \<and> tid' = tid + word_of_nat (length evs) \<and> (length evs = 0 \<longrightarrow> os' = os) \<and> (n = 0 \<longrightarrow> evs = [])"
    using assms
  proof (induction os arbitrary: tid n evs)
    case (Cons r rs)
    from Cons.prems(1) show ?case
    proof (cases rule: take_cases)
      case (whole evs1)
      have "\<forall>x \<in> set rs. ao_open x \<noteq> 0" using Cons.prems(2) by simp
      note IH = Cons.IH [OF whole(4) this]
      have "unat (n - ao_open r) = unat n - unat (ao_open r)" "unat (ao_open r) \<le> unat n"
        using whole(3) by (simp_all add: unat_sub word_le_nat_alt)
      moreover have "in_priority iid agg sd ok tid (r # rs) evs"
        unfolding whole(5) by (rule in_priority_Cons) (use IH whole(2) Cons.prems(2) in simp_all)
      ultimately show ?thesis using IH whole(1) by (simp add: whole(5))
    next
      case part
      have "in_priority iid agg sd ok tid (r # rs) evs"
        unfolding part(7) by (rule in_priority_Cons) (use part(1-3) in simp_all)
      moreover have "unat (ao_open r - n) = unat (ao_open r) - unat n" "unat n \<le> unat (ao_open r)"
        using part(3) by (simp_all add: unat_sub word_le_nat_alt word_less_nat_alt)
      ultimately show ?thesis using part by simp
    qed simp_all
  qed simp_all
  then show "in_priority iid agg sd ok tid os evs" "\<forall>ev \<in> set evs. is_trade ev"
    "unat n = unat n' + total_traded evs" "volume os = volume os' + total_traded evs" "tid' = tid + word_of_nat (length evs)"
    "length evs = 0 \<longrightarrow> os' = os" "n = 0 \<longrightarrow> evs = []" by blast+
qed

lemma all_trades: "\<forall>ev \<in> set evs. is_trade ev \<Longrightarrow> trades evs = evs"
  by (simp add: trades_def filter_id_conv)

section \<open>The trades of an aggressor\<close>

lemma match_trades:
  assumes inv: "exchange_inv ex" and b: "b < length (ex_books ex)"
    and m: "ex_match b i sd is_market limit_price n ex = (n', ex')"
  obtains evs where "ex_events ex' = ex_events ex @ evs" "trades evs = evs"
    "in_priority (ab_instrument (ex_books ex ! b)) i sd (acceptable sd is_market limit_price) (ex_next_trade_id ex)
      (ab_orders (ex_books ex ! b) (opposite sd)) evs"
    "unat n = unat n' + total_traded evs" "ex_next_trade_id ex' = ex_next_trade_id ex + word_of_nat (length evs)"
    "unat n' = unat n - min (unat n) (depth (acceptable sd is_market limit_price) (ab_orders (ex_books ex ! b) (opposite sd)))"
    "volume (ab_orders (ex_books ex ! b) (opposite sd)) = volume (ab_orders (ex_books ex' ! b) (opposite sd)) + total_traded evs"
    "ab_orders (ex_books ex' ! b) sd = ab_orders (ex_books ex ! b) sd" "\<And>c. c \<noteq> b \<Longrightarrow> ex_books ex' ! c = ex_books ex ! c"
proof -
  let ?ab = "ex_books ex ! b"
  obtain os tid evs where T: "take_liquidity (ab_instrument ?ab) i sd (acceptable sd is_market limit_price)
      (ex_next_trade_id ex) n (ab_orders ?ab (opposite sd)) = (n', os, tid, evs)"
    and ex': "ex' = (upd_book b (set_orders (opposite sd) os) ex)\<lparr>ex_next_trade_id := tid, ex_events := ex_events ex @ evs\<rparr>"
    using m by (auto simp: ex_match_def Let_def split: prod.splits)
  have "book_sound ?ab" by (rule exchange_invD(1) [OF inv b])
  then have pos: "\<forall>x \<in> set (ab_orders ?ab (opposite sd)). ao_open x \<noteq> 0" by (simp add: book_sound_def order_sound_def)
  note P = take_liquidity_trades [OF T pos]
  show thesis
    by (rule that [of evs]) (use b P take_liquidity_remaining [OF T] all_trades in \<open>simp_all add: ex'\<close>)
qed

text \<open>How much of an order was canceled, and how much of it is still open.\<close>

fun canceled_quantity :: "order_id \<Rightarrow> event \<Rightarrow> nat" where
  "canceled_quantity i (On_canceled j q _) = (if j = i then unat q else 0)"
| "canceled_quantity i _ = 0"

definition total_canceled :: "order_id \<Rightarrow> event list \<Rightarrow> nat" where
  "total_canceled i evs = sum_list (map (canceled_quantity i) evs)"

lemma total_canceled_simps [simp]:
  "total_canceled i [] = 0" "total_canceled i (ev # evs) = canceled_quantity i ev + total_canceled i evs"
  "total_canceled i (evs @ evs') = total_canceled i evs + total_canceled i evs'"
  by (simp_all add: total_canceled_def)

lemma canceled_of_trades: "trades evs = evs \<Longrightarrow> total_canceled i evs = 0"
proof (induction evs)
  case (Cons ev evs)
  then show ?case by (cases ev) (auto split: if_splits simp: trades_def dest: filter_eq_ConsD)
qed simp

definition open_quantity :: "exchange \<Rightarrow> order_id \<Rightarrow> nat" where
  "open_quantity ex i = (case find_order ex i of None \<Rightarrow> 0 | Some (b, sd, x) \<Rightarrow> unat (ao_open x))"

lemma find_order_unique:
  assumes "ids_unique ex" "open_at ex b sd x"
  shows "find_order ex (ao_id x) = Some (b, sd, x)"
proof (cases "find_order ex (ao_id x)")
  case None
  moreover have "(b, sd, x) \<in> set (all_orders ex)" using assms(2) by (cases sd) (auto simp: all_orders_def book_orders_def open_at_def)
  ultimately show ?thesis by (auto simp: find_order_def find_None_iff)
next
  case (Some y)
  obtain c s z where y: "y = (c, s, z)" by (cases y)
  have z: "open_at ex c s z" "ao_id z = ao_id x" using find_order_open [of ex "ao_id x" c s z] Some y by simp_all
  with assms have place: "c = b" "s = sd" unfolding ids_unique_def by blast+
  have "distinct (map ao_id (ab_orders (ex_books ex ! b) sd))" using assms by (auto simp: ids_unique_def open_at_def)
  with z place assms(2) have "z = x" by (simp add: open_at_def distinct_map inj_on_def)
  with Some y place show ?thesis by simp
qed

lemma open_quantity_free: "id_free ex i \<Longrightarrow> open_quantity ex i = 0"
  unfolding open_quantity_def using find_order_open [of ex i] by (auto simp: id_free_def split: option.split)

section \<open>The outcome of a submit\<close>

text \<open>
  What the events \<open>new\<close> of an accepted order say: the trades follow the price-time priority of
  \<open>os\<close>, the order's quantity is traded, canceled or still open, only a day order stays open,
  and a fill-or-kill order is executed in full or not at all.
\<close>

definition executed :: "new_order \<Rightarrow> trade_id \<Rightarrow> resting_order list \<Rightarrow> event list \<Rightarrow> trade_id \<Rightarrow> nat \<Rightarrow> bool" where
  "executed order tid os new tid' left_open \<longleftrightarrow>
    in_priority (no_instrument_id order) (no_order_id order) (no_side order)
      (acceptable (no_side order) (no_type order = kMarket) (order_price order)) tid os (trades new)
    \<and> tid' = tid + word_of_nat (length (trades new))
    \<and> unat (no_quantity order) = total_traded new + total_canceled (no_order_id order) new + left_open
    \<and> (no_tif order \<noteq> kDay \<longrightarrow> left_open = 0)
    \<and> (no_tif order = kFok \<longrightarrow> total_traded new = 0 \<or> total_traded new = unat (no_quantity order))"

lemma rest_open:
  assumes inv: "exchange_inv (ex_rest b sd r ex)" and b: "b < length (ex_books ex)"
  shows "open_quantity (ex_rest b sd r ex) (ao_id r) = unat (ao_open r)"
proof -
  have "open_at (ex_rest b sd r ex) b sd r" using b by (simp add: open_at_def ex_rest_def)
  from find_order_unique [OF exchange_invD(2) [OF inv] this] show ?thesis by (simp add: open_quantity_def)
qed

lemma accept_executed:
  assumes inv: "exchange_inv ex" and b: "b < length (ex_books ex)" "ab_instrument (ex_books ex ! b) = no_instrument_id order"
    and i: "id_free ex (no_order_id order)" "no_order_id order \<in> ex_used ex"
    and day: "no_tif order = kDay \<Longrightarrow> no_type order \<noteq> kMarket \<and> is_tick_aligned price \<and> within_band (ex_books ex ! b) price"
    and v: "v \<longrightarrow> fillable ex b (no_side order) is_market price (no_quantity order)"
    and price: "is_market = (no_type order = kMarket)" "price = order_price order"
  shows "\<exists>new. ex_events (ex_accept v order b is_market price ex) = ex_events ex @ On_accepted (no_order_id order) # new
    \<and> executed order (ex_next_trade_id ex) (ab_orders (ex_books ex ! b) (opposite (no_side order))) (On_accepted (no_order_id order) # new)
        (ex_next_trade_id (ex_accept v order b is_market price ex)) (open_quantity (ex_accept v order b is_market price ex) (no_order_id order))"
proof -
  let ?i = "no_order_id order" and ?sd = "no_side order" and ?q = "no_quantity order"
  let ?ex = "ex_emit (On_accepted ?i) ex" and ?ok = "acceptable ?sd is_market price"
  have inv': "exchange_inv ?ex" and b': "b < length (ex_books ?ex)" and i': "id_free ?ex ?i" "?i \<in> ex_used ?ex" using inv b i by simp_all
  obtain n' ex' where m: "ex_match b ?i ?sd is_market price ?q ?ex = (n', ex')" by (rule prod.exhaust)
  note M = match_inv [OF inv' b' m]
  obtain evs where E: "ex_events ex' = ex_events ?ex @ evs" "trades evs = evs"
    "in_priority (no_instrument_id order) ?i ?sd ?ok (ex_next_trade_id ex) (ab_orders (ex_books ex ! b) (opposite ?sd)) evs"
    "unat ?q = unat n' + total_traded evs" "ex_next_trade_id ex' = ex_next_trade_id ex + word_of_nat (length evs)"
    "unat n' = unat ?q - min (unat ?q) (depth ?ok (ab_orders (ex_books ex ! b) (opposite ?sd)))"
    using match_trades [OF inv' b' m] b(2) by (metis ex_emit_simps(1,3))
  have canceled: "total_canceled ?i evs = 0" by (rule canceled_of_trades [OF E(2)])
  have killed: "n' = 0" if "no_tif order = kFok" "\<not> (no_tif order = kFok \<and> \<not> v)"
    using that v E(6) by (simp add: fillable_def unat_eq_zero)
  consider (kill) "no_tif order = kFok" "\<not> v" | (filled) "\<not> (no_tif order = kFok \<and> \<not> v)" "n' = 0"
    | (rest) "no_tif order = kDay" "n' \<noteq> 0" | (ioc) "no_tif order = kIoc" "n' \<noteq> 0"
    using killed by (metis time_in_force.exhaust)
  then show ?thesis
  proof cases
    case kill
    then have acc: "ex_accept v order b is_market price ex = ex_emit (On_canceled ?i ?q kFokUnfillable) ?ex" by (simp add: ex_accept_def Let_def)
    show ?thesis unfolding acc using open_quantity_free [of "ex_emit (On_canceled ?i ?q kFokUnfillable) ?ex" ?i] i
      by (intro exI [of _ "[On_canceled ?i ?q kFokUnfillable]"]) (simp add: executed_def)
  next
    case filled
    then have acc: "ex_accept v order b is_market price ex = ex'" by (auto simp: ex_accept_def Let_def m)
    show ?thesis unfolding acc using open_quantity_free [of ex' ?i] M(4) [OF i'(1)] E filled canceled
      by (intro exI [of _ evs]) (simp add: executed_def price)
  next
    case rest
    then have acc: "ex_accept v order b is_market price ex = ex_rest b ?sd \<lparr>ao_id = ?i, ao_price = price, ao_open = n', ao_filled = ?q - n'\<rparr> ex'"
      by (simp add: ex_accept_def Let_def m)
    have "exchange_inv (ex_accept v order b is_market price ex)"
      by (rule accept_inv [OF inv b(1) i]) (use day price in simp)
    then have "open_quantity (ex_accept v order b is_market price ex) ?i = unat n'"
      unfolding acc using rest_open [of b ?sd "\<lparr>ao_id = ?i, ao_price = price, ao_open = n', ao_filled = ?q - n'\<rparr>" ex'] M(3) b' by simp
    note left = this
    show ?thesis
    proof (intro exI [of _ evs] conjI)
      show "ex_events (ex_accept v order b is_market price ex) = ex_events ex @ On_accepted ?i # evs"
        unfolding acc by (simp add: ex_rest_def E(1))
      have tid: "ex_next_trade_id (ex_accept v order b is_market price ex) = ex_next_trade_id ex'" unfolding acc by (simp add: ex_rest_def)
      show "executed order (ex_next_trade_id ex) (ab_orders (ex_books ex ! b) (opposite ?sd)) (On_accepted ?i # evs)
          (ex_next_trade_id (ex_accept v order b is_market price ex)) (open_quantity (ex_accept v order b is_market price ex) ?i)"
        unfolding executed_def left tid using E(2-5) canceled rest(1) by (simp add: price)
    qed
  next
    case ioc
    define ev where "ev = On_canceled ?i n' (if is_market then kNoLiquidity else kIocRemainder)"
    have ev: "\<not> is_trade ev" "trade_quantity ev = 0" "canceled_quantity ?i ev = unat n'" by (simp_all add: ev_def)
    have acc: "ex_accept v order b is_market price ex = ex_emit ev ex'"
      using ioc by (simp add: ex_accept_def Let_def m ev_def)
    have free: "open_quantity (ex_emit ev ex') ?i = 0" by (rule open_quantity_free) (use M(4) [OF i'(1)] in simp)
    have tif: "no_tif order \<noteq> kFok" using ioc(1) by simp
    show ?thesis unfolding acc
    proof (intro exI [of _ "evs @ [ev]"] conjI)
      show "ex_events (ex_emit ev ex') = ex_events ex @ On_accepted ?i # evs @ [ev]" by (simp add: E(1))
      show "executed order (ex_next_trade_id ex) (ab_orders (ex_books ex ! b) (opposite ?sd)) (On_accepted ?i # evs @ [ev])
          (ex_next_trade_id (ex_emit ev ex')) (open_quantity (ex_emit ev ex') ?i)"
        unfolding executed_def free using E(2-5) canceled tif ev by (simp add: price)
    qed
  qed
qed

text \<open>An order that is not accepted is rejected, and changes nothing but the set of spent ids.\<close>

definition rejected_only :: "new_order \<Rightarrow> exchange \<Rightarrow> exchange \<Rightarrow> bool" where
  "rejected_only order ex ex' \<longleftrightarrow> ex_books ex' = ex_books ex \<and> ex_next_trade_id ex' = ex_next_trade_id ex
    \<and> (\<exists>reason. ex_events ex' = ex_events ex @ [On_rejected (no_order_id order) reason])"

lemma submit_outcome:
  assumes inv: "exchange_inv ex" and v: "submit_verdict v order ex"
  shows "rejected_only order ex (ex_submit v order ex)
    \<or> (\<exists>b new. book_index ex (no_instrument_id order) = Some b \<and> no_order_id order \<notin> ex_used ex
      \<and> ex_events (ex_submit v order ex) = ex_events ex @ On_accepted (no_order_id order) # new
      \<and> executed order (ex_next_trade_id ex) (ab_orders (ex_books ex ! b) (opposite (no_side order)))
          (On_accepted (no_order_id order) # new) (ex_next_trade_id (ex_submit v order ex)) (open_quantity (ex_submit v order ex) (no_order_id order)))"
proof (cases "book_index ex (no_instrument_id order)")
  case None
  then show ?thesis by (simp add: ex_submit_def rejected_only_def)
next
  case (Some b)
  note b = book_index_Some [OF Some]
  show ?thesis
  proof (cases "no_order_id order \<in> ex_used ex")
    case True
    then show ?thesis using Some by (simp add: ex_submit_def rejected_only_def)
  next
    case False
    let ?ex = "ex\<lparr>ex_used := insert (no_order_id order) (ex_used ex)\<rparr>"
    let ?m = "no_type order = kMarket"
    have inv': "exchange_inv ?ex" and b': "b < length (ex_books ?ex)" "ab_instrument (ex_books ?ex ! b) = no_instrument_id order"
      and i': "id_free ?ex (no_order_id order)" "no_order_id order \<in> ex_used ?ex"
      using use_id_inv [OF inv] unused_free [OF inv False] b by simp_all
    have sub: "ex_submit v order ex = ex_validated v order b ?ex" using False by (simp add: ex_submit_def Some)
    have v': "v \<longrightarrow> fillable ?ex b (no_side order) ?m (order_price order) (no_quantity order)"
      using v Some by (simp add: submit_verdict_def verdict_ok_def fillable_def)
    consider (rejected) reason where "ex_validated v order b ?ex = ex_emit (On_rejected (no_order_id order) reason) ?ex"
      | (accepted) "ex_validated v order b ?ex = ex_accept v order b ?m (order_price order) ?ex"
          "no_tif order = kDay \<Longrightarrow> no_type order \<noteq> kMarket \<and> is_tick_aligned (order_price order) \<and> within_band (ex_books ?ex ! b) (order_price order)"
    proof -
      let ?bad = "is_tick_aligned (no_price order) \<longrightarrow> \<not> within_band (ex_books ?ex ! b) (no_price order)"
      show thesis
      proof (cases "no_quantity order = 0 \<or> ?m \<and> no_tif order = kDay \<or> \<not> ?m \<and> ?bad")
        case True
        then have "\<exists>reason. ex_validated v order b ?ex = ex_emit (On_rejected (no_order_id order) reason) ?ex"
          by (auto simp: ex_validated_def Let_def)
        with rejected show thesis by blast
      next
        case False
        then show thesis by (intro accepted) (auto simp: ex_validated_def Let_def order_price_def)
      qed
    qed
    then show ?thesis
    proof cases
      case rejected
      then show ?thesis by (simp add: sub rejected_only_def)
    next
      case accepted
      from accept_executed [OF inv' b' i' accepted(2) v' refl refl] False Some show ?thesis
        by (simp add: sub accepted(1))
    qed
  qed
qed

end
