(* ===== verification/Top_Of_Book.thy ===== *)
theory Top_Of_Book
  imports Trades
begin

text \<open>
  \<open>top_of_book\<close> reads the cached best indexes and the levels' totals. It reports the price of
  the first order of each side and the open quantity at that price, summed in 32 bits.
\<close>

section \<open>The best quote of a side\<close>

definition best_quote :: "resting_order list \<Rightarrow> price \<times> quantity" where
  "best_quote os = (case os of [] \<Rightarrow> (0, 0)
    | x # _ \<Rightarrow> (ao_price x, sum_list (map ao_open (takeWhile (\<lambda>y. ao_price y = ao_price x) os))))"

definition ex_top :: "abook \<Rightarrow> top_of_book" where
  "ex_top ab =
    \<lparr>tob_bid_price = fst (best_quote (ab_orders ab kBuy)), tob_bid_quantity = snd (best_quote (ab_orders ab kBuy)),
     tob_ask_price = fst (best_quote (ab_orders ab kSell)), tob_ask_quantity = snd (best_quote (ab_orders ab kSell))\<rparr>"

lemma takeWhile_block:
  assumes "xs \<noteq> []" "\<And>x. x \<in> set xs \<Longrightarrow> P x" "\<And>y. y \<in> set ys \<Longrightarrow> \<not> P y"
  shows "takeWhile P (xs @ ys) = xs"
  using assms(2,3) by (cases ys) simp_all

lemma level_prices_inj:
  assumes "ladder_ok (ob_ladder ob)" "i < ladder_size (ob_ladder ob)" "j < ladder_size (ob_ladder ob)"
    "ob_index_to_price ob (word_of_nat i) = ob_index_to_price ob (word_of_nat j)"
  shows "i = j"
  using ladder.from_index_less_iff [OF assms(1), of "word_of_nat i" "word_of_nat j"]
    ladder.from_index_less_iff [OF assms(1), of "word_of_nat j" "word_of_nat i"] assms(2-4)
  by (simp add: unat_level_index ob_index_to_price_def)

lemma side_quote:
  assumes ok: "book_ok p ob q"
  shows "best_quote (side_view (op_get p) q sd (ladder_size (ob_ladder ob))) =
    (if 0 \<le> best_index ob sd
     then (index_to_price (ob_ladder ob) (word_of_int (best_index ob sd)),
           lvl_total_qty (vat (levels ob sd) (unat (word_of_int (best_index ob sd) :: 32 word))))
     else (0, 0))"
proof (cases "has_best ob sd")
  case False
  then have "occupied q sd = {}" using has_best_iff [OF book_okD(1) [OF ok]] by blast
  then show ?thesis using False by (simp add: side_view_empty best_quote_def has_best_def)
next
  case True
  note inv = book_okD(1) [OF ok]
  define i where "i = nat (best_index ob sd)"
  let ?n = "ladder_size (ob_ladder ob)" and ?v = "view_order (op_get p)"
  note B = best_level [OF inv True, folded i_def]
  obtain R where R: "side_view (op_get p) q sd ?n = map ?v (q sd i) @ R"
    "\<And>h qs. (\<And>j x. j \<noteq> i \<Longrightarrow> x \<in> set (q sd j) \<Longrightarrow> view_order h x = ?v x)
        \<Longrightarrow> side_view h (with_queue q sd i qs) sd ?n = map (view_order h) qs @ R"
    using side_view_best [OF inv B(1) B(6)] by blast
  have price: "ao_price (?v s) = ob_index_to_price ob (word_of_nat j)" if "s \<in> set (q sd j)" for s j
    using queue_place(7) [OF inv that] by simp
  have R_eq: "R = side_view (op_get p) (with_queue q sd i []) sd ?n" using R(2) [of "op_get p" "[]"] by simp
  have rest: "ao_price y \<noteq> ob_index_to_price ob (word_of_nat i)" if y: "y \<in> set R" for y
  proof -
    obtain j s where j: "j < ?n" "s \<in> set (with_queue q sd i [] sd j)" "y = ?v s"
      using y unfolding R_eq side_view_def set_flat by auto
    then have "j \<noteq> i" "s \<in> set (q sd j)" by (auto simp: with_queue_simps split: if_splits)
    with price [of s j] level_prices_inj [OF book_invD(2) [OF inv] j(1) B(2)] j(3) show ?thesis by auto
  qed
  obtain s ss where ss: "q sd i = s # ss" using B(1) by (auto simp: occupied_def neq_Nil_conv)
  have level: "takeWhile (\<lambda>y. ao_price y = ob_index_to_price ob (word_of_nat i)) (map ?v (q sd i) @ R) = map ?v (q sd i)"
    by (rule takeWhile_block) (use ss price rest in auto)
  have first: "ao_price (?v s) = ob_index_to_price ob (word_of_nat i)" using price [of s i] ss by simp
  have quote: "best_quote (map ?v (q sd i) @ R) = (ob_index_to_price ob (word_of_nat i), sum_list (map ao_open (map ?v (q sd i))))"
  proof -
    have "map ?v (q sd i) @ R = ?v s # (map ?v ss @ R)" by (simp add: ss)
    then have "best_quote (map ?v (q sd i) @ R) = (ao_price (?v s),
        sum_list (map ao_open (takeWhile (\<lambda>y. ao_price y = ao_price (?v s)) (map ?v (q sd i) @ R))))"
      by (simp only: best_quote_def list.case)
    then show ?thesis by (simp only: first level)
  qed
  have total: "lvl_total_qty (vat (levels ob sd) i) = sum_list (map ao_open (map ?v (q sd i)))"
    using book_invD(7) [OF inv B(2), of sd] by (simp add: queue_of_def total_open_def comp_def)
  have "0 \<le> best_index ob sd" using True by (simp add: has_best_def)
  then show ?thesis unfolding R(1) quote by (simp only: if_True B(5) unat_level_index [OF B(2)] total ob_index_to_price_def)
qed

lemma top_of_book_view:
  assumes "book_ok p ob q"
  shows "ob_top_of_book ob = ex_top (book_view p ob)"
  using side_quote [OF assms, of kBuy] side_quote [OF assms, of kSell]
  by (simp add: ob_top_of_book_def ex_top_def book_okD(4) [OF assms] empty_top_of_book_def Let_def)

lemma top_of_book_ok:
  assumes inv: "eng_inv e"
  shows "top_of_book e iid = Some (case book_index (exchange_of e) iid of None \<Rightarrow> empty_top_of_book
    | Some b \<Rightarrow> ex_top (ex_books (exchange_of e) ! b))"
proof (cases "book_index (exchange_of e) iid")
  case None
  then show ?thesis by (simp add: top_of_book_def find_book_ok [OF eng_inv_sel(2) [OF inv]])
next
  case (Some b)
  have b: "b < length (eng_books e)" using book_index_Some [OF Some] by simp
  obtain q where ok: "book_ok (eng_pool e) (eng_books e ! b) q" using store_bookD [OF eng_inv_sel(2) [OF inv] b] .
  show ?thesis using b
    by (simp add: top_of_book_def find_book_ok [OF eng_inv_sel(2) [OF inv]] Some top_of_book_view [OF ok])
qed

text \<open>In a sound book the quotes do not cross.\<close>

lemma quotes_uncrossed:
  assumes "book_sound ab" "ab_orders ab kBuy \<noteq> []" "ab_orders ab kSell \<noteq> []"
  shows "tob_bid_price (ex_top ab) < tob_ask_price (ex_top ab)"
proof -
  obtain x xs y ys where "ab_orders ab kBuy = x # xs" "ab_orders ab kSell = y # ys" using assms(2,3) by (auto simp: neq_Nil_conv)
  with assms(1) show ?thesis by (simp add: ex_top_def best_quote_def book_sound_def uncrossed_def)
qed

end
