(* ===== verification/Sample.thy ===== *)
theory Sample
  imports Top_Of_Book
begin

text \<open>
  A concrete engine on which the properties are applied: the instrument of
  \<open>tests/test_golden_scenario.cpp\<close>, configured with every allocation granted, and that test's
  session as a run of the model.
\<close>

section \<open>The configured engine\<close>

definition sample_config :: instrument_config where
  "sample_config = \<lparr>ic_instrument_id = 1, ic_reference_price = 250000, ic_band_bps = 1000\<rparr>"

definition new_engine :: engine where
  "new_engine = \<lparr>eng_order_index = blank_map 16, eng_instrument_index = blank_map 16,
    eng_pool = \<lparr>op_chunks = [], op_table_capacity = 64, op_size = 0\<rparr>, eng_books = [],
    eng_next_trade_id = 1, eng_configured = False, eng_events = []\<rparr>"

definition sample_engine :: engine where
  "sample_engine = snd (the (configure all_granted new_engine (Some [sample_config])))"

lemma new_engine_ok: "engine_new all_granted = Some (Inr new_engine)"
  by (simp add: engine_new_def fm_new_correct op_new_def new_engine_def request_def)

lemma sample_band: "band_lo_of 250000 1000 = 225000" "band_hi_of 250000 1000 = 275000"
  by (simp_all add: band_lo_of_def band_hi_of_def ceil_to_tick_def floor_to_tick_def tick_size_eq kBpsPerUnit_def Let_def)

lemma sample_valid: "ladder_fits sample_config" "valid_configs [sample_config]"
  by (simp_all add: ladder_fits_def valid_configs_def sample_config_def sample_band config_invalid_def is_tick_aligned_iff tick_size_eq band_constants)

lemma sample_end: "configure_end all_granted new_engine [sample_config] (kOk, sample_engine)"
  "configure all_granted new_engine (Some [sample_config]) = Some (kOk, sample_engine)"
proof -
  have new: "\<not> eng_configured new_engine" by (simp add: new_engine_def)
  obtain res e where r: "configure all_granted new_engine (Some [sample_config]) = Some (res, e)"
    "configure_end all_granted new_engine [sample_config] (res, e)"
    using configure_ok [OF new, of "[sample_config]" all_granted] sample_valid(1) by auto
  then have "e = sample_engine" by (simp add: sample_engine_def)
  moreover have "res = kOk" using r(2) sample_valid(2) by (cases res) (auto simp: configure_end_def)
  ultimately show "configure_end all_granted new_engine [sample_config] (kOk, sample_engine)"
    "configure all_granted new_engine (Some [sample_config]) = Some (kOk, sample_engine)" using r by simp_all
qed

lemma sample_inv: "eng_inv sample_engine" "op_size (eng_pool sample_engine) = 0" "eng_configured sample_engine"
  "exchange_of sample_engine = configured_exchange [sample_config] new_engine"
  using sample_end(1) by (auto simp: configure_end_def eng_inv_def)

lemma sample_reachable: "reachable sample_engine"
  by (rule reachable.configured [OF reachable.created [OF new_engine_ok] _ sample_end(2)]) (simp add: all_fit_def sample_valid)

section \<open>One-book exchanges\<close>

definition sides :: "resting_order list \<Rightarrow> resting_order list \<Rightarrow> side \<Rightarrow> resting_order list" where
  "sides bids asks sd = (case sd of kBuy \<Rightarrow> bids | kSell \<Rightarrow> asks)"

definition one_book :: "resting_order list \<Rightarrow> resting_order list \<Rightarrow> order_id set \<Rightarrow> trade_id \<Rightarrow> event list \<Rightarrow> exchange" where
  "one_book bids asks used tid evs = \<lparr>ex_books = [\<lparr>ab_instrument = 1, ab_band_lo = 225000, ab_band_hi = 275000, ab_orders = sides bids asks\<rparr>],
    ex_used = used, ex_next_trade_id = tid, ex_events = evs\<rparr>"

lemma sides_simps [simp]: "sides bids asks kBuy = bids" "sides bids asks kSell = asks"
  "(sides bids asks)(kBuy := os) = sides os asks" "(sides bids asks)(kSell := os) = sides bids os"
  by (auto simp: sides_def fun_eq_iff split: side.split)

lemma sample_exchange: "exchange_of sample_engine = one_book [] [] {} 1 []"
  by (auto simp: sample_inv(4) configured_exchange_def one_book_def new_engine_def empty_abook_def sample_config_def sample_band
    sides_def fun_eq_iff split: side.split)

lemmas one_book_eval = one_book_def ex_submit_def ex_validated_def ex_accept_def ex_match_def ex_rest_def ex_remove_def ex_cancel_def
  ex_replace_def ex_commit_def book_index_def Let_def ex_emit_def upd_book_def set_orders_def insert_order_def remove_order_def
  is_tick_aligned_iff tick_size_eq within_band_def acceptable_def find_order_def all_orders_def book_orders_def min_def

abbreviation resting :: "order_id \<Rightarrow> price \<Rightarrow> quantity \<Rightarrow> quantity \<Rightarrow> resting_order" where
  "resting i p q f \<equiv> \<lparr>ao_id = i, ao_price = p, ao_open = q, ao_filled = f\<rparr>"

section \<open>The golden scenario\<close>

definition limit_order :: "order_id \<Rightarrow> side \<Rightarrow> time_in_force \<Rightarrow> price \<Rightarrow> quantity \<Rightarrow> command" where
  "limit_order i sd tif p q = Submit \<lparr>no_order_id = i, no_instrument_id = 1, no_side = sd, no_type = kLimit, no_tif = tif, no_price = p, no_quantity = q\<rparr>"

definition golden_session :: "command list" where
  "golden_session =
    [limit_order 1 kBuy kDay 251000 100, limit_order 2 kBuy kDay 251000 50, limit_order 3 kSell kDay 251600 80,
     limit_order 4 kSell kIoc 251000 120,
     Submit \<lparr>no_order_id = 5, no_instrument_id = 1, no_side = kBuy, no_type = kMarket, no_tif = kIoc, no_price = 0, no_quantity = 100\<rparr>,
     Replace \<lparr>ro_order_id = 2, ro_new_order_id = 6, ro_new_price = 251200, ro_new_quantity = 60\<rparr>,
     limit_order 7 kSell kFok 251200 50, limit_order 8 kBuy kDay 280000 10, Cancel \<lparr>co_order_id = 6\<rparr>]"

definition golden_events :: "event list" where
  "golden_events =
    [On_accepted 1, On_accepted 2, On_accepted 3, On_accepted 4,
     On_trade 1 1 251000 100 1 4 kSell, On_trade 2 1 251000 20 2 4 kSell,
     On_accepted 5, On_trade 3 1 251600 80 3 5 kBuy, On_canceled 5 20 kNoLiquidity,
     On_replaced 2 6 251200 40, On_accepted 7, On_canceled 7 50 kFokUnfillable,
     On_rejected 8 kPriceOutOfBand, On_canceled 6 40 kUserRequested]"

lemma golden_steps:
  "ex_step (one_book [] [] {} 1 []) (limit_order 1 kBuy kDay 251000 100) ex
    \<longleftrightarrow> ex = one_book [resting 1 251000 100 0] [] {1} 1 (take 1 golden_events)"
  "ex_step (one_book [resting 1 251000 100 0] [] {1} 1 (take 1 golden_events)) (limit_order 2 kBuy kDay 251000 50) ex
    \<longleftrightarrow> ex = one_book [resting 1 251000 100 0, resting 2 251000 50 0] [] {2, 1} 1 (take 2 golden_events)"
  "ex_step (one_book [resting 1 251000 100 0, resting 2 251000 50 0] [] {2, 1} 1 (take 2 golden_events)) (limit_order 3 kSell kDay 251600 80) ex
    \<longleftrightarrow> ex = one_book [resting 1 251000 100 0, resting 2 251000 50 0] [resting 3 251600 80 0] {3, 2, 1} 1 (take 3 golden_events)"
  "ex_step (one_book [resting 1 251000 100 0, resting 2 251000 50 0] [resting 3 251600 80 0] {3, 2, 1} 1 (take 3 golden_events))
      (limit_order 4 kSell kIoc 251000 120) ex
    \<longleftrightarrow> ex = one_book [resting 2 251000 30 20] [resting 3 251600 80 0] {4, 3, 2, 1} 3 (take 6 golden_events)"
  unfolding limit_order_def ex_step_simps golden_events_def by (simp_all add: one_book_eval some_verdict)

lemma golden_steps':
  "ex_step (one_book [resting 2 251000 30 20] [resting 3 251600 80 0] {4, 3, 2, 1} 3 (take 6 golden_events))
      (Submit \<lparr>no_order_id = 5, no_instrument_id = 1, no_side = kBuy, no_type = kMarket, no_tif = kIoc, no_price = 0, no_quantity = 100\<rparr>) ex
    \<longleftrightarrow> ex = one_book [resting 2 251000 30 20] [] {5, 4, 3, 2, 1} 4 (take 9 golden_events)"
  "ex_step (one_book [resting 2 251000 30 20] [] {5, 4, 3, 2, 1} 4 (take 9 golden_events))
      (Replace \<lparr>ro_order_id = 2, ro_new_order_id = 6, ro_new_price = 251200, ro_new_quantity = 60\<rparr>) ex
    \<longleftrightarrow> ex = one_book [resting 6 251200 40 20] [] {6, 5, 4, 3, 2, 1} 4 (take 10 golden_events)"
  "ex_step (one_book [resting 6 251200 40 20] [] {7, 6, 5, 4, 3, 2, 1} 4 (take 12 golden_events)) (limit_order 8 kBuy kDay 280000 10) ex
    \<longleftrightarrow> ex = one_book [resting 6 251200 40 20] [] {8, 7, 6, 5, 4, 3, 2, 1} 4 (take 13 golden_events)"
  "ex_step (one_book [resting 6 251200 40 20] [] {8, 7, 6, 5, 4, 3, 2, 1} 4 (take 13 golden_events)) (Cancel \<lparr>co_order_id = 6\<rparr>) ex
    \<longleftrightarrow> ex = one_book [] [] {8, 7, 6, 5, 4, 3, 2, 1} 4 golden_events"
  unfolding limit_order_def ex_step_simps golden_events_def by (simp_all add: one_book_eval some_verdict)

lemma golden_fok:
  "ex_step (one_book [resting 6 251200 40 20] [] {6, 5, 4, 3, 2, 1} 4 (take 10 golden_events)) (limit_order 7 kSell kFok 251200 50) ex
    \<longleftrightarrow> ex = one_book [resting 6 251200 40 20] [] {7, 6, 5, 4, 3, 2, 1} 4 (take 12 golden_events)"
proof -
  let ?o = "\<lparr>no_order_id = 7, no_instrument_id = 1, no_side = kSell, no_type = kLimit, no_tif = kFok, no_price = 251200, no_quantity = 50\<rparr>"
  let ?ex = "one_book [resting 6 251200 40 20] [] {6, 5, 4, 3, 2, 1} 4 (take 10 golden_events)"
  have "submit_verdict v ?o ?ex \<longleftrightarrow> \<not> v" for v
    by (simp add: submit_verdict_def verdict_ok_def fillable_def order_price_def one_book_def book_index_def acceptable_def)
  moreover have "ex_submit False ?o ?ex = one_book [resting 6 251200 40 20] [] {7, 6, 5, 4, 3, 2, 1} 4 (take 12 golden_events)"
    unfolding golden_events_def by (simp add: one_book_eval)
  moreover have "(\<exists>v. Q v \<and> \<not> v) = Q False" for Q :: "bool \<Rightarrow> bool" by (metis (full_types))
  ultimately show ?thesis by (simp only: limit_order_def ex_step_simps)
qed

lemma golden_ex_run:
  "ex_run (exchange_of sample_engine) golden_session ex \<longleftrightarrow> ex = one_book [] [] {8, 7, 6, 5, 4, 3, 2, 1} 4 golden_events"
  unfolding sample_exchange golden_session_def by (simp only: ex_run_simps golden_steps golden_steps' golden_fok simp_thms ex_simps)

end
