(* ===== verification/Quantity_Overflow.thy ===== *)
theory Quantity_Overflow
  imports Sample
begin

text \<open>
  A level's total and the sum of the fill-or-kill check are 32-bit sums of 32-bit quantities.
  Two resting orders of \<open>2^31\<close> lots make both of them zero: the theory follows the code in
  that state.
\<close>

section \<open>One price whose total has wrapped to zero\<close>

lemma one_price_one_level:
  assumes ok: "book_ok p ob q" and view: "side_view (op_get p) q sd (ladder_size (ob_ladder ob)) = V" "V \<noteq> []"
    and price: "\<forall>x \<in> set V. ao_price x = P"
  shows "\<exists>i. occupied q sd = {i}"
proof -
  note inv = book_okD(1) [OF ok]
  let ?n = "ladder_size (ob_ladder ob)"
  have level: "i < ?n \<and> ob_index_to_price ob (word_of_nat i) = P" if i: "i \<in> occupied q sd" for i
  proof -
    have "q sd i \<noteq> []" using i by (simp add: occupied_def)
    then obtain s where s: "s \<in> set (q sd i)" by (cases "q sd i") auto
    note place = queue_place [OF inv s]
    have "view_order (op_get p) s \<in> set V" using s place(3) unfolding view(1) [symmetric] side_view_def set_flat by auto
    with price have "rec_price (op_get p s) = P" by fastforce
    with place(3,7) show ?thesis by simp
  qed
  have "occupied q sd \<noteq> {}" using side_view_empty [of q sd "op_get p" ?n] view by auto
  then obtain i where i: "i \<in> occupied q sd" by blast
  have "j = i" if "j \<in> occupied q sd" for j
    by (rule level_prices_inj [OF book_invD(2) [OF inv]]) (use level [OF that] level [OF i] in simp_all)
  with i show ?thesis by blast
qed

lemma wrapped_level_refused:
  assumes ok: "book_ok p ob q" and V: "ab_orders (book_view p ob) (opposite sd) = V" "V \<noteq> []" "\<forall>x \<in> set V. ao_price x = P"
    and zero: "snd (best_quote V) = 0" and n: "n \<noteq> 0"
  shows "can_fully_fill ob sd is_market limit_price n = Some False"
proof -
  let ?s = "opposite sd"
  note inv = book_okD(1) [OF ok]
  have view: "side_view (op_get p) q ?s (ladder_size (ob_ladder ob)) = V" using V(1) by (simp add: book_okD(4) [OF ok])
  obtain i where one: "occupied q ?s = {i}" using one_price_one_level [OF ok view V(2,3)] by blast
  have best: "has_best ob ?s" using has_best_iff [OF inv] one by simp
  note B = best_level [OF inv best]
  have i: "nat (best_index ob ?s) = i" "i < ladder_size (ob_ladder ob)" using B(1,2) one by simp_all
  have idx: "best_index ob ?s = int i" using B(3) i(1) by simp
  have total: "lvl_total_qty (level_at ob ?s (word_of_int (int i))) = 0"
    using side_quote [OF ok, of ?s] zero unfolding view idx by (simp add: level_at_def)
  have "best_index_of ?s {j \<in> bits_of (bitmap ob ?s). before ?s (nat (int i)) j} (next_index ob ?s (int i))"
    unfolding next_index_eq using i(2) book_invD(4) [OF inv, of ?s]
    by (intro bitset.next_best_members) simp_all
  moreover have none: "{j \<in> bits_of (bitmap ob ?s). before ?s (nat (int i)) j} = {}"
    unfolding book_invD(5) [OF inv] one by auto
  ultimately have nxt: "next_index ob ?s (int i) = -1" by (simp only: none best_index_of_empty)
  have end_scan: "fill_scan ob sd is_market limit_price n 0 (-1) = Some False"
    using n by (subst fill_scan.simps) (simp add: word_le_nat_alt unat_eq_zero)
  have "fill_scan ob sd is_market limit_price n 0 (int i) = Some False"
    by (subst fill_scan.simps) (use n in \<open>simp add: Let_def total nxt end_scan word_le_nat_alt unat_eq_zero del: of_int_of_nat_eq\<close>)
  then show ?thesis using best by (simp add: can_fully_fill_def idx)
qed

section \<open>Reaching that state\<close>

definition overflow_session :: "command list" where
  "overflow_session = [limit_order 1 kBuy kDay 251000 0x80000000, limit_order 2 kBuy kDay 251000 0x80000000]"

definition overflow_exchange :: exchange where
  "overflow_exchange = one_book [resting 1 251000 0x80000000 0, resting 2 251000 0x80000000 0] [] {2, 1} 1 [On_accepted 1, On_accepted 2]"

lemma overflow_steps:
  "ex_step (one_book [] [] {} 1 []) (limit_order 1 kBuy kDay 251000 0x80000000) ex
    \<longleftrightarrow> ex = one_book [resting 1 251000 0x80000000 0] [] {1} 1 [On_accepted 1]"
  "ex_step (one_book [resting 1 251000 0x80000000 0] [] {1} 1 [On_accepted 1]) (limit_order 2 kBuy kDay 251000 0x80000000) ex
    \<longleftrightarrow> ex = overflow_exchange"
  unfolding limit_order_def ex_step_simps overflow_exchange_def by (simp_all add: one_book_eval some_verdict)

lemma overflow_ex_run: "ex_run (exchange_of sample_engine) overflow_session ex \<longleftrightarrow> ex = overflow_exchange"
  unfolding sample_exchange overflow_session_def by (simp only: ex_run_simps overflow_steps simp_thms ex_simps)

lemma sample_run:
  assumes "length cs < 2 ^ 31"
  shows "\<exists>e. run sample_engine (map (Pair all_granted) cs) = Some e \<and> eng_inv e \<and> ex_run (exchange_of sample_engine) cs (exchange_of e)"
proof -
  have "granted (map (Pair all_granted) cs)" by (auto simp: granted_def)
  moreover have "map snd (map (Pair all_granted) cs) = cs" by (simp add: comp_def)
  ultimately show ?thesis
    using run_ok [OF sample_inv(1), of "map (Pair all_granted) cs"] assms by (auto simp: sample_inv(2))
qed

lemma overflow_reached:
  "\<exists>e. run sample_engine (map (Pair all_granted) overflow_session) = Some e \<and> eng_inv e \<and> exchange_of e = overflow_exchange"
  using sample_run [of overflow_session] unfolding overflow_ex_run by (simp add: overflow_session_def)

lemma overflow_quote: "snd (best_quote (ab_orders (ex_books overflow_exchange ! 0) kBuy)) = 0"
  "book_index overflow_exchange 1 = Some 0" "ex_top (ex_books overflow_exchange ! 0)
    = \<lparr>tob_bid_price = 251000, tob_bid_quantity = 0, tob_ask_price = 0, tob_ask_quantity = 0\<rparr>"
  by (simp_all add: overflow_exchange_def one_book_def best_quote_def book_index_def ex_top_def)

lemma overflow_refused:
  assumes "eng_inv e" "exchange_of e = overflow_exchange" "n \<noteq> 0"
  shows "can_fully_fill (eng_books e ! 0) kSell is_market limit_price n = Some False"
proof -
  have "length (eng_books e) = 1" using exchange_of_simps(1) [of e] unfolding assms(2) by (simp add: overflow_exchange_def one_book_def)
  then have b: "0 < length (eng_books e)" by simp
  obtain q where ok: "book_ok (eng_pool e) (eng_books e ! 0) q" using store_bookD [OF eng_inv_sel(2) [OF assms(1)] b] .
  have view: "ab_orders (book_view (eng_pool e) (eng_books e ! 0)) (opposite kSell) = ab_orders (ex_books overflow_exchange ! 0) kBuy"
    using exchange_of_simps(2) [OF b] by (simp add: assms(2))
  show ?thesis by (rule wrapped_level_refused [OF ok view _ _ overflow_quote(1) assms(3), of 251000])
      (simp_all add: overflow_exchange_def one_book_def)
qed

lemma overflow_fillable:
  "fillable overflow_exchange 0 kSell False 251000 n"
proof -
  have "unat n < 2 ^ 32" using unsigned_less [of n] by simp
  then show ?thesis by (simp add: fillable_def overflow_exchange_def one_book_def acceptable_def)
qed

end
