(* ===== verification/Exchange_Laws.thy ===== *)
theory Exchange_Laws
  imports Trades
begin

text \<open>
  Consequences of the exchange's definitions that a client relies on: ids are never reused,
  trade ids are consecutive, a cancel removes one order and no other, a replace keeps or gives
  up its place, and a rejection names the first problem in the order of the API.
\<close>

section \<open>Ids\<close>

lemma find_order_None_iff: "find_order ex i = None \<longleftrightarrow> id_free ex i"
proof
  assume none: "find_order ex i = None"
  show "id_free ex i" unfolding id_free_def
  proof (intro allI impI notI)
    fix b sd x assume "open_at ex b sd x" "ao_id x = i"
    then have "(b, sd, x) \<in> set (all_orders ex)" by (cases sd) (auto simp: all_orders_def book_orders_def open_at_def)
    with none \<open>ao_id x = i\<close> show False by (auto simp: find_order_def find_None_iff)
  qed
next
  assume "id_free ex i"
  then show "find_order ex i = None" using find_order_open [of ex i] by (cases "find_order ex i") (auto simp: id_free_def)
qed

lemma validated_used: "ex_used (ex_validated v order b ex) = ex_used ex"
  by (auto simp: ex_validated_def ex_accept_def ex_match_def ex_rest_def Let_def split: prod.splits)

lemma submit_used: "ex_used (ex_submit v order ex) =
    (if book_index ex (no_instrument_id order) = None then ex_used ex else insert (no_order_id order) (ex_used ex))"
  by (auto simp: ex_submit_def Let_def validated_used split: option.split)

lemma commit_used: "ex_used (ex_commit req b sd r n ex) = ex_used ex"
  by (auto simp: ex_commit_def ex_match_def ex_rest_def ex_remove_def Let_def split: prod.splits)

lemma step_used: "ex_step ex c ex' \<Longrightarrow> ex_used ex \<subseteq> ex_used ex'"
  by (induction rule: ex_step.induct)
    (auto simp: submit_used ex_cancel_def ex_remove_def ex_replace_def commit_used Let_def split: option.splits)

section \<open>Trade ids\<close>

fun trade_id_of :: "event \<Rightarrow> trade_id" where
  "trade_id_of (On_trade i _ _ _ _ _ _) = i"
| "trade_id_of _ = 0"

text \<open>The events added between two states, with the trades numbered from the counter.\<close>

definition numbered :: "exchange \<Rightarrow> exchange \<Rightarrow> bool" where
  "numbered ex ex' \<longleftrightarrow> (\<exists>new. ex_events ex' = ex_events ex @ new
    \<and> ex_next_trade_id ex' = ex_next_trade_id ex + word_of_nat (length (trades new))
    \<and> (\<forall>k < length (trades new). trade_id_of (trades new ! k) = ex_next_trade_id ex + word_of_nat k))"

lemma numbered_refl [simp]: "numbered ex ex"
  by (simp add: numbered_def)

lemma numbered_trans:
  assumes "numbered ex ex1" "numbered ex1 ex2"
  shows "numbered ex ex2"
proof -
  obtain n1 n2 where
    1: "ex_events ex1 = ex_events ex @ n1" "ex_next_trade_id ex1 = ex_next_trade_id ex + word_of_nat (length (trades n1))"
      "\<forall>k < length (trades n1). trade_id_of (trades n1 ! k) = ex_next_trade_id ex + word_of_nat k" and
    2: "ex_events ex2 = ex_events ex1 @ n2" "ex_next_trade_id ex2 = ex_next_trade_id ex1 + word_of_nat (length (trades n2))"
      "\<forall>k < length (trades n2). trade_id_of (trades n2 ! k) = ex_next_trade_id ex1 + word_of_nat k"
    using assms unfolding numbered_def by blast
  have "trade_id_of (trades (n1 @ n2) ! k) = ex_next_trade_id ex + word_of_nat k" if "k < length (trades (n1 @ n2))" for k
  proof (cases "k < length (trades n1)")
    case True
    then show ?thesis using 1(3) by (simp add: nth_append)
  next
    case False
    then obtain j where j: "k = length (trades n1) + j" by (metis le_Suc_ex not_less)
    with that 2(3) have "trade_id_of (trades n2 ! j) = ex_next_trade_id ex1 + word_of_nat j" by simp
    then show ?thesis by (simp add: nth_append j 1(2))
  qed
  then show ?thesis unfolding numbered_def
    by (intro exI [of _ "n1 @ n2"]) (simp add: 1(1,2) 2(1,2))
qed

lemma numbered_quiet: "ex_events ex' = ex_events ex @ new \<Longrightarrow> trades new = [] \<Longrightarrow> ex_next_trade_id ex' = ex_next_trade_id ex \<Longrightarrow> numbered ex ex'"
  by (auto simp: numbered_def)

lemma numbered_emit: "\<not> is_trade ev \<Longrightarrow> numbered ex (ex_emit ev ex)"
  by (rule numbered_quiet [of _ _ "[ev]"]) simp_all

lemma numbered_same: "ex_events ex' = ex_events ex \<Longrightarrow> ex_next_trade_id ex' = ex_next_trade_id ex \<Longrightarrow> numbered ex ex'"
  by (rule numbered_quiet [of _ _ "[]"]) simp_all

lemma take_liquidity_numbered:
  assumes "take_liquidity iid agg sd ok tid n os = (n', os', tid', evs)"
  shows "trades evs = evs" "tid' = tid + word_of_nat (length evs)" "k < length evs \<Longrightarrow> trade_id_of (evs ! k) = tid + word_of_nat k"
proof -
  have "trades evs = evs \<and> tid' = tid + word_of_nat (length evs) \<and> (\<forall>k < length evs. trade_id_of (evs ! k) = tid + word_of_nat k)"
    using assms
  proof (induction os arbitrary: tid n evs)
    case (Cons r rs)
    from Cons.prems show ?case
    proof (cases rule: take_cases)
      case (whole evs1)
      from Cons.IH [OF whole(4)] show ?thesis by (auto simp: whole(5) nth_Cons split: nat.split)
    qed (simp_all add: nth_Cons)
  qed simp
  then show "trades evs = evs" "tid' = tid + word_of_nat (length evs)" "k < length evs \<Longrightarrow> trade_id_of (evs ! k) = tid + word_of_nat k" by blast+
qed

lemma numbered_match: "ex_match b i sd m l n ex = (n', ex') \<Longrightarrow> numbered ex ex'"
  using take_liquidity_numbered by (auto simp: ex_match_def numbered_def Let_def split: prod.splits)

lemma numbered_rest: "numbered ex (ex_rest b sd r ex)" "numbered ex (ex_remove b sd i ex)" "numbered ex (upd_book b f ex)"
  "numbered ex (ex\<lparr>ex_used := U\<rparr>)"
  by (simp_all add: numbered_same ex_rest_def ex_remove_def)

lemma numbered_accept: "numbered ex (ex_accept v order b is_market price ex)"
proof -
  let ?ex = "ex_emit (On_accepted (no_order_id order)) ex"
  obtain n' ex' where m: "ex_match b (no_order_id order) (no_side order) is_market price (no_quantity order) ?ex = (n', ex')" by (rule prod.exhaust)
  have 1: "numbered ex ?ex" by (rule numbered_emit) simp
  have 2: "numbered ex ex'" by (rule numbered_trans [OF 1 numbered_match [OF m]])
  show ?thesis
    by (auto simp: ex_accept_def Let_def m 2 intro: numbered_trans [OF 1 numbered_emit] numbered_trans [OF 2 numbered_emit] numbered_trans [OF 2 numbered_rest(1)])
qed

lemma numbered_submit: "numbered ex (ex_submit v order ex)"
  by (auto simp: ex_submit_def ex_validated_def Let_def numbered_emit split: option.split
    intro: numbered_trans [OF numbered_rest(4) numbered_emit] numbered_trans [OF numbered_rest(4) numbered_accept])

lemma numbered_cancel: "numbered ex (ex_cancel req ex)"
  by (auto simp: ex_cancel_def numbered_emit split: option.split intro: numbered_trans [OF numbered_rest(2) numbered_emit])

lemma numbered_commit: "numbered ex (ex_commit req b sd r n ex)"
proof -
  let ?ex1 = "ex_emit (On_replaced (ro_order_id req) (ro_new_order_id req) (ro_new_price req) n) (ex_remove b sd (ro_order_id req) ex)"
  obtain m ex' where m: "(if ro_new_price req = ao_price r then (n, ?ex1) else ex_match b (ro_new_order_id req) sd False (ro_new_price req) n ?ex1) = (m, ex')"
    by (rule prod.exhaust)
  have 1: "numbered ex ?ex1" by (rule numbered_trans [OF numbered_rest(2) numbered_emit]) simp
  have "numbered ?ex1 ex'" using m numbered_match by (auto split: if_splits)
  then have 2: "numbered ex ex'" by (rule numbered_trans [OF 1])
  show ?thesis unfolding ex_commit_def Let_def m
    by (auto intro: numbered_trans [OF numbered_rest(3) numbered_emit] 2 numbered_trans [OF 2 numbered_rest(1)])
qed

lemma numbered_replace: "numbered ex (ex_replace req ex)"
  by (auto simp: ex_replace_def Let_def numbered_emit split: option.split
    intro: numbered_trans [OF numbered_rest(2) numbered_emit] numbered_trans [OF numbered_rest(4) numbered_commit])

lemma step_numbered: "ex_step ex c ex' \<Longrightarrow> numbered ex ex'"
  by (induction rule: ex_step.induct) (simp_all add: numbered_submit numbered_cancel numbered_replace)

text \<open>A trade whose call throws has taken its number.\<close>

lemma numbered_match_cut:
  assumes "ex_match_cut b i sd is_market limit_price n ex ex'"
  shows "numbered ex ex'"
proof -
  obtain m ex1 ev where C: "ex_match b i sd is_market limit_price m ex = (0, ex1)"
    "ex' = ex_emit ev (ex1\<lparr>ex_next_trade_id := ex_next_trade_id ex1 + 1\<rparr>)"
    "prefix (ex_events ex') (ex_events (snd (ex_match b i sd is_market limit_price n ex)))"
    using assms unfolding ex_match_cut_def by blast
  let ?take = "\<lambda>n. take_liquidity (ab_instrument (ex_books ex ! b)) i sd (acceptable sd is_market limit_price) (ex_next_trade_id ex) n
      (ab_orders (ex_books ex ! b) (opposite sd))"
  obtain m' os tid tr where M: "?take m = (m', os, tid, tr)" by (metis prod_cases4)
  obtain n' os' tid' evs where N: "?take n = (n', os', tid', evs)" by (metis prod_cases4)
  have ex1: "ex_events ex1 = ex_events ex @ tr" "ex_next_trade_id ex1 = tid" using C(1) M by (auto simp: ex_match_def Let_def)
  have "ex_events (snd (ex_match b i sd is_market limit_price n ex)) = ex_events ex @ evs" using N by (simp add: ex_match_def Let_def)
  with C(3) obtain rest where evs: "evs = tr @ ev # rest" by (auto simp: C(2) ex1 prefix_def)
  note A = take_liquidity_numbered [OF M] and B = take_liquidity_numbered [OF N]
  have trade: "is_trade ev" using B(1) unfolding trades_def evs by (metis filter_id_conv in_set_conv_decomp)
  have "trade_id_of ((tr @ [ev]) ! k) = ex_next_trade_id ex + word_of_nat k" if "k < length (tr @ [ev])" for k
    using B(3) [of k] that by (auto simp: evs nth_append split: if_splits)
  then show ?thesis unfolding numbered_def
    by (intro exI [of _ "tr @ [ev]"]) (simp add: C(2) ex1 A(1,2) trade)
qed

lemma command_cut_numbered:
  assumes "command_cut c ex ex'"
  shows "numbered ex ex'"
proof (cases c)
  case (Submit order)
  let ?ex = "ex_emit (On_accepted (no_order_id order)) (ex\<lparr>ex_used := insert (no_order_id order) (ex_used ex)\<rparr>)"
  have "numbered ex ?ex" by (rule numbered_trans [OF numbered_rest(4) numbered_emit]) simp
  with assms Submit numbered_match_cut [of _ _ _ _ _ _ ?ex ex'] show ?thesis
    by (auto simp: submit_cut_def accept_cut_def intro: numbered_trans)
next
  case (Replace req)
  with assms have "replace_cut req ex ex'" by simp
  then obtain b sd r where R: "commit_cut req b sd r (ro_new_quantity req - ao_filled r) (ex\<lparr>ex_used := insert (ro_new_order_id req) (ex_used ex)\<rparr>) ex'"
    unfolding replace_cut_def by blast
  let ?ex = "ex_emit (On_replaced (ro_order_id req) (ro_new_order_id req) (ro_new_price req) (ro_new_quantity req - ao_filled r))
      (ex_remove b sd (ro_order_id req) (ex\<lparr>ex_used := insert (ro_new_order_id req) (ex_used ex)\<rparr>))"
  have "numbered ex ?ex"
    by (rule numbered_trans [OF numbered_rest(4) numbered_trans [OF numbered_rest(2) numbered_emit]]) simp
  with R numbered_match_cut [of _ _ _ _ _ _ ?ex ex'] show ?thesis
    by (auto simp: commit_cut_def intro: numbered_trans)
qed (use assms in simp)

section \<open>Cancel\<close>

lemma find_order_iff: "ids_unique ex \<Longrightarrow> find_order ex j = Some (b, sd, x) \<longleftrightarrow> open_at ex b sd x \<and> ao_id x = j"
  using find_order_unique find_order_open by blast

lemma find_order_eqI:
  assumes "ids_unique ex" "ids_unique ex'" "\<And>b sd x. ao_id x = j \<Longrightarrow> open_at ex' b sd x = open_at ex b sd x"
  shows "find_order ex' j = find_order ex j"
proof (cases "find_order ex j")
  case None
  then have "id_free ex' j" using assms(3) unfolding find_order_None_iff id_free_def by blast
  with None show ?thesis by (simp flip: find_order_None_iff)
next
  case (Some y)
  obtain b sd x where y: "y = (b, sd, x)" by (cases y)
  with Some assms show ?thesis using find_order_iff by metis
qed

lemma remove_open: "open_at ex b sd x \<Longrightarrow> ids_unique ex \<Longrightarrow>
    open_at (ex_remove b sd (ao_id x) ex) c s y \<longleftrightarrow> open_at ex c s y \<and> ao_id y \<noteq> ao_id x"
proof -
  assume x: "open_at ex b sd x" and u: "ids_unique ex"
  have b: "b < length (ex_books ex)" using x by (simp add: open_at_def)
  have "c = b \<and> s = sd" if "open_at ex c s y" "ao_id y = ao_id x" using u that x unfolding ids_unique_def by blast
  then show ?thesis using b by (auto simp: open_at_def ex_remove_def remove_order_def nth_list_update)
qed

lemma cancel_effect:
  assumes inv: "exchange_inv ex" and found: "find_order ex (co_order_id req) = Some (b, sd, x)"
  shows "ex_events (ex_cancel req ex) = ex_events ex @ [On_canceled (co_order_id req) (ao_open x) kUserRequested]"
    "find_order (ex_cancel req ex) j = (if j = co_order_id req then None else find_order ex j)"
proof -
  let ?i = "co_order_id req"
  note x = find_order_open [OF found]
  note u = exchange_invD(2) [OF inv]
  have can: "ex_cancel req ex = ex_emit (On_canceled ?i (ao_open x) kUserRequested) (ex_remove b sd ?i ex)"
    by (simp add: ex_cancel_def found)
  then show "ex_events (ex_cancel req ex) = ex_events ex @ [On_canceled ?i (ao_open x) kUserRequested]" by (simp add: ex_remove_def)
  have u': "ids_unique (ex_cancel req ex)" by (rule exchange_invD(2) [OF cancel_inv [OF inv]])
  have open': "open_at (ex_cancel req ex) c s y \<longleftrightarrow> open_at ex c s y \<and> ao_id y \<noteq> ?i" for c s y
    using remove_open [OF x(1) u, of c s y] by (simp add: can x(2))
  show "find_order (ex_cancel req ex) j = (if j = ?i then None else find_order ex j)"
  proof (cases "j = ?i")
    case True
    have "id_free (ex_cancel req ex) ?i" by (simp add: id_free_def open')
    with True show ?thesis by (simp add: find_order_None_iff)
  next
    case False
    then have "find_order (ex_cancel req ex) j = find_order ex j" by (intro find_order_eqI [OF u u']) (simp add: open')
    with False show ?thesis by simp
  qed
qed

section \<open>Replace\<close>

lemma replace_commits:
  assumes inv: "exchange_inv ex" and found: "find_order ex (ro_order_id req) = Some (b, sd, r)"
    and price: "ro_new_price req = ao_price r" and more: "ao_filled r < ro_new_quantity req"
    and fresh: "ro_new_order_id req = ro_order_id req \<or> ro_new_order_id req \<notin> ex_used ex"
  shows "ex_replace req ex = ex_commit req b sd r (ro_new_quantity req - ao_filled r) (ex\<lparr>ex_used := insert (ro_new_order_id req) (ex_used ex)\<rparr>)"
proof -
  note r = find_order_open [OF found]
  have "book_sound (ex_books ex ! b)" using exchange_invD(1) [OF inv] r(1) by (simp add: open_at_def)
  then have "is_tick_aligned (ao_price r)" "within_band (ex_books ex ! b) (ao_price r)"
    using r(1) by (auto simp: book_sound_def open_at_def order_sound_def)
  then show ?thesis using found price more fresh by (auto simp: ex_replace_def Let_def)
qed

text \<open>At the same price with no more open lots, the order keeps its place.\<close>

lemma replace_keeps_place:
  assumes inv: "exchange_inv ex" and found: "find_order ex (ro_order_id req) = Some (b, sd, r)"
    and price: "ro_new_price req = ao_price r" and more: "ao_filled r < ro_new_quantity req"
    and fresh: "ro_new_order_id req = ro_order_id req \<or> ro_new_order_id req \<notin> ex_used ex"
    and less: "ro_new_quantity req - ao_filled r \<le> ao_open r"
  shows "map ao_id (ab_orders (ex_books (ex_replace req ex) ! b) sd)
      = map (\<lambda>i. if i = ro_order_id req then ro_new_order_id req else i) (map ao_id (ab_orders (ex_books ex ! b) sd))"
    "ex_events (ex_replace req ex) = ex_events ex @ [On_replaced (ro_order_id req) (ro_new_order_id req) (ao_price r) (ro_new_quantity req - ao_filled r)]"
  using find_order_open(1) [OF found] less price
  by (auto simp: replace_commits [OF inv found price more fresh] ex_commit_def Let_def open_at_def substitute_order_def)

text \<open>At the same price with more lots, it goes behind every order of that price.\<close>

lemma replace_requeues:
  assumes inv: "exchange_inv ex" and found: "find_order ex (ro_order_id req) = Some (b, sd, r)"
    and price: "ro_new_price req = ao_price r" and more: "ao_filled r < ro_new_quantity req"
    and fresh: "ro_new_order_id req = ro_order_id req \<or> ro_new_order_id req \<notin> ex_used ex"
    and grow: "ao_open r < ro_new_quantity req - ao_filled r"
  defines "others \<equiv> remove_order (ro_order_id req) (ab_orders (ex_books ex ! b) sd)"
  shows "ab_orders (ex_books (ex_replace req ex) ! b) sd
      = takeWhile (\<lambda>x. \<not> better sd (ao_price r) (ao_price x)) others
        @ \<lparr>ao_id = ro_new_order_id req, ao_price = ao_price r, ao_open = ro_new_quantity req - ao_filled r, ao_filled = ao_filled r\<rparr>
        # dropWhile (\<lambda>x. \<not> better sd (ao_price r) (ao_price x)) others"
    "ex_events (ex_replace req ex) = ex_events ex @ [On_replaced (ro_order_id req) (ro_new_order_id req) (ao_price r) (ro_new_quantity req - ao_filled r)]"
proof -
  have "ro_new_quantity req - ao_filled r \<noteq> 0" "\<not> ro_new_quantity req - ao_filled r \<le> ao_open r" using more grow by auto
  then show "ab_orders (ex_books (ex_replace req ex) ! b) sd
      = takeWhile (\<lambda>x. \<not> better sd (ao_price r) (ao_price x)) others
        @ \<lparr>ao_id = ro_new_order_id req, ao_price = ao_price r, ao_open = ro_new_quantity req - ao_filled r, ao_filled = ao_filled r\<rparr>
        # dropWhile (\<lambda>x. \<not> better sd (ao_price r) (ao_price x)) others"
    "ex_events (ex_replace req ex) = ex_events ex @ [On_replaced (ro_order_id req) (ro_new_order_id req) (ao_price r) (ro_new_quantity req - ao_filled r)]"
    using find_order_open(1) [OF found] price unfolding others_def replace_commits [OF inv found price more fresh]
    by (simp_all add: ex_commit_def Let_def open_at_def ex_rest_def ex_remove_def insert_order_def)
qed

section \<open>Rejections\<close>

text \<open>Everything that is wrong with a new order, as the API lists it.\<close>

definition problem :: "exchange \<Rightarrow> new_order \<Rightarrow> reject_reason \<Rightarrow> bool" where
  "problem ex order reason \<longleftrightarrow> (case reason of
      kUnknownInstrument \<Rightarrow> book_index ex (no_instrument_id order) = None
    | kDuplicateOrderId \<Rightarrow> no_order_id order \<in> ex_used ex
    | kInvalidQuantity \<Rightarrow> no_quantity order = 0
    | kInvalidPriceTick \<Rightarrow> no_type order = kLimit \<and> \<not> is_tick_aligned (no_price order)
    | kPriceOutOfBand \<Rightarrow> no_type order = kLimit \<and> (\<exists>b. book_index ex (no_instrument_id order) = Some b \<and> \<not> within_band (ex_books ex ! b) (no_price order))
    | kInvalidTimeInForce \<Rightarrow> no_type order = kMarket \<and> no_tif order = kDay
    | kUnknownOrder \<Rightarrow> False
    | kNotConfigured \<Rightarrow> False)"

text \<open>\<open>verdict_event\<close>: the first event of a submit.\<close>

definition verdict_event :: "exchange \<Rightarrow> new_order \<Rightarrow> event \<Rightarrow> bool" where
  "verdict_event ex order ev \<longleftrightarrow>
    (ev = On_accepted (no_order_id order) \<and> (\<forall>reason. \<not> problem ex order reason))
    \<or> (\<exists>reason. ev = On_rejected (no_order_id order) reason \<and> problem ex order reason \<and> (\<forall>r. problem ex order r \<longrightarrow> reason \<le> r))"

lemma all_reasons: "(\<forall>r. P r) \<longleftrightarrow> P kUnknownInstrument \<and> P kDuplicateOrderId \<and> P kInvalidQuantity \<and> P kInvalidPriceTick
    \<and> P kPriceOutOfBand \<and> P kInvalidTimeInForce \<and> P kUnknownOrder \<and> P kNotConfigured"
  by (metis reject_reason.exhaust)

lemma accept_first: "\<exists>new. ex_events (ex_accept v order b m p ex) = ex_events ex @ On_accepted (no_order_id order) # new"
  by (auto simp: ex_accept_def ex_match_def ex_rest_def Let_def split: prod.splits)

lemma submit_first_event:
  "\<exists>ev new. ex_events (ex_submit v order ex) = ex_events ex @ ev # new \<and> verdict_event ex order ev"
proof (cases "book_index ex (no_instrument_id order)")
  case None
  then show ?thesis
    by (intro exI [of _ "On_rejected (no_order_id order) kUnknownInstrument"])
      (simp add: ex_submit_def verdict_event_def problem_def all_reasons reject_order)
next
  case (Some b)
  let ?i = "no_order_id order" and ?ex = "ex\<lparr>ex_used := insert (no_order_id order) (ex_used ex)\<rparr>"
  have "\<exists>new. ex_events (ex_accept v order b m p ?ex) = ex_events ex @ On_accepted ?i # new" for m p
    using accept_first [of v order b m p ?ex] by simp
  note acc = this
  have rej: ?thesis if "ex_submit v order ex = ex_emit (On_rejected ?i reason) ex1" "ex_events ex1 = ex_events ex" "problem ex order reason"
    "\<forall>r. problem ex order r \<longrightarrow> reason \<le> r" for reason ex1
    using that by (intro exI [of _ "On_rejected ?i reason"] exI [of _ "[]"]) (simp add: verdict_event_def)
  have m: "no_type order = kMarket \<longleftrightarrow> no_type order \<noteq> kLimit" by (cases "no_type order") simp_all
  consider "?i \<in> ex_used ex" | "?i \<notin> ex_used ex" "no_quantity order = 0"
    | "?i \<notin> ex_used ex" "no_quantity order \<noteq> 0" "no_type order = kMarket" "no_tif order = kDay"
    | "?i \<notin> ex_used ex" "no_quantity order \<noteq> 0" "no_type order = kMarket" "no_tif order \<noteq> kDay"
    | "?i \<notin> ex_used ex" "no_quantity order \<noteq> 0" "no_type order = kLimit" "\<not> is_tick_aligned (no_price order)"
    | "?i \<notin> ex_used ex" "no_quantity order \<noteq> 0" "no_type order = kLimit" "is_tick_aligned (no_price order)"
        "\<not> within_band (ex_books ex ! b) (no_price order)"
    | "?i \<notin> ex_used ex" "no_quantity order \<noteq> 0" "no_type order = kLimit" "is_tick_aligned (no_price order)"
        "within_band (ex_books ex ! b) (no_price order)"
    using m by blast
  then show ?thesis
  proof cases
    case 1 show ?thesis by (rule rej [of kDuplicateOrderId ex]) (use 1 Some in \<open>simp_all add: ex_submit_def problem_def all_reasons reject_order Let_def\<close>)
  next
    case 2 show ?thesis by (rule rej [of kInvalidQuantity ?ex])
        (use 2 Some in \<open>simp_all add: ex_submit_def ex_validated_def problem_def all_reasons reject_order Let_def\<close>)
  next
    case 3 show ?thesis by (rule rej [of kInvalidTimeInForce ?ex])
        (use 3 Some in \<open>simp_all add: ex_submit_def ex_validated_def problem_def all_reasons reject_order Let_def\<close>)
  next
    case 4
    then have "ex_submit v order ex = ex_accept v order b True 0 ?ex" by (simp add: ex_submit_def ex_validated_def Some Let_def)
    moreover have "verdict_event ex order (On_accepted ?i)" using 4 Some by (simp add: verdict_event_def problem_def all_reasons)
    ultimately show ?thesis using acc by (metis (no_types))
  next
    case 5 show ?thesis by (rule rej [of kInvalidPriceTick ?ex])
        (use 5 Some in \<open>simp_all add: ex_submit_def ex_validated_def problem_def all_reasons reject_order Let_def\<close>)
  next
    case 6 show ?thesis by (rule rej [of kPriceOutOfBand ?ex])
        (use 6 Some in \<open>simp_all add: ex_submit_def ex_validated_def problem_def all_reasons reject_order Let_def\<close>)
  next
    case 7
    then have "ex_submit v order ex = ex_accept v order b False (no_price order) ?ex" by (simp add: ex_submit_def ex_validated_def Some Let_def)
    moreover have "verdict_event ex order (On_accepted ?i)" using 7 Some by (simp add: verdict_event_def problem_def all_reasons)
    ultimately show ?thesis using acc by (metis (no_types))
  qed
qed

end
