(* ===== verification/Engine_Properties.thy ===== *)
theory Engine_Properties
  imports Quantity_Overflow Exchange_Laws
begin

text \<open>
  The properties of the whole engine, each over its reachable states, and each with hypotheses
  applied to the sample engine.
\<close>

section \<open>Facts shared by the properties\<close>

lemma reachable_inv: "reachable e \<Longrightarrow> eng_configured e \<Longrightarrow> eng_inv e" "reachable e \<Longrightarrow> eng_configured e \<Longrightarrow> exchange_inv (exchange_of e)"
  using reachable_sound by blast+

lemma sample_room: "op_size (eng_pool sample_engine) < 2 ^ 32 - 1"
  by (simp add: sample_inv)

lemma submit_cases:
  assumes "reachable e" "eng_configured e" "op_size (eng_pool e) < 2 ^ 32 - 1" "submit al e order = Some e'"
  obtains (finished) v where "submit_verdict v order (exchange_of e)" "exchange_of e' = ex_submit v order (exchange_of e)"
  | (dropped) r where "exchange_of e' = exchange_of e" "al r \<noteq> None"
  using submit_ok [OF reachable_inv(1) [OF assms(1,2)] assms(3), of al order] assms(4) by (auto simp: done_or_dropped_def)

lemma run_reachable:
  "reachable e \<Longrightarrow> op_size (eng_pool e) + length cs < 2 ^ 32 \<Longrightarrow> run e cs = Some e'
    \<Longrightarrow> reachable e' \<and> op_size (eng_pool e') \<le> op_size (eng_pool e) + length cs"
proof (induction cs arbitrary: e)
  case (Cons ac cs)
  obtain al c where ac: "ac = (al, c)" by (cases ac)
  have room: "op_size (eng_pool e) < 2 ^ 32 - 1" using Cons.prems(2) by simp
  obtain e1 where e1: "step al e c = Some e1" "run e1 cs = Some e'" using Cons.prems(3) by (auto simp: ac split: bind_splits)
  have "op_size (eng_pool e1) \<le> Suc (op_size (eng_pool e))"
  proof (cases "eng_configured e")
    case True
    then show ?thesis using step_ok [OF reachable_inv(1) [OF Cons.prems(1) True] room, of al c] e1(1) by auto
  next
    case False
    then show ?thesis using unconfigured_step [OF False, of al c] e1(1) by (auto simp: emit_def)
  qed
  with Cons.IH [OF reachable_requested [OF Cons.prems(1) room e1(1)] _ e1(2)] Cons.prems(2) show ?case by fastforce
qed simp

lemma golden_length: "length golden_session = 9"
  by (simp add: golden_session_def)

lemma golden_reached:
  "\<exists>e. run sample_engine (map (Pair all_granted) golden_session) = Some e \<and> reachable e \<and> eng_configured e
    \<and> exchange_of e = one_book [] [] {8, 7, 6, 5, 4, 3, 2, 1} 4 golden_events"
proof -
  obtain e where e: "run sample_engine (map (Pair all_granted) golden_session) = Some e" "eng_inv e"
    "ex_run (exchange_of sample_engine) golden_session (exchange_of e)"
    using sample_run [of golden_session] golden_length by auto
  have "reachable e" by (rule run_reachable [OF sample_reachable _ e(1), THEN conjunct1]) (simp add: sample_inv golden_length)
  with e show ?thesis by (auto simp: golden_ex_run eng_inv_def)
qed

definition sample_order :: "time_in_force \<Rightarrow> new_order" where
  "sample_order tif = \<lparr>no_order_id = 1, no_instrument_id = 1, no_side = kBuy, no_type = kLimit, no_tif = tif, no_price = 251000, no_quantity = 100\<rparr>"

lemma sample_submit: "\<exists>e'. submit all_granted sample_engine order = Some e'"
  using submit_ok [OF sample_inv(1) sample_room] by blast

lemma reachable_step:
  assumes "reachable e" "eng_configured e" "op_size (eng_pool e) < 2 ^ 32 - 1" "step al e c = Some e'"
  shows "eng_inv e'" "ex_step (exchange_of e) c (exchange_of e') \<or> exchange_of e' = exchange_of e"
  using step_ok [OF reachable_inv(1) [OF assms(1,2)] assms(3), of al c] assms(4) by auto

section \<open>Refinement and termination\<close>

text \<open>C1 The engine refines the exchange. A configured engine runs any sequence of requests to the
  end, keeps its invariant, and ends in a state whose exchange is that of the abstract machine
  after the same requests, except for requests that the allocator refused, which are skipped.\<close>

theorem run_refines:
  assumes "reachable e" "eng_configured e" "op_size (eng_pool e) + length cs < 2 ^ 32"
  shows "\<exists>e' served. run e cs = Some e' \<and> eng_inv e' \<and> ex_run (exchange_of e) served (exchange_of e')
    \<and> subseq served (map snd cs) \<and> (granted cs \<longrightarrow> served = map snd cs)"
  using run_ok [OF reachable_inv(1) [OF assms(1,2)] assms(3)] .

theorem run_refines_witness:
  "\<exists>e' served. run sample_engine (map (Pair all_granted) golden_session) = Some e' \<and> eng_inv e'
    \<and> ex_run (exchange_of sample_engine) served (exchange_of e')
    \<and> subseq served (map snd (map (Pair all_granted) golden_session))
    \<and> (granted (map (Pair all_granted) golden_session) \<longrightarrow> served = map snd (map (Pair all_granted) golden_session))"
  by (rule run_refines [OF sample_reachable sample_inv(3)]) (simp add: sample_inv golden_session_def)

text \<open>C2 \<open>submit\<close>, step for step, does what the exchange says: validation in order, the
  fill-or-kill verdict (sound, and exact below \<open>2^32\<close> lots), matching, then resting or canceling the
  rest. If an allocation is refused nothing happens at all.\<close>

theorem submit_refines:
  assumes "reachable e" "eng_configured e" "op_size (eng_pool e) < 2 ^ 32 - 1"
  shows "\<exists>v e'. submit al e order = Some e' \<and> eng_inv e' \<and> submit_verdict v order (exchange_of e)
    \<and> (exchange_of e' = ex_submit v order (exchange_of e) \<or> exchange_of e' = exchange_of e \<and> (\<exists>r. al r \<noteq> None))"
  using submit_ok [OF reachable_inv(1) [OF assms(1,2)] assms(3), of al order] unfolding done_or_dropped_def by blast

theorem submit_refines_witness:
  "\<exists>v e'. submit all_granted sample_engine (sample_order kFok) = Some e' \<and> eng_inv e'
    \<and> submit_verdict v (sample_order kFok) (exchange_of sample_engine)
    \<and> (exchange_of e' = ex_submit v (sample_order kFok) (exchange_of sample_engine)
      \<or> exchange_of e' = exchange_of sample_engine \<and> (\<exists>r. all_granted r \<noteq> None))"
  by (rule submit_refines [OF sample_reachable sample_inv(3) sample_room])

text \<open>C3 \<open>cancel\<close> does what the exchange says, needs no memory and takes no slot.\<close>

theorem cancel_refines:
  assumes "reachable e" "eng_configured e"
  shows "\<exists>e'. cancel e req = Some e' \<and> eng_inv e' \<and> op_size (eng_pool e') = op_size (eng_pool e)
    \<and> exchange_of e' = ex_cancel req (exchange_of e)"
  using cancel_ok [OF reachable_inv(1) [OF assms]] by blast

theorem cancel_refines_witness:
  "\<exists>e'. cancel sample_engine \<lparr>co_order_id = 7\<rparr> = Some e' \<and> eng_inv e' \<and> op_size (eng_pool e') = op_size (eng_pool sample_engine)
    \<and> exchange_of e' = ex_cancel \<lparr>co_order_id = 7\<rparr> (exchange_of sample_engine)"
  by (rule cancel_refines [OF sample_reachable sample_inv(3)])

text \<open>C4 \<open>replace\<close> does what the exchange says, also when it keeps the order's id, and changes
  nothing if an allocation is refused: the old order is not lost.\<close>

theorem replace_refines:
  assumes "reachable e" "eng_configured e" "op_size (eng_pool e) < 2 ^ 32 - 1"
  shows "\<exists>e'. replace al e req = Some e' \<and> eng_inv e'
    \<and> (exchange_of e' = ex_replace req (exchange_of e) \<or> exchange_of e' = exchange_of e \<and> (\<exists>r. al r \<noteq> None))"
  using replace_ok [OF reachable_inv(1) [OF assms(1,2)] assms(3), of al req] unfolding done_or_dropped_def by blast

theorem replace_refines_witness:
  "\<exists>e'. replace all_granted sample_engine \<lparr>ro_order_id = 1, ro_new_order_id = 2, ro_new_price = 251000, ro_new_quantity = 5\<rparr> = Some e' \<and> eng_inv e'
    \<and> (exchange_of e' = ex_replace \<lparr>ro_order_id = 1, ro_new_order_id = 2, ro_new_price = 251000, ro_new_quantity = 5\<rparr> (exchange_of sample_engine)
      \<or> exchange_of e' = exchange_of sample_engine \<and> (\<exists>r. all_granted r \<noteq> None))"
  by (rule replace_refines [OF sample_reachable sample_inv(3) sample_room])

text \<open>C5 Every request returns: in every reachable state, whatever the allocator and the listener
  do, none of the loops (hash probing, matching, the fill-or-kill scan) runs forever, and no
  exception leaves the engine.\<close>

theorem requests_return:
  assumes "reachable e" "op_size (eng_pool e) < 2 ^ 32 - 1"
  shows "\<exists>e'. step_with li al e c = Some e'"
proof (cases "eng_configured e")
  case True
  then show ?thesis using step_with_ok [OF reachable_inv(1) [OF assms(1) True] assms(2)] by blast
next
  case False
  then show ?thesis using unconfigured_step_with by blast
qed

theorem requests_return_witness:
  "\<exists>e'. step_with (\<lambda>evs ev. length evs = 1) all_granted sample_engine (Submit (sample_order kIoc)) = Some e'"
  by (rule requests_return [OF sample_reachable sample_room])

section \<open>Invariants\<close>

text \<open>C6 In every reachable configured state both sides of every book are in price-time order, no
  bid is at or above an ask, open quantities are positive and with the filled ones fit in 32 bits,
  prices are valid ticks in the band, and no id is open twice or open without being spent.\<close>

theorem reachable_books_sound:
  assumes "reachable e" "eng_configured e"
  shows "exchange_inv (exchange_of e)"
  by (rule reachable_inv(2) [OF assms])

theorem reachable_books_sound_witness: "exchange_inv (exchange_of sample_engine)"
  by (rule reachable_books_sound [OF sample_reachable sample_inv(3)])

text \<open>C7 In every reachable configured state the data structures agree with each other: the linked
  queues, totals and counts of the levels, the bitmaps, the cached best indexes, the records'
  back references, the order index and the instrument index.\<close>

theorem reachable_structures_consistent:
  assumes "reachable e" "eng_configured e"
  shows "eng_inv e"
  by (rule reachable_inv(1) [OF assms])

theorem reachable_structures_consistent_witness: "eng_inv sample_engine"
  by (rule reachable_structures_consistent [OF sample_reachable sample_inv(3)])

lemma reachable_numbered:
  "reachable e \<Longrightarrow> eng_next_trade_id e = 1 + word_of_nat (length (trades (eng_events e)))
    \<and> (\<forall>k < length (trades (eng_events e)). trade_id_of (trades (eng_events e) ! k) = 1 + word_of_nat k)"
proof (induction rule: reachable.induct)
  case (created al e)
  then show ?case by (auto simp: engine_new_def and_then_def returns_def split: option.splits sum.splits)
next
  case (configured e cfgs al res e')
  then show ?case
    by (cases "eng_configured e") (auto simp: already_configured configured_exchange_def exchange_of_def dest!: configure_cases)
next
  case (requested e li al c e')
  show ?case
  proof (cases "eng_configured e")
    case True
    have "numbered (exchange_of e) (exchange_of e')"
      using step_with_ok [OF reachable_inv(1) [OF requested.hyps(1) True] requested.hyps(2), of li al c] requested.hyps(3)
        step_numbered command_cut_numbered by auto
    then obtain new where N: "eng_events e' = eng_events e @ new" "eng_next_trade_id e' = eng_next_trade_id e + word_of_nat (length (trades new))"
      "\<forall>k < length (trades new). trade_id_of (trades new ! k) = eng_next_trade_id e + word_of_nat k"
      by (auto simp: numbered_def)
    show ?thesis
    proof (intro conjI allI impI)
      show "eng_next_trade_id e' = 1 + word_of_nat (length (trades (eng_events e')))" using requested.IH by (simp add: N)
      fix k assume k: "k < length (trades (eng_events e'))"
      show "trade_id_of (trades (eng_events e') ! k) = 1 + word_of_nat k"
      proof (cases "k < length (trades (eng_events e))")
        case True
        then show ?thesis using requested.IH by (simp add: N(1) nth_append)
      next
        case False
        then obtain j where j: "k = length (trades (eng_events e)) + j" by (metis le_Suc_ex not_less)
        with k N(3) have "trade_id_of (trades new ! j) = eng_next_trade_id e + word_of_nat j" by (simp add: N(1))
        then show ?thesis using requested.IH by (simp add: N(1) nth_append j)
      qed
    qed
  next
    case False
    with unconfigured_step_with [OF False, of li al c] requested show ?thesis by (auto simp: emit_def)
  qed
qed

text \<open>C29 Trades are numbered 1, 2, 3 and so on over the life of an engine, across instruments.\<close>

theorem trade_ids_consecutive:
  assumes "reachable e" "k < length (trades (eng_events e))"
  shows "trade_id_of (trades (eng_events e) ! k) = 1 + word_of_nat k"
  using reachable_numbered [OF assms(1)] assms(2) by blast

theorem trade_ids_consecutive_witness:
  "\<exists>e. run sample_engine (map (Pair all_granted) golden_session) = Some e \<and> trade_id_of (trades (eng_events e) ! 2) = 1 + word_of_nat 2"
proof -
  obtain e where e: "run sample_engine (map (Pair all_granted) golden_session) = Some e" "reachable e"
    "exchange_of e = one_book [] [] {8, 7, 6, 5, 4, 3, 2, 1} 4 golden_events" using golden_reached by blast
  have "eng_events e = golden_events" using e(3) by (metis exchange_of_simps(5) one_book_def exchange.select_convs(4))
  with trade_ids_consecutive [OF e(2), of 2] e(1) show ?thesis by (auto simp: golden_events_def)
qed

section \<open>Submitting\<close>

lemma submitted:
  assumes "reachable e" "eng_configured e" "op_size (eng_pool e) < 2 ^ 32 - 1" "submit al e order = Some e'"
  obtains (quiet) "exchange_of e' = exchange_of e"
  | (rejected) reason where "ex_books (exchange_of e') = ex_books (exchange_of e)" "eng_next_trade_id e' = eng_next_trade_id e"
      "eng_events e' = eng_events e @ [On_rejected (no_order_id order) reason]"
  | (accepted) b new where "book_index (exchange_of e) (no_instrument_id order) = Some b"
      "eng_events e' = eng_events e @ On_accepted (no_order_id order) # new"
      "executed order (eng_next_trade_id e) (ab_orders (ex_books (exchange_of e) ! b) (opposite (no_side order)))
        (On_accepted (no_order_id order) # new) (eng_next_trade_id e') (open_quantity (exchange_of e') (no_order_id order))"
  using assms
proof (cases rule: submit_cases)
  case (finished v)
  note inv = reachable_inv(2) [OF assms(1,2)]
  have ev: "eng_events e' = ex_events (exchange_of e')" "eng_next_trade_id e' = ex_next_trade_id (exchange_of e')" by simp_all
  from submit_outcome [OF inv finished(1)] show thesis
  proof (elim disjE exE conjE)
    assume "rejected_only order (exchange_of e) (ex_submit v order (exchange_of e))"
    then show thesis using rejected unfolding ev finished(2) rejected_only_def by auto
  next
    fix b new
    assume "book_index (exchange_of e) (no_instrument_id order) = Some b"
      "ex_events (ex_submit v order (exchange_of e)) = ex_events (exchange_of e) @ On_accepted (no_order_id order) # new"
      "executed order (ex_next_trade_id (exchange_of e)) (ab_orders (ex_books (exchange_of e) ! b) (opposite (no_side order)))
        (On_accepted (no_order_id order) # new) (ex_next_trade_id (ex_submit v order (exchange_of e)))
        (open_quantity (ex_submit v order (exchange_of e)) (no_order_id order))"
    then show thesis unfolding finished(2) [symmetric] by (intro accepted [of b new]) simp_all
  qed
qed (rule quiet)

text \<open>C13 Price-time priority. The trades that an accepted order reports execute the orders resting on
  the other side one after the other from the best price and, within a price, from the oldest; each
  trade is at the resting order's price, within the aggressor's limit, and fills the resting order
  completely unless it is the last trade.\<close>

theorem submit_follows_priority:
  assumes "reachable e" "eng_configured e" "op_size (eng_pool e) < 2 ^ 32 - 1" "submit al e order = Some e'"
    "find_book e (no_instrument_id order) = Some (Some b)"
  shows "\<exists>new. eng_events e' = eng_events e @ new
    \<and> in_priority (no_instrument_id order) (no_order_id order) (no_side order)
        (acceptable (no_side order) (no_type order = kMarket) (order_price order)) (eng_next_trade_id e)
        (ab_orders (book_view (eng_pool e) (eng_books e ! b)) (opposite (no_side order))) (trades new)"
proof -
  have b: "book_index (exchange_of e) (no_instrument_id order) = Some b"
    using find_book_ok [OF eng_inv_sel(2) [OF reachable_inv(1) [OF assms(1,2)]]] assms(5) by simp
  show ?thesis using assms(1-4)
  proof (cases rule: submitted)
    case quiet
    then have "eng_events e' = eng_events e" by (metis exchange_of_simps(5))
    then show ?thesis by (intro exI [of _ "[]"]) simp
  next
    case (rejected reason)
    then show ?thesis by (intro exI [of _ "[On_rejected (no_order_id order) reason]"]) simp
  next
    case (accepted c new)
    have "c = b" "b < length (eng_books e)" using accepted(1) b book_index_Some [OF b] by simp_all
    with accepted(2,3) show ?thesis
      by (intro exI [of _ "On_accepted (no_order_id order) # new"]) (simp add: executed_def)
  qed
qed

lemma sample_find: "find_book sample_engine 1 = Some (Some 0)"
  using find_book_ok [OF eng_inv_sel(2) [OF sample_inv(1)], of 1] by (simp add: sample_exchange one_book_def book_index_def)

theorem submit_follows_priority_witness:
  "\<exists>e'. submit all_granted sample_engine (sample_order kIoc) = Some e' \<and> (\<exists>new. eng_events e' = eng_events sample_engine @ new
    \<and> in_priority 1 1 kBuy (acceptable kBuy False 251000) (eng_next_trade_id sample_engine)
        (ab_orders (book_view (eng_pool sample_engine) (eng_books sample_engine ! 0)) kSell) (trades new))"
proof -
  obtain e' where e': "submit all_granted sample_engine (sample_order kIoc) = Some e'" using sample_submit by blast
  have "find_book sample_engine (no_instrument_id (sample_order kIoc)) = Some (Some 0)" by (simp add: sample_order_def sample_find)
  from submit_follows_priority [OF sample_reachable sample_inv(3) sample_room e' this] e' show ?thesis
    by (simp add: sample_order_def order_price_def)
qed

text \<open>C14 No quantity is lost or made: what an accepted order asked for is what it traded, plus what
  was reported as canceled, plus what is still open under its id.\<close>

theorem submit_conserves_quantity:
  assumes "reachable e" "eng_configured e" "op_size (eng_pool e) < 2 ^ 32 - 1" "submit al e order = Some e'"
    "eng_events e' = eng_events e @ On_accepted (no_order_id order) # new"
  shows "unat (no_quantity order) = total_traded new + total_canceled (no_order_id order) new + open_quantity (exchange_of e') (no_order_id order)"
  using assms(1-4)
proof (cases rule: submitted)
  case quiet
  then have "eng_events e' = eng_events e" by (metis exchange_of_simps(5))
  with assms(5) show ?thesis by simp
next
  case (rejected reason)
  with assms(5) show ?thesis by simp
next
  case (accepted c new')
  with assms(5) show ?thesis by (simp add: executed_def)
qed

lemma accepted_sample:
  "\<exists>e' new. submit all_granted sample_engine (sample_order tif) = Some e' \<and> eng_events e' = eng_events sample_engine @ On_accepted 1 # new"
proof -
  obtain e' where e': "submit all_granted sample_engine (sample_order tif) = Some e'" using sample_submit by blast
  obtain v where v: "exchange_of e' = ex_submit v (sample_order tif) (exchange_of sample_engine)"
    by (cases rule: submit_cases [OF sample_reachable sample_inv(3) sample_room e']) simp_all
  obtain ev new where E: "ex_events (ex_submit v (sample_order tif) (exchange_of sample_engine)) = ex_events (exchange_of sample_engine) @ ev # new"
    "verdict_event (exchange_of sample_engine) (sample_order tif) ev"
    using submit_first_event [of v "sample_order tif" "exchange_of sample_engine"] by blast
  have "\<not> problem (exchange_of sample_engine) (sample_order tif) r" for r
    by (cases r) (simp_all add: problem_def sample_exchange one_book_def sample_order_def book_index_def is_tick_aligned_iff
      tick_size_eq within_band_def)
  with E(2) have "ev = On_accepted 1" by (simp add: verdict_event_def sample_order_def)
  moreover have "eng_events e' = ex_events (exchange_of e')" "eng_events sample_engine = ex_events (exchange_of sample_engine)" by simp_all
  ultimately show ?thesis using e' E(1) v by (metis (no_types))
qed

theorem submit_conserves_quantity_witness:
  "\<exists>e' new. submit all_granted sample_engine (sample_order kDay) = Some e' \<and> 100 = total_traded new + total_canceled 1 new + open_quantity (exchange_of e') 1"
proof -
  obtain e' new where e': "submit all_granted sample_engine (sample_order kDay) = Some e'" "eng_events e' = eng_events sample_engine @ On_accepted 1 # new"
    using accepted_sample by blast
  have "eng_events e' = eng_events sample_engine @ On_accepted (no_order_id (sample_order kDay)) # new" using e'(2) by (simp add: sample_order_def)
  from submit_conserves_quantity [OF sample_reachable sample_inv(3) sample_room e'(1) this] e'(1) show ?thesis
    by (intro exI [of _ e'] exI [of _ new]) (simp add: sample_order_def)
qed

text \<open>C17 A fill-or-kill order is executed in full or not at all: the trades of one submit sum up to
  its quantity or to nothing.\<close>

theorem fok_all_or_nothing:
  assumes "reachable e" "eng_configured e" "op_size (eng_pool e) < 2 ^ 32 - 1" "submit al e order = Some e'" "no_tif order = kFok"
  shows "\<exists>new. eng_events e' = eng_events e @ new \<and> (total_traded new = 0 \<or> total_traded new = unat (no_quantity order))"
  using assms(1-4)
proof (cases rule: submitted)
  case quiet
  then have "eng_events e' = eng_events e" by (metis exchange_of_simps(5))
  then show ?thesis by (intro exI [of _ "[]"]) simp
next
  case (rejected reason)
  then show ?thesis by (intro exI [of _ "[On_rejected (no_order_id order) reason]"]) simp
next
  case (accepted c new)
  then have "total_traded (On_accepted (no_order_id order) # new) = 0 \<or> total_traded (On_accepted (no_order_id order) # new) = unat (no_quantity order)"
    using assms(5) unfolding executed_def by blast
  with accepted(2) show ?thesis by blast
qed

theorem fok_all_or_nothing_witness:
  "\<exists>e'. submit all_granted sample_engine (sample_order kFok) = Some e'
    \<and> (\<exists>new. eng_events e' = eng_events sample_engine @ new \<and> (total_traded new = 0 \<or> total_traded new = unat (no_quantity (sample_order kFok))))"
proof -
  obtain e' where e': "submit all_granted sample_engine (sample_order kFok) = Some e'" using sample_submit by blast
  from fok_all_or_nothing [OF sample_reachable sample_inv(3) sample_room e'] e' show ?thesis by (simp add: sample_order_def)
qed

text \<open>C28 Only day orders rest: after an accepted order of any other time in force (so also after any
  market order) nothing is open under its id.\<close>

theorem only_day_orders_rest:
  assumes "reachable e" "eng_configured e" "op_size (eng_pool e) < 2 ^ 32 - 1" "submit al e order = Some e'"
    "eng_events e' = eng_events e @ On_accepted (no_order_id order) # new" "no_tif order \<noteq> kDay"
  shows "open_quantity (exchange_of e') (no_order_id order) = 0"
  using assms(1-4)
proof (cases rule: submitted)
  case quiet
  then have "eng_events e' = eng_events e" by (metis exchange_of_simps(5))
  with assms(5) show ?thesis by simp
next
  case (rejected reason)
  with assms(5) show ?thesis by simp
next
  case (accepted c new')
  with assms(6) show ?thesis by (simp add: executed_def)
qed

theorem only_day_orders_rest_witness:
  "\<exists>e'. submit all_granted sample_engine (sample_order kIoc) = Some e' \<and> open_quantity (exchange_of e') 1 = 0"
proof -
  obtain e' new where e': "submit all_granted sample_engine (sample_order kIoc) = Some e'" "eng_events e' = eng_events sample_engine @ On_accepted 1 # new"
    using accepted_sample by blast
  have "eng_events e' = eng_events sample_engine @ On_accepted (no_order_id (sample_order kIoc)) # new" using e'(2) by (simp add: sample_order_def)
  from only_day_orders_rest [OF sample_reachable sample_inv(3) sample_room e'(1) this] e'(1) show ?thesis by (simp add: sample_order_def)
qed

text \<open>C27 Validation reports the first problem: an order is accepted when nothing is wrong with it,
  and otherwise rejected for the reason that the API lists first among those that apply.\<close>

theorem first_problem_reported:
  assumes "reachable e" "eng_configured e" "op_size (eng_pool e) < 2 ^ 32 - 1" "submit al e order = Some e'" "\<forall>r. al r = None"
  shows "\<exists>ev new. eng_events e' = eng_events e @ ev # new \<and> verdict_event (exchange_of e) order ev"
  using assms(1-4)
proof (cases rule: submit_cases)
  case (finished v)
  have "eng_events e' = ex_events (exchange_of e')" "eng_events e = ex_events (exchange_of e)" by simp_all
  then show ?thesis using submit_first_event [of v order "exchange_of e"] finished(2) by metis
next
  case dropped
  with assms(5) show ?thesis by simp
qed

theorem first_problem_reported_witness:
  "\<exists>e'. submit all_granted sample_engine (sample_order kDay) = Some e'
    \<and> (\<exists>ev new. eng_events e' = eng_events sample_engine @ ev # new \<and> verdict_event (exchange_of sample_engine) (sample_order kDay) ev)"
proof -
  obtain e' where e': "submit all_granted sample_engine (sample_order kDay) = Some e'" using sample_submit by blast
  from first_problem_reported [OF sample_reachable sample_inv(3) sample_room e'] e' show ?thesis by simp
qed

end
