(* ===== verification/Allocation_Free.thy ===== *)
theory Allocation_Free
  imports Engine_Properties
begin

text \<open>
  The design goal that \<open>engine.hpp\<close> states: no heap allocation once \<open>configure\<close> has run. The
  memory of an engine is the number of chunks of its pool and the capacity of its order index;
  no request gives memory back, and while a request finds room it never asks the allocator.
\<close>

section \<open>Memory is kept\<close>

abbreviation chunk_count :: "order_pool \<Rightarrow> nat" where
  "chunk_count p \<equiv> length (op_chunks p)"

lemma chunk_count_upd [simp]: "chunk_count (op_upd p s f) = chunk_count p"
  by (simp add: op_upd_def op_set_def Let_def)

lemma chunk_count_add [simp]: "chunk_count (fst (add_resting p ob s sd price)) = chunk_count p"
  by (simp add: add_resting_def Let_def)

lemma chunk_count_remove [simp]: "chunk_count (fst (remove_resting p ob s)) = chunk_count p"
  by (simp add: remove_resting_def Let_def)

lemma chunk_count_replace [simp]: "chunk_count (fst (replace_in_place p ob s t)) = chunk_count p"
  by (simp add: replace_in_place_def Let_def)

lemma chunk_count_execute [simp]: "chunk_count (ms_pool (execute_head iid agg sd idx ms)) = chunk_count (ms_pool ms)"
  by (simp add: execute_head_def Let_def split_beta)

lemma chunk_count_level:
  assumes "match_level iid agg sd idx ms = Some ms'"
  shows "chunk_count (ms_pool ms') = chunk_count (ms_pool ms)"
  using match_level.raw_induct [where P = "\<lambda>_ _ _ _ ms ms'. chunk_count (ms_pool ms') = chunk_count (ms_pool ms)", OF _ assms]
  by (fastforce split: if_splits)

lemma chunk_count_run:
  assumes "run_matching iid agg sd limit_price is_market ms = Some ms'"
  shows "chunk_count (ms_pool ms') = chunk_count (ms_pool ms)"
proof (rule run_matching.raw_induct [where P = "\<lambda>_ _ _ _ _ ms ms'. chunk_count (ms_pool ms') = chunk_count (ms_pool ms)", OF _ assms])
  fix run iid agg sd limit_price is_market ms ms'
  assume IH: "\<And>iid agg sd limit_price is_market ms ms'. run iid agg sd limit_price is_market ms = Some ms'
      \<Longrightarrow> chunk_count (ms_pool ms') = chunk_count (ms_pool ms)"
    and body: "(if 0 < rec_open_qty (op_get (ms_pool ms) agg) \<and> has_best (ms_book ms) (opposite sd)
     then let idx = word_of_int (best_index (ms_book ms) (opposite sd));
              resting_price = ob_index_to_price (ms_book ms) idx
          in if \<not> is_market \<and> \<not> crosses sd limit_price resting_price then Some ms
             else do { ms \<leftarrow> match_level iid agg sd idx ms; run iid agg sd limit_price is_market ms }
     else Some ms) = Some ms'"
  then show "chunk_count (ms_pool ms') = chunk_count (ms_pool ms)"
    by (auto simp: Let_def bind_eq_Some_conv dest!: IH chunk_count_level split: if_splits)
qed

text \<open>A handler that returned took one branch of each of its tests.\<close>

lemma branchE:
  "(if c then x else y) = Some z \<Longrightarrow> (c \<Longrightarrow> x = Some z \<Longrightarrow> P) \<Longrightarrow> (\<not> c \<Longrightarrow> y = Some z \<Longrightarrow> P) \<Longrightarrow> P"
  "Option.bind m f = Some z \<Longrightarrow> (\<And>x. m = Some x \<Longrightarrow> f x = Some z \<Longrightarrow> P) \<Longrightarrow> P"
  "(case r of None \<Rightarrow> n | Some s \<Rightarrow> g s) = Some z \<Longrightarrow> (r = None \<Longrightarrow> n = Some z \<Longrightarrow> P) \<Longrightarrow> (\<And>s. r = Some s \<Longrightarrow> g s = Some z \<Longrightarrow> P) \<Longrightarrow> P"
  by (auto simp: bind_eq_Some_conv split: if_splits option.splits)

text \<open>What an engine has reserved: room in its pool and in its order index.\<close>

definition memory :: "engine \<Rightarrow> nat \<times> nat" where
  "memory e = (chunk_count (eng_pool e), fm_capacity (eng_order_index e))"

lemma memory_some: "Some e1 = Some e' \<Longrightarrow> memory e1 = memory e \<Longrightarrow> memory e' = memory e"
  by simp

lemma memory_emit [simp]: "memory (emit ev e) = memory e"
  by (simp add: memory_def emit_def)

lemma memory_upd [simp]: "memory (upd_rec s f e) = memory e"
  by (simp add: memory_def upd_rec_def)

lemma memory_book:
  assumes "\<And>p ob. chunk_count (fst (f p ob)) = chunk_count p"
  shows "memory (with_book f b e) = memory e"
  using assms [of "eng_pool e" "eng_books e ! b"] by (simp add: memory_def with_book_def split_beta)

lemma memory_match: "match_in_engine e b iid agg sd limit_price is_market = Some e' \<Longrightarrow> memory e' = memory e"
  by (auto simp: match_in_engine_def memory_def bind_eq_Some_conv dest: chunk_count_run)

lemma memory_accepted: "submit_accepted e order b s is_market price = Some e' \<Longrightarrow> memory e' = memory e"
  by (auto simp: submit_accepted_def Let_def bind_eq_Some_conv memory_book dest!: memory_match split: if_splits)

lemma memory_validated: "submit_validated e order b s = Some e' \<Longrightarrow> memory e' = memory e"
  by (auto simp: submit_validated_def Let_def dest!: memory_accepted split: if_splits)

lemma memory_commit: "replace_commit e req b r s t n = Some e' \<Longrightarrow> memory e' = memory e"
  by (auto simp: replace_commit_def Let_def bind_eq_Some_conv memory_book dest!: memory_match split: if_splits)

lemma memory_remove [simp]: "memory (with_book (\<lambda>p ob. remove_resting p ob s) b e) = memory e"
  by (rule memory_book) simp

lemma memory_cancel: "cancel e req = Some e' \<Longrightarrow> memory e' = memory e"
  unfolding cancel_def Let_def by (elim branchE; erule memory_some; simp only: memory_emit memory_remove)

section \<open>With room, the allocator is not asked\<close>

definition roomy :: "engine \<Rightarrow> bool" where
  "roomy e \<longleftrightarrow> op_size (eng_pool e) < kChunkSize * chunk_count (eng_pool e)
    \<and> fm_size (eng_order_index e) < max_entries (fm_capacity (eng_order_index e))"

lemma allocate_room:
  assumes "op_size p < kChunkSize * chunk_count p"
  obtains p' where "\<And>al. op_allocate al p = Some (Inr (word_of_nat (op_size p), p'))" "chunk_count p' = chunk_count p"
proof -
  have "\<not> chunk_count p \<le> op_size p div kChunkSize" using assms by (simp add: not_le div_less_iff_less_mult mult.commute)
  then have "op_allocate al p = Some (Inr (word_of_nat (op_size p), snd (projr (the (op_allocate all_granted p)))))"
    "chunk_count (snd (projr (the (op_allocate all_granted p)))) = chunk_count p" for al
    by (simp_all add: op_allocate_def Let_def returns_def)
  then show thesis by (rule that)
qed

lemma insert_room: "fm_size m < max_entries (fm_capacity m) \<Longrightarrow> fm_insert al m k v = map_option Inr (fm_place m k v)"
  by (simp add: fm_insert_def)

lemma place_capacity: "fm_place m k v = Some m' \<Longrightarrow> fm_capacity m' = fm_capacity m"
  by (auto simp: fm_place_def bind_eq_Some_conv)

lemma assign_capacity: "fm_assign_existing m k v = Some m' \<Longrightarrow> fm_capacity m' = fm_capacity m"
  by (auto simp: fm_assign_existing_def bind_eq_Some_conv)

lemma memory_index [simp]: "fm_capacity oi = fm_capacity (eng_order_index e) \<Longrightarrow> memory (e\<lparr>eng_order_index := oi\<rparr>) = memory e"
  "chunk_count p = chunk_count (eng_pool e) \<Longrightarrow> memory (e\<lparr>eng_pool := p\<rparr>) = memory e"
  by (simp_all add: memory_def)

lemma submit_room:
  assumes "roomy e"
  shows "submit al e order = submit al' e order" "submit al e order = Some e' \<Longrightarrow> memory e' = memory e"
proof -
  obtain p' where p': "\<And>al. op_allocate al (eng_pool e) = Some (Inr (word_of_nat (op_size (eng_pool e)), p'))"
    "chunk_count p' = chunk_count (eng_pool e)"
    using allocate_room [of "eng_pool e"] assms by (auto simp: roomy_def)
  note ins = insert_room [OF assms [unfolded roomy_def, THEN conjunct2]]
  show "submit al e order = submit al' e order" by (simp add: submit_def p'(1) ins cong: if_cong option.case_cong)
  show "submit al e order = Some e' \<Longrightarrow> memory e' = memory e"
    by (auto simp: submit_def p'(1) ins bind_eq_Some_conv Let_def p'(2) dest!: memory_validated place_capacity
      split: if_splits option.splits)
qed

lemma replace_room:
  assumes "roomy e"
  shows "replace al e req = replace al' e req" "replace al e req = Some e' \<Longrightarrow> memory e' = memory e"
proof -
  obtain p' where p': "\<And>al. op_allocate al (eng_pool e) = Some (Inr (word_of_nat (op_size (eng_pool e)), p'))"
    "chunk_count p' = chunk_count (eng_pool e)"
    using allocate_room [of "eng_pool e"] assms by (auto simp: roomy_def)
  note ins = insert_room [OF assms [unfolded roomy_def, THEN conjunct2]]
  have same: "replace_validated al e req b r s n = replace_validated al' e req b r s n" for b r s n
    by (simp add: replace_validated_def p'(1) ins Let_def)
  show "replace al e req = replace al' e req" unfolding replace_def same ..
  have validated: "memory e' = memory e" if "replace_validated al e req b r s n = Some e'" for b r s n
    using that
    by (auto simp: replace_validated_def p' ins bind_eq_Some_conv Let_def dest!: memory_commit place_capacity assign_capacity
      split: if_splits)
  show "replace al e req = Some e' \<Longrightarrow> memory e' = memory e"
    unfolding replace_def Let_def
    by (elim branchE; (erule validated | erule memory_some, simp only: memory_emit memory_remove))
qed

lemma step_room:
  assumes "roomy e"
  shows "step al e c = step al' e c" "step al e c = Some e' \<Longrightarrow> memory e' = memory e"
  using submit_room [OF assms] replace_room [OF assms] memory_cancel by (cases c; simp)+

section \<open>What \<open>configure\<close> reserves\<close>

definition reserved :: "engine \<Rightarrow> bool" where
  "reserved e \<longleftrightarrow> kDefaultOrderCapacity \<le> kChunkSize * fst (memory e)
    \<and> kDefaultOrderCapacity \<le> max_entries (snd (memory e))"

lemma reserved_roomy: "reserved e \<Longrightarrow> eng_inv e \<Longrightarrow> op_size (eng_pool e) < kDefaultOrderCapacity \<Longrightarrow> roomy e"
  by (auto simp: reserved_def roomy_def memory_def eng_inv_def store_inv_def orders_indexed_def)

lemma configure_reserves:
  assumes fresh: "\<not> eng_configured e" and fits: "\<forall>cfg \<in> set cfgs. \<not> config_invalid cfg \<longrightarrow> ladder_fits cfg"
    and ok: "configure al e (Some cfgs) = Some (kOk, e')"
  shows "eng_inv e'" "op_size (eng_pool e') = 0" "reserved e'"
proof -
  have "configure_end al e cfgs (kOk, e')" using configure_ok [OF fresh fits, of al] ok by auto
  then show inv: "eng_inv e'" and "op_size (eng_pool e') = 0" by (simp_all add: configure_end_def)
  have conf: "e' \<noteq> e" using fresh inv by (auto simp: eng_inv_def)
  have "configure_body al e (Some cfgs) = Some (Inr (kOk, e'))"
    using ok by (auto simp: configure_def split: option.splits sum.splits exn.splits)
  with conf obtain r where r: "(case r of Inl res \<Rightarrow> returns (res, e)
      | Inr (books, index) \<Rightarrow> and_then (op_new al) (\<lambda>p. and_then (op_reserve al p kDefaultOrderCapacity) (\<lambda>p.
          and_then (fm_new al) (\<lambda>oi. and_then (fm_reserve al oi kDefaultOrderCapacity) (\<lambda>oi.
            returns (kOk, e\<lparr>eng_books := books, eng_pool := p, eng_instrument_index := index,
              eng_order_index := oi, eng_configured := True\<rparr>)))))) = Some (Inr (kOk, e'))"
    using fresh by (auto simp: configure_body_def and_then_eq_returns [where m = "configure_books _ _ _ _ _"] and_then_eq_returns split: if_splits)
  with conf obtain p p' oi oi' where R: "op_new al = Some (Inr p)" "op_reserve al p kDefaultOrderCapacity = Some (Inr p')"
    "fm_new al = Some (Inr oi)" "fm_reserve al oi kDefaultOrderCapacity = Some (Inr oi')" "eng_pool e' = p'" "eng_order_index e' = oi'"
    by (cases r) (auto simp: and_then_eq_returns split: prod.splits)
  have "pool_ok p" "op_size p = 0" using runs_pool(1) [of al] R(1) by (auto simp: runs_def returns_def)
  then have "kDefaultOrderCapacity \<le> kChunkSize * chunk_count p'"
    using op_reserve_cases [of p al kDefaultOrderCapacity] R(2) by (auto simp: returns_def)
  moreover have oi: "fm_ready oi" "fm_size oi = 0" using runs_fm_new [of al] R(3) by (auto simp: runs_def returns_def)
  have "kDefaultOrderCapacity \<le> max_entries (fm_capacity oi')"
    using fm_reserve_correct [OF oi(1), of kDefaultOrderCapacity al] oi(2) R(4) request_cases [of al "Alloc_slots (capacity_for kDefaultOrderCapacity)"]
    by (auto simp: kDefaultOrderCapacity_def split: if_splits)
  ultimately show "reserved e'" by (simp add: reserved_def memory_def R(5,6))
qed

lemma run_reserved:
  assumes "eng_inv e" "reserved e" "op_size (eng_pool e) + length cs \<le> kDefaultOrderCapacity" "map snd cs = map snd ds"
  shows "run e cs = run e ds"
  using assms
proof (induction cs arbitrary: e ds)
  case (Cons c cs)
  obtain al x where c: "c = (al, x)" by (cases c)
  obtain al' ds' where ds: "ds = (al', x) # ds'" "map snd cs = map snd ds'" using Cons.prems(4) c by (cases ds) auto
  have room: "op_size (eng_pool e) < kDefaultOrderCapacity" "op_size (eng_pool e) < 2 ^ 32 - 1"
    using Cons.prems(3) by (simp_all add: kDefaultOrderCapacity_def)
  note S = step_room [OF reserved_roomy [OF Cons.prems(2,1) room(1)]]
  obtain e1 where e1: "step al e x = Some e1" "eng_inv e1" "op_size (eng_pool e1) \<le> Suc (op_size (eng_pool e))"
    using step_ok [OF Cons.prems(1) room(2), of al x] by blast
  have "memory e1 = memory e" using S(2) e1(1) .
  then have "reserved e1" using Cons.prems(2) by (simp add: reserved_def)
  moreover have "op_size (eng_pool e1) + length cs \<le> kDefaultOrderCapacity" using e1(3) Cons.prems(3) by simp
  ultimately have "run e1 cs = run e1 ds'" using Cons.IH [OF e1(2)] ds(2) by blast
  moreover have "step al' e x = Some e1" using S(1) [of al x al'] e1(1) by simp
  ultimately show ?case by (simp add: c ds(1) e1(1))
qed simp

text \<open>C20 The reserved capacity keeps the hot path free of allocation: after a successful \<open>configure\<close>,
  the first 16777216 requests of any session give the same states and events whatever the allocator
  does in the meantime, even if it refuses every request for memory.\<close>

theorem hot_path_allocation_free:
  assumes "\<not> eng_configured e" "\<forall>cfg \<in> set cfgs. \<not> config_invalid cfg \<longrightarrow> ladder_fits cfg"
    "configure al e (Some cfgs) = Some (kOk, e0)" "length cs \<le> kDefaultOrderCapacity"
  shows "run e0 (map (Pair all_granted) cs) = run e0 (map (Pair al') cs)"
  by (rule run_reserved) (use configure_reserves [OF assms(1-3)] assms(4) in \<open>simp_all add: comp_def\<close>)

theorem hot_path_allocation_free_witness:
  "run sample_engine (map (Pair all_granted) golden_session) = run sample_engine (map (Pair (\<lambda>_. Some Bad_alloc)) golden_session)"
  by (rule hot_path_allocation_free [OF _ _ sample_end(2)])
    (use sample_valid(1) in \<open>simp_all add: new_engine_def golden_length kDefaultOrderCapacity_def\<close>)

end
