(* ===== verification/Client_Properties.thy ===== *)
theory Client_Properties
  imports Engine_Properties
begin

text \<open>
  The properties a client of the API sees: quotes, ids, cancel and replace, configuration, the
  golden scenario, and the two effects of 32-bit totals.
\<close>

section \<open>A resting order on the sample engine\<close>

definition resting_session :: "command list" where
  "resting_session = [limit_order 1 kBuy kDay 251000 100, limit_order 2 kSell kDay 252000 70]"

definition resting_exchange :: exchange where
  "resting_exchange = one_book [resting 1 251000 100 0] [resting 2 252000 70 0] {2, 1} 1 [On_accepted 1, On_accepted 2]"

lemma resting_steps:
  "ex_step (one_book [] [] {} 1 []) (limit_order 1 kBuy kDay 251000 100) ex
    \<longleftrightarrow> ex = one_book [resting 1 251000 100 0] [] {1} 1 [On_accepted 1]"
  "ex_step (one_book [resting 1 251000 100 0] [] {1} 1 [On_accepted 1]) (limit_order 2 kSell kDay 252000 70) ex
    \<longleftrightarrow> ex = resting_exchange"
  unfolding limit_order_def ex_step_simps resting_exchange_def by (simp_all add: one_book_eval some_verdict)

definition resting_engine :: engine where
  "resting_engine = the (run sample_engine (map (Pair all_granted) resting_session))"

lemma resting_engine_ok: "reachable resting_engine" "eng_configured resting_engine"
  "exchange_of resting_engine = resting_exchange" "op_size (eng_pool resting_engine) < 2 ^ 32 - 1"
  "op_size (eng_pool resting_engine) \<le> 2"
proof -
  have len: "length resting_session = 2" by (simp add: resting_session_def)
  obtain e where e: "run sample_engine (map (Pair all_granted) resting_session) = Some e" "eng_inv e"
    "ex_run (exchange_of sample_engine) resting_session (exchange_of e)"
    using sample_run [of resting_session] len by auto
  have "ex_run (exchange_of sample_engine) resting_session ex \<longleftrightarrow> ex = resting_exchange" for ex
    unfolding sample_exchange resting_session_def by (simp only: ex_run_simps resting_steps simp_thms ex_simps)
  with e show "exchange_of resting_engine = resting_exchange" by (simp add: resting_engine_def)
  show "eng_configured resting_engine" using e by (simp add: resting_engine_def eng_inv_def)
  have "reachable e \<and> op_size (eng_pool e) \<le> op_size (eng_pool sample_engine) + length (map (Pair all_granted) resting_session)"
    by (rule run_reachable [OF sample_reachable _ e(1)]) (simp add: sample_inv len)
  then show "reachable resting_engine" "op_size (eng_pool resting_engine) < 2 ^ 32 - 1" "op_size (eng_pool resting_engine) \<le> 2"
    by (simp_all add: resting_engine_def e(1) sample_inv len)
qed

lemma resting_eval: "find_order resting_exchange 1 = Some (0, kBuy, resting 1 251000 100 0)" "book_index resting_exchange 1 = Some 0"
  "ex_used resting_exchange = {2, 1}" "ab_orders (ex_books resting_exchange ! 0) kBuy = [resting 1 251000 100 0]"
  "ab_orders (ex_books resting_exchange ! 0) kSell = [resting 2 252000 70 0]"
  by (simp_all add: resting_exchange_def one_book_def find_order_def all_orders_def book_orders_def book_index_def)

section \<open>Quotes\<close>

text \<open>C21 \<open>top_of_book\<close> reports, for each side, the price of the order that would trade first and the
  open quantity at that price (as a 32-bit sum), zeros for an empty side or an unknown instrument.\<close>

theorem top_of_book_reports:
  assumes "reachable e" "eng_configured e"
  shows "top_of_book e iid = Some (case book_index (exchange_of e) iid of None \<Rightarrow> empty_top_of_book
    | Some b \<Rightarrow> ex_top (ex_books (exchange_of e) ! b))"
  by (rule top_of_book_ok [OF reachable_inv(1) [OF assms]])

theorem top_of_book_reports_witness:
  "top_of_book resting_engine 1
    = Some \<lparr>tob_bid_price = 251000, tob_bid_quantity = 100, tob_ask_price = 252000, tob_ask_quantity = 70\<rparr>"
  using top_of_book_reports [OF resting_engine_ok(1,2), of 1]
  by (simp add: resting_engine_ok(3) resting_eval ex_top_def best_quote_def)

text \<open>C19 The quotes of a book never cross or lock: when both sides have an order, the reported bid
  is below the reported ask.\<close>

theorem quotes_never_cross:
  assumes "reachable e" "eng_configured e" "find_book e iid = Some (Some b)" "top_of_book e iid = Some tob"
    "has_best (eng_books e ! b) kBuy" "has_best (eng_books e ! b) kSell"
  shows "tob_bid_price tob < tob_ask_price tob"
proof -
  note inv = reachable_inv [OF assms(1,2)]
  have b: "book_index (exchange_of e) iid = Some b" using find_book_ok [OF eng_inv_sel(2) [OF inv(1)]] assms(3) by simp
  have len: "b < length (eng_books e)" using book_index_Some [OF b] by simp
  obtain q where ok: "book_ok (eng_pool e) (eng_books e ! b) q" using store_bookD [OF eng_inv_sel(2) [OF inv(1)] len] .
  have "ab_orders (ex_books (exchange_of e) ! b) sd \<noteq> []" if best: "has_best (eng_books e ! b) sd" for sd
  proof -
    note B = best_level(1,2) [OF book_okD(1) [OF ok] best]
    have "q sd (nat (best_index (eng_books e ! b) sd)) \<noteq> []" using B(1) by (simp add: occupied_def)
    then obtain s where "s \<in> set (q sd (nat (best_index (eng_books e ! b) sd)))" by (meson last_in_set)
    with B(2) have "\<exists>i < ladder_size (ob_ladder (eng_books e ! b)). s \<in> set (q sd i)" by blast
    then have "view_order (op_get (eng_pool e)) s \<in> set (ab_orders (book_view (eng_pool e) (eng_books e ! b)) sd)"
      by (auto simp: book_okD(4) [OF ok] side_view_def set_flat)
    then show ?thesis using len by auto
  qed
  with quotes_uncrossed [OF exchange_invD(1) [OF inv(2)], of b] len assms(4-6) top_of_book_ok [OF inv(1), of iid] b
  show ?thesis by simp
qed

text \<open>An id that was ever taken stays taken: whatever request follows, the order index still
  contains it, so it can never name another order.\<close>

theorem ids_never_forgotten:
  assumes "reachable e" "eng_configured e" "op_size (eng_pool e) < 2 ^ 32 - 1" "step al e c = Some e'"
    "fm_contains (eng_order_index e) i = Some True"
  shows "fm_contains (eng_order_index e') i = Some True"
proof -
  have known: "fm_contains (eng_order_index x) i = Some (i \<in> ex_used (exchange_of x))" if "eng_inv x" for x
    using hash_map.contains [OF order_index_ready [OF that], of i] by auto
  have "ex_used (exchange_of e) \<subseteq> ex_used (exchange_of e')"
    using reachable_step(2) [OF assms(1-4)] by (elim disjE) (rule step_used, simp_all only: order_refl)
  with known [OF reachable_inv(1) [OF assms(1,2)]] known [OF reachable_step(1) [OF assms(1-4)]] assms(5) show ?thesis by auto
qed

text \<open>A submit under a taken id, or for an instrument that is not configured, is rejected and
  changes nothing but the listener's events.\<close>

theorem refused_submit_changes_nothing:
  assumes "eng_configured e"
    "find_book e (no_instrument_id order) = Some None \<and> reason = kUnknownInstrument
      \<or> find_book e (no_instrument_id order) = Some (Some b) \<and> fm_contains (eng_order_index e) (no_order_id order) = Some True \<and> reason = kDuplicateOrderId"
  shows "submit al e order = Some (emit (On_rejected (no_order_id order) reason) e)"
  using assms by (auto simp: submit_def)

theorem quotes_never_cross_witness:
  "tob_bid_price (the (top_of_book resting_engine 1)) < tob_ask_price (the (top_of_book resting_engine 1))"
proof -
  have inv: "eng_inv resting_engine" by (rule reachable_inv(1) [OF resting_engine_ok(1,2)])
  have find: "find_book resting_engine 1 = Some (Some 0)"
    using find_book_ok [OF eng_inv_sel(2) [OF inv], of 1] by (simp add: resting_engine_ok(3) resting_eval)
  obtain tob where tob: "top_of_book resting_engine 1 = Some tob" using top_of_book_ok [OF inv, of 1] by blast
  have "has_best (eng_books resting_engine ! 0) sd" for sd
  proof -
    have len: "0 < length (eng_books resting_engine)" using find_book_ok [OF eng_inv_sel(2) [OF inv], of 1] find
      by (metis book_index_Some exchange_of_simps(1) option.inject)
    obtain q where ok: "book_ok (eng_pool resting_engine) (eng_books resting_engine ! 0) q" using store_bookD [OF eng_inv_sel(2) [OF inv] len] .
    have "ab_orders (ex_books (exchange_of resting_engine) ! 0) sd \<noteq> []" by (cases sd) (simp_all only: resting_engine_ok(3) resting_eval, simp_all)
    then have "side_view (op_get (eng_pool resting_engine)) q sd (ladder_size (ob_ladder (eng_books resting_engine ! 0))) \<noteq> []"
      using len by (simp add: book_okD(4) [OF ok])
    then have "occupied q sd \<noteq> {}" using side_view_empty by blast
    then show ?thesis by (simp add: has_best_iff [OF book_okD(1) [OF ok]])
  qed
  from quotes_never_cross [OF resting_engine_ok(1,2) find tob this this] tob show ?thesis by simp
qed

theorem ids_never_forgotten_witness:
  "\<exists>e'. step all_granted resting_engine (Cancel \<lparr>co_order_id = 1\<rparr>) = Some e' \<and> fm_contains (eng_order_index e') 1 = Some True"
proof -
  have inv: "eng_inv resting_engine" by (rule reachable_inv(1) [OF resting_engine_ok(1,2)])
  have "1 \<in> ex_used (exchange_of resting_engine)" by (simp add: resting_engine_ok(3) resting_eval)
  then have "fm_contains (eng_order_index resting_engine) 1 = Some True"
    using hash_map.contains [OF order_index_ready [OF inv], of 1] by auto
  moreover obtain e' where e': "step all_granted resting_engine (Cancel \<lparr>co_order_id = 1\<rparr>) = Some e'"
    using step_ok [OF inv resting_engine_ok(4)] by blast
  ultimately show ?thesis using ids_never_forgotten [OF resting_engine_ok(1,2,4) e', of 1] by blast
qed

theorem refused_submit_changes_nothing_witness:
  "submit all_granted sample_engine (sample_order kDay\<lparr>no_instrument_id := 9\<rparr>)
    = Some (emit (On_rejected (no_order_id (sample_order kDay\<lparr>no_instrument_id := 9\<rparr>)) kUnknownInstrument) sample_engine)"
proof (rule refused_submit_changes_nothing [OF sample_inv(3), of _ _ 0])
  have "find_book sample_engine 9 = Some None"
    using find_book_ok [OF eng_inv_sel(2) [OF sample_inv(1)], of 9] by (simp add: sample_exchange one_book_def book_index_def)
  then show "find_book sample_engine (no_instrument_id (sample_order kDay\<lparr>no_instrument_id := 9\<rparr>)) = Some None \<and> kUnknownInstrument = kUnknownInstrument
      \<or> find_book sample_engine (no_instrument_id (sample_order kDay\<lparr>no_instrument_id := 9\<rparr>)) = Some (Some 0)
        \<and> fm_contains (eng_order_index sample_engine) (no_order_id (sample_order kDay\<lparr>no_instrument_id := 9\<rparr>)) = Some True \<and> kUnknownInstrument = kDuplicateOrderId"
    by simp
qed

section \<open>Cancel and replace\<close>

text \<open>C24 A cancel of an open order reports its open quantity and removes it; every other order stays
  as it was, under its id.\<close>

theorem cancel_removes_one_order:
  assumes "reachable e" "eng_configured e" "find_order (exchange_of e) (co_order_id req) = Some (b, sd, x)" "cancel e req = Some e'"
  shows "eng_events e' = eng_events e @ [On_canceled (co_order_id req) (ao_open x) kUserRequested]
    \<and> (\<forall>j. find_order (exchange_of e') j = (if j = co_order_id req then None else find_order (exchange_of e) j))"
proof -
  have ex': "exchange_of e' = ex_cancel req (exchange_of e)" using cancel_ok [OF reachable_inv(1) [OF assms(1,2)], of req] assms(4) by simp
  have "eng_events e' = ex_events (exchange_of e')" "eng_events e = ex_events (exchange_of e)" by simp_all
  with cancel_effect [OF reachable_inv(2) [OF assms(1,2)] assms(3)] ex' show ?thesis by metis
qed

theorem cancel_removes_one_order_witness:
  "\<exists>e'. cancel resting_engine \<lparr>co_order_id = 1\<rparr> = Some e'
    \<and> eng_events e' = eng_events resting_engine @ [On_canceled 1 100 kUserRequested]
    \<and> (\<forall>j. find_order (exchange_of e') j = (if j = 1 then None else find_order (exchange_of resting_engine) j))"
proof -
  obtain e' where e': "cancel resting_engine \<lparr>co_order_id = 1\<rparr> = Some e'"
    using cancel_ok [OF reachable_inv(1) [OF resting_engine_ok(1,2)]] by blast
  have "find_order (exchange_of resting_engine) (co_order_id \<lparr>co_order_id = 1\<rparr>) = Some (0, kBuy, resting 1 251000 100 0)"
    by (simp add: resting_engine_ok(3) resting_eval)
  from cancel_removes_one_order [OF resting_engine_ok(1,2) this e'] e' show ?thesis by simp
qed

lemma replaced:
  assumes "reachable e" "eng_configured e" "op_size (eng_pool e) < 2 ^ 32 - 1" "replace al e req = Some e'" "\<forall>r. al r = None"
  shows "exchange_of e' = ex_replace req (exchange_of e)"
  using replace_ok [OF reachable_inv(1) [OF assms(1,2)] assms(3), of al req] assms(4,5) by (auto simp: done_or_dropped_def)

text \<open>C22 A replace at the same price that does not ask for more than is open keeps the order's
  place in the queue: the ids of the side are the same list with the one id exchanged, and the only
  event is the replacement.\<close>

theorem replace_keeps_priority:
  assumes "reachable e" "eng_configured e" "op_size (eng_pool e) < 2 ^ 32 - 1" "\<forall>r. al r = None" "replace al e req = Some e'"
    and found: "find_order (exchange_of e) (ro_order_id req) = Some (b, sd, x)"
    and id: "ro_new_order_id req = ro_order_id req \<or> ro_new_order_id req \<notin> ex_used (exchange_of e)"
    and same: "ro_new_price req = ao_price x" "ao_filled x < ro_new_quantity req" "ro_new_quantity req - ao_filled x \<le> ao_open x"
  shows "map ao_id (ab_orders (ex_books (exchange_of e') ! b) sd)
      = map (\<lambda>i. if i = ro_order_id req then ro_new_order_id req else i) (map ao_id (ab_orders (ex_books (exchange_of e) ! b) sd))
    \<and> eng_events e' = eng_events e @ [On_replaced (ro_order_id req) (ro_new_order_id req) (ao_price x) (ro_new_quantity req - ao_filled x)]"
proof -
  have ev: "eng_events e' = ex_events (exchange_of e')" "eng_events e = ex_events (exchange_of e)" by simp_all
  show ?thesis unfolding ev replaced [OF assms(1-3,5,4)]
    using replace_keeps_place [OF reachable_inv(2) [OF assms(1,2)] found same(1,2) id same(3)] by blast
qed

lemma resting_replace: "\<exists>e'. replace all_granted resting_engine req = Some e'"
  using replace_ok [OF reachable_inv(1) [OF resting_engine_ok(1,2)] resting_engine_ok(4)] by blast

theorem replace_keeps_priority_witness:
  "\<exists>e'. replace all_granted resting_engine \<lparr>ro_order_id = 1, ro_new_order_id = 3, ro_new_price = 251000, ro_new_quantity = 40\<rparr> = Some e'
    \<and> map ao_id (ab_orders (ex_books (exchange_of e') ! 0) kBuy) = [3]"
proof -
  let ?req = "\<lparr>ro_order_id = 1, ro_new_order_id = 3, ro_new_price = 251000, ro_new_quantity = 40\<rparr>"
  obtain e' where e': "replace all_granted resting_engine ?req = Some e'" using resting_replace by blast
  have "find_order (exchange_of resting_engine) (ro_order_id ?req) = Some (0, kBuy, resting 1 251000 100 0)"
    by (simp add: resting_engine_ok(3) resting_eval)
  from replace_keeps_priority [OF resting_engine_ok(1,2,4) _ e' this] e' show ?thesis
    by (simp add: resting_engine_ok(3) resting_eval)
qed

lemma dropWhile_better:
  "priority_sorted sd os \<Longrightarrow> \<forall>y \<in> set (dropWhile (\<lambda>y. \<not> better sd p (ao_price y)) os). better sd p (ao_price y)"
proof (induction os)
  case (Cons z zs)
  have sorted: "\<not> better sd (ao_price y) (ao_price z)" if "y \<in> set zs" for y
    using Cons.prems that by (simp add: sorted_Cons)
  have tail: "better sd p (ao_price y)" if "better sd p (ao_price z)" "y \<in> set zs" for y
    using that(1) sorted [OF that(2)] by (cases sd) simp_all
  show ?case
  proof (cases "better sd p (ao_price z)")
    case True
    then have "dropWhile (\<lambda>y. \<not> better sd p (ao_price y)) (z # zs) = z # zs" by simp
    with True tail [OF True] show ?thesis by (simp only: list.set) blast
  next
    case False
    then have tail: "dropWhile (\<lambda>y. \<not> better sd p (ao_price y)) (z # zs) = dropWhile (\<lambda>y. \<not> better sd p (ao_price y)) zs" by simp
    have "priority_sorted sd zs" using Cons.prems by (simp add: sorted_Cons)
    then show ?thesis unfolding tail by (rule Cons.IH)
  qed
qed simp

lemma requeued:
  assumes inv: "exchange_inv ex" and found: "find_order ex (ro_order_id req) = Some (b, sd, x)"
    and same: "ro_new_price req = ao_price x" "ao_filled x < ro_new_quantity req"
    and id: "ro_new_order_id req = ro_order_id req \<or> ro_new_order_id req \<notin> ex_used ex"
    and grow: "ao_open x < ro_new_quantity req - ao_filled x"
  shows "\<exists>ahead behind. ahead @ behind = remove_order (ro_order_id req) (ab_orders (ex_books ex ! b) sd)
    \<and> ab_orders (ex_books (ex_replace req ex) ! b) sd
      = ahead @ \<lparr>ao_id = ro_new_order_id req, ao_price = ao_price x, ao_open = ro_new_quantity req - ao_filled x, ao_filled = ao_filled x\<rparr> # behind
    \<and> (\<forall>y \<in> set behind. better sd (ao_price x) (ao_price y))"
proof -
  let ?os = "remove_order (ro_order_id req) (ab_orders (ex_books ex ! b) sd)"
  let ?P = "\<lambda>y. \<not> better sd (ao_price x) (ao_price y)"
  have "book_sound (ex_books ex ! b)" using find_order_open(1) [OF found] exchange_invD(1) [OF inv] by (simp add: open_at_def)
  then have sorted: "priority_sorted sd ?os" by (simp add: book_sound_def remove_order_def filter_sorted)
  show ?thesis
    by (intro exI [of _ "takeWhile ?P ?os"] exI [of _ "dropWhile ?P ?os"] conjI takeWhile_dropWhile_id
      replace_requeues(1) [OF inv found same id grow] dropWhile_better [OF sorted])
qed

text \<open>C23 A replace at the same price that asks for more than is open sends the order to the back of
  its price: behind every order of the same price, still ahead of every worse one.\<close>

theorem replace_loses_priority:
  assumes "reachable e" "eng_configured e" "op_size (eng_pool e) < 2 ^ 32 - 1" "\<forall>r. al r = None" "replace al e req = Some e'"
    and found: "find_order (exchange_of e) (ro_order_id req) = Some (b, sd, x)"
    and id: "ro_new_order_id req = ro_order_id req \<or> ro_new_order_id req \<notin> ex_used (exchange_of e)"
    and same: "ro_new_price req = ao_price x" "ao_filled x < ro_new_quantity req" "ao_open x < ro_new_quantity req - ao_filled x"
  shows "\<exists>ahead behind. ahead @ behind = remove_order (ro_order_id req) (ab_orders (ex_books (exchange_of e) ! b) sd)
    \<and> ab_orders (ex_books (exchange_of e') ! b) sd
      = ahead @ \<lparr>ao_id = ro_new_order_id req, ao_price = ao_price x, ao_open = ro_new_quantity req - ao_filled x, ao_filled = ao_filled x\<rparr> # behind
    \<and> (\<forall>y \<in> set behind. better sd (ao_price x) (ao_price y))"
  unfolding replaced [OF assms(1-3,5,4)] by (rule requeued [OF reachable_inv(2) [OF assms(1,2)] found same(1,2) id same(3)])

theorem replace_loses_priority_witness:
  "\<exists>e'. replace all_granted resting_engine \<lparr>ro_order_id = 1, ro_new_order_id = 3, ro_new_price = 251000, ro_new_quantity = 150\<rparr> = Some e'
    \<and> ab_orders (ex_books (exchange_of e') ! 0) kBuy = [resting 3 251000 150 0]"
proof -
  let ?req = "\<lparr>ro_order_id = 1, ro_new_order_id = 3, ro_new_price = 251000, ro_new_quantity = 150\<rparr>"
  obtain e' where e': "replace all_granted resting_engine ?req = Some e'" using resting_replace by blast
  have "find_order (exchange_of resting_engine) (ro_order_id ?req) = Some (0, kBuy, resting 1 251000 100 0)"
    by (simp add: resting_engine_ok(3) resting_eval)
  from replace_loses_priority [OF resting_engine_ok(1,2,4) _ e' this] e' show ?thesis
    by (simp add: resting_engine_ok(3) resting_eval remove_order_def)
qed

text \<open>A replace whose new quantity is already filled behaves exactly like a cancel of the order:
  the same state and the same event, and the new id is not used up.\<close>

theorem replace_filled_is_cancel:
  assumes "reachable e" "eng_configured e" "find_order (exchange_of e) (ro_order_id req) = Some (b, sd, x)"
    "ro_new_quantity req \<le> ao_filled x"
  shows "replace al e req = cancel e \<lparr>co_order_id = ro_order_id req\<rparr>"
  using reachable_inv(1) [OF assms(1,2)]
proof (cases rule: lookup_cases [where i = "ro_order_id req"])
  case (live s b')
  have "\<not> rec_filled_qty (rec_of e s) < ro_new_quantity req" using assms(3,4) live(7) by (auto simp: not_less)
  then show ?thesis using assms(2) by (simp add: replace_def cancel_def Let_def live(1,3,4))
qed (use assms(3) in simp_all)

text \<open>The sample engine after a resting order was hit for 40 of its 100 lots.\<close>

definition hit_session :: "command list" where
  "hit_session = [limit_order 1 kBuy kDay 251000 100, limit_order 2 kSell kIoc 251000 40]"

lemma hit_run:
  "\<exists>e. run sample_engine (map (Pair all_granted) hit_session) = Some e \<and> reachable e \<and> eng_configured e
    \<and> find_order (exchange_of e) 1 = Some (0, kBuy, resting 1 251000 60 40)"
proof -
  have len: "length hit_session = 2" by (simp add: hit_session_def)
  let ?e0 = "one_book [] [] {} 1 []" and ?ev = "[On_accepted 1, On_accepted 2, On_trade 1 1 251000 40 1 2 kSell]"
  have "ex_step ?e0 (limit_order 1 kBuy kDay 251000 100) ex \<longleftrightarrow> ex = one_book [resting 1 251000 100 0] [] {1} 1 [On_accepted 1]"
    "ex_step (one_book [resting 1 251000 100 0] [] {1} 1 [On_accepted 1]) (limit_order 2 kSell kIoc 251000 40) ex
      \<longleftrightarrow> ex = one_book [resting 1 251000 60 40] [] {2, 1} 2 ?ev" for ex
    unfolding limit_order_def ex_step_simps by (simp_all add: one_book_eval some_verdict)
  then have spec: "ex_run (exchange_of sample_engine) hit_session ex \<longleftrightarrow> ex = one_book [resting 1 251000 60 40] [] {2, 1} 2 ?ev" for ex
    unfolding sample_exchange hit_session_def by (simp only: ex_run_simps simp_thms ex_simps)
  obtain e where e: "run sample_engine (map (Pair all_granted) hit_session) = Some e" "eng_inv e"
    "exchange_of e = one_book [resting 1 251000 60 40] [] {2, 1} 2 ?ev"
    using sample_run [of hit_session] len unfolding spec by auto
  have "reachable e" by (rule run_reachable [OF sample_reachable _ e(1), THEN conjunct1]) (simp add: sample_inv len)
  moreover have "find_order (exchange_of e) 1 = Some (0, kBuy, resting 1 251000 60 40)"
    unfolding e(3) by (simp add: one_book_def find_order_def all_orders_def book_orders_def)
  ultimately show ?thesis using e(1,2) by (auto simp: eng_inv_def)
qed

theorem replace_filled_is_cancel_witness:
  "\<exists>e. run sample_engine (map (Pair all_granted) hit_session) = Some e
    \<and> replace all_granted e \<lparr>ro_order_id = 1, ro_new_order_id = 3, ro_new_price = 251000, ro_new_quantity = 40\<rparr>
      = cancel e \<lparr>co_order_id = 1\<rparr>"
proof -
  let ?req = "\<lparr>ro_order_id = 1, ro_new_order_id = 3, ro_new_price = 251000, ro_new_quantity = 40\<rparr>"
  obtain e where e: "run sample_engine (map (Pair all_granted) hit_session) = Some e" "reachable e" "eng_configured e"
    "find_order (exchange_of e) 1 = Some (0, kBuy, resting 1 251000 60 40)" using hit_run by blast
  have "find_order (exchange_of e) (ro_order_id ?req) = Some (0, kBuy, resting 1 251000 60 40)" using e(4) by simp
  from replace_filled_is_cancel [OF e(2,3) this, of all_granted] e(1) show ?thesis by simp
qed

section \<open>Errors\<close>

text \<open>A replace of an order that is not open is rejected as unknown under the new id and changes
  nothing else. The check comes before the one for a duplicate id: a new id that is taken is not
  reported as a duplicate.\<close>

theorem replace_reports_unknown_first:
  assumes "reachable e" "eng_configured e" "find_order (exchange_of e) (ro_order_id req) = None"
  shows "replace al e req = Some (emit (On_rejected (ro_new_order_id req) kUnknownOrder) e)"
  using reachable_inv(1) [OF assms(1,2)]
proof (cases rule: lookup_cases [where i = "ro_order_id req"])
  case unknown
  then show ?thesis using assms(2) by (simp add: replace_def)
next
  case (closed s)
  then show ?thesis using assms(2) by (simp add: replace_def)
qed (use assms(3) in simp)

theorem replace_reports_unknown_first_witness:
  "fm_contains (eng_order_index resting_engine) 1 = Some True
    \<and> replace all_granted resting_engine \<lparr>ro_order_id = 9, ro_new_order_id = 1, ro_new_price = 251000, ro_new_quantity = 40\<rparr>
      = Some (emit (On_rejected 1 kUnknownOrder) resting_engine)"
proof -
  let ?req = "\<lparr>ro_order_id = 9, ro_new_order_id = 1, ro_new_price = 251000, ro_new_quantity = 40\<rparr>"
  have inv: "eng_inv resting_engine" by (rule reachable_inv(1) [OF resting_engine_ok(1,2)])
  have "1 \<in> ex_used (exchange_of resting_engine)" by (simp add: resting_engine_ok(3) resting_eval)
  then have "fm_contains (eng_order_index resting_engine) 1 = Some True"
    using hash_map.contains [OF order_index_ready [OF inv], of 1] by auto
  moreover have "find_order (exchange_of resting_engine) (ro_order_id ?req) = None"
    unfolding resting_engine_ok(3) by (simp add: resting_exchange_def one_book_def find_order_def all_orders_def book_orders_def)
  ultimately show ?thesis using replace_reports_unknown_first [OF resting_engine_ok(1,2), of ?req all_granted] by simp
qed

text \<open>C25 A replace that fails validation (a taken new id, a price off the tick grid or out of the
  band) is rejected and leaves the old order, its place and every index as they were.\<close>

theorem refused_replace_changes_nothing:
  assumes "reachable e" "eng_configured e" "find_order (exchange_of e) (ro_order_id req) = Some (b, sd, x)"
    "ao_filled x < ro_new_quantity req"
    "ro_new_order_id req \<noteq> ro_order_id req \<and> ro_new_order_id req \<in> ex_used (exchange_of e)
      \<or> \<not> is_tick_aligned (ro_new_price req)
      \<or> ob_price_to_index (eng_books e ! b) (ro_new_price req) < 0"
  shows "replace al e req = Some (emit (On_rejected (ro_new_order_id req)
    (if ro_new_order_id req \<noteq> ro_order_id req \<and> ro_new_order_id req \<in> ex_used (exchange_of e) then kDuplicateOrderId
     else if \<not> is_tick_aligned (ro_new_price req) then kInvalidPriceTick
     else kPriceOutOfBand)) e)"
  using reachable_inv(1) [OF assms(1,2)]
proof (cases rule: lookup_cases [where i = "ro_order_id req"])
  case (live s b')
  note inv = reachable_inv(1) [OF assms(1,2)]
  have s: "b' = b" "rec_filled_qty (rec_of e s) < ro_new_quantity req" using assms(3,4) live(7) by auto
  then have pos: "ro_new_quantity req - rec_filled_qty (rec_of e s) \<noteq> 0" by auto
  have dup: "(if ro_new_order_id req = ro_order_id req then Some False else fm_contains (eng_order_index e) (ro_new_order_id req))
      = Some (ro_new_order_id req \<noteq> ro_order_id req \<and> ro_new_order_id req \<in> ex_used (exchange_of e))"
    using hash_map.contains [OF order_index_ready [OF inv], of "ro_new_order_id req"] by auto
  have "replace al e req =
      (if ro_new_order_id req \<noteq> ro_order_id req \<and> ro_new_order_id req \<in> ex_used (exchange_of e)
       then Some (emit (On_rejected (ro_new_order_id req) kDuplicateOrderId) e)
       else if \<not> is_tick_aligned (ro_new_price req) then Some (emit (On_rejected (ro_new_order_id req) kInvalidPriceTick) e)
       else if ob_price_to_index (eng_books e ! b) (ro_new_price req) < 0 then Some (emit (On_rejected (ro_new_order_id req) kPriceOutOfBand) e)
       else replace_validated al e req b (rec_of e s) s (ro_new_quantity req - rec_filled_qty (rec_of e s)))"
    unfolding replace_def Let_def using pos
    by (simp add: assms(2) live(1,3,4) [unfolded s(1)] s(2) dup del: exchange_of_simps)
  with assms(5) show ?thesis by (simp only: if_split_asm split: if_split) blast
qed (use assms(3) in simp_all)

theorem refused_replace_changes_nothing_witness:
  "replace all_granted resting_engine \<lparr>ro_order_id = 1, ro_new_order_id = 3, ro_new_price = 251001, ro_new_quantity = 40\<rparr>
    = Some (emit (On_rejected 3 kInvalidPriceTick) resting_engine)"
proof -
  let ?req = "\<lparr>ro_order_id = 1, ro_new_order_id = 3, ro_new_price = 251001, ro_new_quantity = 40\<rparr>"
  have "find_order (exchange_of resting_engine) (ro_order_id ?req) = Some (0, kBuy, resting 1 251000 100 0)"
    by (simp add: resting_engine_ok(3) resting_eval)
  moreover have "\<not> is_tick_aligned 251001" by (simp add: is_tick_aligned_iff tick_size_eq)
  ultimately show ?thesis
    using refused_replace_changes_nothing [OF resting_engine_ok(1,2), of ?req 0 kBuy "resting 1 251000 100 0" all_granted]
    by (simp add: resting_engine_ok(3) resting_eval)
qed

text \<open>Before a successful \<open>configure\<close>, every request of a created engine is rejected as not
  configured, under the id the request introduces, and changes nothing else; quotes are empty.\<close>

theorem unconfigured_rejects:
  assumes "engine_new al = Some (Inr e)"
  shows "submit al' e order = Some (emit (On_rejected (no_order_id order) kNotConfigured) e)
    \<and> cancel e c = Some (emit (On_rejected (co_order_id c) kNotConfigured) e)
    \<and> replace al' e r = Some (emit (On_rejected (ro_new_order_id r) kNotConfigured) e)
    \<and> top_of_book e iid = Some empty_top_of_book"
proof -
  obtain ii where e: "\<not> eng_configured e" "eng_instrument_index e = ii" "fm_new al = Some (Inr ii)"
    using assms by (auto simp: engine_new_def and_then_def returns_def split: option.splits sum.splits)
  have "fm_ready ii" "fm_lookup ii = Map.empty"
    using runs_fm_new [of al] e(3) by (auto simp: runs_def returns_def)
  then have "find_book e iid = Some None" using e(2) by (simp add: find_book_def hash_map.find)
  with e(1) show ?thesis by (simp add: submit_def cancel_def replace_def top_of_book_def)
qed

theorem unconfigured_rejects_witness:
  "submit all_granted new_engine (sample_order kDay) = Some (emit (On_rejected 1 kNotConfigured) new_engine)
    \<and> top_of_book new_engine 1 = Some empty_top_of_book"
  using unconfigured_rejects [OF new_engine_ok, of all_granted "sample_order kDay"] by (simp add: sample_order_def)

text \<open>C26 \<open>configure\<close> always returns. It succeeds only on valid configurations (distinct ids, aligned
  reference prices, bands of at most 10000 basis points), then the books are empty and no order id is
  taken, and a further call is refused; every other result leaves the engine as it was, so that a later call can succeed. With an
  allocator that grants every request it succeeds exactly on the valid configurations.\<close>

theorem configure_outcome:
  assumes "\<not> eng_configured e" "\<forall>cfg \<in> set cfgs. \<not> config_invalid cfg \<longrightarrow> ladder_fits cfg"
  shows "\<exists>res e'. configure al e (Some cfgs) = Some (res, e')
    \<and> (res = kOk \<longrightarrow> valid_configs cfgs \<and> eng_inv e' \<and> exchange_of e' = configured_exchange cfgs e
        \<and> configure al' e' again = Some (kAlreadyConfigured, e'))
    \<and> (res \<noteq> kOk \<longrightarrow> e' = e)
    \<and> ((\<forall>q. al q = None) \<longrightarrow> res = (if valid_configs cfgs then kOk else kInvalidArgument))"
proof -
  obtain r where r: "configure al e (Some cfgs) = Some r" "configure_end al e cfgs r" using configure_ok [OF assms] by blast
  obtain res e' where "r = (res, e')" by (cases r)
  with r show ?thesis by (cases res) (auto simp: configure_end_def already_configured eng_inv_sel(1))
qed

theorem configure_outcome_witness:
  "configure all_granted new_engine (Some [sample_config, sample_config]) = Some (kInvalidArgument, new_engine)"
proof -
  have "\<not> eng_configured new_engine" by (simp add: new_engine_def)
  moreover have "\<forall>cfg \<in> set [sample_config, sample_config]. \<not> config_invalid cfg \<longrightarrow> ladder_fits cfg" using sample_valid(1) by simp
  moreover have "\<not> valid_configs [sample_config, sample_config]" by (simp add: valid_configs_def)
  ultimately show ?thesis using configure_outcome [of new_engine "[sample_config, sample_config]" all_granted] by auto
qed

section \<open>Whole sessions\<close>

text \<open>C30 The scenario of the golden test: nine requests (rests, a sweep over two orders, a market
  order, a replace that keeps the fills, a failed fill-or-kill, an out-of-band price, a cancel)
  yield exactly the fourteen events the test expects, in its order.\<close>

theorem golden_scenario:
  "map_option eng_events (run sample_engine (map (Pair all_granted) golden_session)) = Some golden_events"
proof -
  obtain e where e: "run sample_engine (map (Pair all_granted) golden_session) = Some e"
    "exchange_of e = one_book [] [] {8, 7, 6, 5, 4, 3, 2, 1} 4 golden_events"
    using golden_reached by blast
  have "eng_events e = ex_events (exchange_of e)" by simp
  then show ?thesis by (simp add: e one_book_def)
qed

text \<open>C31 The totals of a price level are sums modulo \<open>2^32\<close>: after two resting buy orders of
  \<open>2^31\<close> lots at one price, the quote reports the price with quantity 0, and the fill-or-kill check
  refuses every opposite order of at least one lot at that price, although the book could fill any
  32-bit quantity.\<close>

theorem wrapped_total_hides_liquidity:
  "\<exists>e. run sample_engine (map (Pair all_granted) overflow_session) = Some e
    \<and> top_of_book e 1 = Some \<lparr>tob_bid_price = 251000, tob_bid_quantity = 0, tob_ask_price = 0, tob_ask_quantity = 0\<rparr>
    \<and> (\<forall>n. can_fully_fill (eng_books e ! 0) kSell False 251000 (max 1 n) = Some False
        \<and> fillable (exchange_of e) 0 kSell False 251000 (max 1 n))"
proof -
  obtain e where e: "run sample_engine (map (Pair all_granted) overflow_session) = Some e" "eng_inv e" "exchange_of e = overflow_exchange"
    using overflow_reached by blast
  have "max 1 n \<noteq> 0" for n :: quantity by (cases "n = 0") (simp_all add: max_def)
  then show ?thesis
    using top_of_book_ok [OF e(2), of 1] overflow_refused [OF e(2,3)] overflow_fillable e(1)
    by (intro exI [of _ e] conjI) (simp_all add: e(3) overflow_quote)
qed

end
