(* ===== verification/Component_Properties.thy ===== *)
theory Component_Properties
  imports Allocation_Free Client_Properties
begin

text \<open>
  What the data structures of the engine promise each other: the price ladder of a configured
  book, the cached best prices and the occupancy bitmaps of a reachable engine, the
  fill-or-kill check against the orders it sums up, the id index and the order pool.
\<close>

section \<open>The price ladder\<close>



text \<open>The index of a price is its rank: the number of valid prices of the band below it; every
  price outside the band or off the tick grid gets \<open>-1\<close>.\<close>

theorem price_to_index_counts:
  assumes "ladder_fits cfg"
  shows "ob_price_to_index (book_of cfg) p =
    (if is_tick_aligned p \<and> band_lo_of (ic_reference_price cfg) (ic_band_bps cfg) \<le> p \<and> p \<le> band_hi_of (ic_reference_price cfg) (ic_band_bps cfg)
     then int (card {q. is_tick_aligned q \<and> band_lo_of (ic_reference_price cfg) (ic_band_bps cfg) \<le> q \<and> q < p}) else -1)"
proof -
  have "grid lo (p - 1) = {q. is_tick_aligned q \<and> lo \<le> q \<and> q < p}" for lo by (auto simp: grid_def)
  then show ?thesis
    unfolding ob_price_to_index_def price_to_index_rank [OF ladder_fits_ok [OF assms]] by (simp add: in_band_def book_of_sel price_rank_def)
qed

theorem price_to_index_counts_witness:
  "ob_price_to_index (book_of sample_config) 225000 = 0 \<and> ob_price_to_index (book_of sample_config) 251001 = -1"
proof -
  have "{q. is_tick_aligned q \<and> 225000 \<le> q \<and> q < 225000} = {}" by auto
  then show ?thesis
    using price_to_index_counts [OF sample_valid(1), of 225000] price_to_index_counts [OF sample_valid(1), of 251001]
    by (simp add: sample_config_def sample_band is_tick_aligned_iff tick_size_eq)
qed

text \<open>
  A configuration that the checks of \<open>configure\<close> accept although its band has more than \<open>2^32\<close>
  valid prices: the reference price is \<open>1000 * 2^31\<close>, the band 100 percent.
\<close>

definition wide_config :: instrument_config where
  "wide_config = \<lparr>ic_instrument_id = 1, ic_reference_price = 2147483648000, ic_band_bps = 10000\<rparr>"

lemma wide_band: "band_lo_of 2147483648000 10000 = 100" "band_hi_of 2147483648000 10000 = 4294967296000"
  by (simp_all add: band_lo_of_def band_hi_of_def ceil_to_tick_def floor_to_tick_def tick_size_eq kBpsPerUnit_def Let_def)

lemma wide_segments: "build_segments 100 4294967296000 0 =
   ([\<lparr>seg_start_price = 100, seg_end_price = 199900, seg_tick = 100, seg_index_offset = 0, seg_count = 1999\<rparr>,
     \<lparr>seg_start_price = 200000, seg_end_price = 499800, seg_tick = 200, seg_index_offset = 1999, seg_count = 1500\<rparr>,
     \<lparr>seg_start_price = 500000, seg_end_price = 999500, seg_tick = 500, seg_index_offset = 3499, seg_count = 1000\<rparr>,
     \<lparr>seg_start_price = 1000000, seg_end_price = 4294967296000, seg_tick = 1000, seg_index_offset = 4499, seg_count = 4294966297\<rparr>], 3500)"
  by (simp add: build_segments.simps regime_last_eq tick_size_eq Let_def)

text \<open>C32 The level counts are 32-bit: \<open>configure\<close> accepts the configuration above, its ladder and
  its level arrays have 3500 entries, but the valid price 1000000 (100 TRY) of the band gets index 4499,
  past the end of the arrays that a resting order at that price is linked into.\<close>

theorem wide_band_overruns_levels:
  "\<not> config_invalid wide_config
    \<and> vlen (levels (book_of wide_config) kBuy) = 3500
    \<and> is_tick_aligned 1000000 \<and> in_band (ob_ladder (book_of wide_config)) 1000000
    \<and> ob_price_to_index (book_of wide_config) 1000000 = 4499"
proof -
  have "ob_ladder (book_of wide_config) = ladder_build 100 4294967296000" by (simp add: book_of_sel wide_config_def wide_band)
  moreover have "vlen (levels (book_of wide_config) kBuy) = unat (pl_total_count (ob_ladder (book_of wide_config)))"
    by (simp add: book_of_def configured_book_def Let_def)
  ultimately show ?thesis
    by (simp add: ladder_build_def wide_segments ob_price_to_index_def price_to_index_def in_band_def
      is_tick_aligned_iff tick_size_eq config_invalid_def wide_config_def band_constants Let_def)
qed

section \<open>The books of a reachable engine\<close>

lemma reachable_book:
  assumes "reachable e" "eng_configured e" "b < length (eng_books e)"
  obtains q where "book_ok (eng_pool e) (eng_books e ! b) q"
  using store_bookD [OF eng_inv_sel(2) [OF reachable_inv(1) [OF assms(1,2)]] assms(3)] .

lemma resting_books: "0 < length (eng_books resting_engine)"
proof -
  have "length (eng_books resting_engine) = length (ex_books (exchange_of resting_engine))" by simp
  then show ?thesis by (simp add: resting_engine_ok(3) resting_exchange_def one_book_def)
qed

text \<open>C36 The cached best index of a side is what the bitmap search from the far end would find:
  the highest occupied bid level, the lowest occupied ask level, \<open>-1\<close> for an empty side.\<close>

theorem best_index_is_search_result:
  assumes "reachable e" "eng_configured e" "b < length (eng_books e)"
  shows "best_index (eng_books e ! b) kBuy
      = find_highest_le (bitmap (eng_books e ! b) kBuy) (int (ladder_size (ob_ladder (eng_books e ! b))) - 1)
    \<and> best_index (eng_books e ! b) kSell = find_lowest_ge (bitmap (eng_books e ! b) kSell) 0"
proof -
  let ?ob = "eng_books e ! b"
  obtain q where ok: "book_ok (eng_pool e) ?ob q" using reachable_book [OF assms] .
  note inv = book_okD(1) [OF ok]
  let ?n = "int (ladder_size (ob_ladder ?ob)) - 1"
  have "i < ladder_size (ob_ladder ?ob)" if "i \<in> occupied q kBuy" for i
    using book_invD(8) [OF inv, of kBuy i] that by (simp add: occupied_def)
  then have all: "{i \<in> bits_of (bitmap ?ob kBuy). int i \<le> ?n} = occupied q kBuy" unfolding book_invD(5) [OF inv] by force
  have "?n < int (bit_capacity (bitmap ?ob kBuy))" using book_invD(4) [OF inv, of kBuy] by linarith
  from bitset.highest_le [OF _ this] have "best_index_of kBuy (occupied q kBuy) (find_highest_le (bitmap ?ob kBuy) ?n)"
    unfolding all by simp
  moreover have "best_index_of kSell (occupied q kSell) (find_lowest_ge (bitmap ?ob kSell) 0)"
    using bitset.lowest_ge [of "bitmap ?ob kSell" 0] unfolding book_invD(5) [OF inv] by simp
  ultimately show ?thesis using book_invD(6) [OF inv] best_index_of_unique by blast
qed

theorem best_index_is_search_result_witness:
  "best_index (eng_books resting_engine ! 0) kSell = find_lowest_ge (bitmap (eng_books resting_engine ! 0) kSell) 0"
  using best_index_is_search_result [OF resting_engine_ok(1,2) resting_books] by blast

text \<open>The bit of a level is set exactly when some open order of that side rests at its price.\<close>

theorem bitmap_marks_occupied_prices:
  assumes "reachable e" "eng_configured e" "b < length (eng_books e)" "in_band (ob_ladder (eng_books e ! b)) p"
  shows "nat (ob_price_to_index (eng_books e ! b) p) \<in> bits_of (bitmap (eng_books e ! b) sd)
    \<longleftrightarrow> (\<exists>x \<in> set (ab_orders (ex_books (exchange_of e) ! b) sd). ao_price x = p)"
proof -
  let ?ob = "eng_books e ! b" and ?h = "op_get (eng_pool e)"
  let ?n = "ladder_size (ob_ladder ?ob)"
  obtain q where ok: "book_ok (eng_pool e) ?ob q" using reachable_book [OF assms(1-3)] .
  note inv = book_okD(1) [OF ok]
  note lad = book_invD(2) [OF inv]
  define i where "i = nat (ob_price_to_index ?ob p)"
  have idx: "0 \<le> ob_price_to_index ?ob p" "ob_price_to_index ?ob p < int ?n"
    using ladder.to_index_tradable [OF lad assms(4)] by (simp_all add: ob_price_to_index_def)
  then have i: "i < ?n" "ob_index_to_price ?ob (word_of_nat i) = p"
    using ladder.from_to_index [OF lad assms(4)] by (simp_all add: i_def ob_index_to_price_def ob_price_to_index_def)
  have at: "(\<exists>s \<in> set (q sd j). rec_price (?h s) = p) \<longleftrightarrow> j = i \<and> q sd i \<noteq> []" if j: "j < ?n" for j
  proof -
    have price: "rec_price (?h s) = ob_index_to_price ?ob (word_of_nat j)" if "s \<in> set (q sd j)" for s
      by (rule queue_place(7) [OF inv that])
    have "ob_index_to_price ?ob (word_of_nat j) = p \<longleftrightarrow> j = i" using level_prices_inj [OF lad j i(1)] i(2) by auto
    then show ?thesis using price by (cases "q sd j") auto
  qed
  have "(\<exists>x \<in> set (ab_orders (ex_books (exchange_of e) ! b) sd). ao_price x = p)
      \<longleftrightarrow> (\<exists>j < ?n. \<exists>s \<in> set (q sd j). rec_price (?h s) = p)"
    using assms(3) by (simp add: book_okD(4) [OF ok] side_view_def set_flat) blast
  also have "\<dots> \<longleftrightarrow> q sd i \<noteq> []" using at i(1) by blast
  also have "\<dots> \<longleftrightarrow> i \<in> bits_of (bitmap ?ob sd)" by (simp add: book_invD(5) [OF inv] occupied_def)
  finally show ?thesis by (simp add: i_def)
qed

theorem bitmap_marks_occupied_prices_witness:
  "nat (ob_price_to_index (eng_books resting_engine ! 0) 251000) \<in> bits_of (bitmap (eng_books resting_engine ! 0) kBuy)
    \<and> nat (ob_price_to_index (eng_books resting_engine ! 0) 251000) \<notin> bits_of (bitmap (eng_books resting_engine ! 0) kSell)"
proof -
  have "ab_band_lo (ex_books (exchange_of resting_engine) ! 0) = 225000" "ab_band_hi (ex_books (exchange_of resting_engine) ! 0) = 275000"
    by (simp_all add: resting_engine_ok(3) resting_exchange_def one_book_def)
  then have "in_band (ob_ladder (eng_books resting_engine ! 0)) 251000"
    using resting_books by (simp add: in_band_def is_tick_aligned_iff tick_size_eq book_view_def)
  from bitmap_marks_occupied_prices [OF resting_engine_ok(1,2) resting_books this, of kBuy]
    bitmap_marks_occupied_prices [OF resting_engine_ok(1,2) resting_books this, of kSell] show ?thesis
    by (simp add: resting_engine_ok(3) resting_eval del: bitmap.simps)
qed

section \<open>The fill-or-kill check\<close>

text \<open>C18 The fill-or-kill check always returns, never approves an order the book cannot fill, and
  decides exactly by the sum of the acceptable orders ahead of the limit, as long as the opposite
  side holds fewer than \<open>2^32\<close> lots in total.\<close>

theorem can_fully_fill_exact:
  assumes "reachable e" "eng_configured e" "b < length (eng_books e)" "n \<noteq> 0"
  shows "\<exists>v. can_fully_fill (eng_books e ! b) sd is_market limit_price n = Some v
    \<and> (v \<longrightarrow> fillable (exchange_of e) b sd is_market limit_price n)
    \<and> (volume (ab_orders (ex_books (exchange_of e) ! b) (opposite sd)) < 2 ^ 32
        \<longrightarrow> v = fillable (exchange_of e) b sd is_market limit_price n)"
  using check_ok [OF eng_inv_sel(2) [OF reachable_inv(1) [OF assms(1,2)]] assms(3,4), of sd is_market limit_price]
  by (simp add: verdict_ok_def)

theorem can_fully_fill_exact_witness:
  "can_fully_fill (eng_books resting_engine ! 0) kSell False 251000 100 = Some True
    \<and> can_fully_fill (eng_books resting_engine ! 0) kSell False 251000 101 = Some False"
proof -
  have "volume (ab_orders (ex_books (exchange_of resting_engine) ! 0) (opposite kSell)) < 2 ^ 32"
    "fillable (exchange_of resting_engine) 0 kSell False 251000 100" "\<not> fillable (exchange_of resting_engine) 0 kSell False 251000 101"
    by (simp_all add: resting_engine_ok(3) fillable_def resting_eval acceptable_def)
  then show ?thesis
    using can_fully_fill_exact [OF resting_engine_ok(1,2) resting_books, of 100 kSell False 251000]
      can_fully_fill_exact [OF resting_engine_ok(1,2) resting_books, of 101 kSell False 251000] by auto
qed

section \<open>The id index and the order pool\<close>

fun insert_all :: "allocator \<Rightarrow> (64 word \<times> 32 word) list \<Rightarrow> flat_hash_map \<Rightarrow> flat_hash_map outcome" where
  "insert_all al [] m = returns m"
| "insert_all al ((k, v) # kvs) m = and_then (fm_insert al m k v) (insert_all al kvs)"

lemma insert_all_ok:
  assumes "fm_ready m" "fm_size m + length kvs < 2 ^ 32" "distinct (map fst kvs)" "\<forall>k \<in> fst ` set kvs. fm_lookup m k = None"
  shows "\<exists>m'. insert_all all_granted kvs m = Some (Inr m') \<and> fm_ready m' \<and> fm_lookup m' = fm_lookup m ++ map_of kvs"
  using assms
proof (induction kvs arbitrary: m)
  case Nil
  then show ?case by (simp add: returns_def)
next
  case (Cons kv kvs)
  obtain k v where kv: "kv = (k, v)" by (cases kv)
  have "fm_lookup m k = None" "fm_size m < 2 ^ 32" using Cons.prems(2,4) kv by simp_all
  from hash_map.insert [OF Cons.prems(1) this, of all_granted v] obtain m1 where
    m1: "fm_insert all_granted m k v = Some (Inr m1)" "fm_ready m1" "fm_size m1 = Suc (fm_size m)" "fm_lookup m1 = (fm_lookup m)(k \<mapsto> v)"
    by blast
  have new: "k \<notin> fst ` set kvs" "distinct (map fst kvs)" using Cons.prems(3) kv by simp_all
  then have "\<forall>j \<in> fst ` set kvs. fm_lookup m1 j = None" using Cons.prems(4) kv m1(4) by auto
  moreover have "fm_size m1 + length kvs < 2 ^ 32" using Cons.prems(2) m1(3) by simp
  ultimately obtain m' where m': "insert_all all_granted kvs m1 = Some (Inr m')" "fm_ready m'" "fm_lookup m' = fm_lookup m1 ++ map_of kvs"
    using Cons.IH [OF m1(2) _ new(2)] by blast
  have "fm_lookup m1 ++ map_of kvs = fm_lookup m ++ map_of (kv # kvs)"
    using new(1) kv m1(4) by (auto simp: map_add_def fun_eq_iff split: option.split dest: map_of_SomeD intro: rev_image_eqI)
  then have "fm_lookup m' = fm_lookup m ++ map_of (kv # kvs)" unfolding m'(3) .
  moreover have "insert_all all_granted (kv # kvs) m = Some (Inr m')" using m'(1) m1(1) by (simp add: kv)
  ultimately show ?case using m'(2) by blast
qed

text \<open>C38 The hash map is a map: whatever distinct keys are inserted, in any order and across any
  number of rehashes, every lookup ends and finds the value that was stored under its key, or
  nothing for a key that was never inserted.\<close>

theorem hash_map_finds_what_was_inserted:
  assumes "distinct (map fst kvs)" "length kvs < 2 ^ 32"
  shows "\<exists>m. and_then (fm_new all_granted) (insert_all all_granted kvs) = Some (Inr m)
    \<and> (\<forall>k. fm_find m k = Some (map_of kvs k))"
proof -
  have new: "fm_new all_granted = Some (Inr (blank_map 16))" by (simp add: fm_new_correct request_def)
  have "fm_ready (blank_map 16)" by (simp add: fm_ready_def blank_16)
  from insert_all_ok [OF this _ assms(1)] assms(2) obtain m where
    m: "insert_all all_granted kvs (blank_map 16) = Some (Inr m)" "fm_ready m" "fm_lookup m = map_of kvs"
    by (auto simp: blank_16)
  then show ?thesis by (intro exI [of _ m]) (simp add: new hash_map.find)
qed

theorem hash_map_finds_what_was_inserted_witness:
  "\<exists>m. and_then (fm_new all_granted) (insert_all all_granted [(7, 1), (23, 2)]) = Some (Inr m)
    \<and> fm_find m 23 = Some (Some 2) \<and> fm_find m 39 = Some None"
  using hash_map_finds_what_was_inserted [of "[(7, 1), (23, 2)]"] by auto

text \<open>An allocation of the order pool hands out the next slot, blank and inside an allocated
  chunk, and leaves every record in use where it is, with the value it has: slots are stable.\<close>

theorem pool_slots_stable:
  assumes "pool_ok p" "op_size p < 2 ^ 32" "op_allocate al p = Some (Inr (s, p'))"
  shows "s = word_of_nat (op_size p) \<and> op_size p' = op_size p + 1 \<and> op_get p' s = default_record
    \<and> unat s div kChunkSize < length (op_chunks p')
    \<and> (\<forall>j. unat j < op_size p \<longrightarrow> op_get p' j = op_get p j)"
proof -
  from op_allocate_correct [OF assms(1,2), of al] assms(3) have
    R: "s = word_of_nat (op_size p)" "pool_ok p'" "op_size p' = Suc (op_size p)" "op_get p' s = default_record"
      "\<forall>j. unat j < op_size p \<longrightarrow> op_get p' j = op_get p j" by auto
  have "unat s = op_size p" unfolding R(1) using assms(2) by (intro unat_word_of_nat) simp
  then have "unat s < op_size p'" using R(3) by simp
  from slot_in_bounds(1) [OF R(2) this] R show ?thesis by simp
qed

theorem pool_slots_stable_witness:
  "\<exists>p'. op_allocate all_granted \<lparr>op_chunks = [], op_table_capacity = 64, op_size = 0\<rparr> = Some (Inr (0, p'))
    \<and> op_size p' = 1 \<and> op_get p' 0 = default_record"
proof -
  let ?p = "\<lparr>op_chunks = [], op_table_capacity = 64, op_size = 0\<rparr>"
  have ok: "pool_ok ?p" "op_size ?p < 2 ^ 32" by (simp_all add: pool_ok_def)
  from op_allocate_correct [OF ok, of all_granted] obtain p' where "op_allocate all_granted ?p = Some (Inr (0, p'))" by auto
  with pool_slots_stable [OF ok, of all_granted 0 p'] show ?thesis by simp
qed

end
