(* ===== verification/Listener_Properties.thy ===== *)
theory Listener_Properties
  imports Client_Properties
begin

text \<open>
  The properties of an engine whose listener may throw (an engine whose listener does not is the
  special case, \<open>step_quiet\<close>): an exception ends a request early and does no other harm, except
  that a replacement whose \<open>on_replaced\<close> throws has lost its order.
\<close>

text \<open>C8 A throwing listener ends a request where it stands: the engine's invariants hold, the
  listener has heard the beginning of what a quiet one hears, and the state is the one of the quiet
  run, or the exchange was cut after the acceptance, after the replacement, or at a trade that has
  been numbered and reported but not executed.\<close>

theorem exception_ends_request:
  assumes "reachable e" "eng_configured e" "op_size (eng_pool e) < 2 ^ 32 - 1"
    "step_with li al e c = Some e'" "step al e c = Some e''"
  shows "eng_inv e' \<and> exchange_inv (exchange_of e') \<and> (e' = e'' \<or> command_cut c (exchange_of e) (exchange_of e'))
    \<and> prefix (eng_events e') (eng_events e'')"
proof -
  have "reachable e'" by (rule reachable.requested [OF assms(1,3,4)])
  moreover have "eng_configured e'"
    using step_with_ok [OF reachable_inv(1) [OF assms(1,2)] assms(3), of li al c] assms(4) by (auto simp: eng_inv_def)
  ultimately have inv: "eng_inv e'" "exchange_inv (exchange_of e')" by (rule reachable_inv)+
  have "e' = e'' \<or> command_cut c (exchange_of e) (exchange_of e') \<and> prefix (eng_events e') (eng_events e'')"
    using step_cut_ok [OF reachable_inv(1) [OF assms(1,2)] assms(3), of li al c] assms(4,5) by (auto simp: cut_request_def)
  with inv show ?thesis by auto
qed

definition shy_listener :: listener where
  "shy_listener evs ev \<longleftrightarrow> (case ev of On_trade _ _ _ _ _ _ _ \<Rightarrow> True | On_replaced _ _ _ _ \<Rightarrow> True | _ \<Rightarrow> False)"

theorem exception_ends_request_witness:
  "\<exists>e' e''. step_with shy_listener all_granted resting_engine (limit_order 3 kBuy kIoc 252000 100) = Some e'
    \<and> step all_granted resting_engine (limit_order 3 kBuy kIoc 252000 100) = Some e'' \<and> prefix (eng_events e') (eng_events e'')"
proof -
  note inv = reachable_inv(1) [OF resting_engine_ok(1,2)]
  obtain e' e'' where runs: "step_with shy_listener all_granted resting_engine (limit_order 3 kBuy kIoc 252000 100) = Some e'"
    "step all_granted resting_engine (limit_order 3 kBuy kIoc 252000 100) = Some e''"
    using step_with_ok [OF inv resting_engine_ok(4)] step_ok [OF inv resting_engine_ok(4)] by blast
  from exception_ends_request [OF resting_engine_ok(1,2,4) runs] runs show ?thesis by blast
qed

text \<open>C33 A replacement that gives up its place and whose \<open>on_replaced\<close> throws loses the order: the
  listener has been told that the order now rests or trades under its new id, and nothing else, but
  neither the old nor the new order is open.\<close>

theorem thrown_replace_loses_order:
  assumes "reachable e" "eng_configured e" "op_size (eng_pool e) < 2 ^ 32 - 1" "\<forall>r. al r = None"
    and found: "find_order (exchange_of e) (ro_order_id req) = Some (b, sd, x)"
    and fresh: "ro_new_order_id req = ro_order_id req \<or> ro_new_order_id req \<notin> ex_used (exchange_of e)"
    and qty: "ao_filled x < ro_new_quantity req" "n = ro_new_quantity req - ao_filled x"
    and price: "is_tick_aligned (ro_new_price req)" "within_band (ex_books (exchange_of e) ! b) (ro_new_price req)"
    and loses: "ro_new_price req \<noteq> ao_price x \<or> ao_open x < n"
    and throws: "li (eng_events e) (On_replaced (ro_order_id req) (ro_new_order_id req) (ro_new_price req) n)"
  shows "\<exists>e'. replace_with li al e req = Some e'
    \<and> eng_events e' = eng_events e @ [On_replaced (ro_order_id req) (ro_new_order_id req) (ro_new_price req) n]
    \<and> find_order (exchange_of e') (ro_order_id req) = None \<and> find_order (exchange_of e') (ro_new_order_id req) = None"
proof -
  let ?ex = "(exchange_of e)\<lparr>ex_used := insert (ro_new_order_id req) (ex_used (exchange_of e))\<rparr>"
  let ?ev = "On_replaced (ro_order_id req) (ro_new_order_id req) (ro_new_price req) n"
  note inv = reachable_inv [OF assms(1,2)]
  obtain e' where e': "replace_with li al e req = Some e'" "exchange_of e' = ex_emit ?ev (ex_remove b sd (ro_order_id req) ?ex)"
    using replace_thrown_ok [where li = li and al = al and req = req, OF inv(1) assms(3,4) found fresh qty price loses throws] by blast
  note x = find_order_open [OF found]
  have open1: "open_at ?ex b sd x" using x(1) by (simp add: open_at_def del: exchange_of_simps)
  note R = remove_inv [OF use_id_inv [OF inv(2)] open1, unfolded x(2)]
  have "id_free ?ex (ro_new_order_id req)" if "ro_new_order_id req \<noteq> ro_order_id req"
    using unused_free [OF inv(2)] fresh that by (simp del: exchange_of_simps)
  with R(2,3) have free: "id_free (exchange_of e') (ro_order_id req)" "id_free (exchange_of e') (ro_new_order_id req)"
    unfolding e'(2) by (cases "ro_new_order_id req = ro_order_id req"; simp)+
  have "eng_events e' = ex_events (exchange_of e')" by simp
  then have "eng_events e' = eng_events e @ [?ev]" unfolding e'(2) by (simp add: ex_remove_def)
  with e'(1) free show ?thesis by (simp add: find_order_None_iff)
qed

theorem thrown_replace_loses_order_witness:
  "\<exists>e'. replace_with shy_listener all_granted resting_engine \<lparr>ro_order_id = 1, ro_new_order_id = 3, ro_new_price = 250000, ro_new_quantity = 100\<rparr> = Some e'
    \<and> find_order (exchange_of resting_engine) 1 \<noteq> None
    \<and> find_order (exchange_of e') 1 = None \<and> find_order (exchange_of e') 3 = None"
proof -
  let ?req = "\<lparr>ro_order_id = 1, ro_new_order_id = 3, ro_new_price = 250000, ro_new_quantity = 100\<rparr>"
  have found: "find_order (exchange_of resting_engine) (ro_order_id ?req) = Some (0, kBuy, resting 1 251000 100 0)"
    by (simp add: resting_engine_ok(3) resting_eval del: exchange_of_simps)
  have fresh: "ro_new_order_id ?req = ro_order_id ?req \<or> ro_new_order_id ?req \<notin> ex_used (exchange_of resting_engine)"
    by (simp add: resting_engine_ok(3) resting_eval del: exchange_of_simps)
  have band: "within_band (ex_books (exchange_of resting_engine) ! 0) (ro_new_price ?req)"
    by (simp add: resting_engine_ok(3) resting_exchange_def one_book_def within_band_def del: exchange_of_simps)
  have granted: "\<forall>r. all_granted r = None" by simp
  have throws: "shy_listener (eng_events resting_engine) (On_replaced (ro_order_id ?req) (ro_new_order_id ?req) (ro_new_price ?req) 100)"
    by (simp add: shy_listener_def)
  from thrown_replace_loses_order [where li = shy_listener and al = all_granted and req = ?req, OF resting_engine_ok(1,2,4) granted found fresh _ _ _ band _ throws] found show ?thesis
    by (auto simp: is_tick_aligned_iff tick_size_eq)
qed

end
