(* ===== verification/Event_Types.thy ===== *)
theory Event_Types
  imports Exchange_Laws
begin

text \<open>
  What every event reported by the exchange satisfies: quantities are positive, and prices are
  valid ticks inside the band of the instrument they are about.
\<close>

section \<open>Well-formed events\<close>

type_synonym listing = "instrument_id \<times> price \<times> price"

definition listing_of :: "abook \<Rightarrow> listing" where
  "listing_of ab = (ab_instrument ab, ab_band_lo ab, ab_band_hi ab)"

definition listings :: "exchange \<Rightarrow> listing list" where
  "listings ex = map listing_of (ex_books ex)"

definition quotable :: "listing list \<Rightarrow> instrument_id \<Rightarrow> price \<Rightarrow> bool" where
  "quotable ls iid p \<longleftrightarrow> is_tick_aligned p \<and> (\<exists>lo hi. (iid, lo, hi) \<in> set ls \<and> lo \<le> p \<and> p \<le> hi)"

fun event_typed :: "listing list \<Rightarrow> event \<Rightarrow> bool" where
  "event_typed ls (On_trade tid iid p q resting aggressor sd) \<longleftrightarrow> q \<noteq> 0 \<and> quotable ls iid p"
| "event_typed ls (On_canceled i q reason) \<longleftrightarrow> q \<noteq> 0"
| "event_typed ls (On_replaced i j p n) \<longleftrightarrow> n \<noteq> 0 \<and> (\<exists>iid. quotable ls iid p)"
| "event_typed ls (On_accepted i) \<longleftrightarrow> True"
| "event_typed ls (On_rejected i reason) \<longleftrightarrow> True"

definition typed_step :: "exchange \<Rightarrow> exchange \<Rightarrow> bool" where
  "typed_step ex ex' \<longleftrightarrow> listings ex' = listings ex
    \<and> (\<exists>new. ex_events ex' = ex_events ex @ new \<and> (\<forall>ev \<in> set new. event_typed (listings ex) ev))"

lemma typed_refl [simp]: "typed_step ex ex"
  by (simp add: typed_step_def)

lemma typed_trans: "typed_step ex ex1 \<Longrightarrow> typed_step ex1 ex2 \<Longrightarrow> typed_step ex ex2"
  unfolding typed_step_def by (elim conjE exE) auto

lemma typed_same: "listings ex' = listings ex \<Longrightarrow> ex_events ex' = ex_events ex \<Longrightarrow> typed_step ex ex'"
  by (simp add: typed_step_def)

lemma listings_simps [simp]:
  "listings (ex_emit ev ex) = listings ex" "listings (ex\<lparr>ex_used := U\<rparr>) = listings ex" "listings (ex\<lparr>ex_next_trade_id := t\<rparr>) = listings ex"
  "listings (ex\<lparr>ex_events := evs\<rparr>) = listings ex"
  by (simp_all add: listings_def)

lemma typed_emit: "event_typed (listings ex) ev \<Longrightarrow> typed_step ex (ex_emit ev ex)"
  by (simp add: typed_step_def)

lemma listings_upd [simp]: "(\<And>ab. listing_of (f ab) = listing_of ab) \<Longrightarrow> listings (upd_book b f ex) = listings ex"
  unfolding listings_def upd_book_def by (simp add: map_update) (metis list_update_id map_update)

lemma listing_set_orders [simp]: "listing_of (set_orders sd os ab) = listing_of ab"
  by (simp add: listing_of_def)

lemma typed_books [simp]:
  "typed_step ex (ex_rest b sd r ex)" "typed_step ex (ex_remove b sd i ex)" "typed_step ex (ex\<lparr>ex_used := U\<rparr>)"
  "typed_step ex (upd_book b (\<lambda>ab. set_orders sd (os ab) ab) ex)"
  by (rule typed_same; simp add: ex_rest_def ex_remove_def)+

lemma order_quotable:
  assumes "exchange_inv ex" "b < length (ex_books ex)" "x \<in> set (ab_orders (ex_books ex ! b) sd)"
  shows "quotable (listings ex) (ab_instrument (ex_books ex ! b)) (ao_price x)" "ao_open x \<noteq> 0"
proof -
  have "order_sound (ex_books ex ! b) x" using exchange_invD(1) [OF assms(1,2)] assms(3) by (simp add: book_sound_def)
  then have x: "is_tick_aligned (ao_price x)" "within_band (ex_books ex ! b) (ao_price x)" "ao_open x \<noteq> 0" by (simp_all add: order_sound_def)
  have "listing_of (ex_books ex ! b) \<in> set (listings ex)" using assms(2) by (simp add: listings_def)
  with x show "quotable (listings ex) (ab_instrument (ex_books ex ! b)) (ao_price x)"
    unfolding quotable_def within_band_def listing_of_def by blast
  show "ao_open x \<noteq> 0" by (rule x(3))
qed

lemma band_quotable:
  assumes "b < length (ex_books ex)" "is_tick_aligned p" "within_band (ex_books ex ! b) p"
  shows "\<exists>iid. quotable (listings ex) iid p"
proof -
  have "listing_of (ex_books ex ! b) \<in> set (listings ex)" using assms(1) by (simp add: listings_def)
  with assms(2,3) show ?thesis unfolding quotable_def within_band_def listing_of_def by blast
qed

section \<open>Every step reports well-formed events\<close>

lemma typed_match:
  assumes inv: "exchange_inv ex" and b: "b < length (ex_books ex)" and m: "ex_match b i sd is_market limit_price n ex = (n', ex')"
  shows "typed_step ex ex'"
proof -
  obtain evs where E: "ex_events ex' = ex_events ex @ evs"
    "in_priority (ab_instrument (ex_books ex ! b)) i sd (acceptable sd is_market limit_price) (ex_next_trade_id ex)
      (ab_orders (ex_books ex ! b) (opposite sd)) evs"
    using match_trades [OF inv b m] by blast
  have "listings ex' = listings ex" using m by (auto simp: ex_match_def Let_def split: prod.splits)
  moreover have "event_typed (listings ex) ev" if "ev \<in> set evs" for ev
  proof -
    from that obtain k where k: "k < length evs" "ev = evs ! k" unfolding in_set_conv_nth by blast
    let ?x = "ab_orders (ex_books ex ! b) (opposite sd) ! k"
    have x: "?x \<in> set (ab_orders (ex_books ex ! b) (opposite sd))" using E(2) k(1) by (simp add: in_priority_def)
    from E(2) k obtain q where "ev = On_trade (ex_next_trade_id ex + word_of_nat k) (ab_instrument (ex_books ex ! b)) (ao_price ?x) q (ao_id ?x) i sd" "q \<noteq> 0"
      unfolding in_priority_def by blast
    with order_quotable(1) [OF inv b x] show ?thesis by simp
  qed
  ultimately show ?thesis using E(1) by (auto simp: typed_step_def)
qed

lemma typed_accept:
  assumes inv: "exchange_inv ex" and b: "b < length (ex_books ex)" and qty: "no_quantity order \<noteq> 0"
  shows "typed_step ex (ex_accept v order b is_market price ex)"
proof -
  let ?ex = "ex_emit (On_accepted (no_order_id order)) ex"
  have inv': "exchange_inv ?ex" and b': "b < length (ex_books ?ex)" using inv b by simp_all
  obtain n' ex' where m: "ex_match b (no_order_id order) (no_side order) is_market price (no_quantity order) ?ex = (n', ex')" by (rule prod.exhaust)
  have 1: "typed_step ex ?ex" by (rule typed_emit) simp
  have 2: "typed_step ex ex'" by (rule typed_trans [OF 1 typed_match [OF inv' b' m]])
  have 3: "typed_step ex (ex_emit (On_canceled i n' r) ex')" if "n' \<noteq> 0" for i r by (rule typed_trans [OF 2 typed_emit]) (simp add: that)
  have 4: "typed_step ex (ex_emit (On_canceled i (no_quantity order) r) ?ex)" for i r by (rule typed_trans [OF 1 typed_emit]) (simp add: qty)
  have 5: "typed_step ex (ex_rest b sd r ex')" for sd r by (rule typed_trans [OF 2]) simp
  show ?thesis using 2 3 4 5 by (simp add: ex_accept_def Let_def m)
qed

lemma typed_use: "typed_step (ex\<lparr>ex_used := U\<rparr>) ex' \<Longrightarrow> typed_step ex ex'"
  by (rule typed_trans [OF typed_books(3)])

lemma typed_submit:
  assumes inv: "exchange_inv ex"
  shows "typed_step ex (ex_submit v order ex)"
proof (cases "book_index ex (no_instrument_id order)")
  case None
  then show ?thesis by (simp add: ex_submit_def typed_emit)
next
  case (Some b)
  show ?thesis
  proof (cases "no_order_id order \<in> ex_used ex")
    case True
    then show ?thesis by (simp add: ex_submit_def Some typed_emit)
  next
    case False
    let ?ex = "ex\<lparr>ex_used := insert (no_order_id order) (ex_used ex)\<rparr>"
    have inv': "exchange_inv ?ex" and b': "b < length (ex_books ?ex)" using use_id_inv [OF inv] book_index_less [OF Some] by simp_all
    have sub: "ex_submit v order ex = ex_validated v order b ?ex" using False by (simp add: ex_submit_def Some)
    show ?thesis unfolding sub ex_validated_def Let_def
      by (rule typed_use) (auto intro!: typed_accept [OF inv' b'] typed_emit)
  qed
qed

lemma typed_cancel:
  assumes inv: "exchange_inv ex"
  shows "typed_step ex (ex_cancel req ex)"
proof (cases "find_order ex (co_order_id req)")
  case None
  then show ?thesis by (simp add: ex_cancel_def typed_emit)
next
  case (Some y)
  obtain b sd x where y: "y = (b, sd, x)" by (cases y)
  have "open_at ex b sd x" using find_order_open(1) Some y by blast
  then have "ao_open x \<noteq> 0" using order_quotable(2) [OF inv] by (auto simp: open_at_def)
  then show ?thesis using Some y by (auto simp: ex_cancel_def intro!: typed_trans [OF typed_books(2) typed_emit])
qed

lemma typed_left:
  assumes "exchange_inv ex" "open_at ex b sd x" "n \<noteq> 0" "is_tick_aligned p" "within_band (ex_books ex ! b) p"
    "ex1 = ex_emit (On_replaced (ao_id x) j p n) (ex_remove b sd (ao_id x) ex)"
  shows "exchange_inv ex1" "b < length (ex_books ex1)" "typed_step ex ex1"
proof -
  have b: "b < length (ex_books ex)" using assms(2) by (simp add: open_at_def)
  show "exchange_inv ex1" "b < length (ex_books ex1)" using remove_inv(1) [OF assms(1,2)] b by (simp_all add: assms(6) ex_remove_def)
  have "listings (ex_remove b sd (ao_id x) ex) = listings ex" by (simp add: ex_remove_def)
  with band_quotable [OF b assms(4,5)] assms(3) show "typed_step ex ex1"
    unfolding assms(6) by (intro typed_trans [OF typed_books(2) typed_emit]) simp
qed

lemma typed_commit:
  assumes inv: "exchange_inv ex" and x: "open_at ex b sd x" "ao_id x = ro_order_id req" and n: "n \<noteq> 0"
    and p: "is_tick_aligned (ro_new_price req)" "within_band (ex_books ex ! b) (ro_new_price req)"
  shows "typed_step ex (ex_commit req b sd x n ex)"
proof -
  let ?ev = "On_replaced (ro_order_id req) (ro_new_order_id req) (ro_new_price req) n"
  let ?ex1 = "ex_emit ?ev (ex_remove b sd (ro_order_id req) ex)"
  have ex1: "?ex1 = ex_emit (On_replaced (ao_id x) (ro_new_order_id req) (ro_new_price req) n) (ex_remove b sd (ao_id x) ex)" by (simp add: x(2))
  note L = typed_left [OF inv x(1) n p ex1]
  have b: "b < length (ex_books ex)" using x(1) by (simp add: open_at_def)
  have ev: "event_typed (listings ex) ?ev" using n band_quotable [OF b p] by simp
  obtain m ex' where m: "(if ro_new_price req = ao_price x then (n, ?ex1) else ex_match b (ro_new_order_id req) sd False (ro_new_price req) n ?ex1) = (m, ex')"
    by (rule prod.exhaust)
  have "typed_step ?ex1 ex'" using m typed_match [OF L(1,2)] by (auto split: if_splits)
  then have 2: "typed_step ex ex'" by (rule typed_trans [OF L(3)])
  have 3: "typed_step ex (ex_emit ?ev (upd_book b (\<lambda>ab. set_orders sd (os ab) ab) ex))" for os
    by (rule typed_trans [OF typed_books(4) typed_emit]) (use ev in simp)
  have 4: "typed_step ex (ex_rest b sd r ex')" for r by (rule typed_trans [OF 2]) simp
  show ?thesis unfolding ex_commit_def Let_def m prod.case using 2 3 4 by (auto simp only: split: if_splits)
qed

lemma typed_replace:
  assumes inv: "exchange_inv ex"
  shows "typed_step ex (ex_replace req ex)"
proof (cases "find_order ex (ro_order_id req)")
  case None
  then show ?thesis by (simp add: ex_replace_def Let_def typed_emit)
next
  case (Some y)
  obtain b sd x where y: "y = (b, sd, x)" by (cases y)
  have x: "open_at ex b sd x" "ao_id x = ro_order_id req" using find_order_open Some y by blast+
  then have qty: "ao_open x \<noteq> 0" using order_quotable(2) [OF inv] by (auto simp: open_at_def)
  let ?ex = "ex\<lparr>ex_used := insert (ro_new_order_id req) (ex_used ex)\<rparr>"
  have "open_at ?ex b sd x" using x(1) by (simp add: open_at_def)
  note C = typed_commit [OF use_id_inv [OF inv] this x(2)]
  have gone: "typed_step ex (ex_emit (On_canceled (ro_order_id req) (ao_open x) kUserRequested) (ex_remove b sd (ro_order_id req) ex))"
    by (rule typed_trans [OF typed_books(2) typed_emit]) (simp add: qty)
  have commit: "typed_step ex (ex_commit req b sd x (ro_new_quantity req - ao_filled x) ?ex)"
    if "\<not> ro_new_quantity req \<le> ao_filled x" "is_tick_aligned (ro_new_price req)" "within_band (ex_books ex ! b) (ro_new_price req)"
    using that by (intro typed_use [OF C]) auto
  have rejected: "typed_step ex (ex_emit (On_rejected j r) ex)" for j r by (rule typed_emit) simp
  show ?thesis
    unfolding ex_replace_def Let_def Some y option.case prod.case
    using gone commit rejected by (auto simp only: split: if_splits)
qed

lemma step_typed: "ex_step ex c ex' \<Longrightarrow> exchange_inv ex \<Longrightarrow> typed_step ex ex'"
  by (induction rule: ex_step.induct) (simp_all add: typed_submit typed_cancel typed_replace)

text \<open>Also when a callback throws: what has been heard is the beginning of what would have been.\<close>

lemma typed_match_cut:
  assumes inv: "exchange_inv ex" and b: "b < length (ex_books ex)" and cut: "ex_match_cut b i sd is_market limit_price n ex ex'"
  shows "typed_step ex ex'"
proof -
  obtain m ex1 ev where C: "ex_match b i sd is_market limit_price m ex = (0, ex1)"
    "ex' = ex_emit ev (ex1\<lparr>ex_next_trade_id := ex_next_trade_id ex1 + 1\<rparr>)"
    "prefix (ex_events ex') (ex_events (snd (ex_match b i sd is_market limit_price n ex)))"
    using cut unfolding ex_match_cut_def by blast
  have 1: "typed_step ex ex1" by (rule typed_match [OF inv b C(1)])
  have full: "typed_step ex (snd (ex_match b i sd is_market limit_price n ex))"
    by (rule typed_match [OF inv b prod.collapse [symmetric]])
  obtain new1 where new1: "ex_events ex1 = ex_events ex @ new1" "listings ex1 = listings ex" using 1 unfolding typed_step_def by blast
  obtain new where new: "ex_events (snd (ex_match b i sd is_market limit_price n ex)) = ex_events ex @ new"
    "\<forall>ev \<in> set new. event_typed (listings ex) ev" using full unfolding typed_step_def by blast
  from C(3) have "prefix (new1 @ [ev]) new" by (simp add: C(2) new1(1) new(1))
  then have "\<forall>ev \<in> set (new1 @ [ev]). event_typed (listings ex) ev" using new(2) set_mono_prefix by blast
  then show ?thesis unfolding typed_step_def
    by (intro conjI exI [of _ "new1 @ [ev]"]) (simp_all add: C(2) new1)
qed

lemma command_cut_typed:
  assumes inv: "exchange_inv ex" and cut: "command_cut c ex ex'"
  shows "typed_step ex ex'"
proof (cases c)
  case (Submit order)
  let ?ex = "ex_emit (On_accepted (no_order_id order)) (ex\<lparr>ex_used := insert (no_order_id order) (ex_used ex)\<rparr>)"
  obtain b where b: "book_index ex (no_instrument_id order) = Some b"
    "ex' = ?ex \<or> ex_match_cut b (no_order_id order) (no_side order) (no_type order = kMarket) (order_price order) (no_quantity order) ?ex ex'"
    using cut [unfolded Submit command_cut.simps submit_cut_def accept_cut_def] by blast
  have 1: "typed_step ex ?ex" by (rule typed_use, rule typed_emit) simp
  have inv1: "exchange_inv ?ex" and b1: "b < length (ex_books ?ex)" using use_id_inv [OF inv] book_index_less [OF b(1)] by simp_all
  from b(2) show ?thesis
  proof
    assume "ex_match_cut b (no_order_id order) (no_side order) (no_type order = kMarket) (order_price order) (no_quantity order) ?ex ex'"
    from typed_trans [OF 1 typed_match_cut [OF inv1 b1 this]] show ?thesis .
  qed (use 1 in simp)
next
  case (Replace req)
  let ?ex = "ex\<lparr>ex_used := insert (ro_new_order_id req) (ex_used ex)\<rparr>"
  have "replace_cut req ex ex'" using cut Replace by simp
  then obtain b sd x n ex1 where R: "find_order ex (ro_order_id req) = Some (b, sd, x)" "n = ro_new_quantity req - ao_filled x"
    "ex1 = ex_emit (On_replaced (ro_order_id req) (ro_new_order_id req) (ro_new_price req) n) (ex_remove b sd (ro_order_id req) ?ex)"
    "ex' = ex1 \<or> ex_match_cut b (ro_new_order_id req) sd False (ro_new_price req) n ex1 ex'"
    "ao_filled x < ro_new_quantity req" "is_tick_aligned (ro_new_price req)" "within_band (ex_books ex ! b) (ro_new_price req)"
    unfolding replace_cut_def commit_cut_def by blast
  have x: "open_at ?ex b sd x" "ao_id x = ro_order_id req" using find_order_open [OF R(1)] by (simp_all add: open_at_def)
  have ok: "n \<noteq> 0" "is_tick_aligned (ro_new_price req)" "within_band (ex_books ?ex ! b) (ro_new_price req)"
    using R(5-7) by (auto simp: R(2))
  note L = typed_left [OF use_id_inv [OF inv] x(1) ok R(3) [folded x(2)]]
  have 1: "typed_step ex ex1" by (rule typed_use [OF L(3)])
  from R(4) show ?thesis
  proof
    assume "ex_match_cut b (ro_new_order_id req) sd False (ro_new_price req) n ex1 ex'"
    from typed_trans [OF 1 typed_match_cut [OF L(1,2) this]] show ?thesis .
  qed (use 1 in simp)
qed (use cut in simp)

end
