(* ===== verification/Trade_Properties.thy ===== *)
theory Trade_Properties
  imports Client_Properties Event_Types
begin

text \<open>
  Two properties of the event stream: everything reported is well-formed, and an accepted order
  trades as much as the other side offers within its limit.
\<close>

section \<open>Well-formed events\<close>

lemma reachable_typed:
  "reachable e \<Longrightarrow> (\<forall>ev \<in> set (eng_events e). event_typed (listings (exchange_of e)) ev)
    \<and> (\<not> eng_configured e \<longrightarrow> (\<forall>ev \<in> set (eng_events e). \<exists>i r. ev = On_rejected i r))"
proof (induction rule: reachable.induct)
  case (created al e)
  then show ?case by (auto simp: engine_new_def and_then_def returns_def split: option.splits sum.splits)
next
  case (configured e cfgs al res e')
  show ?case
  proof (cases "eng_configured e")
    case True
    with configured show ?thesis by (simp add: already_configured)
  next
    case False
    from configure_cases [OF configured(3) False configured(2)] show ?thesis
    proof (elim disjE exE conjE)
      fix cs assume C: "eng_inv e'" "exchange_of e' = configured_exchange cs e"
      have "eng_events e' = eng_events e" using C(2) by (simp add: exchange_of_def configured_exchange_def)
      moreover have "event_typed ls ev" if m: "ev \<in> set (eng_events e)" for ls ev
      proof -
        obtain i r where "ev = On_rejected i r" using configured.IH False m by blast
        then show ?thesis by simp
      qed
      moreover have "eng_configured e'" using C(1) by (simp add: eng_inv_def)
      ultimately show ?thesis by (simp only: simp_thms) blast
    next
      assume "e' = e"
      with configured.IH show ?thesis by simp
    qed
  qed
next
  case (requested e li al c e')
  show ?case
  proof (cases "eng_configured e")
    case True
    note inv = reachable_inv [OF requested.hyps(1) True]
    obtain e1 where e1: "step_with li al e c = Some e1" "eng_inv e1" "ex_step (exchange_of e) c (exchange_of e1)
        \<or> command_cut c (exchange_of e) (exchange_of e1) \<or> exchange_of e1 = exchange_of e \<and> (\<exists>r. al r \<noteq> None)"
      using step_with_ok [OF inv(1) requested.hyps(2)] by blast
    have "e1 = e'" using e1(1) requested.hyps(3) by simp
    with e1(3) have "typed_step (exchange_of e) (exchange_of e')"
      using step_typed [OF _ inv(2)] command_cut_typed [OF inv(2)] by (elim disjE conjE) simp_all
    then obtain new where "listings (exchange_of e') = listings (exchange_of e)" "eng_events e' = eng_events e @ new"
      "\<forall>ev \<in> set new. event_typed (listings (exchange_of e)) ev"
      by (auto simp: typed_step_def)
    with requested.IH e1(2) \<open>e1 = e'\<close> show ?thesis by (auto simp: eng_inv_def)
  next
    case False
    then obtain i where e': "e' = emit (On_rejected i kNotConfigured) e"
      using unconfigured_step_with [OF False, of li al c] requested.hyps(3) by auto
    have ls: "listings (exchange_of e') = listings (exchange_of e)" by (simp add: e')
    show ?thesis unfolding ls using requested.IH by (auto simp: e' emit_def)
  qed
qed

text \<open>C16 Whatever an engine has reported is well-formed: quantities of trades, cancels and replaces are
  positive, and their prices are valid ticks inside the band of a configured instrument, the one
  the trade names. This holds also for a listener that throws.\<close>

theorem reported_events_well_formed:
  assumes "reachable e" "ev \<in> set (eng_events e)"
  shows "event_typed (listings (exchange_of e)) ev"
  using reachable_typed [OF assms(1)] assms(2) by blast

theorem reported_events_well_formed_witness:
  "\<exists>e. run sample_engine (map (Pair all_granted) golden_session) = Some e \<and> golden_events \<noteq> []
    \<and> event_typed (listings (exchange_of e)) (hd golden_events)"
proof -
  obtain e where e: "run sample_engine (map (Pair all_granted) golden_session) = Some e" "reachable e"
    "exchange_of e = one_book [] [] {8, 7, 6, 5, 4, 3, 2, 1} 4 golden_events" using golden_reached by blast
  have ev: "eng_events e = golden_events" using e(3) by (simp add: one_book_def exchange_of_def)
  have ne: "golden_events \<noteq> []" by (simp add: golden_events_def)
  then have "hd golden_events \<in> set (eng_events e)" by (simp add: ev)
  from reported_events_well_formed [OF e(2) this] e(1) ne show ?thesis by blast
qed

section \<open>Progress\<close>

lemma accept_traded:
  assumes inv: "exchange_inv ex" and b: "b < length (ex_books ex)"
  shows "\<exists>new. ex_events (ex_accept v order b is_market price ex) = ex_events ex @ On_accepted (no_order_id order) # new
    \<and> total_traded new = (if no_tif order = kFok \<and> \<not> v then 0 else min (unat (no_quantity order))
        (depth (acceptable (no_side order) is_market price) (ab_orders (ex_books ex ! b) (opposite (no_side order)))))"
proof -
  let ?i = "no_order_id order" and ?ex = "ex_emit (On_accepted (no_order_id order)) ex"
  have inv': "exchange_inv ?ex" and b': "b < length (ex_books ?ex)" using inv b by simp_all
  obtain n' ex' where m: "ex_match b ?i (no_side order) is_market price (no_quantity order) ?ex = (n', ex')" by (rule prod.exhaust)
  obtain evs where E: "ex_events ex' = ex_events ?ex @ evs" "unat (no_quantity order) = unat n' + total_traded evs"
    "unat n' = unat (no_quantity order) - min (unat (no_quantity order))
      (depth (acceptable (no_side order) is_market price) (ab_orders (ex_books ?ex ! b) (opposite (no_side order))))"
    using match_trades [OF inv' b' m] by blast
  show ?thesis
  proof (cases "no_tif order = kFok \<and> \<not> v")
    case True
    then show ?thesis
      by (intro exI [of _ "[On_canceled ?i (no_quantity order) kFokUnfillable]"]) (simp add: ex_accept_def Let_def)
  next
    case False
    let ?d = "depth (acceptable (no_side order) is_market price) (ab_orders (ex_books ex ! b) (opposite (no_side order)))"
    have traded: "total_traded evs = min (unat (no_quantity order)) ?d" using E(2,3) by simp
    define tail where "tail = (if n' = 0 \<or> no_tif order = kDay then [] else [On_canceled ?i n' (if is_market then kNoLiquidity
        else if no_tif order = kIoc then kIocRemainder else kFokUnfillable)])"
    have "total_traded tail = 0" by (simp add: tail_def)
    moreover have "ex_events (ex_accept v order b is_market price ex) = ex_events ex' @ tail"
      unfolding ex_accept_def Let_def if_not_P [OF False] m prod.case by (simp add: tail_def ex_rest_def)
    ultimately show ?thesis unfolding if_not_P [OF False] using traded by (intro exI [of _ "evs @ tail"]) (simp add: E(1))
  qed
qed

text \<open>C15 Progress: a valid order under a new id is accepted. If it is not fill-or-kill, it trades all
  that the other side offers within its limit, up to its quantity. If it is fill-or-kill, and the other
  side of the book holds fewer than \<open>2^32\<close> lots in all, it trades its quantity when that much is offered
  within its limit, and nothing otherwise; above that bound the level totals may wrap and a fillable
  order may be killed (C31).\<close>

theorem valid_order_trades:
  assumes "reachable e" "eng_configured e" "op_size (eng_pool e) < 2 ^ 32 - 1" "\<forall>r. al r = None"
    and book: "find_book e (no_instrument_id order) = Some (Some b)" and fresh: "no_order_id order \<notin> ex_used (exchange_of e)"
    and valid: "order_valid order (ex_books (exchange_of e) ! b)"
    and fits: "no_tif order = kFok \<longrightarrow> volume (ab_orders (ex_books (exchange_of e) ! b) (opposite (no_side order))) < 2 ^ 32"
    and d: "d = depth (acceptable (no_side order) (no_type order = kMarket) (order_price order))
      (ab_orders (ex_books (exchange_of e) ! b) (opposite (no_side order)))"
  shows "\<exists>e' new. submit al e order = Some e' \<and> eng_events e' = eng_events e @ On_accepted (no_order_id order) # new
    \<and> total_traded new = (if no_tif order = kFok \<and> d < unat (no_quantity order) then 0 else min (unat (no_quantity order)) d)"
proof -
  let ?ex = "exchange_of e" and ?m = "no_type order = kMarket" and ?p = "order_price order"
  let ?ex1 = "?ex\<lparr>ex_used := insert (no_order_id order) (ex_used ?ex)\<rparr>"
  note inv = reachable_inv [OF assms(1,2)]
  have idx: "book_index ?ex (no_instrument_id order) = Some b"
    using find_book_ok [OF eng_inv_sel(2) [OF inv(1)]] book by simp
  obtain v e' where S: "submit al e order = Some e'" "submit_verdict v order ?ex" "exchange_of e' = ex_submit v order ?ex"
    using submit_ok [OF inv(1) assms(3), of al order] assms(4) by (auto simp: done_or_dropped_def)
  have inv1: "exchange_inv ?ex1" and b1: "b < length (ex_books ?ex1)" using use_id_inv [OF inv(2)] book_index_less [OF idx] by simp_all
  have sub: "ex_submit v order ?ex = ex_accept v order b ?m ?p ?ex1"
    using valid fresh unfolding order_valid_def
    by (auto simp: ex_submit_def idx Let_def ex_validated_def order_price_def split: if_splits simp del: exchange_of_simps)
  have "verdict_ok v ?ex b (no_side order) ?m ?p (no_quantity order)" using S(2) idx by (simp add: submit_verdict_def)
  then have v: "no_tif order = kFok \<longrightarrow> v = (unat (no_quantity order) \<le> d)" using fits unfolding verdict_ok_def fillable_def d by blast
  obtain new where "ex_events (ex_accept v order b ?m ?p ?ex1) = ex_events ?ex1 @ On_accepted (no_order_id order) # new"
    "total_traded new = (if no_tif order = kFok \<and> \<not> v then 0 else min (unat (no_quantity order)) d)"
    using accept_traded [OF inv1 b1, of v order ?m ?p] by (auto simp: d)
  moreover have "eng_events e' = ex_events (ex_accept v order b ?m ?p ?ex1)" using S(3) sub by (metis exchange_of_simps(5))
  ultimately show ?thesis using S(1) v by (intro exI [of _ e'] exI [of _ new]) (auto simp: not_le)
qed

definition crossing_order :: new_order where
  "crossing_order = \<lparr>no_order_id = 3, no_instrument_id = 1, no_side = kBuy, no_type = kLimit, no_tif = kIoc, no_price = 252000, no_quantity = 100\<rparr>"

theorem valid_order_trades_witness:
  "\<exists>e' new. submit all_granted resting_engine crossing_order = Some e' \<and> eng_events e' = eng_events resting_engine @ On_accepted 3 # new
    \<and> total_traded new = 70"
proof -
  have ok: "find_book resting_engine (no_instrument_id crossing_order) = Some (Some 0)"
    using find_book_ok [OF eng_inv_sel(2) [OF reachable_inv(1) [OF resting_engine_ok(1,2)]]]
    by (simp add: resting_engine_ok(3) resting_eval crossing_order_def)
  have fresh: "no_order_id crossing_order \<notin> ex_used (exchange_of resting_engine)"
    by (simp add: resting_engine_ok(3) resting_eval crossing_order_def del: exchange_of_simps)
  have valid: "order_valid crossing_order (ex_books (exchange_of resting_engine) ! 0)"
    by (simp add: resting_engine_ok(3) resting_exchange_def one_book_def crossing_order_def order_valid_def is_tick_aligned_iff
      tick_size_eq within_band_def del: exchange_of_simps)
  have sell: "ab_orders (ex_books (exchange_of resting_engine) ! 0) (opposite (no_side crossing_order)) = [resting 2 252000 70 0]"
    by (simp add: resting_engine_ok(3) resting_eval crossing_order_def del: exchange_of_simps)
  have granted: "\<forall>r. all_granted r = None" by simp
  have fits: "no_tif crossing_order = kFok \<longrightarrow> volume (ab_orders (ex_books (exchange_of resting_engine) ! 0) (opposite (no_side crossing_order))) < 2 ^ 32"
    unfolding sell by simp
  from valid_order_trades [OF resting_engine_ok(1,2,4) granted ok fresh valid fits refl]
  show ?thesis unfolding sell by (simp add: crossing_order_def acceptable_def order_price_def)
qed

end
