(* ===== verification/Doubles.thy ===== *)
theory Doubles
  imports Complex_Main Flat_Hash_Map
begin

text \<open>
  Double arithmetic (IEEE 754 binary64, rounding to nearest, ties to even), as far as the program
  uses it: finite values as rational numbers, each operation the exact one followed by rounding.
  Nothing the program computes comes near the largest double, so there is no overflow to infinity.
  Its users are the load factor of the hash map, whose integer formulas are shown to be this
  arithmetic, and the statistics of the benchmark.
\<close>

section \<open>Rounding\<close>

type_synonym double = rat

definition nearest :: "rat \<Rightarrow> int" where
  "nearest x =
    (let q = \<lfloor>x\<rfloor>; r = x - of_int q
     in if r < 1 / 2 then q else if 1 / 2 < r then q + 1 else if even q then q else q + 1)"

text \<open>The least positive double is \<open>2^-1074\<close>; there are 53 significant bits.\<close>

definition grain :: nat where
  "grain = 1074"

definition spacing :: "rat \<Rightarrow> nat" where
  "spacing x = log2_floor (nat \<lfloor>x\<rfloor>) - 52"

definition on_grid :: "rat \<Rightarrow> rat" where
  "on_grid x = of_int (nearest (x / 2 ^ spacing x)) * 2 ^ spacing x"

definition dbl :: "rat \<Rightarrow> double" where
  "dbl x = sgn x * (on_grid (\<bar>x\<bar> * 2 ^ grain) / 2 ^ grain)"

definition dadd :: "double \<Rightarrow> double \<Rightarrow> double" where
  "dadd x y = dbl (x + y)"

definition dsub :: "double \<Rightarrow> double \<Rightarrow> double" where
  "dsub x y = dbl (x - y)"

definition dmul :: "double \<Rightarrow> double \<Rightarrow> double" where
  "dmul x y = dbl (x * y)"

definition ddiv :: "double \<Rightarrow> double \<Rightarrow> double" where
  "ddiv x y = dbl (x / y)"

text \<open>The conversion to an integer type cuts off the fraction.\<close>

definition truncated :: "double \<Rightarrow> int" where
  "truncated x = (if 0 \<le> x then \<lfloor>x\<rfloor> else \<lceil>x\<rceil>)"

section \<open>Facts about rounding\<close>

lemma nearest_bounds: "\<lfloor>x\<rfloor> \<le> nearest x" "nearest x \<le> \<lfloor>x\<rfloor> + 1"
  by (simp_all add: nearest_def Let_def)

lemma nearest_of_int [simp]: "nearest (of_int k) = k"
  by (simp add: nearest_def)

lemma nearest_error: "\<bar>of_int (nearest x) - x\<bar> \<le> 1 / 2"
proof -
  have "of_int \<lfloor>x\<rfloor> \<le> x" "x < of_int \<lfloor>x\<rfloor> + 1" by linarith+
  then show ?thesis unfolding nearest_def Let_def by (auto simp: abs_le_iff)
qed

lemma nearest_mono: "x \<le> y \<Longrightarrow> nearest x \<le> nearest y"
proof -
  assume le: "x \<le> y"
  then have "\<lfloor>x\<rfloor> \<le> \<lfloor>y\<rfloor>" by (rule floor_mono)
  then consider "\<lfloor>x\<rfloor> + 1 \<le> \<lfloor>y\<rfloor>" | "\<lfloor>x\<rfloor> = \<lfloor>y\<rfloor>" by linarith
  then show "nearest x \<le> nearest y"
  proof cases
    case 1
    then show ?thesis using nearest_bounds [of x] nearest_bounds [of y] by linarith
  next
    case 2
    with le show ?thesis by (auto simp: nearest_def Let_def)
  qed
qed

lemma nearest_le: "x \<le> of_int k \<Longrightarrow> nearest x \<le> k"
  using nearest_mono [of x "of_int k"] by simp

lemma nearest_ge: "of_int k \<le> x \<Longrightarrow> k \<le> nearest x"
  using nearest_mono [of "of_int k" x] by simp

lemma nearest_fraction: "0 < b \<Longrightarrow> nearest (of_nat a / of_nat b) = int (round_half_even a b)"
proof -
  assume b: "0 < b"
  have fl: "\<lfloor>of_nat a / of_nat b :: rat\<rfloor> = int (a div b)" by (simp add: floor_divide_of_nat_eq)
  have "(of_nat a :: rat) = of_nat (a div b) * of_nat b + of_nat (a mod b)" by (metis div_mult_mod_eq of_nat_add of_nat_mult)
  then have r: "(of_nat a / of_nat b :: rat) - of_int (int (a div b)) = of_nat (a mod b) / of_nat b" using b by (simp add: field_simps)
  have half: "(of_nat (a mod b) / of_nat b < (1 :: rat) / 2) = (2 * (a mod b) < b)" "((1 :: rat) / 2 < of_nat (a mod b) / of_nat b) = (b < 2 * (a mod b))"
  proof -
    have "(of_nat (a mod b) / of_nat b < (1 :: rat) / 2) = (of_nat (2 * (a mod b)) < (of_nat b :: rat))"
      "((1 :: rat) / 2 < of_nat (a mod b) / of_nat b) = (of_nat b < (of_nat (2 * (a mod b)) :: rat))" using b by (simp_all add: field_simps)
    then show "(of_nat (a mod b) / of_nat b < (1 :: rat) / 2) = (2 * (a mod b) < b)" "((1 :: rat) / 2 < of_nat (a mod b) / of_nat b) = (b < 2 * (a mod b))"
      unfolding of_nat_less_iff .
  qed
  show ?thesis unfolding nearest_def Let_def fl r half round_half_even_def by simp
qed

lemma log2_floor_unique:
  assumes "2 ^ k \<le> n" "n < 2 ^ Suc k"
  shows "log2_floor n = k"
proof -
  have "0 < n" using assms(1) by (metis gr0I not_le zero_less_numeral zero_less_power)
  note b = log2_floor_bounds [OF this]
  have "(2 :: nat) ^ k < 2 ^ Suc (log2_floor n)" "(2 :: nat) ^ log2_floor n < 2 ^ Suc k" using assms b by linarith+
  then have "k < Suc (log2_floor n)" "log2_floor n < Suc k" by (intro power_less_imp_less_exp [of 2]; simp)+
  then show ?thesis by simp
qed

lemma log2_floor_mono: "m \<le> n \<Longrightarrow> log2_floor m \<le> log2_floor n"
proof (cases "m = 0")
  case True
  then show ?thesis by (simp add: log2_floor.simps)
next
  case False
  assume "m \<le> n"
  with False log2_floor_bounds [of m] log2_floor_bounds [of n] have "(2 :: nat) ^ log2_floor m < 2 ^ Suc (log2_floor n)" by linarith
  then have "log2_floor m < Suc (log2_floor n)" by (intro power_less_imp_less_exp [of 2]; simp)+
  then show ?thesis by simp
qed

lemma spacing_mono: "x \<le> y \<Longrightarrow> spacing x \<le> spacing y"
  unfolding spacing_def by (intro diff_le_mono log2_floor_mono nat_mono floor_mono)

lemma spacing_less: "x < 2 ^ (53 + spacing x)"
proof (cases "1 \<le> x")
  case True
  then have pos: "0 < nat \<lfloor>x\<rfloor>" by simp
  have "nat \<lfloor>x\<rfloor> < 2 ^ Suc (log2_floor (nat \<lfloor>x\<rfloor>))" using log2_floor_bounds [OF pos] by simp
  also have "(2 :: nat) ^ Suc (log2_floor (nat \<lfloor>x\<rfloor>)) \<le> 2 ^ (53 + spacing x)" by (intro power_increasing) (simp_all add: spacing_def)
  finally have "\<lfloor>x\<rfloor> < int (2 ^ (53 + spacing x))" using True by (simp add: nat_less_iff )
  then have "x < of_int (int (2 ^ (53 + spacing x)))" by (simp only: floor_less_iff)
  then show ?thesis by simp
next
  case False
  have "(1 :: rat) \<le> 2 ^ (53 + spacing x)" by simp
  with False show ?thesis by linarith
qed

lemma spacing_ge: "spacing x \<noteq> 0 \<Longrightarrow> 2 ^ (52 + spacing x) \<le> x"
proof -
  assume s: "spacing x \<noteq> 0"
  then have "log2_floor (nat \<lfloor>x\<rfloor>) \<noteq> 0" by (simp add: spacing_def)
  then have pos: "0 < nat \<lfloor>x\<rfloor>" by (metis gr0I log2_floor.simps zero_less_numeral)
  have "52 + spacing x = log2_floor (nat \<lfloor>x\<rfloor>)" using s by (simp add: spacing_def)
  then have "2 ^ (52 + spacing x) \<le> nat \<lfloor>x\<rfloor>" using log2_floor_bounds [OF pos] by metis
  then have "int (2 ^ (52 + spacing x)) \<le> \<lfloor>x\<rfloor>" using pos by linarith
  then have "of_int (int (2 ^ (52 + spacing x))) \<le> x" by (simp only: le_floor_iff)
  then show ?thesis by simp
qed

lemma spacing_eq: "2 ^ (52 + u) \<le> x \<Longrightarrow> x < 2 ^ (53 + u) \<Longrightarrow> spacing x = u"
proof -
  assume x: "2 ^ (52 + u) \<le> x" "x < 2 ^ (53 + u)"
  then have "of_int (2 ^ (52 + u)) \<le> x" "x < of_int (2 ^ (53 + u))" by simp_all
  then have fl: "2 ^ (52 + u) \<le> \<lfloor>x\<rfloor>" "\<lfloor>x\<rfloor> < 2 ^ (53 + u)" unfolding le_floor_iff floor_less_iff .
  have "2 ^ (52 + u) \<le> nat \<lfloor>x\<rfloor>" "nat \<lfloor>x\<rfloor> < 2 ^ Suc (52 + u)"
    using nat_mono [OF fl(1)] nat_mono_iff [of "2 ^ (53 + u)" "\<lfloor>x\<rfloor>"] fl by (simp_all add: nat_power_eq)
  from log2_floor_unique [OF this] show ?thesis by (simp add: spacing_def)
qed

lemma on_grid_nonneg: "0 \<le> x \<Longrightarrow> 0 \<le> on_grid x"
  using nearest_ge [of 0 "x / 2 ^ spacing x"] by (simp add: on_grid_def)

lemma on_grid_mono:
  assumes "0 \<le> x" "x \<le> y"
  shows "on_grid x \<le> on_grid y"
proof (cases "spacing x = spacing y")
  case True
  then show ?thesis using assms(2) by (auto simp: on_grid_def intro!: nearest_mono divide_right_mono)
next
  case False
  then have less: "spacing x < spacing y" using spacing_mono [OF assms(2)] by simp
  have "x / 2 ^ spacing x \<le> of_int (2 ^ 53)" using spacing_less [of x] by (simp add: field_simps power_add)
  then have "of_int (nearest (x / 2 ^ spacing x)) \<le> (of_int (2 ^ 53) :: rat)" unfolding of_int_le_iff by (rule nearest_le)
  then have "on_grid x \<le> of_int (2 ^ 53) * 2 ^ spacing x" unfolding on_grid_def by (rule mult_right_mono) simp
  also have "\<dots> = 2 ^ (53 + spacing x)" by (simp add: power_add)
  also have "\<dots> \<le> 2 ^ (52 + spacing y)" using less by (intro power_increasing) simp_all
  also have "\<dots> = of_int (2 ^ 52) * 2 ^ spacing y" by (simp add: power_add)
  also have "\<dots> \<le> on_grid y"
  proof -
    have "of_int (2 ^ 52) \<le> y / 2 ^ spacing y" using spacing_ge [of y] less by (simp add: field_simps power_add)
    then have "(of_int (2 ^ 52) :: rat) \<le> of_int (nearest (y / 2 ^ spacing y))" unfolding of_int_le_iff by (rule nearest_ge)
    then show ?thesis unfolding on_grid_def by (rule mult_right_mono) simp
  qed
  finally show ?thesis .
qed

lemma on_grid_exact:
  assumes "k \<le> 2 ^ 53"
  shows "on_grid (of_nat k * 2 ^ t) = of_nat k * 2 ^ t"
proof -
  have exact: "on_grid (of_nat k * 2 ^ t) = of_nat k * 2 ^ t" if k: "k < 2 ^ 53" for k t
  proof -
    let ?x = "of_nat k * 2 ^ t :: rat"
    have "?x < 2 ^ 53 * 2 ^ t" using k by (intro mult_strict_right_mono) (simp_all only: of_nat_less_iff [where 'a = rat, symmetric] of_nat_power of_nat_numeral zero_less_power zero_less_numeral)
    then have up: "?x < 2 ^ (53 + t)" by (simp only: power_add)
    have le: "spacing ?x \<le> t"
    proof (rule ccontr)
      assume "\<not> spacing ?x \<le> t"
      then have "(2 :: rat) ^ (53 + t) \<le> 2 ^ (52 + spacing ?x)" "2 ^ (52 + spacing ?x) \<le> ?x" by (auto intro!: spacing_ge)
      with up show False by linarith
    qed
    have split: "(2 :: rat) ^ t = 2 ^ (t - spacing ?x) * 2 ^ spacing ?x" using le by (metis le_add_diff_inverse2 power_add)
    have "?x / 2 ^ spacing ?x = of_nat k * 2 ^ (t - spacing ?x)" by (subst (1) split) simp
    also have "\<dots> = of_int (int k * 2 ^ (t - spacing ?x))" by simp
    finally have "on_grid ?x = of_int (int k * 2 ^ (t - spacing ?x)) * 2 ^ spacing ?x" unfolding on_grid_def by (simp only: nearest_of_int)
    also have "\<dots> = of_nat k * (2 ^ (t - spacing ?x) * 2 ^ spacing ?x)" by simp
    finally show ?thesis by (simp only: split [symmetric])
  qed
  show ?thesis
  proof (cases "k < 2 ^ 53")
    case True
    then show ?thesis by (rule exact)
  next
    case False
    with assms have "k = 2 ^ 52 * 2" by simp
    then have "(of_nat k * 2 ^ t :: rat) = of_nat (2 ^ 52) * 2 ^ Suc t" by simp
    then show ?thesis using exact [of "2 ^ 52" "Suc t"] by (simp only:) simp
  qed
qed

lemma on_grid_error:
  assumes "0 \<le> x"
  shows "\<bar>on_grid x - x\<bar> \<le> max (1 / 2) (x / 2 ^ 53)"
proof -
  let ?p = "2 ^ spacing x :: rat"
  have "\<bar>on_grid x - x\<bar> = \<bar>(of_int (nearest (x / ?p)) - x / ?p) * ?p\<bar>" by (simp add: on_grid_def left_diff_distrib)
  also have "\<dots> \<le> 1 / 2 * ?p" unfolding abs_mult using nearest_error [of "x / ?p"] by (intro mult_mono) simp_all
  also have "\<dots> \<le> max (1 / 2) (x / 2 ^ 53)"
  proof (cases "spacing x = 0")
    case False
    have "(2 :: rat) ^ 53 = 2 ^ 52 * 2" by simp
    moreover have "2 ^ 52 * ?p \<le> x" using spacing_ge [OF False] by (simp only: power_add)
    ultimately have "1 / 2 * ?p \<le> x / 2 ^ 53" by (simp add: field_simps)
    then show ?thesis by simp
  qed simp
  finally show ?thesis .
qed

section \<open>Doubles\<close>

lemma dbl_0 [simp]: "dbl 0 = 0"
  by (simp add: dbl_def)

lemma dbl_minus: "dbl (- x) = - dbl x"
  by (simp add: dbl_def)

lemma dbl_nonneg: "0 \<le> x \<Longrightarrow> dbl x = on_grid (x * 2 ^ grain) / 2 ^ grain"
  using nearest_of_int [of 0] by (cases "x = 0") (simp_all add: dbl_def on_grid_def)

lemma dbl_ge_0 [simp]: "0 \<le> x \<Longrightarrow> 0 \<le> dbl x"
  by (simp add: dbl_nonneg on_grid_nonneg)

lemma dbl_mono: "0 \<le> x \<Longrightarrow> x \<le> y \<Longrightarrow> dbl x \<le> dbl y"
  by (simp add: dbl_nonneg divide_right_mono on_grid_mono)

lemma dbl_fraction: "k \<le> 2 ^ 53 \<Longrightarrow> s \<le> grain \<Longrightarrow> dbl (of_nat k / 2 ^ s) = of_nat k / 2 ^ s"
proof -
  assume k: "k \<le> 2 ^ 53" and s: "s \<le> grain"
  have "(of_nat k / 2 ^ s :: rat) * 2 ^ grain = of_nat k * 2 ^ (grain - s)" using s by (simp add: power_diff)
  then have "dbl (of_nat k / 2 ^ s) = of_nat k * 2 ^ (grain - s) / 2 ^ grain" using dbl_nonneg [of "of_nat k / 2 ^ s"] by (simp only: on_grid_exact [OF k]) simp
  also have "\<dots> = of_nat k / 2 ^ s" using s by (simp add: power_diff)
  finally show ?thesis .
qed

lemma dbl_of_nat [simp]: "k \<le> 2 ^ 53 \<Longrightarrow> dbl (of_nat k) = of_nat k"
  using dbl_fraction [of k 0] by simp

lemma dbl_1 [simp]: "dbl 1 = 1"
  using dbl_of_nat [of 1] by simp

lemma dbl_error:
  assumes "\<bar>x\<bar> \<le> b" "1 \<le> b"
  shows "\<bar>dbl x - x\<bar> \<le> b / 2 ^ 53"
proof -
  have pos: "\<bar>dbl x - x\<bar> \<le> b / 2 ^ 53" if x: "0 \<le> x" "x \<le> b" for x
  proof -
    let ?g = "2 ^ grain :: rat"
    have "\<bar>dbl x - x\<bar> = \<bar>on_grid (x * ?g) - x * ?g\<bar> / ?g"
      using x(1) by (simp add: dbl_nonneg diff_divide_distrib [symmetric] field_simps)
    also have "\<dots> \<le> max (1 / 2) (x * ?g / 2 ^ 53) / ?g" using x(1) by (intro divide_right_mono on_grid_error) simp_all
    also have "\<dots> \<le> b * ?g / 2 ^ 53 / ?g"
    proof (intro divide_right_mono max.boundedI)
      have "(2 :: rat) ^ 52 \<le> ?g" unfolding grain_def by (intro power_increasing) simp_all
      also have "\<dots> \<le> b * ?g" using assms(2) mult_right_mono [of 1 b ?g] by simp
      finally show "1 / 2 \<le> b * ?g / 2 ^ 53" by (simp add: field_simps)
      show "x * ?g \<le> b * ?g" using x(2) by (intro mult_right_mono) simp_all
    qed simp_all
    also have "\<dots> = b / 2 ^ 53" by simp
    finally show ?thesis .
  qed
  show ?thesis
  proof (cases "0 \<le> x")
    case True
    with assms show ?thesis by (intro pos) simp_all
  next
    case False
    have "\<bar>dbl (- x) - (- x)\<bar> \<le> b / 2 ^ 53" using False assms(1) by (intro pos) simp_all
    then show ?thesis by (simp add: dbl_minus abs_minus_commute)
  qed
qed

text \<open>A number between \<open>2^52\<close> and \<open>2^53\<close> units of \<open>2^-s\<close> is rounded to one of these units.\<close>

lemma dbl_normal:
  assumes "s \<le> grain" "2 ^ 52 \<le> x * 2 ^ s" "x * 2 ^ s < 2 ^ 53"
  shows "dbl x = of_int (nearest (x * 2 ^ s)) / 2 ^ s"
proof -
  let ?u = "grain - s"
  have g: "(2 :: rat) ^ grain = 2 ^ s * 2 ^ ?u" using assms(1) by (simp add: power_add [symmetric])
  have "0 \<le> x * 2 ^ s" using assms(2) by (rule order_trans [rotated]) simp
  then have x: "0 \<le> x" by (rule mult_right_le_imp_le [where c = "2 ^ s" and a = 0, simplified]) simp
  have "2 ^ 52 * 2 ^ ?u \<le> x * 2 ^ s * 2 ^ ?u" "x * 2 ^ s * 2 ^ ?u < 2 ^ 53 * 2 ^ ?u"
    using assms(2,3) by (intro mult_right_mono mult_strict_right_mono; simp)+
  then have "spacing (x * 2 ^ grain) = ?u" unfolding g by (intro spacing_eq) (simp_all only: power_add mult.assoc)
  then show ?thesis unfolding dbl_nonneg [OF x] on_grid_def by (simp add: g)
qed

section \<open>The load factor\<close>

text \<open>The integer formulas of \<open>Flat_Hash_Map\<close> compute what the code computes in doubles.\<close>

lemma load_factor: "dbl (7 / 10) = of_nat load_numerator / 2 ^ 53"
proof -
  have "dbl (7 / 10) = of_int (nearest (7 / 10 * 2 ^ 53)) / 2 ^ 53" by (rule dbl_normal) (simp_all add: grain_def)
  also have "nearest (7 / 10 * 2 ^ 53) = int load_numerator" by (simp add: nearest_def load_numerator_def floor_divide_of_int_eq [of 31525197391593472 5, simplified])
  finally show ?thesis by simp
qed

lemma max_entries_double: "\<lfloor>dmul (2 ^ k) (dbl (7 / 10))\<rfloor> = int (max_entries (2 ^ k))"
proof -
  have exact: "dbl (2 ^ k * (of_nat load_numerator / 2 ^ 53)) = 2 ^ k * (of_nat load_numerator / 2 ^ 53)"
  proof (cases "k \<le> 53")
    case True
    then have "(2 :: rat) ^ k * (of_nat load_numerator / 2 ^ 53) = of_nat load_numerator / 2 ^ (53 - k)" by (simp add: power_diff)
    then show ?thesis by (simp only:) (rule dbl_fraction; simp add: load_numerator_def grain_def)
  next
    case False
    then have "(2 :: rat) ^ k * (of_nat load_numerator / 2 ^ 53) = of_nat load_numerator * 2 ^ (k - 53)" by (simp add: power_diff)
    moreover have "dbl (of_nat load_numerator * 2 ^ (k - 53)) = of_nat load_numerator * 2 ^ (k - 53)"
      using on_grid_exact [of load_numerator "k - 53 + grain"] by (simp add: dbl_nonneg mult.assoc power_add [symmetric]) (simp add: load_numerator_def power_add)
    ultimately show ?thesis by (simp only:)
  qed
  have "(2 :: rat) ^ k * (of_nat load_numerator / 2 ^ 53) = of_nat (2 ^ k * load_numerator) / of_nat (2 ^ 53)" by simp
  then show ?thesis unfolding dmul_def load_factor exact max_entries_def by (simp only: floor_divide_of_nat_eq)
qed

lemma floor_of_power_fraction: "\<lfloor>of_int (int k) / 2 ^ s :: rat\<rfloor> = int (k div 2 ^ s)"
  using floor_divide_of_nat_eq [where 'a = rat, of k "2 ^ s"] by simp

lemma quotient_double:
  assumes "0 < n" "n \<le> 2 ^ 52"
  shows "\<lfloor>ddiv (dbl (of_nat n)) (dbl (7 / 10))\<rfloor> = int (quotient_by_load_factor n)"
proof -
  let ?a = "n * 2 ^ 53" and ?b = load_numerator
  let ?q = "of_nat ?a / of_nat ?b :: rat" and ?l = "log2_floor (n * 2 ^ 53 div load_numerator)"
  define s where "s = 52 - ?l"
  have b: "0 < ?b" by (simp add: load_numerator_def)
  have pos: "0 < ?a div ?b" using assms(1) by (simp add: div_greater_zero_iff load_numerator_def)
  note L = log2_floor_bounds [OF pos]
  have "?a div ?b < 2 ^ 53"
  proof -
    have "?a < 2 ^ 53 * ?b" using assms(2) by (simp add: load_numerator_def)
    then show ?thesis by (simp only: div_less_iff_less_mult b)
  qed
  with L have "(2 :: nat) ^ ?l < 2 ^ 53" by linarith
  then have "?l < 53" by (intro power_less_imp_less_exp [of 2]) simp_all
  then have ls: "?l + s = 52" by (simp add: s_def)
  have q: "of_nat (2 ^ ?l) \<le> ?q" "?q < of_nat (2 ^ Suc ?l)"
  proof -
    have "2 ^ ?l * ?b \<le> ?a" using L b by (simp add: less_eq_div_iff_mult_less_eq)
    then have "(of_nat (2 ^ ?l * ?b) :: rat) \<le> of_nat ?a" by (simp only: of_nat_le_iff)
    then show "of_nat (2 ^ ?l) \<le> ?q" using b by (simp only: of_nat_mult pos_le_divide_eq of_nat_0_less_iff)
    have "?a < 2 ^ Suc ?l * ?b" using L b by (simp only: div_less_iff_less_mult)
    then have "(of_nat ?a :: rat) < of_nat (2 ^ Suc ?l * ?b)" by (simp only: of_nat_less_iff)
    then show "?q < of_nat (2 ^ Suc ?l)" using b by (simp only: of_nat_mult pos_divide_less_eq of_nat_0_less_iff)
  qed
  have pw: "(2 :: rat) ^ ?l * 2 ^ s = 2 ^ 52" by (simp only: power_add [symmetric] ls)
  have up: "(2 :: rat) ^ 52 = of_nat (2 ^ ?l) * 2 ^ s" "(2 :: rat) ^ 53 = of_nat (2 ^ Suc ?l) * 2 ^ s"
    using pw by (simp_all only: of_nat_power of_nat_numeral power_Suc mult.assoc) (simp add: mult.commute)
  have "dbl ?q = of_int (nearest (?q * 2 ^ s)) / 2 ^ s"
    by (rule dbl_normal; (unfold up)?; (intro mult_right_mono mult_strict_right_mono q)?; simp add: s_def grain_def)
  also have "?q * 2 ^ s = of_nat (n * 2 ^ 53 * 2 ^ s) / of_nat ?b" by simp
  also have "nearest \<dots> = int (round_half_even (n * 2 ^ 53 * 2 ^ s) ?b)" by (rule nearest_fraction [OF b])
  finally have "\<lfloor>dbl ?q\<rfloor> = int (round_half_even (n * 2 ^ 53 * 2 ^ s) ?b div 2 ^ s)" by (simp only: floor_of_power_fraction)
  moreover have "of_nat n / (of_nat load_numerator / 2 ^ 53) = ?q" by simp
  moreover have "dbl (of_nat n) = of_nat n" using assms(2) by (intro dbl_of_nat) simp
  ultimately show ?thesis by (simp add: ddiv_def load_factor quotient_by_load_factor_def Let_def s_def)
qed

end
