(* ===== verification/Benchmark.thy ===== *)
theory Benchmark
  imports Engine Doubles
begin

text \<open>
  The driver \<open>bench/benchmark_main.cpp\<close>: the argument parser, the instrument setup, the price
  generators, one operation of the workload with its bookkeeping of open ids and its latency
  sample, the statistics, and \<open>main\<close> up to the numbers that it prints. The draws of the random
  generators, the readings of the clock and the lines of \<open>/proc/self/status\<close> are arguments.
\<close>

section \<open>The listener's counters\<close>

record counters =
  nl_accepted :: "64 word"
  nl_rejected :: "64 word"
  nl_trades :: "64 word"
  nl_canceled :: "64 word"
  nl_replaced :: "64 word"

fun count_event :: "event \<Rightarrow> counters \<Rightarrow> counters" where
  "count_event (On_accepted _) c = c\<lparr>nl_accepted := nl_accepted c + 1\<rparr>"
| "count_event (On_rejected _ _) c = c\<lparr>nl_rejected := nl_rejected c + 1\<rparr>"
| "count_event (On_trade _ _ _ _ _ _ _) c = c\<lparr>nl_trades := nl_trades c + 1\<rparr>"
| "count_event (On_canceled _ _ _) c = c\<lparr>nl_canceled := nl_canceled c + 1\<rparr>"
| "count_event (On_replaced _ _ _ _) c = c\<lparr>nl_replaced := nl_replaced c + 1\<rparr>"

definition null_listener :: "event list \<Rightarrow> counters" where
  "null_listener evs = fold count_event evs
    \<lparr>nl_accepted = 0, nl_rejected = 0, nl_trades = 0, nl_canceled = 0, nl_replaced = 0\<rparr>"

definition count_of :: "(event \<Rightarrow> bool) \<Rightarrow> event list \<Rightarrow> 64 word" where
  "count_of P evs = word_of_nat (length (filter P evs))"

lemma null_listener_counts:
  "nl_accepted (null_listener evs) = count_of (\<lambda>ev. \<exists>i. ev = On_accepted i) evs"
  "nl_rejected (null_listener evs) = count_of (\<lambda>ev. \<exists>i r. ev = On_rejected i r) evs"
  "nl_trades (null_listener evs) = count_of (\<lambda>ev. \<exists>t iid p q r a sd. ev = On_trade t iid p q r a sd) evs"
  "nl_canceled (null_listener evs) = count_of (\<lambda>ev. \<exists>i q c. ev = On_canceled i q c) evs"
  "nl_replaced (null_listener evs) = count_of (\<lambda>ev. \<exists>i j p n. ev = On_replaced i j p n) evs"
proof -
  let ?A = "\<lambda>ev. \<exists>i. ev = On_accepted i" and ?R = "\<lambda>ev. \<exists>i r. ev = On_rejected i r"
    and ?T = "\<lambda>ev. \<exists>t iid p q r a sd. ev = On_trade t iid p q r a sd" and ?C = "\<lambda>ev. \<exists>i q c. ev = On_canceled i q c"
    and ?S = "\<lambda>ev. \<exists>i j p n. ev = On_replaced i j p n"
  have "nl_accepted (fold count_event evs c) = nl_accepted c + count_of ?A evs \<and> nl_rejected (fold count_event evs c) = nl_rejected c + count_of ?R evs
    \<and> nl_trades (fold count_event evs c) = nl_trades c + count_of ?T evs \<and> nl_canceled (fold count_event evs c) = nl_canceled c + count_of ?C evs
    \<and> nl_replaced (fold count_event evs c) = nl_replaced c + count_of ?S evs" for c
  proof (induction evs arbitrary: c)
    case (Cons ev evs)
    from Cons.IH [of "count_event ev c"] show ?case by (cases ev) (simp_all add: count_of_def)
  qed (simp add: count_of_def)
  then show "nl_accepted (null_listener evs) = count_of ?A evs" "nl_rejected (null_listener evs) = count_of ?R evs"
    "nl_trades (null_listener evs) = count_of ?T evs" "nl_canceled (null_listener evs) = count_of ?C evs"
    "nl_replaced (null_listener evs) = count_of ?S evs" by (simp_all add: null_listener_def)
qed

section \<open>Arguments\<close>

text \<open>
  \<open>strtoull (s, nullptr, 10)\<close>: white space, a sign, digits. The value saturates at the largest
  64-bit integer, a minus sign negates modulo \<open>2^64\<close>, and no digits give 0.
\<close>

definition is_space :: "char \<Rightarrow> bool" where
  "is_space c \<longleftrightarrow> of_char c = (32 :: nat) \<or> 9 \<le> (of_char c :: nat) \<and> of_char c \<le> (13 :: nat)"

definition is_digit :: "char \<Rightarrow> bool" where
  "is_digit c \<longleftrightarrow> 48 \<le> (of_char c :: nat) \<and> of_char c \<le> (57 :: nat)"

definition digits_value :: "string \<Rightarrow> nat" where
  "digits_value s = fold (\<lambda>c v. 10 * v + (of_char c - 48)) s 0"

definition strtoull :: "string \<Rightarrow> 64 word" where
  "strtoull s =
    (let s = dropWhile is_space s;
         negative = (s \<noteq> [] \<and> of_char (hd s) = (45 :: nat));
         s = (if s \<noteq> [] \<and> of_char (hd s) \<in> {43 :: nat, 45} then tl s else s);
         v = digits_value (takeWhile is_digit s)
     in if 2 ^ 64 \<le> v then - 1 else if negative then - word_of_nat v else word_of_nat v)"

text \<open>
  The resident memory, from the lines of \<open>/proc/self/status\<close> (none if the file cannot be opened):
  the number after the first \<open>VmRSS:\<close>, in units of 1024 bytes.
\<close>

fun current_rss_bytes :: "string list \<Rightarrow> 64 word" where
  "current_rss_bytes [] = 0"
| "current_rss_bytes (line # rest) =
    (if take 6 line = ''VmRSS:'' then strtoull (drop 6 line) * 1024 else current_rss_bytes rest)"

lemma current_rss_example: "current_rss_bytes [''VmSize:  900 kB'', ''VmRSS:   120 kB'', ''VmData:  7 kB''] = 122880"
  by (simp add: strtoull_def digits_value_def is_digit_def is_space_def Let_def)

record args =
  num_ops :: "64 word"
  num_instruments :: "64 word"
  warmup_ops :: "64 word"
  seed :: "64 word"

definition parse_args :: "string list \<Rightarrow> args" where
  "parse_args argv =
    (let a = \<lparr>num_ops = 10000000, num_instruments = 120, warmup_ops = 500000, seed = 42\<rparr>;
         argc = length argv;
         a = (if 1 < argc then a\<lparr>num_ops := strtoull (argv ! 1)\<rparr> else a);
         a = (if 2 < argc then a\<lparr>num_instruments := strtoull (argv ! 2)\<rparr> else a);
         a = (if 3 < argc then a\<lparr>warmup_ops := strtoull (argv ! 3)\<rparr> else a);
         a = (if 4 < argc then a\<lparr>seed := strtoull (argv ! 4)\<rparr> else a)
     in a)"

section \<open>Instruments\<close>

text \<open>\<open>raw i\<close> is the \<open>i\<close>-th number drawn for a reference price.\<close>

definition drawn_price :: "double \<Rightarrow> price" where
  "drawn_price r = truncated (dmul r 10000)"

definition setup_config :: "(nat \<Rightarrow> double) \<Rightarrow> nat \<Rightarrow> instrument_config" where
  "setup_config raw i =
    (let ref = drawn_price (raw i);
         step = tick_size ref;
         ref = ref - ref smod step;
         ref = (if ref \<le> 0 then step else ref)
     in \<lparr>ic_instrument_id = word_of_nat (i + 1), ic_reference_price = ref, ic_band_bps = 1000\<rparr>)"

definition setup_configs :: "(nat \<Rightarrow> double) \<Rightarrow> nat \<Rightarrow> instrument_config list" where
  "setup_configs raw n = map (setup_config raw) [0..<n]"

definition inst_tick :: "instrument_config list \<Rightarrow> nat \<Rightarrow> price" where
  "inst_tick configs inst_idx = tick_size (ic_reference_price (configs ! inst_idx))"

section \<open>The workload\<close>

text \<open>
  What one operation draws, \<open>dr_index n\<close> among \<open>n\<close> open ids, and the clock before and after its
  call, in nanoseconds.
\<close>

record draws =
  dr_op_pct :: int
  dr_inst :: nat
  dr_side :: int
  dr_passive_offset :: int
  dr_aggressive_offset :: int
  dr_qty :: int
  dr_submarket :: int
  dr_index :: "nat \<Rightarrow> nat"
  dr_start :: int
  dr_stop :: int

record driver =
  bd_engine :: engine
  bd_open_ids :: "order_id list"
  bd_next_id :: order_id
  bd_latencies :: "64 word list"

definition picked_side :: "draws \<Rightarrow> side" where
  "picked_side d = (if dr_side d \<noteq> 0 then kSell else kBuy)"

definition gen_passive_price :: "instrument_config list \<Rightarrow> draws \<Rightarrow> nat \<Rightarrow> side \<Rightarrow> price" where
  "gen_passive_price configs d inst_idx side =
    (let ref = ic_reference_price (configs ! inst_idx);
         delta = dr_passive_offset d * inst_tick configs inst_idx;
         p = (if side = kBuy then ref - delta else ref + delta)
     in if p \<le> 0 then inst_tick configs inst_idx else p)"

definition gen_aggressive_price :: "instrument_config list \<Rightarrow> draws \<Rightarrow> nat \<Rightarrow> side \<Rightarrow> price" where
  "gen_aggressive_price configs d inst_idx side =
    (let ref = ic_reference_price (configs ! inst_idx);
         delta = dr_aggressive_offset d * inst_tick configs inst_idx;
         p = (if side = kBuy then ref + delta else ref - delta)
     in if p \<le> 0 then inst_tick configs inst_idx else p)"

definition take_id :: "driver \<Rightarrow> driver" where
  "take_id bd = bd\<lparr>bd_next_id := bd_next_id bd + 1\<rparr>"

text \<open>The call of an operation; a timed one leaves a sample.\<close>

definition sample :: "draws \<Rightarrow> 64 word" where
  "sample d = word_of_int (dr_stop d - dr_start d)"

definition call :: "bool \<Rightarrow> allocator \<Rightarrow> draws \<Rightarrow> command \<Rightarrow> driver \<Rightarrow> driver option" where
  "call timed al d c bd = do {
     e \<leftarrow> step al (bd_engine bd) c;
     Some (bd\<lparr>bd_engine := e, bd_latencies := (if timed then bd_latencies bd @ [sample d] else bd_latencies bd)\<rparr>) }"

definition passive_order :: "instrument_config list \<Rightarrow> draws \<Rightarrow> order_id \<Rightarrow> new_order" where
  "passive_order configs d i = \<lparr>no_order_id = i, no_instrument_id = word_of_nat (dr_inst d + 1), no_side = picked_side d,
     no_type = kLimit, no_tif = kDay, no_price = gen_passive_price configs d (dr_inst d) (picked_side d),
     no_quantity = word_of_int (dr_qty d)\<rparr>"

definition aggressive_order :: "instrument_config list \<Rightarrow> draws \<Rightarrow> order_id \<Rightarrow> new_order" where
  "aggressive_order configs d i =
    (let o1 = \<lparr>no_order_id = i, no_instrument_id = word_of_nat (dr_inst d + 1), no_side = picked_side d,
               no_type = kLimit, no_tif = kDay, no_price = 0, no_quantity = word_of_int (dr_qty d)\<rparr>;
         price = gen_aggressive_price configs d (dr_inst d) (picked_side d)
     in if dr_submarket d = 0 then o1\<lparr>no_type := kLimit, no_tif := kIoc, no_price := price\<rparr>
        else if dr_submarket d = 1 then o1\<lparr>no_type := kMarket, no_tif := kIoc, no_price := 0\<rparr>
        else if dr_submarket d = 2 then o1\<lparr>no_type := kLimit, no_tif := kFok, no_price := price\<rparr>
        else o1\<lparr>no_type := kMarket, no_tif := kFok, no_price := 0\<rparr>)"

definition run_one :: "instrument_config list \<Rightarrow> bool \<Rightarrow> allocator \<Rightarrow> draws \<Rightarrow> driver \<Rightarrow> driver option" where
  "run_one configs timed al d bd =
    (let r = (if 55 \<le> dr_op_pct d \<and> bd_open_ids bd = [] then 0 else dr_op_pct d);
         ids = bd_open_ids bd;
         idx = dr_index d (length ids);
         fresh = bd_next_id bd
     in if r < 55 then do {
          bd \<leftarrow> call timed al d (Submit (passive_order configs d fresh)) (take_id bd);
          Some (bd\<lparr>bd_open_ids := ids @ [fresh]\<rparr>) }
        else if r < 80 then
          call timed al d (Cancel \<lparr>co_order_id = ids ! idx\<rparr>) (bd\<lparr>bd_open_ids := butlast (ids[idx := last ids])\<rparr>)
        else if r < 90 then do {
          let req = \<lparr>ro_order_id = ids ! idx, ro_new_order_id = fresh,
                ro_new_price = gen_passive_price configs d (dr_inst d) (picked_side d), ro_new_quantity = word_of_int (dr_qty d)\<rparr>;
          bd \<leftarrow> call timed al d (Replace req) (take_id bd);
          Some (bd\<lparr>bd_open_ids := ids[idx := fresh]\<rparr>) }
        else call timed al d (Submit (aggressive_order configs d fresh)) (take_id bd))"

fun run_ops :: "instrument_config list \<Rightarrow> bool \<Rightarrow> (allocator \<times> draws) list \<Rightarrow> driver \<Rightarrow> driver option" where
  "run_ops configs timed [] bd = Some bd"
| "run_ops configs timed ((al, d) # ops) bd = do { bd \<leftarrow> run_one configs timed al d bd; run_ops configs timed ops bd }"

section \<open>Statistics\<close>

definition percentile :: "64 word list \<Rightarrow> double \<Rightarrow> double" where
  "percentile sorted_ns p =
    (if sorted_ns = [] then 0
     else let idx = dmul p (dbl (of_nat (length sorted_ns - 1)));
              lo = nat (truncated idx);
              hi = min (lo + 1) (length sorted_ns - 1);
              frac = dsub idx (dbl (of_nat lo))
          in dadd (dmul (dbl (of_nat (unat (sorted_ns ! lo)))) (dsub 1 frac)) (dmul (dbl (of_nat (unat (sorted_ns ! hi)))) frac))"

definition wall_seconds :: "int \<Rightarrow> int \<Rightarrow> double" where
  "wall_seconds wall_start wall_end = ddiv (dbl (of_int (wall_end - wall_start))) (10 ^ 9)"

text \<open>The throughput is not a number, or infinite, if no time has passed.\<close>

definition throughput :: "nat \<Rightarrow> double \<Rightarrow> double option" where
  "throughput n wall = (if wall = 0 then None else Some (ddiv (dbl (of_nat n)) wall))"

definition max_ns :: "64 word list \<Rightarrow> 64 word" where
  "max_ns sorted_ns = (if sorted_ns = [] then 0 else last sorted_ns)"

definition megabytes :: "64 word \<Rightarrow> double" where
  "megabytes rss = ddiv (dbl (of_nat (unat rss))) (1024 * 1024)"

record report =
  rp_timed_ops :: nat
  rp_wall_seconds :: double
  rp_throughput :: "double option"
  rp_percentiles :: "double list"
  rp_max_ns :: "64 word"
  rp_rss_before :: double
  rp_rss_after :: double
  rp_events :: counters

text \<open>What \<open>main\<close> reads from the system before and after the timed loop.\<close>

record readings =
  rd_status_before :: "string list"
  rd_wall_start :: int
  rd_wall_end :: int
  rd_status_after :: "string list"

definition report_of :: "readings \<Rightarrow> driver \<Rightarrow> report" where
  "report_of rd bd =
    (let sorted_ns = sort (bd_latencies bd);
         wall = wall_seconds (rd_wall_start rd) (rd_wall_end rd)
     in \<lparr>rp_timed_ops = length sorted_ns, rp_wall_seconds = wall, rp_throughput = throughput (length (bd_latencies bd)) wall,
         rp_percentiles = map (percentile sorted_ns) [dbl (50 / 100), dbl (90 / 100), dbl (99 / 100), dbl (999 / 1000)],
         rp_max_ns = max_ns sorted_ns, rp_rss_before = megabytes (current_rss_bytes (rd_status_before rd)),
         rp_rss_after = megabytes (current_rss_bytes (rd_status_after rd)), rp_events = null_listener (eng_events (bd_engine bd))\<rparr>)"

section \<open>main\<close>

text \<open>
  \<open>main\<close>: the exit status and, unless an early return was taken, the driver at the end of the timed
  loop and the report. \<open>al\<close> is the allocator of the setup, \<open>raw\<close> the numbers drawn for the prices,
  \<open>ops i\<close> what the \<open>i\<close>-th operation meets. The vectors of the driver itself are taken to be allocated.
\<close>

definition bench_main :: "allocator \<Rightarrow> (nat \<Rightarrow> double) \<Rightarrow> (nat \<Rightarrow> allocator \<times> draws) \<Rightarrow> readings \<Rightarrow> string list
    \<Rightarrow> (int \<times> (driver \<times> report) option) option" where
  "bench_main al raw ops rd argv =
    (let a = parse_args argv;
         warmup = unat (warmup_ops a);
         total = warmup + unat (num_ops a)
     in do {
       created \<leftarrow> xmatch_create al True;
       case created of
         None \<Rightarrow> Some (1, None)
       | Some e \<Rightarrow> do {
           let configs = setup_configs raw (unat (num_instruments a));
           (res, e) \<leftarrow> configure al e (Some configs);
           if res \<noteq> kOk then Some (1, None)
           else do {
             let bd = \<lparr>bd_engine = e, bd_open_ids = [], bd_next_id = 1, bd_latencies = []\<rparr>;
             bd \<leftarrow> run_ops configs False (map ops [0..<warmup]) bd;
             bd \<leftarrow> run_ops configs True (map ops [warmup..<total]) bd;
             Some (0, Some (bd, report_of rd bd)) } } })"

end
