(* ===== verification/Benchmark_Runs.thy ===== *)
theory Benchmark_Runs
  imports Benchmark Event_Types
begin

text \<open>
  The benchmark as a client of the engine: its instruments are accepted, and every operation
  keeps the driver's invariant, which says that its ids are new, its instruments known, and that
  nothing was rejected so far for a reason the driver could have avoided.
\<close>

section \<open>The instruments\<close>

definition raw_in_range :: "(nat \<Rightarrow> double) \<Rightarrow> bool" where
  "raw_in_range raw \<longleftrightarrow> (\<forall>i. 5 \<le> raw i \<and> raw i \<le> 480)"

lemma drawn_price_range:
  assumes "raw_in_range raw"
  shows "50000 \<le> drawn_price (raw i)" "drawn_price (raw i) \<le> 4800000"
proof -
  have r: "5 \<le> raw i" "raw i \<le> 480" using assms by (simp_all add: raw_in_range_def)
  have "dbl (of_nat 50000) \<le> dmul (raw i) 10000" "dmul (raw i) 10000 \<le> dbl (of_nat 4800000)"
    unfolding dmul_def using r by (intro dbl_mono; simp)+
  then have "50000 \<le> dmul (raw i) 10000" "dmul (raw i) 10000 \<le> 4800000" by (simp_all del: of_nat_numeral)
  then show "50000 \<le> drawn_price (raw i)" "drawn_price (raw i) \<le> 4800000"
    unfolding drawn_price_def truncated_def by (simp_all add: le_floor_iff floor_le_iff)
qed

lemma setup_config_sel:
  assumes "raw_in_range raw"
  shows "ic_reference_price (setup_config raw i) = floor_to_tick (drawn_price (raw i))" "ic_instrument_id (setup_config raw i) = word_of_nat (i + 1)"
    "ic_band_bps (setup_config raw i) = 1000"
proof -
  note r = drawn_price_range [OF assms, of i]
  from r have "0 < floor_to_tick (drawn_price (raw i))" using aligned_ge_100 [OF floor_to_tick_aligned, of "drawn_price (raw i)"] by simp
  with r show "ic_reference_price (setup_config raw i) = floor_to_tick (drawn_price (raw i))" "ic_instrument_id (setup_config raw i) = word_of_nat (i + 1)"
    "ic_band_bps (setup_config raw i) = 1000"
    by (simp_all add: setup_config_def Let_def floor_to_tick_def)
qed

lemma setup_reference:
  assumes "raw_in_range raw"
  shows "is_tick_aligned (floor_to_tick (drawn_price (raw i)))" "100 \<le> floor_to_tick (drawn_price (raw i))" "floor_to_tick (drawn_price (raw i)) \<le> 4800000"
proof -
  note r = drawn_price_range [OF assms, of i]
  from r show a: "is_tick_aligned (floor_to_tick (drawn_price (raw i)))" by (intro floor_to_tick_aligned) simp
  show "100 \<le> floor_to_tick (drawn_price (raw i))" by (rule aligned_ge_100 [OF a])
  show "floor_to_tick (drawn_price (raw i)) \<le> 4800000" using floor_to_tick_le [of "drawn_price (raw i)"] r by simp
qed

lemma setup_config_fits:
  assumes "raw_in_range raw"
  shows "\<not> config_invalid (setup_config raw i)" "ladder_fits (setup_config raw i)"
proof -
  note R = setup_reference [OF assms, of i] and sel = setup_config_sel [OF assms, of i]
  show "\<not> config_invalid (setup_config raw i)"
    using R by (simp add: config_invalid_def sel band_constants)
  let ?ref = "floor_to_tick (drawn_price (raw i))"
  have lo: "0 < band_lo_of ?ref 1000"
    unfolding band_lo_of_def Let_def by (rule is_tick_aligned_pos [OF ceil_to_tick_aligned])
  have hi: "band_hi_of ?ref 1000 \<le> 2 * 4800000"
  proof -
    have delta: "0 \<le> ?ref * 1000 sdiv 10000" "?ref * 1000 sdiv 10000 \<le> ?ref" using R(2) by simp_all
    then have "band_hi_of ?ref 1000 \<le> ?ref + ?ref * 1000 sdiv 10000"
      unfolding band_hi_of_def Let_def kBpsPerUnit_def using R(2) by (intro order_trans [OF floor_to_tick_le]) simp_all
    with delta R(3) show ?thesis by linarith
  qed
  have "(band_hi_of ?ref 1000 - band_lo_of ?ref 1000) div 100 \<le> (2 * 4800000) div 100" using lo hi by (intro zdiv_mono1) simp_all
  then show "ladder_fits (setup_config raw i)" by (simp add: ladder_fits_def sel)
qed

lemma setup_valid:
  assumes "raw_in_range raw" "0 < n" "n < 2 ^ 32"
  shows "valid_configs (setup_configs raw n)" "\<forall>cfg \<in> set (setup_configs raw n). ladder_fits cfg"
proof -
  have ids: "map ic_instrument_id (setup_configs raw n) = map (\<lambda>i. word_of_nat (i + 1)) [0..<n]"
    by (simp add: setup_configs_def setup_config_sel [OF assms(1)])
  have "inj_on (\<lambda>i. word_of_nat (i + 1) :: 32 word) {..<n}"
  proof (rule inj_onI)
    fix i j assume ij: "i \<in> {..<n}" "j \<in> {..<n}" "(word_of_nat (i + 1) :: 32 word) = word_of_nat (j + 1)"
    have u: "unat (word_of_nat k :: 32 word) = k" if "k < 2 ^ 32" for k using that by (simp add: unat_word_of_nat)
    have "i + 1 = unat (word_of_nat (i + 1) :: 32 word)" using ij(1) assms(3) by (intro u [symmetric]) simp
    also have "\<dots> = j + 1" unfolding ij(3) using ij(2) assms(3) by (intro u) simp
    finally show "i = j" by simp
  qed
  then have "distinct (map ic_instrument_id (setup_configs raw n))" unfolding ids by (simp add: distinct_map lessThan_atLeast0)
  then show "valid_configs (setup_configs raw n)"
    using assms setup_config_fits [OF assms(1)] by (auto simp: valid_configs_def setup_configs_def)
  show "\<forall>cfg \<in> set (setup_configs raw n). ladder_fits cfg"
    using setup_config_fits [OF assms(1)] by (auto simp: setup_configs_def)
qed

section \<open>What a client with new ids meets\<close>

definition harmless :: "event \<Rightarrow> bool" where
  "harmless ev \<longleftrightarrow> (\<forall>i r. ev = On_rejected i r \<longrightarrow> r \<in> {kUnknownOrder, kInvalidPriceTick, kPriceOutOfBand})"

definition benign :: "exchange \<Rightarrow> command \<Rightarrow> bool" where
  "benign ex c \<longleftrightarrow> (case c of
      Submit order \<Rightarrow> book_index ex (no_instrument_id order) \<noteq> None \<and> no_order_id order \<notin> ex_used ex \<and> no_quantity order \<noteq> 0
        \<and> (no_type order = kMarket \<longrightarrow> no_tif order \<noteq> kDay)
    | Cancel _ \<Rightarrow> True
    | Replace req \<Rightarrow> ro_new_order_id req \<notin> ex_used ex)"

fun spends :: "command \<Rightarrow> order_id set" where
  "spends (Submit order) = {no_order_id order}"
| "spends (Cancel _) = {}"
| "spends (Replace req) = {ro_new_order_id req}"

definition served_well :: "exchange \<Rightarrow> exchange \<Rightarrow> bool" where
  "served_well ex ex' \<longleftrightarrow> (\<exists>new. ex_events ex' = ex_events ex @ new \<and> (\<forall>ev \<in> set new. harmless ev))"

lemma served_trans: "served_well ex ex1 \<Longrightarrow> served_well ex1 ex2 \<Longrightarrow> served_well ex ex2"
  unfolding served_well_def by (elim exE conjE) auto

lemma served_same: "ex_events ex' = ex_events ex \<Longrightarrow> served_well ex ex'"
  by (simp add: served_well_def)

lemma served_emit: "harmless ev \<Longrightarrow> served_well ex (ex_emit ev ex)"
  by (simp add: served_well_def)

lemma harmless_simps [simp]:
  "harmless (On_accepted i)" "harmless (On_trade t iid p q r a sd)" "harmless (On_canceled i q c)" "harmless (On_replaced i j p n)"
  "harmless (On_rejected i reason) \<longleftrightarrow> reason \<in> {kUnknownOrder, kInvalidPriceTick, kPriceOutOfBand}"
  by (auto simp: harmless_def)

lemma served_match: "ex_match b i sd is_market limit_price n ex = (n', ex') \<Longrightarrow> served_well ex ex' \<and> ex_used ex' = ex_used ex"
proof -
  assume m: "ex_match b i sd is_market limit_price n ex = (n', ex')"
  obtain os tid evs where T: "take_liquidity (ab_instrument (ex_books ex ! b)) i sd (acceptable sd is_market limit_price)
      (ex_next_trade_id ex) n (ab_orders (ex_books ex ! b) (opposite sd)) = (n', os, tid, evs)"
    and ex': "ex' = (upd_book b (set_orders (opposite sd) os) ex)\<lparr>ex_next_trade_id := tid, ex_events := ex_events ex @ evs\<rparr>"
    using m by (auto simp: ex_match_def Let_def split: prod.splits)
  have "is_trade ev" if "ev \<in> set evs" for ev
    using take_liquidity_numbered(1) [OF T] that unfolding trades_def filter_id_conv by blast
  then have "harmless ev" if "ev \<in> set evs" for ev using that by (cases ev) fastforce+
  then show "served_well ex ex' \<and> ex_used ex' = ex_used ex" by (simp add: served_well_def ex')
qed

lemma served_accept: "served_well ex (ex_accept v order b is_market price ex) \<and> ex_used (ex_accept v order b is_market price ex) = ex_used ex"
proof -
  let ?ex = "ex_emit (On_accepted (no_order_id order)) ex"
  obtain n' ex' where m: "ex_match b (no_order_id order) (no_side order) is_market price (no_quantity order) ?ex = (n', ex')" by (rule prod.exhaust)
  have 1: "served_well ex ?ex" by (rule served_emit) simp
  have 2: "served_well ex ex'" "ex_used ex' = ex_used ex" using served_match [OF m] served_trans [OF 1] by simp_all
  have 3: "served_well ex (ex_emit (On_canceled i q r) ex')" "served_well ex (ex_emit (On_canceled i q r) ?ex)" for i q r
    by (rule served_trans [OF 2(1) served_emit] served_trans [OF 1 served_emit]; simp)+
  have 4: "served_well ex (ex_rest b sd r ex')" for sd r by (rule served_trans [OF 2(1) served_same]) (simp add: ex_rest_def)
  show ?thesis using 2 3 4 by (simp add: ex_accept_def Let_def m ex_rest_def)
qed

lemma served_use: "served_well (ex\<lparr>ex_used := U\<rparr>) ex' \<Longrightarrow> served_well ex ex'"
  by (simp add: served_well_def)

lemma served_submit:
  assumes "benign ex (Submit order)"
  shows "served_well ex (ex_submit v order ex) \<and> ex_used (ex_submit v order ex) \<subseteq> insert (no_order_id order) (ex_used ex)"
proof -
  let ?ex = "ex\<lparr>ex_used := insert (no_order_id order) (ex_used ex)\<rparr>"
  obtain b where b: "book_index ex (no_instrument_id order) = Some b" and new: "no_order_id order \<notin> ex_used ex" and n: "no_quantity order \<noteq> 0"
    and day: "no_type order = kMarket \<longrightarrow> no_tif order \<noteq> kDay" using assms by (auto simp: benign_def)
  have sub: "ex_submit v order ex = ex_validated v order b ?ex" using new by (simp add: ex_submit_def b)
  have acc: "served_well ?ex (ex_accept v order b m p ?ex) \<and> ex_used (ex_accept v order b m p ?ex) = ex_used ?ex" for m p by (rule served_accept)
  have rej: "served_well ?ex (ex_emit (On_rejected i r) ?ex)" if "r \<in> {kInvalidPriceTick, kPriceOutOfBand}" for i r
    using that by (intro served_emit) auto
  have "served_well ?ex (ex_submit v order ex) \<and> ex_used (ex_submit v order ex) = ex_used ?ex"
    unfolding sub ex_validated_def Let_def using n day acc rej by simp
  then show ?thesis using served_use by fastforce
qed

lemma served_cancel: "served_well ex (ex_cancel req ex) \<and> ex_used (ex_cancel req ex) = ex_used ex"
  by (auto simp: ex_cancel_def ex_remove_def served_well_def split: option.split)

lemma served_commit: "served_well ex (ex_commit req b sd r n ex) \<and> ex_used (ex_commit req b sd r n ex) = ex_used ex"
proof -
  let ?ex1 = "ex_emit (On_replaced (ro_order_id req) (ro_new_order_id req) (ro_new_price req) n) (ex_remove b sd (ro_order_id req) ex)"
  obtain m ex' where m: "(if ro_new_price req = ao_price r then (n, ?ex1) else ex_match b (ro_new_order_id req) sd False (ro_new_price req) n ?ex1) = (m, ex')"
    by (rule prod.exhaust)
  have 1: "served_well ex ?ex1 \<and> ex_used ?ex1 = ex_used ex" by (simp add: served_well_def ex_remove_def)
  have "served_well ?ex1 ex' \<and> ex_used ex' = ex_used ?ex1"
    using m served_match [of b "ro_new_order_id req" sd False "ro_new_price req" n ?ex1 m ex'] by (auto simp: served_same split: if_splits)
  then have 2: "served_well ex ex' \<and> ex_used ex' = ex_used ex" using 1 served_trans by metis
  have 3: "served_well ex (ex_rest b sd x ex') \<and> ex_used (ex_rest b sd x ex') = ex_used ex" for x
    using 2 served_trans [OF _ served_same, of ex ex' "ex_rest b sd x ex'"] by (simp add: ex_rest_def)
  have 4: "served_well ex (ex_emit (On_replaced i j p n) (upd_book b f ex)) \<and> ex_used (ex_emit (On_replaced i j p n) (upd_book b f ex)) = ex_used ex" for i j p f
    by (simp add: served_well_def)
  show ?thesis unfolding ex_commit_def Let_def m prod.case using 2 3 4 by (auto simp only: split: if_splits)
qed

lemma served_replace:
  assumes "benign ex (Replace req)"
  shows "served_well ex (ex_replace req ex) \<and> ex_used (ex_replace req ex) \<subseteq> insert (ro_new_order_id req) (ex_used ex)"
proof (cases "find_order ex (ro_order_id req)")
  case None
  then show ?thesis by (auto simp: ex_replace_def Let_def intro: served_emit)
next
  case (Some y)
  obtain b sd x where y: "y = (b, sd, x)" by (cases y)
  let ?ex = "ex\<lparr>ex_used := insert (ro_new_order_id req) (ex_used ex)\<rparr>"
  have new: "\<not> (ro_new_order_id req \<noteq> ro_order_id req \<and> ro_new_order_id req \<in> ex_used ex)" using assms by (simp add: benign_def)
  have com: "served_well ex (ex_commit req b sd x n ?ex) \<and> ex_used (ex_commit req b sd x n ?ex) = insert (ro_new_order_id req) (ex_used ex)" for n
    using served_commit [of ?ex req b sd x n] served_use [where ex = ex and U = "insert (ro_new_order_id req) (ex_used ex)"] by simp
  have gone: "served_well ex (ex_emit (On_canceled i q c) (ex_remove b sd i ex)) \<and> ex_used (ex_emit (On_canceled i q c) (ex_remove b sd i ex)) = ex_used ex" for i q c
    by (simp add: served_well_def ex_remove_def)
  have rej: "served_well ex (ex_emit (On_rejected i r) ex) \<and> ex_used (ex_emit (On_rejected i r) ex) = ex_used ex"
    if "r \<in> {kInvalidPriceTick, kPriceOutOfBand}" for i r
    using that by (auto intro: served_emit)
  show ?thesis unfolding ex_replace_def Let_def Some y option.case prod.case if_not_P [OF new]
    using com gone rej by (simp split: if_split) blast
qed

lemma step_served:
  assumes "ex_step ex c ex'" "benign ex c"
  shows "served_well ex ex' \<and> ex_used ex' \<subseteq> spends c \<union> ex_used ex"
  using assms
proof (induction rule: ex_step.induct)
  case (submit v order ex)
  then show ?case using served_submit [of ex order v] by simp
next
  case (cancel ex req)
  then show ?case using served_cancel [of ex req] by simp
next
  case (replace ex req)
  then show ?case using served_replace [of ex req] by simp
qed

section \<open>The driver's invariant\<close>

text \<open>The draws of one operation lie in the ranges of the distributions of \<open>main\<close>.\<close>

definition draws_ok :: "nat \<Rightarrow> draws \<Rightarrow> bool" where
  "draws_ok n d \<longleftrightarrow> 0 \<le> dr_op_pct d \<and> dr_op_pct d < 100 \<and> dr_inst d < n \<and> dr_side d \<in> {0, 1}
    \<and> 1 \<le> dr_passive_offset d \<and> dr_passive_offset d \<le> 20 \<and> 20 \<le> dr_aggressive_offset d \<and> dr_aggressive_offset d \<le> 60
    \<and> 1 \<le> dr_qty d \<and> dr_qty d \<le> 500 \<and> 0 \<le> dr_submarket d \<and> dr_submarket d \<le> 3 \<and> (\<forall>m > 0. dr_index d m < m)"

lemma draws_qty: "draws_ok n d \<Longrightarrow> (word_of_int (dr_qty d) :: 32 word) \<noteq> 0"
proof -
  assume "draws_ok n d"
  then have "uint (word_of_int (dr_qty d) :: 32 word) = dr_qty d" "1 \<le> dr_qty d" by (simp_all add: draws_ok_def uint_word_of_int)
  then show ?thesis by auto
qed

text \<open>
  After at most \<open>k\<close> operations, with \<open>i\<close> the next id: the engine is configured with the \<open>n\<close>
  instruments, has room, knows no id from \<open>i\<close> on, and has only rejected what is harmless.
\<close>

definition engine_served :: "nat \<Rightarrow> nat \<Rightarrow> order_id \<Rightarrow> engine \<Rightarrow> bool" where
  "engine_served n k i e \<longleftrightarrow> eng_inv e \<and> exchange_inv (exchange_of e) \<and> op_size (eng_pool e) \<le> k
    \<and> (\<forall>j \<in> ex_used (exchange_of e). j < i) \<and> map fst (listings (exchange_of e)) = map (\<lambda>m. word_of_nat (m + 1)) [0..<n]
    \<and> (\<forall>ev \<in> set (eng_events e). harmless ev)"

definition driver_ok :: "nat \<Rightarrow> nat \<Rightarrow> driver \<Rightarrow> bool" where
  "driver_ok n k bd \<longleftrightarrow> engine_served n k (bd_next_id bd) (bd_engine bd) \<and> bd_next_id bd \<noteq> 0 \<and> unat (bd_next_id bd) \<le> Suc k"

lemma listed_book: "book_index ex iid \<noteq> None \<longleftrightarrow> iid \<in> set (map fst (listings ex))"
proof -
  have "length (takeWhile (\<lambda>ab. ab_instrument ab \<noteq> iid) xs) < length xs \<longleftrightarrow> iid \<in> ab_instrument ` set xs" for xs :: "abook list"
    by (induction xs) auto
  then show ?thesis by (simp add: book_index_def Let_def listings_def listing_of_def image_image)
qed

lemma known_instrument: "engine_served n k i e \<Longrightarrow> m < n \<Longrightarrow> book_index (exchange_of e) (word_of_nat (m + 1)) \<noteq> None"
  unfolding listed_book engine_served_def by auto

lemma unused_id: "engine_served n k i e \<Longrightarrow> i \<notin> ex_used (exchange_of e)"
  by (auto simp: engine_served_def)

lemma engine_served_step:
  assumes served: "engine_served n k i e" and k: "k < 2 ^ 32 - 1" and c: "benign (exchange_of e) c"
    and new: "\<forall>j \<in> spends c. j < i'" "i \<le> i'"
  shows "\<exists>e'. step al e c = Some e' \<and> engine_served n (Suc k) i' e'"
proof -
  note S = served [unfolded engine_served_def]
  have inv: "eng_inv e" "exchange_inv (exchange_of e)" using S by blast+
  have room: "op_size (eng_pool e) < 2 ^ 32 - 1" using S k by linarith
  obtain e' where e': "step al e c = Some e'" "eng_inv e'" "op_size (eng_pool e') \<le> Suc (op_size (eng_pool e))"
    "ex_step (exchange_of e) c (exchange_of e') \<or> exchange_of e' = exchange_of e \<and> (\<exists>r. al r \<noteq> None)"
    using step_ok [OF inv(1) room, of al c] by blast
  have "exchange_inv (exchange_of e') \<and> listings (exchange_of e') = listings (exchange_of e)
      \<and> served_well (exchange_of e) (exchange_of e') \<and> ex_used (exchange_of e') \<subseteq> spends c \<union> ex_used (exchange_of e)"
    using e'(4)
  proof (elim disjE conjE)
    assume st: "ex_step (exchange_of e) c (exchange_of e')"
    show ?thesis using ex_step_inv [OF st inv(2)] step_typed [OF st inv(2)] step_served [OF st c] by (simp only: typed_step_def simp_thms)
  next
    assume "exchange_of e' = exchange_of e"
    with inv show ?thesis by (simp only: served_same simp_thms Un_upper2)
  qed
  then have X: "exchange_inv (exchange_of e')" "listings (exchange_of e') = listings (exchange_of e)"
    "served_well (exchange_of e) (exchange_of e')" "ex_used (exchange_of e') \<subseteq> spends c \<union> ex_used (exchange_of e)" by blast+
  obtain evs where "eng_events e' = eng_events e @ evs" "\<forall>ev \<in> set evs. harmless ev" using X(3) by (auto simp: served_well_def)
  then have "\<forall>ev \<in> set (eng_events e'). harmless ev" using S by auto
  moreover have "\<forall>j \<in> ex_used (exchange_of e'). j < i'" using X(4) new S less_le_trans by blast
  moreover have "op_size (eng_pool e') \<le> Suc k" using e'(3) S by linarith
  ultimately show ?thesis using e'(1,2) X(1,2) S unfolding engine_served_def by (intro exI [of _ e']) (simp only: simp_thms)
qed

lemma next_id_less:
  assumes "driver_ok n k bd" "k < 2 ^ 32 - 1"
  shows "bd_next_id bd < bd_next_id bd + 1" "bd_next_id bd + 1 \<noteq> 0" "unat (bd_next_id bd + 1) \<le> Suc (Suc k)"
proof -
  have le: "unat (bd_next_id bd) \<le> Suc k" using assms(1) by (simp add: driver_ok_def)
  then have u: "unat (bd_next_id bd + 1) = unat (bd_next_id bd) + 1" using assms(2) by (simp add: unat_word_ariths)
  then show "bd_next_id bd < bd_next_id bd + 1" by (simp add: word_less_nat_alt)
  show "unat (bd_next_id bd + 1) \<le> Suc (Suc k)" using u le by simp
  show "bd_next_id bd + 1 \<noteq> 0" using u by (metis Suc_eq_plus1 nat.distinct(1) unat_0)
qed

lemma call_ok:
  assumes ok: "driver_ok n k bd" and k: "k < 2 ^ 32 - 1" and c: "benign (exchange_of (bd_engine bd)) c" "spends c \<subseteq> {bd_next_id bd}"
  shows "\<exists>bd'. call timed al d c (take_id bd) = Some bd' \<and> driver_ok n (Suc k) (bd'\<lparr>bd_open_ids := ids\<rparr>) \<and> driver_ok n (Suc k) bd'
    \<and> length (bd_latencies bd') = length (bd_latencies bd) + of_bool timed"
    "spends c = {} \<Longrightarrow> \<exists>bd'. call timed al d c (bd\<lparr>bd_open_ids := ids\<rparr>) = Some bd' \<and> driver_ok n (Suc k) bd' \<and> length (bd_latencies bd') = length (bd_latencies bd) + of_bool timed"
proof -
  note N = next_id_less [OF ok k]
  have served: "engine_served n k (bd_next_id bd) (bd_engine bd)" using ok by (simp add: driver_ok_def)
  obtain e' where e': "step al (bd_engine bd) c = Some e'" "engine_served n (Suc k) (bd_next_id bd + 1) e'"
    using engine_served_step [OF served k c(1), of "bd_next_id bd + 1" al] c(2) N(1) by (auto simp: less_imp_le)
  then show "\<exists>bd'. call timed al d c (take_id bd) = Some bd' \<and> driver_ok n (Suc k) (bd'\<lparr>bd_open_ids := ids\<rparr>) \<and> driver_ok n (Suc k) bd'
    \<and> length (bd_latencies bd') = length (bd_latencies bd) + of_bool timed"
    using N(2,3) by (simp add: call_def take_id_def driver_ok_def)
  assume none: "spends c = {}"
  obtain e' where "step al (bd_engine bd) c = Some e'" "engine_served n (Suc k) (bd_next_id bd) e'"
    using engine_served_step [OF served k c(1), of "bd_next_id bd" al] none by auto
  then show "\<exists>bd'. call timed al d c (bd\<lparr>bd_open_ids := ids\<rparr>) = Some bd' \<and> driver_ok n (Suc k) bd' \<and> length (bd_latencies bd') = length (bd_latencies bd) + of_bool timed"
    using ok by (simp add: call_def driver_ok_def)
qed

lemma order_ids [simp]: "no_order_id (passive_order configs d i) = i" "no_order_id (aggressive_order configs d i) = i"
  by (simp_all add: passive_order_def aggressive_order_def Let_def)

lemma benign_orders:
  assumes "driver_ok n k bd" "draws_ok n d"
  shows "benign (exchange_of (bd_engine bd)) (Submit (passive_order configs d (bd_next_id bd)))"
    "benign (exchange_of (bd_engine bd)) (Submit (aggressive_order configs d (bd_next_id bd)))"
    "benign (exchange_of (bd_engine bd)) (Replace \<lparr>ro_order_id = i, ro_new_order_id = bd_next_id bd, ro_new_price = p, ro_new_quantity = q\<rparr>)"
proof -
  have served: "engine_served n k (bd_next_id bd) (bd_engine bd)" using assms(1) by (simp add: driver_ok_def)
  have "dr_inst d < n" using assms(2) by (simp add: draws_ok_def)
  note facts = known_instrument [OF served this] unused_id [OF served] draws_qty [OF assms(2)]
  show "benign (exchange_of (bd_engine bd)) (Submit (passive_order configs d (bd_next_id bd)))"
    using facts by (simp add: benign_def passive_order_def del: exchange_of_simps)
  show "benign (exchange_of (bd_engine bd)) (Submit (aggressive_order configs d (bd_next_id bd)))"
    using facts by (simp add: benign_def aggressive_order_def Let_def del: exchange_of_simps)
  show "benign (exchange_of (bd_engine bd)) (Replace \<lparr>ro_order_id = i, ro_new_order_id = bd_next_id bd, ro_new_price = p, ro_new_quantity = q\<rparr>)"
    using facts by (simp add: benign_def del: exchange_of_simps)
qed

lemma run_one_ok:
  assumes ok: "driver_ok n k bd" and k: "k < 2 ^ 32 - 1" and d: "draws_ok n d"
  shows "\<exists>bd'. run_one configs timed al d bd = Some bd' \<and> driver_ok n (Suc k) bd' \<and> length (bd_latencies bd') = length (bd_latencies bd) + of_bool timed"
proof -
  note B = benign_orders [OF ok d]
  let ?fresh = "bd_next_id bd"
  define r where "r = (if 55 \<le> dr_op_pct d \<and> bd_open_ids bd = [] then 0 else dr_op_pct d)"
  let ?ids = "bd_open_ids bd" and ?idx = "dr_index d (length (bd_open_ids bd))"
  let ?req = "\<lparr>ro_order_id = ?ids ! ?idx, ro_new_order_id = ?fresh, ro_new_price = gen_passive_price configs d (dr_inst d) (picked_side d),
    ro_new_quantity = word_of_int (dr_qty d)\<rparr>"
  note run = run_one_def Let_def r_def [symmetric]
  consider (new) "r < 55" | (cancel) "\<not> r < 55" "r < 80" | (repl) "\<not> r < 55" "\<not> r < 80" "r < 90" | (aggressive) "\<not> r < 55" "\<not> r < 80" "\<not> r < 90" by blast
  then show ?thesis
  proof cases
    case new
    obtain bd' where "call timed al d (Submit (passive_order configs d ?fresh)) (take_id bd) = Some bd'"
      "driver_ok n (Suc k) (bd'\<lparr>bd_open_ids := ?ids @ [?fresh]\<rparr>)" "length (bd_latencies bd') = length (bd_latencies bd) + of_bool timed"
      using call_ok(1) [where timed = timed and al = al and d = d and ids = "?ids @ [?fresh]", OF ok k B(1)] by auto
    with new show ?thesis by (simp add: run)
  next
    case cancel
    obtain bd' where "call timed al d (Cancel \<lparr>co_order_id = ?ids ! ?idx\<rparr>) (bd\<lparr>bd_open_ids := butlast (?ids[?idx := last ?ids])\<rparr>) = Some bd'"
      "driver_ok n (Suc k) bd'" "length (bd_latencies bd') = length (bd_latencies bd) + of_bool timed"
      using call_ok(2) [OF ok k, of "Cancel \<lparr>co_order_id = ?ids ! ?idx\<rparr>" timed al d] by (auto simp: benign_def)
    with cancel show ?thesis by (simp add: run)
  next
    case repl
    obtain bd' where "call timed al d (Replace ?req) (take_id bd) = Some bd'" "driver_ok n (Suc k) (bd'\<lparr>bd_open_ids := ?ids[?idx := ?fresh]\<rparr>)"
      "length (bd_latencies bd') = length (bd_latencies bd) + of_bool timed"
      using call_ok(1) [where timed = timed and al = al and d = d and c = "Replace ?req" and ids = "?ids[?idx := ?fresh]", OF ok k B(3)] by auto
    with repl show ?thesis by (simp add: run)
  next
    case aggressive
    obtain bd' where "call timed al d (Submit (aggressive_order configs d ?fresh)) (take_id bd) = Some bd'" "driver_ok n (Suc k) bd'"
      "length (bd_latencies bd') = length (bd_latencies bd) + of_bool timed"
      using call_ok(1) [where timed = timed and al = al and d = d, OF ok k B(2)] by auto
    with aggressive show ?thesis by (simp add: run)
  qed
qed

lemma run_ops_ok:
  assumes "driver_ok n k bd" "k + length ops < 2 ^ 32" "\<forall>(al, d) \<in> set ops. draws_ok n d"
  shows "\<exists>bd'. run_ops configs timed ops bd = Some bd' \<and> driver_ok n (k + length ops) bd' \<and> length (bd_latencies bd') = length (bd_latencies bd) + of_bool timed * length ops"
  using assms
proof (induction ops arbitrary: k bd)
  case (Cons o1 ops)
  obtain al d where o1: "o1 = (al, d)" by (cases o1)
  have "k < 2 ^ 32 - 1" "draws_ok n d" using Cons.prems by (simp_all add: o1)
  from run_one_ok [OF Cons.prems(1) this, of configs timed al] obtain bd1 where bd1: "run_one configs timed al d bd = Some bd1"
    "driver_ok n (Suc k) bd1" "length (bd_latencies bd1) = length (bd_latencies bd) + of_bool timed" by blast
  from Cons.IH [OF bd1(2)] Cons.prems show ?case by (auto simp: o1 bd1)
qed simp

end
