(* ===== verification/Benchmark_Properties.thy ===== *)
theory Benchmark_Properties
  imports Benchmark_Runs Client_Properties
begin

text \<open>
  The properties of the benchmark driver: a run reaches its end and is rejected only for reasons
  the workload expects, a setup without instruments is refused before anything is drawn, passive
  quotes lie in their band, and a replace that is rejected loses track of an open order.
\<close>

section \<open>The setup\<close>

lemma setup_end:
  assumes "raw_in_range raw" "\<not> eng_configured e"
  shows "\<exists>r. configure al e (Some (setup_configs raw n)) = Some r \<and> configure_end al e (setup_configs raw n) r"
  using setup_config_fits [OF assms(1)] by (intro configure_ok [OF assms(2)]) (auto simp: setup_configs_def)

lemma setup_done:
  assumes raw: "raw_in_range raw" "0 < n" "n < 2 ^ 32" and e: "\<not> eng_configured e" "eng_events e = []" and granted: "\<forall>r. al r = None"
  shows "\<exists>e'. configure al e (Some (setup_configs raw n)) = Some (kOk, e') \<and> exchange_of e' = configured_exchange (setup_configs raw n) e
    \<and> driver_ok n 0 \<lparr>bd_engine = e', bd_open_ids = [], bd_next_id = 1, bd_latencies = []\<rparr>"
proof -
  obtain res e' where R: "configure al e (Some (setup_configs raw n)) = Some (res, e')" "configure_end al e (setup_configs raw n) (res, e')"
    using setup_end [OF raw(1) e(1)] by fastforce
  have ok: "res = kOk" using R(2) setup_valid(1) [OF raw] granted by (cases res) (auto simp: configure_end_def)
  with R(2) have E: "eng_inv e'" "exchange_of e' = configured_exchange (setup_configs raw n) e" "op_size (eng_pool e') = 0"
    by (auto simp: configure_end_def)
  have "map fst (listings (exchange_of e')) = map (\<lambda>m. word_of_nat (m + 1)) [0..<n]"
    by (simp add: E(2) listings_def listing_of_def configured_exchange_def empty_abook_def setup_configs_def setup_config_sel(2) [OF raw(1)])
  moreover have "exchange_inv (exchange_of e')" unfolding E(2) by (rule configured_sound)
  moreover have "ex_used (exchange_of e') = {}" "ex_events (exchange_of e') = []" unfolding E(2) by (simp_all add: configured_exchange_def e)
  ultimately have "driver_ok n 0 \<lparr>bd_engine = e', bd_open_ids = [], bd_next_id = 1, bd_latencies = []\<rparr>"
    using E(1,3) unfolding driver_ok_def engine_served_def by simp
  with R(1) E(2) ok show ?thesis by blast
qed

section \<open>Whole runs\<close>

text \<open>C34 The benchmark runs to its end: with between 1 and \<open>2^32 - 1\<close> instruments, reference prices
  and draws from the ranges of its distributions, fewer than \<open>2^32 - 1\<close> operations and a setup that
  gets its memory, it exits with 0 and has one sample for every timed operation. Nothing was rejected
  but operations on orders that are gone and prices off the grid or out of the band, also when
  later requests run out of memory.\<close>

theorem benchmark_runs_clean:
  assumes "a = parse_args argv" "raw_in_range raw" "0 < unat (num_instruments a)" "unat (num_instruments a) < 2 ^ 32"
    "\<forall>r. al r = None" "unat (warmup_ops a) + unat (num_ops a) < 2 ^ 32 - 1"
    "\<forall>i. draws_ok (unat (num_instruments a)) (snd (ops i))"
  shows "\<exists>bd. bench_main al raw ops rd argv = Some (0, Some (bd, report_of rd bd)) \<and> length (bd_latencies bd) = unat (num_ops a)
    \<and> (\<forall>i r. On_rejected i r \<in> set (eng_events (bd_engine bd)) \<longrightarrow> r \<in> {kUnknownOrder, kInvalidPriceTick, kPriceOutOfBand})"
proof -
  let ?n = "unat (num_instruments a)" and ?w = "unat (warmup_ops a)" and ?k = "unat (warmup_ops a) + unat (num_ops a)"
  let ?cfgs = "setup_configs raw ?n"
  obtain e where e: "engine_new al = Some (Inr e)" "\<not> eng_configured e" "eng_events e = []"
    using runs_engine_new [of al] assms(5) by (auto simp: runs_def)
  obtain e' where e': "configure al e (Some ?cfgs) = Some (kOk, e')" "driver_ok ?n 0 \<lparr>bd_engine = e', bd_open_ids = [], bd_next_id = 1, bd_latencies = []\<rparr>"
    using setup_done [OF assms(2-4) e(2,3) assms(5)] by blast
  have draws: "\<forall>(al, d) \<in> set (map ops is). draws_ok ?n d" for "is" using assms(7) by (auto; metis snd_conv)
  have "0 + length (map ops [0..<?w]) < 2 ^ 32" using assms(6) by simp
  from run_ops_ok [OF e'(2) this draws, of ?cfgs False] obtain bd where bd: "run_ops ?cfgs False (map ops [0..<?w])
      \<lparr>bd_engine = e', bd_open_ids = [], bd_next_id = 1, bd_latencies = []\<rparr> = Some bd" "driver_ok ?n ?w bd" "bd_latencies bd = []" by auto
  have "?w + length (map ops [?w..<?k]) < 2 ^ 32" using assms(6) by simp
  from run_ops_ok [OF bd(2) this draws, of ?cfgs True] obtain bd' where bd': "run_ops ?cfgs True (map ops [?w..<?k]) bd = Some bd'"
    "driver_ok ?n ?k bd'" "length (bd_latencies bd') = unat (num_ops a)" using bd(3) by auto
  have main: "bench_main al raw ops rd argv = Some (0, Some (bd', report_of rd bd'))"
    by (simp add: bench_main_def Let_def assms(1) [symmetric] xmatch_create_def assms(5) e(1) e'(1) bd(1) bd'(1))
  have "\<forall>ev \<in> set (eng_events (bd_engine bd')). harmless ev" using bd'(2) by (simp add: driver_ok_def engine_served_def)
  then show ?thesis using main bd'(3) by (intro exI [of _ bd']) (auto simp: harmless_def)
qed

definition two_prices :: "nat \<Rightarrow> double" where
  "two_prices i = (if i = 0 then 5 else 480)"

lemma two_prices_range: "raw_in_range two_prices"
  by (simp add: raw_in_range_def two_prices_def)

lemma two_prices_drawn [simp]: "drawn_price (two_prices i) = (if i = 0 then 50000 else 4800000)"
  using dbl_of_nat [of 50000] dbl_of_nat [of 4800000] by (simp add: two_prices_def drawn_price_def truncated_def dmul_def)

definition short_loop :: readings where
  "short_loop = \<lparr>rd_status_before = [''VmRSS: 2048 kB''], rd_wall_start = 100, rd_wall_end = 900, rd_status_after = []\<rparr>"

definition buy_draw :: draws where
  "buy_draw = \<lparr>dr_op_pct = 0, dr_inst = 0, dr_side = 0, dr_passive_offset = 10, dr_aggressive_offset = 60, dr_qty = 100, dr_submarket = 0,
    dr_index = (\<lambda>_. 0), dr_start = 100, dr_stop = 350\<rparr>"

definition replace_draw :: draws where
  "replace_draw = buy_draw\<lparr>dr_op_pct := 85, dr_inst := 1\<rparr>"

lemma draw_examples: "draws_ok 2 buy_draw" "draws_ok 2 replace_draw"
  by (simp_all add: draws_ok_def buy_draw_def replace_draw_def)

lemma parse_example: "num_ops (parse_args [''bench'', ''3'', ''2'', '' 1x'']) = 3" "num_instruments (parse_args [''bench'', ''3'', ''2'', '' 1x'']) = 2"
  "warmup_ops (parse_args [''bench'', ''3'', ''2'', '' 1x'']) = 1" "seed (parse_args [''bench'', ''3'', ''2'', '' 1x'']) = 42"
  by (simp_all add: parse_args_def strtoull_def digits_value_def is_digit_def is_space_def Let_def)

theorem benchmark_runs_clean_witness:
  "\<exists>bd. bench_main all_granted two_prices (\<lambda>i. (all_granted, if even i then buy_draw else replace_draw)) short_loop [''bench'', ''3'', ''2'', '' 1x'']
      = Some (0, Some (bd, report_of short_loop bd)) \<and> length (bd_latencies bd) = 3"
proof -
  have "draws_ok 2 (if even i then buy_draw else replace_draw)" for i :: nat
    using draw_examples by simp
  then have draws: "\<forall>i :: nat. draws_ok (unat (2 :: 64 word)) (snd (all_granted, if even i then buy_draw else replace_draw))" unfolding snd_conv by simp
  from benchmark_runs_clean [where al = all_granted and rd = short_loop and argv = "[''bench'', ''3'', ''2'', '' 1x'']"
      and ops = "\<lambda>i. (all_granted, if even i then buy_draw else replace_draw)", OF refl two_prices_range, unfolded parse_example, OF _ _ _ _ draws]
  show ?thesis by auto
qed

text \<open>With no instruments, or more than a 32-bit id can tell apart, the benchmark exits with 1
  before its first operation, whatever the allocator does: the empty range
  \<open>inst_pick(0, num_instruments - 1)\<close> is never used.\<close>

theorem benchmark_refuses_bad_setup:
  assumes "raw_in_range raw" "num_instruments (parse_args argv) = 0 \<or> 2 ^ 32 \<le> unat (num_instruments (parse_args argv))"
  shows "bench_main al raw ops rd argv = Some (1, None)"
proof -
  let ?cfgs = "setup_configs raw (unat (num_instruments (parse_args argv)))"
  have bad: "\<not> valid_configs ?cfgs" using assms(2) by (auto simp: valid_configs_def setup_configs_def)
  let ?new = "and_then (request al Alloc_engine) (\<lambda>_. engine_new al)"
  have "runs al ?new (\<lambda>e. \<not> eng_configured e)" by (rule runs_bind [OF runs_request runs_mono [OF runs_engine_new]]) simp
  then consider e where "?new = Some (Inr e)" "\<not> eng_configured e" | x where "?new = Some (Inl x)"
    unfolding runs_def by blast
  then show ?thesis
  proof cases
    case 1
    obtain res e' where R: "configure al e (Some ?cfgs) = Some (res, e')" "configure_end al e ?cfgs (res, e')"
      using setup_end [OF assms(1) 1(2)] by fastforce
    have "res \<noteq> kOk" using R(2) bad by (auto simp: configure_end_def)
    with R(1) show ?thesis by (simp add: bench_main_def Let_def xmatch_create_def 1(1))
  next
    case 2
    then show ?thesis by (simp add: bench_main_def Let_def xmatch_create_def)
  qed
qed

theorem benchmark_refuses_bad_setup_witness:
  "bench_main all_granted two_prices (\<lambda>_. (all_granted, buy_draw)) short_loop [''bench'', ''3'', ''-0''] = Some (1, None)"
  by (rule benchmark_refuses_bad_setup [OF two_prices_range])
    (simp add: parse_args_def strtoull_def digits_value_def is_digit_def is_space_def Let_def)

section \<open>Prices\<close>

lemma setup_nth: "i < n \<Longrightarrow> setup_configs raw n ! i = setup_config raw i"
  by (simp add: setup_configs_def)

lemma room_for_passive:
  assumes "50000 \<le> ref"
  shows "band_lo_of ref 1000 \<le> ref - 20 * tick_size ref" "ref + 20 * tick_size ref \<le> band_hi_of ref 1000" "20 * tick_size ref < ref"
proof -
  let ?delta = "ref * 1000 sdiv 10000"
  have delta: "?delta = ref div 10" using assms by (simp add: signed_divide_int_def sgn_if)
  have lo: "ceil_to_tick p \<le> p + tick_size p" if "0 < p" for p
    using mod_tick_bounds(1) [of p p] tick_size_pos [of p] unfolding ceil_to_tick_eq [OF that] by (simp only: split: if_split) linarith
  have hi: "p - tick_size p \<le> floor_to_tick p" if "0 < p" for p
    using mod_tick_bounds(2) [of p p] unfolding floor_to_tick_eq [OF that] by linarith
  have mono: "tick_size p \<le> tick_size q" if "p \<le> q" for p q using that by (simp add: tick_size_eq)
  have "\<not> ref - ref div 10 < 1" using assms by linarith
  then have "band_lo_of ref 1000 = ceil_to_tick (ref - ref div 10)" by (simp add: band_lo_of_def Let_def kBpsPerUnit_def delta)
  moreover have "ceil_to_tick (ref - ref div 10) \<le> ref - ref div 10 + tick_size ref"
    using lo [of "ref - ref div 10"] mono [of "ref - ref div 10" ref] assms by linarith
  moreover have wide: "21 * tick_size ref \<le> ref div 10" using assms by (simp add: tick_size_eq; linarith)
  ultimately show "band_lo_of ref 1000 \<le> ref - 20 * tick_size ref" by linarith
  have "band_hi_of ref 1000 = floor_to_tick (ref + ref div 10)" by (simp add: band_hi_of_def Let_def kBpsPerUnit_def delta)
  moreover have "ref + ref div 10 - tick_size (ref + ref div 10) \<le> floor_to_tick (ref + ref div 10)" using assms by (intro hi) simp
  moreover have "20 * tick_size ref + tick_size (ref + ref div 10) \<le> ref div 10" using assms by (simp add: tick_size_eq; linarith)
  ultimately show "ref + 20 * tick_size ref \<le> band_hi_of ref 1000" by linarith
  show "20 * tick_size ref < ref" using wide assms by linarith
qed

text \<open>A passive quote lies on its side of the reference price and inside the band that its
  instrument was configured with.\<close>

theorem passive_quote_in_band:
  assumes "raw_in_range raw" "draws_ok n d" "cfg = setup_configs raw n ! dr_inst d"
    "p = gen_passive_price (setup_configs raw n) d (dr_inst d) sd"
  shows "band_lo_of (ic_reference_price cfg) (ic_band_bps cfg) \<le> p \<and> p \<le> band_hi_of (ic_reference_price cfg) (ic_band_bps cfg)
    \<and> better sd (ic_reference_price cfg) p"
proof -
  have i: "dr_inst d < n" and off: "1 \<le> dr_passive_offset d" "dr_passive_offset d \<le> 20" using assms(2) by (simp_all add: draws_ok_def)
  let ?ref = "floor_to_tick (drawn_price (raw (dr_inst d)))" and ?delta = "dr_passive_offset d * tick_size (floor_to_tick (drawn_price (raw (dr_inst d))))"
  have cfg: "ic_reference_price cfg = ?ref" "ic_band_bps cfg = 1000"
    unfolding assms(3) setup_nth [OF i] by (rule setup_config_sel [OF assms(1)])+
  have "50000 \<le> drawn_price (raw (dr_inst d))" by (rule drawn_price_range [OF assms(1)])
  then have "50000 \<le> ?ref" by (intro floor_to_tick_greatest) (simp_all add: is_tick_aligned_iff tick_size_eq)
  note W = room_for_passive [OF this]
  have delta: "0 < ?delta" "?delta \<le> 20 * tick_size ?ref" using off mult_right_mono [OF off(2), of "tick_size ?ref"] by simp_all
  have small: "?delta < ?ref" using delta(2) W(3) by linarith
  have "p = (if sd = kBuy then ?ref - ?delta else ?ref + ?delta)"
    using delta(1) small by (simp add: assms(4) gen_passive_price_def inst_tick_def Let_def setup_nth [OF i] setup_config_sel [OF assms(1)])
  moreover have "band_lo_of ?ref 1000 \<le> ?ref - ?delta" "?ref + ?delta \<le> band_hi_of ?ref 1000" using delta(2) W(1,2) by linarith+
  ultimately show ?thesis unfolding cfg using delta(1) by (cases sd) simp_all
qed

theorem passive_quote_in_band_witness:
  "gen_passive_price (setup_configs two_prices 2) buy_draw 0 kBuy \<le> band_hi_of 50000 1000"
  using passive_quote_in_band [OF two_prices_range draw_examples(1) refl refl, of kBuy]
  by (simp add: setup_nth setup_config_sel [OF two_prices_range] buy_draw_def floor_to_tick_def tick_size_eq)

text \<open>Aggressive quotes need not: below 60 times 1000 the offset exceeds the band.\<close>

lemma cheap_aggressive_out_of_band:
  assumes "50000 \<le> ref" "ref < 60000" "configs ! i = \<lparr>ic_instrument_id = iid, ic_reference_price = ref, ic_band_bps = 1000\<rparr>" "dr_aggressive_offset d = 60"
  shows "band_hi_of ref 1000 < gen_aggressive_price configs d i kBuy"
proof -
  have delta: "ref * 1000 sdiv 10000 = ref div 10" using assms(1) by (simp add: signed_divide_int_def sgn_if)
  have "band_hi_of ref 1000 \<le> ref + ref div 10"
    unfolding band_hi_of_def Let_def kBpsPerUnit_def using assms(1) delta by (simp add: floor_to_tick_le)
  also have "\<dots> < ref + 60 * tick_size ref" using assms(1,2) by (simp add: tick_size_eq)
  finally show ?thesis using assms by (simp add: gen_aggressive_price_def inst_tick_def Let_def tick_size_eq)
qed

section \<open>Replaces\<close>

lemma find_order_emit [simp]: "find_order (ex_emit ev ex) i = find_order ex i"
  by (simp add: find_order_def all_orders_def)

lemma refused_replace:
  assumes ok: "driver_ok n k bd" and k: "k < 2 ^ 32 - 1" and found: "find_order (exchange_of (bd_engine bd)) (ro_order_id req) = Some (b, sd, x)"
    and qty: "ao_filled x < ro_new_quantity req" and new: "ro_new_order_id req \<notin> ex_used (exchange_of (bd_engine bd))"
    and price: "\<not> (is_tick_aligned (ro_new_price req) \<and> within_band (ex_books (exchange_of (bd_engine bd)) ! b) (ro_new_price req))"
  shows "\<exists>e'. step al (bd_engine bd) (Replace req) = Some e' \<and> (\<forall>i. find_order (exchange_of e') i = find_order (exchange_of (bd_engine bd)) i)"
proof -
  let ?e = "bd_engine bd"
  have inv: "eng_inv ?e" and room: "op_size (eng_pool ?e) < 2 ^ 32 - 1"
    using ok k by (auto simp: driver_ok_def engine_served_def)
  obtain e' where e': "step al ?e (Replace req) = Some e'"
    "ex_step (exchange_of ?e) (Replace req) (exchange_of e') \<or> exchange_of e' = exchange_of ?e \<and> (\<exists>r. al r \<noteq> None)"
    using step_ok [OF inv room, of al "Replace req"] by blast
  have not: "\<not> ro_new_quantity req \<le> ao_filled x" using qty by simp
  have "find_order (ex_replace req (exchange_of ?e)) i = find_order (exchange_of ?e) i" for i
    using new price unfolding ex_replace_def Let_def found option.case prod.case if_not_P [OF not] by (simp del: exchange_of_simps)
  moreover have "exchange_of e' = ex_replace req (exchange_of ?e) \<or> exchange_of e' = exchange_of ?e"
    using e'(2) unfolding ex_step_simps by blast
  ultimately have "find_order (exchange_of e') i = find_order (exchange_of ?e) i" for i by (elim disjE) (simp_all only:)
  with e'(1) show ?thesis by blast
qed

text \<open>C35 A replace whose price does not fit the order it names leaves the order open, but the driver
  puts the refused id in its place: the open order is no longer tracked, so it will never be
  cancelled or replaced, and the id that takes its place names nothing.\<close>

theorem refused_replace_loses_track:
  assumes "driver_ok n k bd" "k < 2 ^ 32 - 1" "80 \<le> dr_op_pct d" "dr_op_pct d < 90" "distinct (bd_open_ids bd)"
    and "dr_index d (length (bd_open_ids bd)) < length (bd_open_ids bd)" "i = bd_open_ids bd ! dr_index d (length (bd_open_ids bd))"
    and found: "find_order (exchange_of (bd_engine bd)) i = Some (b, sd, x)" and qty: "ao_filled x < word_of_int (dr_qty d)"
    and p: "p = gen_passive_price configs d (dr_inst d) (picked_side d)"
    and price: "\<not> is_tick_aligned p \<or> \<not> within_band (ex_books (exchange_of (bd_engine bd)) ! b) p"
  shows "\<exists>bd'. run_one configs timed al d bd = Some bd' \<and> find_order (exchange_of (bd_engine bd')) i = Some (b, sd, x) \<and> i \<notin> set (bd_open_ids bd')
    \<and> bd_next_id bd \<in> set (bd_open_ids bd') \<and> find_order (exchange_of (bd_engine bd')) (bd_next_id bd) = None"
proof -
  let ?ids = "bd_open_ids bd" and ?ex = "exchange_of (bd_engine bd)"
  let ?idx = "dr_index d (length ?ids)"
  let ?req = "\<lparr>ro_order_id = i, ro_new_order_id = bd_next_id bd, ro_new_price = p, ro_new_quantity = word_of_int (dr_qty d)\<rparr>"
  have served: "engine_served n k (bd_next_id bd) (bd_engine bd)" using assms(1) by (simp add: driver_ok_def)
  note new = unused_id [OF served]
  have "exchange_inv ?ex" using served by (simp add: engine_served_def)
  then have free: "find_order ?ex (bd_next_id bd) = None" unfolding find_order_None_iff using unused_free new by blast
  obtain e' where e': "step al (bd_engine bd) (Replace ?req) = Some e'" "\<forall>j. find_order (exchange_of e') j = find_order ?ex j"
    using refused_replace [OF assms(1,2), of ?req b sd x al] found qty new price by auto
  have "bd_next_id bd \<noteq> i" using free found by auto
  then have "i \<notin> set (?ids[?idx := bd_next_id bd])"
    using assms(5-7) by (auto simp: in_set_conv_nth nth_list_update nth_eq_iff_index_eq split: if_splits)
  moreover have "bd_next_id bd \<in> set (?ids[?idx := bd_next_id bd])" using assms(6) by (rule set_update_memI)
  moreover have "run_one configs timed al d bd = Some (take_id bd\<lparr>bd_engine := e', bd_latencies := (if timed then bd_latencies bd @ [sample d] else bd_latencies bd),
      bd_open_ids := ?ids[?idx := bd_next_id bd]\<rparr>)"
    using assms(3,4,6) e'(1) by (auto simp: run_one_def Let_def call_def take_id_def assms(7) [symmetric] p [symmetric])
  ultimately show ?thesis using e'(2) found free by simp
qed

definition two_books :: engine where
  "two_books = snd (the (configure all_granted new_engine (Some (setup_configs two_prices 2))))"

definition first_driver :: driver where
  "first_driver = the (run_one (setup_configs two_prices 2) False all_granted buy_draw
    \<lparr>bd_engine = two_books, bd_open_ids = [], bd_next_id = 1, bd_latencies = []\<rparr>)"

lemma two_configs: "setup_configs two_prices 2 = [\<lparr>ic_instrument_id = 1, ic_reference_price = 50000, ic_band_bps = 1000\<rparr>,
    \<lparr>ic_instrument_id = 2, ic_reference_price = 4800000, ic_band_bps = 1000\<rparr>]"
  by (simp add: setup_configs_def setup_config_def tick_size_eq Let_def upt_rec)

lemma two_books_ok: "exchange_of two_books = configured_exchange (setup_configs two_prices 2) new_engine"
  "driver_ok 2 0 \<lparr>bd_engine = two_books, bd_open_ids = [], bd_next_id = 1, bd_latencies = []\<rparr>"
proof -
  have new: "\<not> eng_configured new_engine" "eng_events new_engine = []" and granted: "\<forall>r. all_granted r = None"
    by (simp_all add: new_engine_def)
  obtain e where "configure all_granted new_engine (Some (setup_configs two_prices 2)) = Some (kOk, e)"
    "exchange_of e = configured_exchange (setup_configs two_prices 2) new_engine"
    "driver_ok 2 0 \<lparr>bd_engine = e, bd_open_ids = [], bd_next_id = 1, bd_latencies = []\<rparr>"
    using setup_done [OF two_prices_range _ _ new granted, of 2] by auto
  then show "exchange_of two_books = configured_exchange (setup_configs two_prices 2) new_engine"
    "driver_ok 2 0 \<lparr>bd_engine = two_books, bd_open_ids = [], bd_next_id = 1, bd_latencies = []\<rparr>" by (simp_all add: two_books_def)
qed

lemma two_books_exchange: "exchange_of two_books = \<lparr>ex_books = [\<lparr>ab_instrument = 1, ab_band_lo = 45000, ab_band_hi = 55000, ab_orders = \<lambda>_. []\<rparr>,
    \<lparr>ab_instrument = 2, ab_band_lo = 4320000, ab_band_hi = 5280000, ab_orders = \<lambda>_. []\<rparr>], ex_used = {}, ex_next_trade_id = 1, ex_events = []\<rparr>"
  unfolding two_books_ok(1) two_configs configured_exchange_def
  by (simp add: new_engine_def empty_abook_def band_lo_of_def band_hi_of_def ceil_to_tick_def floor_to_tick_def tick_size_eq kBpsPerUnit_def)

lemma first_driver_ok: "driver_ok 2 1 first_driver" "bd_open_ids first_driver = [1]"
  "find_order (exchange_of (bd_engine first_driver)) 1 = Some (0, kBuy, resting 1 49000 100 0)"
  "\<not> within_band (ex_books (exchange_of (bd_engine first_driver)) ! 0) 4790000"
proof -
  let ?start = "\<lparr>bd_engine = two_books, bd_open_ids = [], bd_next_id = 1, bd_latencies = []\<rparr>" and ?c = "setup_configs two_prices 2"
  obtain bd where bd: "run_one ?c False all_granted buy_draw ?start = Some bd" "driver_ok 2 1 bd"
    using run_one_ok [OF two_books_ok(2) _ draw_examples(1), of ?c False all_granted] by auto
  then have first: "first_driver = bd" by (simp add: first_driver_def)
  show "driver_ok 2 1 first_driver" using bd(2) by (simp add: first)
  have inv: "eng_inv two_books" "op_size (eng_pool two_books) < 2 ^ 32 - 1" using two_books_ok(2) by (simp_all add: driver_ok_def engine_served_def)
  have order: "passive_order ?c buy_draw 1 = \<lparr>no_order_id = 1, no_instrument_id = 1, no_side = kBuy, no_type = kLimit, no_tif = kDay, no_price = 49000, no_quantity = 100\<rparr>"
    by (simp add: passive_order_def buy_draw_def picked_side_def gen_passive_price_def inst_tick_def two_configs tick_size_eq Let_def)
  obtain e where e: "step all_granted two_books (Submit (passive_order ?c buy_draw 1)) = Some e"
    "ex_step (exchange_of two_books) (Submit (passive_order ?c buy_draw 1)) (exchange_of e)"
    using step_ok [OF inv, of all_granted "Submit (passive_order ?c buy_draw 1)"] by auto
  have fields: "bd_engine bd = e" "bd_open_ids bd = [1]"
    using bd(1) e(1) by (auto simp: run_one_def Let_def call_def take_id_def buy_draw_def split: bind_splits)
  show "bd_open_ids first_driver = [1]" by (simp add: first fields)
  obtain v where ex: "exchange_of e = ex_submit v (passive_order ?c buy_draw 1) (exchange_of two_books)"
    using e(2) unfolding ex_step_simps by blast
  have submitted: "ex_submit v (passive_order ?c buy_draw 1) (exchange_of two_books) = ex_rest 0 kBuy (resting 1 49000 100 0)
      (ex_emit (On_accepted 1) ((exchange_of two_books)\<lparr>ex_used := {1}\<rparr>))"
    unfolding two_books_exchange order by (simp add: ex_submit_def ex_validated_def ex_accept_def ex_match_def book_index_def Let_def
      is_tick_aligned_iff tick_size_eq within_band_def ex_emit_def upd_book_def set_orders_def fun_upd_idem)
  have books: "ex_books (exchange_of (bd_engine first_driver)) = [\<lparr>ab_instrument = 1, ab_band_lo = 45000, ab_band_hi = 55000,
      ab_orders = (\<lambda>_. [])(kBuy := [resting 1 49000 100 0])\<rparr>, \<lparr>ab_instrument = 2, ab_band_lo = 4320000, ab_band_hi = 5280000, ab_orders = \<lambda>_. []\<rparr>]"
    unfolding first fields ex submitted unfolding two_books_exchange
    by (simp add: ex_rest_def ex_emit_def upd_book_def set_orders_def insert_order_def)
  show "find_order (exchange_of (bd_engine first_driver)) 1 = Some (0, kBuy, resting 1 49000 100 0)"
    unfolding find_order_def all_orders_def books by (simp add: book_orders_def)
  show "\<not> within_band (ex_books (exchange_of (bd_engine first_driver)) ! 0) 4790000"
    unfolding books by (simp add: within_band_def)
qed

theorem refused_replace_loses_track_witness:
  "\<exists>bd'. run_one (setup_configs two_prices 2) True all_granted replace_draw first_driver = Some bd'
    \<and> find_order (exchange_of (bd_engine bd')) 1 = Some (0, kBuy, resting 1 49000 100 0) \<and> 1 \<notin> set (bd_open_ids bd')"
proof -
  have p: "4790000 = gen_passive_price (setup_configs two_prices 2) replace_draw (dr_inst replace_draw) (picked_side replace_draw)"
    by (simp add: replace_draw_def buy_draw_def picked_side_def gen_passive_price_def inst_tick_def two_configs tick_size_eq Let_def)
  note F = first_driver_ok
  have "\<exists>bd'. run_one (setup_configs two_prices 2) True all_granted replace_draw first_driver = Some bd'
      \<and> find_order (exchange_of (bd_engine bd')) 1 = Some (0, kBuy, resting 1 49000 100 0) \<and> 1 \<notin> set (bd_open_ids bd')
      \<and> bd_next_id first_driver \<in> set (bd_open_ids bd') \<and> find_order (exchange_of (bd_engine bd')) (bd_next_id first_driver) = None"
    by (rule refused_replace_loses_track [OF F(1) _ _ _ _ _ _ F(3) _ p])
      (simp_all add: F(2,4) replace_draw_def buy_draw_def)
  then show ?thesis by blast
qed

end
