(* ===== verification/Benchmark_Report.thy ===== *)
theory Benchmark_Report
  imports Benchmark_Properties
begin

text \<open>
  The statistics of the benchmark: the percentiles read inside the vector of samples and are the
  interpolated ones up to the rounding of four double operations, the report of a run is about
  the samples that the timed operations left.
\<close>

section \<open>The index of a percentile\<close>

text \<open>Where \<open>percentile\<close> reads in \<open>n\<close> samples, and how far between two of them.\<close>

definition rank_of :: "nat \<Rightarrow> double \<Rightarrow> double" where
  "rank_of n p = dmul p (dbl (of_nat (n - 1)))"

definition below :: "nat \<Rightarrow> double \<Rightarrow> nat" where
  "below n p = nat \<lfloor>rank_of n p\<rfloor>"

definition above :: "nat \<Rightarrow> double \<Rightarrow> nat" where
  "above n p = min (below n p + 1) (n - 1)"

definition part :: "nat \<Rightarrow> double \<Rightarrow> double" where
  "part n p = dsub (rank_of n p) (dbl (of_nat (below n p)))"

lemma rank_bounds:
  assumes "0 \<le> p" "p \<le> 1" "n \<le> 2 ^ 53"
  shows "0 \<le> rank_of n p" "rank_of n p \<le> of_nat (n - 1)"
proof -
  have m: "dbl (of_nat (n - 1)) = of_nat (n - 1)" using assms(3) by (intro dbl_of_nat) simp
  show "0 \<le> rank_of n p" unfolding rank_of_def dmul_def m using assms(1) by simp
  have "p * of_nat (n - 1) \<le> 1 * of_nat (n - 1)" using assms(2) by (rule mult_right_mono) simp
  then have "dbl (p * of_nat (n - 1)) \<le> dbl (of_nat (n - 1))" using assms(1) by (intro dbl_mono) simp_all
  then show "rank_of n p \<le> of_nat (n - 1)" unfolding rank_of_def dmul_def m .
qed

lemma below_bounds:
  assumes "0 \<le> p" "p \<le> 1" "n \<le> 2 ^ 53"
  shows "of_nat (below n p) \<le> rank_of n p" "rank_of n p < of_nat (below n p) + 1" "below n p \<le> n - 1" "0 < n \<Longrightarrow> below n p < n" "0 < n \<Longrightarrow> above n p < n"
    "dbl (of_nat (below n p)) = of_nat (below n p)"
proof -
  note R = rank_bounds [OF assms]
  have eq: "(of_nat (below n p) :: rat) = of_int \<lfloor>rank_of n p\<rfloor>" using R(1) by (simp add: below_def)
  show "of_nat (below n p) \<le> rank_of n p" "rank_of n p < of_nat (below n p) + 1" unfolding eq by linarith+
  then have "(of_nat (below n p) :: rat) \<le> of_nat (n - 1)" using R(2) by linarith
  then show le: "below n p \<le> n - 1" by (simp only: of_nat_le_iff)
  then show "0 < n \<Longrightarrow> below n p < n" "0 < n \<Longrightarrow> above n p < n" by (auto simp: above_def)
  show "dbl (of_nat (below n p)) = of_nat (below n p)" using le assms(3) by (intro dbl_of_nat) simp
qed

lemma part_bounds:
  assumes "0 \<le> p" "p \<le> 1" "n \<le> 2 ^ 53"
  shows "0 \<le> part n p" "part n p \<le> 1"
proof -
  note B = below_bounds [OF assms]
  have "0 \<le> rank_of n p - of_nat (below n p)" "rank_of n p - of_nat (below n p) \<le> 1" using B(1,2) by simp_all
  then have "0 \<le> part n p" "part n p \<le> dbl 1" unfolding part_def dsub_def B(6) by (intro dbl_ge_0 dbl_mono; simp)+
  then show "0 \<le> part n p" "part n p \<le> 1" by simp_all
qed

lemma percentile_eq:
  assumes "0 \<le> p" "p \<le> 1" "length xs \<le> 2 ^ 53" "xs \<noteq> []"
  shows "percentile xs p = (let n = length xs
    in dadd (dmul (dbl (of_nat (unat (xs ! below n p)))) (dsub 1 (part n p))) (dmul (dbl (of_nat (unat (xs ! above n p)))) (part n p)))"
  using assms(4) rank_bounds [OF assms(1-3)]
  by (simp add: percentile_def Let_def truncated_def below_def above_def part_def rank_of_def)

section \<open>Rounding\<close>

text \<open>Interpolating in doubles: the four operations are off by a few units in the last place.\<close>

lemma interpolation_error:
  assumes "m \<le> k" "k \<le> 2 ^ 53" "0 \<le> f" "f \<le> 1"
  shows "\<bar>dadd (dmul (of_nat m) (dsub 1 f)) (dmul (of_nat k) f) - ((1 - f) * of_nat m + f * of_nat k)\<bar> \<le> (of_nat k + 1) / 2 ^ 50"
proof -
  let ?a = "of_nat m :: rat" and ?b = "of_nat k :: rat" and ?g = "dsub 1 f" and ?u = "1 / 2 ^ 53 :: rat"
  let ?P = "dmul ?a ?g" and ?Q = "dmul ?b f" and ?B = "of_nat k + 1 :: rat"
  have ab: "?a \<le> ?b" "0 \<le> ?a" "0 \<le> ?b" using assms(1) by simp_all
  have g: "0 \<le> ?g" "?g \<le> 1" "\<bar>?g - (1 - f)\<bar> \<le> ?u"
    using assms(3,4) dbl_mono [of "1 - f" 1] dbl_error [of "1 - f" 1] by (simp_all add: dsub_def)
  have ag: "?a * ?g \<le> ?a" "?b * f \<le> ?b" using g ab assms(3,4) by (simp_all add: mult_left_le)
  have P: "0 \<le> ?P" "?P \<le> ?a" "\<bar>?P - ?a * ?g\<bar> \<le> ?B * ?u"
    using dbl_mono [of "?a * ?g" ?a] dbl_error [of "?a * ?g" ?B] g(1) ab ag(1) assms(1,2) by (simp_all add: dmul_def)
  have Q: "0 \<le> ?Q" "?Q \<le> ?b" "\<bar>?Q - ?b * f\<bar> \<le> ?B * ?u"
    using dbl_mono [of "?b * f" ?b] dbl_error [of "?b * f" ?B] ab ag(2) assms by (simp_all add: dmul_def)
  have S: "\<bar>dadd ?P ?Q - (?P + ?Q)\<bar> \<le> 2 * ?B * ?u"
    using dbl_error [of "?P + ?Q" "2 * ?B"] P(1,2) Q(1,2) ab by (simp add: dadd_def)
  have "\<bar>?a * ?g - ?a * (1 - f)\<bar> \<le> ?B * ?u"
  proof -
    have "\<bar>?a * ?g - ?a * (1 - f)\<bar> = ?a * \<bar>?g - (1 - f)\<bar>" by (simp add: right_diff_distrib [symmetric] abs_mult)
    also have "\<dots> \<le> ?B * ?u" using g(3) ab by (intro mult_mono) simp_all
    finally show ?thesis .
  qed
  with P(3) Q(3) S have "\<bar>dadd ?P ?Q - (?a * (1 - f) + ?b * f)\<bar> \<le> 5 * (?B * ?u)" by (simp only: abs_le_iff) linarith
  also have "\<dots> \<le> 8 * (?B * ?u)" using ab by (intro mult_right_mono) simp_all
  also have "\<dots> = ?B / 2 ^ 50" by simp
  finally show ?thesis by (simp only: mult.commute)
qed

text \<open>The greatest sample.\<close>

lemma max_ns_greatest: "xs \<noteq> [] \<Longrightarrow> max_ns (sort xs) = Max (set xs)"
proof -
  assume "xs \<noteq> []"
  then have ne: "sort xs \<noteq> []" by (metis length_0_conv length_sort)
  have "x \<le> last (sort xs)" if "x \<in> set (sort xs)" for x
  proof -
    obtain i where i: "i < length (sort xs)" "x = sort xs ! i" using \<open>x \<in> set (sort xs)\<close> unfolding in_set_conv_nth by blast
    then show ?thesis using sorted_nth_mono [OF sorted_sort, of i "length xs - 1" xs] by (simp add: last_conv_nth [OF ne])
  qed
  then have "Max (set (sort xs)) = last (sort xs)" using last_in_set [OF ne] by (intro Max_eqI) simp_all
  then show ?thesis using ne by (simp add: max_ns_def)
qed

section \<open>The properties\<close>

text \<open>C40 \<open>percentile\<close> reads two neighbouring samples inside the vector, and is the value interpolated
  between them up to rounding: off by at most the upper one's \<open>2^50\<close>-th part, so by less than half a
  nanosecond for latencies below six days, and not at all if the rank is a whole number.\<close>

theorem percentile_accurate:
  assumes "sorted xs" "xs \<noteq> []" "length xs \<le> 2 ^ 53" "\<forall>x \<in> set xs. unat x \<le> 2 ^ 53" "0 \<le> p" "p \<le> 1"
    and "lo = below (length xs) p" "hi = above (length xs) p" "f = part (length xs) p"
  shows "lo < length xs \<and> hi < length xs \<and> \<bar>percentile xs p - ((1 - f) * of_nat (unat (xs ! lo)) + f * of_nat (unat (xs ! hi)))\<bar>
      \<le> (of_nat (unat (xs ! hi)) + 1) / 2 ^ 50
    \<and> (f = 0 \<longrightarrow> percentile xs p = of_nat (unat (xs ! lo)))"
proof -
  have n: "0 < length xs" using assms(2) by simp
  note B = below_bounds [OF assms(5,6,3)] and F = part_bounds [OF assms(5,6,3)]
  have range: "lo < length xs" "hi < length xs" using B(4,5) [OF n] by (simp_all add: assms(7,8))
  have "lo \<le> hi" using B(3) by (simp add: assms(7,8) above_def)
  then have "xs ! lo \<le> xs ! hi" using range(2) assms(1) by (intro sorted_nth_mono)
  then have le: "unat (xs ! lo) \<le> unat (xs ! hi)" by (simp add: word_le_nat_alt)
  have small: "unat (xs ! lo) \<le> 2 ^ 53" "unat (xs ! hi) \<le> 2 ^ 53" using assms(4) range by simp_all
  have eq: "percentile xs p = dadd (dmul (of_nat (unat (xs ! lo))) (dsub 1 f)) (dmul (of_nat (unat (xs ! hi))) f)"
    unfolding percentile_eq [OF assms(5,6,3,2)] Let_def assms(7-9) [symmetric] dbl_of_nat [OF small(1)] dbl_of_nat [OF small(2)] ..
  have "percentile xs p = of_nat (unat (xs ! lo))" if "f = 0"
    using small(1) unfolding eq that by (simp add: dadd_def dmul_def dsub_def)
  with range interpolation_error [OF le small(2) F(1,2)] show ?thesis unfolding eq assms(9) by blast
qed

theorem percentile_accurate_witness:
  "percentile [120, 250, 900] (1 / 2) = 250"
proof -
  have p: "rank_of 3 (1 / 2) = 1" "below 3 (1 / 2) = 1" "part 3 (1 / 2) = 0"
    using dbl_of_nat [of 2] by (simp_all add: rank_of_def below_def part_def dmul_def dsub_def)
  show ?thesis
    using percentile_accurate [of "[120, 250, 900]" "1 / 2", OF _ _ _ _ _ _ refl refl refl] by (simp add: p numeral_3_eq_3 [symmetric])
qed

end
