(* ===== verification/Reentrant.thy ===== *)
theory Reentrant
  imports Listener
begin

text \<open>
  The handlers of \<open>src/engine.cpp\<close> with callbacks that may do anything to the engine: the listener's
  code runs in the middle of the handler, on the engine as it is at the call, and may send requests
  of its own before it returns or throws. The handlers of \<open>Listener\<close> are those with callbacks
  that only record the call, and perhaps throw.
\<close>

section \<open>Callbacks\<close>

text \<open>What a callback does to the engine; recording the call in \<open>eng_events\<close> is part of it.\<close>

type_synonym callback = "engine \<Rightarrow> engine flight"

type_synonym trade_callback = "trade_id \<Rightarrow> instrument_id \<Rightarrow> price \<Rightarrow> quantity \<Rightarrow> order_id \<Rightarrow> order_id \<Rightarrow> side \<Rightarrow> callback"

type_synonym callbacks = "event \<Rightarrow> callback"

abbreviation on_trade :: "callbacks \<Rightarrow> trade_callback" where
  "on_trade cb t iid p q resting aggressor sd \<equiv> cb (On_trade t iid p q resting aggressor sd)"

section \<open>Matching\<close>

text \<open>
  The loops work on the engine itself. \<open>fill\<close> and the arguments of \<open>on_trade\<close> are computed before
  the call; \<open>agg\<close>, \<open>resting\<close> and \<open>lvl\<close> are references, so what the callback did is seen after it.
\<close>

definition execute_head_cb :: "trade_callback \<Rightarrow> nat \<Rightarrow> instrument_id \<Rightarrow> slot \<Rightarrow> side \<Rightarrow> 32 word \<Rightarrow> engine \<Rightarrow> engine flight" where
  "execute_head_cb trade b instrument_id agg sd idx e =
    (let opp = opposite sd;
         resting_slot = lvl_head (level_at (eng_books e ! b) opp idx);
         fill = min (rec_open_qty (rec_of e agg)) (rec_open_qty (rec_of e resting_slot));
         trade_id = eng_next_trade_id e
     in resume (trade trade_id instrument_id (rec_price (rec_of e resting_slot)) fill (rec_id (rec_of e resting_slot)) (rec_id (rec_of e agg)) sd
          (e\<lparr>eng_next_trade_id := trade_id + 1\<rparr>)) (\<lambda>e.
        let e = upd_rec agg (\<lambda>r. r\<lparr>rec_open_qty := rec_open_qty r - fill, rec_filled_qty := rec_filled_qty r + fill\<rparr>) e;
            e = upd_rec resting_slot (\<lambda>r. r\<lparr>rec_open_qty := rec_open_qty r - fill, rec_filled_qty := rec_filled_qty r + fill\<rparr>) e;
            e = with_book (\<lambda>p ob. let lvl = level_at ob opp idx
                  in (p, set_level_at ob opp idx (lvl\<lparr>lvl_total_qty := lvl_total_qty lvl - fill\<rparr>))) b e
        in Some (Inr (if rec_open_qty (rec_of e resting_slot) = 0 then with_book (\<lambda>p ob. remove_resting p ob resting_slot) b e else e))))"

partial_function (option) match_level_cb :: "trade_callback \<Rightarrow> nat \<Rightarrow> instrument_id \<Rightarrow> slot \<Rightarrow> side \<Rightarrow> 32 word \<Rightarrow> engine \<Rightarrow> engine flight" where
  "match_level_cb trade b instrument_id agg sd idx e =
    (if 0 < rec_open_qty (rec_of e agg) \<and> lvl_head (level_at (eng_books e ! b) (opposite sd) idx) \<noteq> kInvalidSlot
     then do { r \<leftarrow> execute_head_cb trade b instrument_id agg sd idx e;
               case r of Inl e \<Rightarrow> Some (Inl e) | Inr e \<Rightarrow> match_level_cb trade b instrument_id agg sd idx e }
     else Some (Inr e))"

partial_function (option) run_matching_cb :: "trade_callback \<Rightarrow> nat \<Rightarrow> instrument_id \<Rightarrow> slot \<Rightarrow> side \<Rightarrow> price \<Rightarrow> bool \<Rightarrow> engine \<Rightarrow> engine flight" where
  "run_matching_cb trade b instrument_id agg sd limit_price is_market e =
    (if 0 < rec_open_qty (rec_of e agg) \<and> has_best (eng_books e ! b) (opposite sd)
     then let idx = word_of_int (best_index (eng_books e ! b) (opposite sd));
              resting_price = ob_index_to_price (eng_books e ! b) idx
          in if \<not> is_market \<and> \<not> crosses sd limit_price resting_price then Some (Inr e)
             else do { r \<leftarrow> match_level_cb trade b instrument_id agg sd idx e;
                       case r of Inl e \<Rightarrow> Some (Inl e)
                       | Inr e \<Rightarrow> run_matching_cb trade b instrument_id agg sd limit_price is_market e }
     else Some (Inr e))"

section \<open>The handlers\<close>

definition submit_accepted_cb :: "callbacks \<Rightarrow> engine \<Rightarrow> new_order \<Rightarrow> nat \<Rightarrow> slot \<Rightarrow> bool \<Rightarrow> price \<Rightarrow> engine flight" where
  "submit_accepted_cb cb e order b slot is_market price =
    resume (cb (On_accepted (no_order_id order))
        (upd_rec slot (\<lambda>r. r\<lparr>rec_open_qty := no_quantity order, rec_filled_qty := 0\<rparr>) e)) (\<lambda>e.
      do {
       fillable \<leftarrow> (if no_tif order = kFok
                   then can_fully_fill (eng_books e ! b) (no_side order) is_market price (no_quantity order)
                   else Some True);
       if \<not> fillable
       then cb (On_canceled (no_order_id order) (no_quantity order) kFokUnfillable)
              (upd_rec slot (\<lambda>r. r\<lparr>rec_open_qty := 0\<rparr>) e)
       else resume (run_matching_cb (on_trade cb) b (no_instrument_id order) slot (no_side order) price is_market e) (\<lambda>e.
         if 0 < rec_open_qty (rec_of e slot)
         then if no_tif order = kDay
              then Some (Inr (with_book (\<lambda>p ob. add_resting p ob slot (no_side order) price) b e))
              else let reason = (if is_market then kNoLiquidity
                                 else if no_tif order = kIoc then kIocRemainder else kFokUnfillable);
                       remainder = rec_open_qty (rec_of e slot)
                   in cb (On_canceled (no_order_id order) remainder reason)
                        (upd_rec slot (\<lambda>r. r\<lparr>rec_open_qty := 0\<rparr>) e)
         else Some (Inr e)) })"

definition submit_validated_cb :: "callbacks \<Rightarrow> engine \<Rightarrow> new_order \<Rightarrow> nat \<Rightarrow> slot \<Rightarrow> engine flight" where
  "submit_validated_cb cb e order b slot =
    (let reject = (\<lambda>reason. cb (On_rejected (no_order_id order) reason) e);
         is_market = (no_type order = kMarket)
     in if no_quantity order = 0 then reject kInvalidQuantity
        else if is_market \<and> no_tif order = kDay then reject kInvalidTimeInForce
        else if \<not> is_market then
          if \<not> is_tick_aligned (no_price order) then reject kInvalidPriceTick
          else if ob_price_to_index (eng_books e ! b) (no_price order) < 0 then reject kPriceOutOfBand
          else submit_accepted_cb cb e order b slot is_market (no_price order)
        else submit_accepted_cb cb e order b slot is_market 0)"

definition submit_cb :: "callbacks \<Rightarrow> allocator \<Rightarrow> engine \<Rightarrow> new_order \<Rightarrow> engine option" where
  "submit_cb cb al e order = caught
    (let reject = (\<lambda>reason. cb (On_rejected (no_order_id order) reason) e)
     in if \<not> eng_configured e then reject kNotConfigured
        else do {
          book \<leftarrow> find_book e (no_instrument_id order);
          case book of
            None \<Rightarrow> reject kUnknownInstrument
          | Some b \<Rightarrow> do {
              dup \<leftarrow> fm_contains (eng_order_index e) (no_order_id order);
              if dup then reject kDuplicateOrderId
              else do {
                a \<leftarrow> op_allocate al (eng_pool e);
                case a of
                  Inl _ \<Rightarrow> Some (Inl e)
                | Inr (slot, p) \<Rightarrow> do {
                    let e = upd_rec slot (\<lambda>r. r\<lparr>rec_id := no_order_id order,
                        rec_instrument_id := no_instrument_id order, rec_side := no_side order\<rparr>) (e\<lparr>eng_pool := p\<rparr>);
                    ins \<leftarrow> fm_insert al (eng_order_index e) (no_order_id order) slot;
                    case ins of
                      Inl _ \<Rightarrow> Some (Inl e)
                    | Inr oi \<Rightarrow> submit_validated_cb cb (e\<lparr>eng_order_index := oi\<rparr>) order b slot } } } })"

definition cancel_cb :: "callbacks \<Rightarrow> engine \<Rightarrow> cancel_order \<Rightarrow> engine option" where
  "cancel_cb cb e req = caught
    (let reject = (\<lambda>reason. cb (On_rejected (co_order_id req) reason) e)
     in if \<not> eng_configured e then reject kNotConfigured
        else do {
          r \<leftarrow> fm_find (eng_order_index e) (co_order_id req);
          case r of
            None \<Rightarrow> reject kUnknownOrder
          | Some slot \<Rightarrow>
              if \<not> rec_is_open (rec_of e slot) then reject kUnknownOrder
              else do {
                book \<leftarrow> find_book e (rec_instrument_id (rec_of e slot));
                b \<leftarrow> book;
                let open_qty = rec_open_qty (rec_of e slot);
                cb (On_canceled (co_order_id req) open_qty kUserRequested)
                  (with_book (\<lambda>p ob. remove_resting p ob slot) b e) } })"

definition replace_commit_cb :: "callbacks \<Rightarrow> engine \<Rightarrow> replace_order \<Rightarrow> nat \<Rightarrow> order_record \<Rightarrow> slot \<Rightarrow> slot \<Rightarrow> quantity \<Rightarrow> engine flight" where
  "replace_commit_cb cb e req b old_copy old_slot new_slot new_open =
    (let price_changed = (ro_new_price req \<noteq> rec_price old_copy);
         qty_increased = (rec_open_qty old_copy < new_open);
         ev = On_replaced (ro_order_id req) (ro_new_order_id req) (ro_new_price req) new_open
     in if price_changed \<or> qty_increased then
          resume (cb ev (with_book (\<lambda>p ob. remove_resting p ob old_slot) b e)) (\<lambda>e.
          resume (if price_changed
               then run_matching_cb (on_trade cb) b (rec_instrument_id old_copy) new_slot (rec_side old_copy) (ro_new_price req) False e
               else Some (Inr e)) (\<lambda>e.
          if 0 < rec_open_qty (rec_of e new_slot)
          then Some (Inr (with_book (\<lambda>p ob. add_resting p ob new_slot (rec_side old_copy) (ro_new_price req)) b e))
          else Some (Inr e)))
        else cb ev (with_book (\<lambda>p ob. replace_in_place p ob old_slot new_slot) b e))"

definition replace_validated_cb :: "callbacks \<Rightarrow> allocator \<Rightarrow> engine \<Rightarrow> replace_order \<Rightarrow> nat \<Rightarrow> order_record \<Rightarrow> slot \<Rightarrow> quantity \<Rightarrow> engine flight" where
  "replace_validated_cb cb al e req b old_copy old_slot new_open =
    do {
      a \<leftarrow> op_allocate al (eng_pool e);
      case a of
        Inl _ \<Rightarrow> Some (Inl e)
      | Inr (new_slot, p) \<Rightarrow> do {
          let e = upd_rec new_slot (\<lambda>r. r\<lparr>rec_id := ro_new_order_id req,
              rec_instrument_id := rec_instrument_id old_copy, rec_side := rec_side old_copy,
              rec_price := ro_new_price req, rec_open_qty := new_open,
              rec_filled_qty := rec_filled_qty old_copy\<rparr>) (e\<lparr>eng_pool := p\<rparr>);
          ins \<leftarrow> (if ro_new_order_id req = ro_order_id req
                 then map_option Inr (fm_assign_existing (eng_order_index e) (ro_new_order_id req) new_slot)
                 else fm_insert al (eng_order_index e) (ro_new_order_id req) new_slot);
          case ins of
            Inl _ \<Rightarrow> Some (Inl e)
          | Inr oi \<Rightarrow> replace_commit_cb cb (e\<lparr>eng_order_index := oi\<rparr>) req b old_copy old_slot new_slot new_open } }"

definition replace_cb :: "callbacks \<Rightarrow> allocator \<Rightarrow> engine \<Rightarrow> replace_order \<Rightarrow> engine option" where
  "replace_cb cb al e req = caught
    (let reject = (\<lambda>reason. cb (On_rejected (ro_new_order_id req) reason) e)
     in if \<not> eng_configured e then reject kNotConfigured
        else do {
          r \<leftarrow> fm_find (eng_order_index e) (ro_order_id req);
          case r of
            None \<Rightarrow> reject kUnknownOrder
          | Some old_slot \<Rightarrow>
              if \<not> rec_is_open (rec_of e old_slot) then reject kUnknownOrder
              else do {
                let old_copy = rec_of e old_slot;
                book \<leftarrow> find_book e (rec_instrument_id old_copy);
                b \<leftarrow> book;
                let new_open = (if rec_filled_qty old_copy < ro_new_quantity req
                                then ro_new_quantity req - rec_filled_qty old_copy else 0);
                if new_open = 0
                then cb (On_canceled (ro_order_id req) (rec_open_qty old_copy) kUserRequested)
                  (with_book (\<lambda>p ob. remove_resting p ob old_slot) b e)
                else do {
                  dup \<leftarrow> (if ro_new_order_id req = ro_order_id req then Some False
                         else fm_contains (eng_order_index e) (ro_new_order_id req));
                  if dup then reject kDuplicateOrderId
                  else if \<not> is_tick_aligned (ro_new_price req) then reject kInvalidPriceTick
                  else if ob_price_to_index (eng_books e ! b) (ro_new_price req) < 0 then reject kPriceOutOfBand
                  else replace_validated_cb cb al e req b old_copy old_slot new_open } } })"

fun step_cb :: "callbacks \<Rightarrow> allocator \<Rightarrow> engine \<Rightarrow> command \<Rightarrow> engine option" where
  "step_cb cb al e (Submit order) = submit_cb cb al e order"
| "step_cb cb al e (Cancel req) = cancel_cb cb e req"
| "step_cb cb al e (Replace req) = replace_cb cb al e req"

section \<open>Listeners that send requests\<close>

text \<open>
  A listener is given by its replies: the requests it sends from inside a callback, before it
  returns. Callbacks nest at most \<open>n\<close> deep; the innermost ones send nothing.
\<close>

type_synonym replies = "event list \<Rightarrow> event \<Rightarrow> (allocator \<times> command) list"

fun run_by :: "(allocator \<Rightarrow> engine \<Rightarrow> command \<Rightarrow> engine option) \<Rightarrow> engine \<Rightarrow> (allocator \<times> command) list \<Rightarrow> engine option" where
  "run_by f e [] = Some e"
| "run_by f e ((al, c) # cs) = do { e \<leftarrow> f al e c; run_by f e cs }"

definition answering :: "(allocator \<Rightarrow> engine \<Rightarrow> command \<Rightarrow> engine option) \<Rightarrow> replies \<Rightarrow> callbacks" where
  "answering f reply ev e = map_option Inr (run_by f (emit ev e) (reply (eng_events e) ev))"

primrec step_nested :: "nat \<Rightarrow> replies \<Rightarrow> allocator \<Rightarrow> engine \<Rightarrow> command \<Rightarrow> engine option" where
  "step_nested 0 reply = step"
| "step_nested (Suc n) reply = step_cb (answering (step_nested n reply) reply)"

lemma run_by_step [simp]: "run_by step e cs = run e cs"
  by (induction cs arbitrary: e) (auto split: bind_splits)

section \<open>Callbacks that only record the call\<close>

text \<open>The state that \<open>run_matching\<close> of \<open>Listener\<close> works on, in the engine.\<close>

definition ms_of :: "nat \<Rightarrow> engine \<Rightarrow> match_state" where
  "ms_of b e = \<lparr>ms_pool = eng_pool e, ms_book = eng_books e ! b, ms_next_trade_id = eng_next_trade_id e, ms_events = eng_events e\<rparr>"

definition into :: "nat \<Rightarrow> engine \<Rightarrow> match_state \<Rightarrow> engine" where
  "into b e ms = e\<lparr>eng_pool := ms_pool ms, eng_books := (eng_books e)[b := ms_book ms],
    eng_next_trade_id := ms_next_trade_id ms, eng_events := ms_events ms\<rparr>"

lemma ms_of_sel [simp]:
  "ms_pool (ms_of b e) = eng_pool e" "ms_book (ms_of b e) = eng_books e ! b" "ms_next_trade_id (ms_of b e) = eng_next_trade_id e"
  "ms_events (ms_of b e) = eng_events e"
  by (simp_all add: ms_of_def)

lemma into_sel [simp]:
  "eng_pool (into b e ms) = ms_pool ms" "length (eng_books (into b e ms)) = length (eng_books e)"
  "b < length (eng_books e) \<Longrightarrow> eng_books (into b e ms) ! b = ms_book ms" "into b (into b e ms) ms' = into b e ms'"
  "into b e (ms_of b e) = e" "b < length (eng_books e) \<Longrightarrow> ms_of b (into b e ms) = ms"
  by (simp_all add: into_def ms_of_def)

lemma execute_head_recorded:
  assumes b: "b < length (eng_books e)"
  shows "execute_head_cb (on_trade (notify li)) b iid agg sd idx e =
    (let ev = head_trade iid agg sd idx (ms_of b e)
     in Some (if li (eng_events e) ev then Inl (into b e (trade_thrown ev (ms_of b e)))
              else Inr (into b e (execute_head iid agg sd idx (ms_of b e)))))"
proof -
  let ?ev = "head_trade iid agg sd idx (ms_of b e)"
  have ev: "?ev = (let opp = opposite sd; resting_slot = lvl_head (level_at (eng_books e ! b) opp idx);
      fill = min (rec_open_qty (rec_of e agg)) (rec_open_qty (rec_of e resting_slot))
    in On_trade (eng_next_trade_id e) iid (rec_price (rec_of e resting_slot)) fill (rec_id (rec_of e resting_slot)) (rec_id (rec_of e agg)) sd)"
    by (simp add: head_trade_def Let_def)
  show ?thesis
  proof (cases "li (eng_events e) ?ev")
    case True
    then show ?thesis unfolding Let_def if_P [OF True]
      using ev b by (simp add: execute_head_cb_def notify_def resume_def Let_def into_def trade_thrown_def emit_def ms_of_def)
  next
    case False
    then show ?thesis unfolding Let_def if_not_P [OF False]
      using ev b by (simp add: execute_head_cb_def notify_def resume_def Let_def into_def execute_head_def emit_def ms_of_def
        upd_rec_def with_book_def split: prod.split)
  qed
qed

text \<open>One round of the inner loop, for both loops alike.\<close>

lemma level_cb_stop: "\<not> goes_on agg sd idx (ms_of b e) \<Longrightarrow> match_level_cb trade b iid agg sd idx e = Some (Inr e)"
  by (subst match_level_cb.simps) (auto simp: ms_of_def)

lemma level_cb_go:
  assumes "goes_on agg sd idx (ms_of b e)" "b < length (eng_books e)"
  shows "match_level_cb (on_trade (notify li)) b iid agg sd idx e =
    (let ev = head_trade iid agg sd idx (ms_of b e)
     in if li (eng_events e) ev then Some (Inl (into b e (trade_thrown ev (ms_of b e))))
        else match_level_cb (on_trade (notify li)) b iid agg sd idx (into b e (execute_head iid agg sd idx (ms_of b e))))"
  using assms by (subst match_level_cb.simps) (simp add: execute_head_recorded Let_def)

lemma into_into: "into b (into b e ms) = into b e"
  by (rule ext) simp

definition alike :: "nat \<Rightarrow> engine \<Rightarrow> match_state flight \<Rightarrow> engine flight \<Rightarrow> bool" where
  "alike b e m r \<longleftrightarrow> r = map_option (map_sum (into b e) (into b e)) m"

lemma level_alike_cb:
  assumes "match_level_cb trade b iid agg sd idx e = Some r"
  shows "trade = on_trade (notify li) \<longrightarrow> b < length (eng_books e) \<longrightarrow> alike b e (match_level_with li iid agg sd idx (ms_of b e)) (Some r)"
proof (rule match_level_cb.raw_induct [where P = "\<lambda>trade b iid agg sd idx e r. trade = on_trade (notify li) \<longrightarrow> b < length (eng_books e)
    \<longrightarrow> alike b e (match_level_with li iid agg sd idx (ms_of b e)) (Some r)", OF _ assms], intro impI)
  fix go trade b iid agg sd idx e r
  assume IH: "\<And>trade b iid agg sd idx e r. go trade b iid agg sd idx e = Some r \<Longrightarrow> trade = on_trade (notify li) \<longrightarrow> b < length (eng_books e)
      \<longrightarrow> alike b e (match_level_with li iid agg sd idx (ms_of b e)) (Some r)"
    and body: "(if 0 < rec_open_qty (rec_of e agg) \<and> lvl_head (level_at (eng_books e ! b) (opposite sd) idx) \<noteq> kInvalidSlot
     then execute_head_cb trade b iid agg sd idx e \<bind> (\<lambda>r. case r of Inl e \<Rightarrow> Some (Inl e) | Inr e \<Rightarrow> go trade b iid agg sd idx e)
     else Some (Inr e)) = Some r"
    and trade: "trade = on_trade (notify li)" and b: "b < length (eng_books e)"
  let ?ms = "ms_of b e" and ?ev = "head_trade iid agg sd idx (ms_of b e)"
  show "alike b e (match_level_with li iid agg sd idx ?ms) (Some r)"
  proof (cases "goes_on agg sd idx ?ms")
    case True
    show ?thesis
    proof (cases "li (eng_events e) ?ev")
      case throws: True
      with body True trade b level_with_throw [OF True, of li iid] show ?thesis by (simp add: alike_def execute_head_recorded)
    next
      case False
      let ?e = "into b e (execute_head iid agg sd idx ?ms)"
      have "go trade b iid agg sd idx ?e = Some r" using body True trade b False by (simp add: execute_head_recorded)
      from IH [OF this] trade b False show ?thesis by (simp add: alike_def into_into level_with_go [OF True])
    qed
  next
    case False
    with body have "r = Inr e" by (auto split: if_splits)
    with level_with_stop [OF False] show ?thesis by (simp add: alike_def)
  qed
qed

lemma level_alike_with:
  assumes "match_level_with li iid agg sd idx ms = Some r"
  shows "\<forall>e. b < length (eng_books e) \<longrightarrow> ms = ms_of b e \<longrightarrow> alike b e (Some r) (match_level_cb (on_trade (notify li)) b iid agg sd idx e)"
proof (rule match_level_with.raw_induct [where P = "\<lambda>li iid agg sd idx ms r. \<forall>e. b < length (eng_books e) \<longrightarrow> ms = ms_of b e
    \<longrightarrow> alike b e (Some r) (match_level_cb (on_trade (notify li)) b iid agg sd idx e)", OF _ assms], intro allI impI)
  fix go li iid agg sd idx ms r e
  assume IH: "\<And>li iid agg sd idx ms r. go li iid agg sd idx ms = Some r \<Longrightarrow> \<forall>e. b < length (eng_books e) \<longrightarrow> ms = ms_of b e
      \<longrightarrow> alike b e (Some r) (match_level_cb (on_trade (notify li)) b iid agg sd idx e)"
    and body: "(if goes_on agg sd idx ms
     then let ev = head_trade iid agg sd idx ms
          in if li (ms_events ms) ev then Some (Inl (trade_thrown ev ms)) else go li iid agg sd idx (execute_head iid agg sd idx ms)
     else Some (Inr ms)) = Some r"
    and b: "b < length (eng_books e)" and ms: "ms = ms_of b e"
  let ?ev = "head_trade iid agg sd idx ms"
  show "alike b e (Some r) (match_level_cb (on_trade (notify li)) b iid agg sd idx e)"
  proof (cases "goes_on agg sd idx ms")
    case True
    note go = level_cb_go [OF True [unfolded ms] b, of li iid]
    show ?thesis
    proof (cases "li (ms_events ms) ?ev")
      case throws: True
      with body True go ms show ?thesis by (auto simp: alike_def)
    next
      case False
      let ?e = "into b e (execute_head iid agg sd idx ms)"
      have "go li iid agg sd idx (execute_head iid agg sd idx ms) = Some r" using body True False by simp
      from IH [OF this] b have "alike b ?e (Some r) (match_level_cb (on_trade (notify li)) b iid agg sd idx ?e)" by simp
      with go False ms show ?thesis by (simp add: alike_def into_into)
    qed
  next
    case False
    with body level_cb_stop [OF False [unfolded ms]] ms show ?thesis by (auto simp: alike_def)
  qed
qed

lemma level_cb_recorded:
  assumes "b < length (eng_books e)"
  shows "match_level_cb (on_trade (notify li)) b iid agg sd idx e = map_option (map_sum (into b e) (into b e)) (match_level_with li iid agg sd idx (ms_of b e))"
  using level_alike_cb [of "on_trade (notify li)" b iid agg sd idx e _ li] level_alike_with [of li iid agg sd idx "ms_of b e"] assms
  by (cases "match_level_cb (on_trade (notify li)) b iid agg sd idx e"; cases "match_level_with li iid agg sd idx (ms_of b e)")
    (auto simp: alike_def)

lemma run_cb_stop: "\<not> searches agg sd limit_price is_market (ms_of b e) \<Longrightarrow> run_matching_cb trade b iid agg sd limit_price is_market e = Some (Inr e)"
  by (subst run_matching_cb.simps) (auto simp: searches_def best_level_of_def Let_def)

lemma run_cb_go:
  "searches agg sd limit_price is_market (ms_of b e) \<Longrightarrow> run_matching_cb trade b iid agg sd limit_price is_market e =
    match_level_cb trade b iid agg sd (best_level_of sd (ms_of b e)) e \<bind>
      (\<lambda>r. case r of Inl e \<Rightarrow> Some (Inl e) | Inr e \<Rightarrow> run_matching_cb trade b iid agg sd limit_price is_market e)"
  by (subst run_matching_cb.simps) (simp only: searches_def best_level_of_def Let_def if_P if_not_P simp_thms ms_of_sel)

lemma run_alike_cb:
  assumes "run_matching_cb trade b iid agg sd limit_price is_market e = Some r"
  shows "trade = on_trade (notify li) \<longrightarrow> b < length (eng_books e)
    \<longrightarrow> alike b e (run_matching_with li iid agg sd limit_price is_market (ms_of b e)) (Some r)"
proof (rule run_matching_cb.raw_induct [where P = "\<lambda>trade b iid agg sd limit_price is_market e r. trade = on_trade (notify li) \<longrightarrow> b < length (eng_books e)
    \<longrightarrow> alike b e (run_matching_with li iid agg sd limit_price is_market (ms_of b e)) (Some r)", OF _ assms], intro impI)
  fix run trade b iid agg sd limit_price is_market e r
  assume IH: "\<And>trade b iid agg sd limit_price is_market e r. run trade b iid agg sd limit_price is_market e = Some r \<Longrightarrow> trade = on_trade (notify li)
      \<longrightarrow> b < length (eng_books e) \<longrightarrow> alike b e (run_matching_with li iid agg sd limit_price is_market (ms_of b e)) (Some r)"
    and body: "(if 0 < rec_open_qty (rec_of e agg) \<and> has_best (eng_books e ! b) (opposite sd)
     then let idx = word_of_int (best_index (eng_books e ! b) (opposite sd));
              resting_price = ob_index_to_price (eng_books e ! b) idx
          in if \<not> is_market \<and> \<not> crosses sd limit_price resting_price then Some (Inr e)
             else match_level_cb trade b iid agg sd idx e \<bind>
               (\<lambda>r. case r of Inl e \<Rightarrow> Some (Inl e) | Inr e \<Rightarrow> run trade b iid agg sd limit_price is_market e)
     else Some (Inr e)) = Some r"
    and trade: "trade = on_trade (notify li)" and b: "b < length (eng_books e)"
  let ?idx = "best_level_of sd (ms_of b e)"
  show "alike b e (run_matching_with li iid agg sd limit_price is_market (ms_of b e)) (Some r)"
  proof (cases "searches agg sd limit_price is_market (ms_of b e)")
    case True
    then have "match_level_cb trade b iid agg sd ?idx e \<bind>
        (\<lambda>r. case r of Inl e \<Rightarrow> Some (Inl e) | Inr e \<Rightarrow> run trade b iid agg sd limit_price is_market e) = Some r"
      using body by (simp only: searches_def best_level_of_def Let_def if_P if_not_P simp_thms ms_of_sel)
    then obtain m where m: "match_level_with li iid agg sd ?idx (ms_of b e) = Some m"
      "(case map_sum (into b e) (into b e) m of Inl e \<Rightarrow> Some (Inl e) | Inr e \<Rightarrow> run trade b iid agg sd limit_price is_market e) = Some r"
      unfolding trade level_cb_recorded [OF b] by (auto simp: bind_eq_Some_conv)
    show ?thesis
    proof (cases m)
      case (Inl ms)
      with m show ?thesis by (simp add: alike_def run_with_go [OF True])
    next
      case (Inr ms)
      with m(2) have "run trade b iid agg sd limit_price is_market (into b e ms) = Some r" by simp
      from IH [OF this] trade b Inr m(1) show ?thesis by (simp add: alike_def into_into run_with_go [OF True])
    qed
  next
    case False
    with body have "r = Inr e" by (auto simp: searches_def best_level_of_def Let_def split: if_splits)
    with run_with_stop [OF False] show ?thesis by (simp add: alike_def)
  qed
qed

lemma run_alike_with:
  assumes "run_matching_with li iid agg sd limit_price is_market ms = Some r"
  shows "\<forall>e. b < length (eng_books e) \<longrightarrow> ms = ms_of b e \<longrightarrow> alike b e (Some r) (run_matching_cb (on_trade (notify li)) b iid agg sd limit_price is_market e)"
proof (rule run_matching_with.raw_induct [where P = "\<lambda>li iid agg sd limit_price is_market ms r. \<forall>e. b < length (eng_books e) \<longrightarrow> ms = ms_of b e
    \<longrightarrow> alike b e (Some r) (run_matching_cb (on_trade (notify li)) b iid agg sd limit_price is_market e)", OF _ assms], intro allI impI)
  fix run li iid agg sd limit_price is_market ms r e
  assume IH: "\<And>li iid agg sd limit_price is_market ms r. run li iid agg sd limit_price is_market ms = Some r \<Longrightarrow> \<forall>e. b < length (eng_books e)
      \<longrightarrow> ms = ms_of b e \<longrightarrow> alike b e (Some r) (run_matching_cb (on_trade (notify li)) b iid agg sd limit_price is_market e)"
    and body: "(if 0 < rec_open_qty (op_get (ms_pool ms) agg) \<and> has_best (ms_book ms) (opposite sd)
     then let idx = word_of_int (best_index (ms_book ms) (opposite sd));
              resting_price = ob_index_to_price (ms_book ms) idx
          in if \<not> is_market \<and> \<not> crosses sd limit_price resting_price then Some (Inr ms)
             else match_level_with li iid agg sd idx ms \<bind>
               (\<lambda>r. case r of Inl ms \<Rightarrow> Some (Inl ms) | Inr ms \<Rightarrow> run li iid agg sd limit_price is_market ms)
     else Some (Inr ms)) = Some r"
    and b: "b < length (eng_books e)" and ms: "ms = ms_of b e"
  show "alike b e (Some r) (run_matching_cb (on_trade (notify li)) b iid agg sd limit_price is_market e)"
  proof (cases "searches agg sd limit_price is_market ms")
    case True
    then have "match_level_with li iid agg sd (best_level_of sd ms) ms \<bind>
        (\<lambda>r. case r of Inl ms \<Rightarrow> Some (Inl ms) | Inr ms \<Rightarrow> run li iid agg sd limit_price is_market ms) = Some r"
      using body by (simp only: searches_def best_level_of_def Let_def if_P if_not_P simp_thms)
    then obtain m where m: "match_level_with li iid agg sd (best_level_of sd ms) ms = Some m"
      "(case m of Inl ms \<Rightarrow> Some (Inl ms) | Inr ms \<Rightarrow> run li iid agg sd limit_price is_market ms) = Some r"
      by (auto simp: bind_eq_Some_conv)
    note go = run_cb_go [OF True [unfolded ms], of "on_trade (notify li)" iid, unfolded level_cb_recorded [OF b] m(1) [unfolded ms]]
    show ?thesis
    proof (cases m)
      case (Inl ms')
      with m(2) go show ?thesis by (auto simp: alike_def)
    next
      case (Inr ms')
      with m(2) have "run li iid agg sd limit_price is_market ms' = Some r" by simp
      from IH [OF this] b have "alike b (into b e ms') (Some r) (run_matching_cb (on_trade (notify li)) b iid agg sd limit_price is_market (into b e ms'))"
        by simp
      with go Inr show ?thesis by (simp add: alike_def into_into)
    qed
  next
    case False
    with body have "r = Inr ms" by (auto simp: searches_def best_level_of_def Let_def split: if_splits)
    with run_cb_stop [OF False [unfolded ms]] ms show ?thesis by (simp add: alike_def)
  qed
qed

text \<open>The matching of \<open>Listener\<close> is the matching with callbacks that record the call.\<close>

lemma run_cb_recorded:
  assumes b: "b < length (eng_books e)"
  shows "run_matching_cb (on_trade (notify li)) b iid agg sd limit_price is_market e = match_in_engine_with li e b iid agg sd limit_price is_market"
proof -
  have "run_matching_cb (on_trade (notify li)) b iid agg sd limit_price is_market e
      = map_option (map_sum (into b e) (into b e)) (run_matching_with li iid agg sd limit_price is_market (ms_of b e))"
    using run_alike_cb [of "on_trade (notify li)" b iid agg sd limit_price is_market e _ li]
      run_alike_with [of li iid agg sd limit_price is_market "ms_of b e"] b
    by (cases "run_matching_cb (on_trade (notify li)) b iid agg sd limit_price is_market e";
        cases "run_matching_with li iid agg sd limit_price is_market (ms_of b e)") (auto simp: alike_def)
  also have "\<dots> = match_in_engine_with li e b iid agg sd limit_price is_market"
    by (cases "run_matching_with li iid agg sd limit_price is_market (ms_of b e)")
      (simp_all add: match_in_engine_with_def ms_of_def Let_def into_def [abs_def])
  finally show ?thesis .
qed

text \<open>So are the handlers, in a state where instruments are mapped to existing books.\<close>

definition books_found :: "engine \<Rightarrow> bool" where
  "books_found e \<longleftrightarrow> (\<forall>iid b. find_book e iid = Some (Some b) \<longrightarrow> b < length (eng_books e))"

lemma submit_accepted_recorded:
  assumes "b < length (eng_books e)"
  shows "submit_accepted_cb (notify li) e order b slot is_market price = submit_accepted_with li e order b slot is_market price"
proof -
  let ?ev = "On_accepted (no_order_id order)" and ?e = "upd_rec slot (\<lambda>r. r\<lparr>rec_open_qty := no_quantity order, rec_filled_qty := 0\<rparr>) e"
  have b: "b < length (eng_books (emit ?ev ?e))" using assms by (simp add: emit_def upd_rec_def)
  have run: "resume (notify li ?ev ?e) f = resume (notify li ?ev ?e) g" if "f (emit ?ev ?e) = g (emit ?ev ?e)" for f g
    using that by (simp add: notify_def)
  show ?thesis unfolding submit_accepted_cb_def submit_accepted_with_def by (rule run) (simp only: run_cb_recorded [OF b])
qed

lemma submit_recorded:
  assumes "books_found e"
  shows "submit_cb (notify li) al e order = submit_with li al e order"
proof -
  have "submit_validated_cb (notify li) e' order b slot = submit_validated_with li e' order b slot" if "b < length (eng_books e')" for e' b slot
    unfolding submit_validated_cb_def submit_validated_with_def Let_def submit_accepted_recorded [OF that] ..
  then have "submit_validated_cb (notify li) (upd_rec slot f (e\<lparr>eng_pool := p\<rparr>)\<lparr>eng_order_index := oi\<rparr>) order b slot
      = submit_validated_with li (upd_rec slot f (e\<lparr>eng_pool := p\<rparr>)\<lparr>eng_order_index := oi\<rparr>) order b slot"
    if "find_book e (no_instrument_id order) = Some (Some b)" for b slot p oi f
    using assms that by (simp add: books_found_def upd_rec_def)
  then show ?thesis unfolding submit_cb_def submit_with_def Let_def
    by (intro arg_cong [where f = caught] if_cong refl bind_option_cong) (auto split: option.split sum.split intro!: bind_option_cong)
qed

lemma cancel_recorded: "cancel_cb (notify li) e req = cancel_with li e req"
  unfolding cancel_cb_def cancel_with_def ..

lemma replace_commit_recorded:
  assumes "b < length (eng_books e)"
  shows "replace_commit_cb (notify li) e req b oc os ns n = replace_commit_with li e req b oc os ns n"
proof -
  let ?ev = "On_replaced (ro_order_id req) (ro_new_order_id req) (ro_new_price req) n" and ?e = "with_book (\<lambda>p ob. remove_resting p ob os) b e"
  have b: "b < length (eng_books (emit ?ev ?e))" using assms by (simp add: emit_def with_book_def split: prod.split)
  have run: "resume (notify li ?ev ?e) f = resume (notify li ?ev ?e) g" if "f (emit ?ev ?e) = g (emit ?ev ?e)" for f g
    using that by (simp add: notify_def)
  have commit: "resume (notify li ?ev ?e) (\<lambda>e. resume (if c then run_matching_cb (on_trade (notify li)) b iid ns sd p False e else Some (Inr e)) f)
      = resume (notify li ?ev ?e) (\<lambda>e. resume (if c then match_in_engine_with li e b iid ns sd p False else Some (Inr e)) f)" for c iid sd p f
    by (rule run) (simp only: run_cb_recorded [OF b])
  show ?thesis unfolding replace_commit_cb_def replace_commit_with_def Let_def commit ..
qed

lemma replace_validated_recorded:
  assumes "b < length (eng_books e)"
  shows "replace_validated_cb (notify li) al e req b oc os n = replace_validated_with li al e req b oc os n"
proof -
  have "replace_commit_cb (notify li) (upd_rec ns f (e\<lparr>eng_pool := p\<rparr>)\<lparr>eng_order_index := oi\<rparr>) req b oc os ns n
      = replace_commit_with li (upd_rec ns f (e\<lparr>eng_pool := p\<rparr>)\<lparr>eng_order_index := oi\<rparr>) req b oc os ns n" for ns f p oi
    using assms by (intro replace_commit_recorded) (simp add: upd_rec_def)
  then show ?thesis unfolding replace_validated_cb_def replace_validated_with_def Let_def by simp
qed

lemma replace_recorded:
  assumes "books_found e"
  shows "replace_cb (notify li) al e req = replace_with li al e req"
proof -
  have "replace_validated_cb (notify li) al e req b oc os n = replace_validated_with li al e req b oc os n"
    if "find_book e iid = Some (Some b)" for iid b oc os n
    using assms that by (intro replace_validated_recorded) (simp add: books_found_def)
  then show ?thesis unfolding replace_cb_def replace_with_def Let_def
    by (intro arg_cong [where f = caught] if_cong refl bind_option_cong) (auto split: option.split intro!: bind_option_cong)
qed

lemma step_recorded: "books_found e \<Longrightarrow> step_cb (notify li) al e c = step_with li al e c"
  by (cases c) (simp_all add: submit_recorded cancel_recorded replace_recorded)

end
