(* ===== verification/Deferred.thy ===== *)
theory Deferred
  imports Reentrant
begin

text \<open>
  Requests sent from inside \<open>on_rejected\<close> and \<open>on_canceled\<close>. These calls are the last thing their
  handler does, so it makes no difference whether the listener sends a request from inside the
  callback or after the call that triggered it has returned.
\<close>

section \<open>Callbacks that only answer the last call\<close>

fun final_call :: "event \<Rightarrow> bool" where
  "final_call (On_rejected _ _) = True"
| "final_call (On_canceled _ _ _) = True"
| "final_call _ = False"

definition late :: "(event \<Rightarrow> callback) \<Rightarrow> callbacks" where
  "late k ev e = (if final_call ev then k ev (emit ev e) else notify quiet ev e)"

text \<open>What remains to be done after a request that began with the events \<open>evs\<close>.\<close>

definition finish :: "(event \<Rightarrow> callback) \<Rightarrow> event list \<Rightarrow> engine \<Rightarrow> engine option" where
  "finish k evs e =
    (if length evs < length (eng_events e) \<and> final_call (last (eng_events e))
     then caught (k (last (eng_events e)) e) else Some e)"

definition deferred :: "(event \<Rightarrow> callback) \<Rightarrow> event list \<Rightarrow> engine flight \<Rightarrow> engine flight \<Rightarrow> bool" where
  "deferred k evs m q \<longleftrightarrow> caught m = caught q \<bind> finish k evs"

lemma deferred_call:
  "length evs \<le> length (eng_events e) \<Longrightarrow> final_call ev \<Longrightarrow> deferred k evs (late k ev e) (notify quiet ev e)"
  by (simp add: deferred_def late_def finish_def emit_def)

lemma deferred_same: "length (eng_events e) \<le> length evs \<or> \<not> final_call (last (eng_events e)) \<Longrightarrow> deferred k evs (Some (Inr e)) (Some (Inr e))"
  "length (eng_events e) \<le> length evs \<Longrightarrow> deferred k evs (Some (Inl e)) (Some (Inl e))"
  by (auto simp: deferred_def finish_def)

lemma deferred_bind: "(\<And>x. m = Some x \<Longrightarrow> deferred k evs (f x) (g x)) \<Longrightarrow> deferred k evs (m \<bind> f) (m \<bind> g)"
  by (cases m) (simp_all add: deferred_def)

lemma deferred_resume:
  "(\<And>e. m = Some (Inr e) \<Longrightarrow> deferred k evs (f e) (g e)) \<Longrightarrow> (\<And>e. m \<noteq> Some (Inl e)) \<Longrightarrow> deferred k evs (resume m f) (resume m g)"
  by (cases m) (auto simp: deferred_def resume_def split: sum.split)

lemma deferred_if:
  "(c \<Longrightarrow> deferred k evs m q) \<Longrightarrow> (\<not> c \<Longrightarrow> deferred k evs m' q') \<Longrightarrow> deferred k evs (if c then m else m') (if c then q else q')"
  by simp

lemma deferred_option:
  "(r = None \<Longrightarrow> deferred k evs m q) \<Longrightarrow> (\<And>x. r = Some x \<Longrightarrow> deferred k evs (f x) (g x))
    \<Longrightarrow> deferred k evs (case r of None \<Rightarrow> m | Some x \<Rightarrow> f x) (case r of None \<Rightarrow> q | Some x \<Rightarrow> g x)"
  by (cases r) simp_all

lemma deferred_sum:
  "(\<And>x. r = Inl x \<Longrightarrow> deferred k evs (f x) (g x)) \<Longrightarrow> (\<And>x. r = Inr x \<Longrightarrow> deferred k evs (f' x) (g' x))
    \<Longrightarrow> deferred k evs (case r of Inl x \<Rightarrow> f x | Inr x \<Rightarrow> f' x) (case r of Inl x \<Rightarrow> g x | Inr x \<Rightarrow> g' x)"
  by (cases r) simp_all

lemma deferred_prod: "(\<And>x y. r = (x, y) \<Longrightarrow> deferred k evs (f x y) (g x y)) \<Longrightarrow> deferred k evs (case r of (x, y) \<Rightarrow> f x y) (case r of (x, y) \<Rightarrow> g x y)"
  by (cases r) simp

lemmas deferred_intros = deferred_bind deferred_if deferred_option deferred_sum deferred_prod

section \<open>Matching ends with a trade\<close>

text \<open>No last call has been made since \<open>evs\<close>.\<close>

definition calm :: "event list \<Rightarrow> event list \<Rightarrow> bool" where
  "calm evs evs' \<longleftrightarrow> length evs \<le> length evs' \<and> (length evs < length evs' \<longrightarrow> \<not> final_call (last evs'))"

lemma calm_refl [simp]: "calm evs evs"
  by (simp add: calm_def)

lemma calm_trade: "calm evs (ms_events ms) \<Longrightarrow> calm evs (ms_events (execute_head iid agg sd idx ms))"
  by (simp add: calm_def execute_head_def Let_def split: prod.split)

lemma calm_level:
  assumes "match_level iid agg sd idx ms = Some ms'" "calm evs (ms_events ms)"
  shows "calm evs (ms_events ms')"
proof -
  have "calm evs (ms_events ms) \<longrightarrow> calm evs (ms_events ms')"
    by (rule match_level.raw_induct [where P = "\<lambda>iid agg sd idx ms ms'. calm evs (ms_events ms) \<longrightarrow> calm evs (ms_events ms')", OF _ assms(1)])
      (metis calm_trade option.inject)
  then show ?thesis using assms(2) ..
qed

lemma calm_run:
  assumes "run_matching iid agg sd limit_price is_market ms = Some ms'" "calm evs (ms_events ms)"
  shows "calm evs (ms_events ms')"
proof -
  have "calm evs (ms_events ms) \<longrightarrow> calm evs (ms_events ms')"
    by (rule run_matching.raw_induct [where P = "\<lambda>iid agg sd limit_price is_market ms ms'. calm evs (ms_events ms) \<longrightarrow> calm evs (ms_events ms')", OF _ assms(1)])
      (auto simp: Let_def split: if_splits bind_splits dest: calm_level)
  then show ?thesis using assms(2) ..
qed

lemma on_trade_late: "on_trade (late k) = on_trade (notify quiet)"
  by (intro ext) (simp add: late_def)

lemma calm_matched:
  assumes "run_matching_cb (on_trade (late k)) b iid s sd limit_price is_market e = Some r" "b < length (eng_books e)" "calm evs (eng_events e)"
  obtains e' where "r = Inr e'" "calm evs (eng_events e')" "length (eng_books e') = length (eng_books e)"
proof -
  have "match_in_engine e b iid s sd limit_price is_market = Some (case r of Inl e \<Rightarrow> e | Inr e \<Rightarrow> e) \<and> (\<exists>e'. r = Inr e')"
    using assms(1) unfolding on_trade_late run_cb_recorded [OF assms(2)] match_in_engine_quiet by auto
  then obtain e' where "r = Inr e'" "match_in_engine e b iid s sd limit_price is_market = Some e'" by auto
  with assms(3) show ?thesis using that by (auto simp: match_in_engine_def split: bind_splits dest: calm_run)
qed

section \<open>The handlers\<close>

lemma late_accepted [simp]: "late k (On_accepted i) e = Some (Inr (emit (On_accepted i) e))" "late k (On_replaced i j p n) e = Some (Inr (emit (On_replaced i j p n) e))"
  by (simp_all add: late_def)

lemma resume_recorded: "resume (notify quiet ev e) f = f (emit ev e)"
  by simp

text \<open>The handler of \<open>submit\<close> after \<open>on_accepted\<close>.\<close>

definition after_accept_cb :: "callbacks \<Rightarrow> new_order \<Rightarrow> nat \<Rightarrow> slot \<Rightarrow> bool \<Rightarrow> price \<Rightarrow> engine \<Rightarrow> engine flight" where
  "after_accept_cb cb order b slot is_market price e =
      do {
       fillable \<leftarrow> (if no_tif order = kFok
                   then can_fully_fill (eng_books e ! b) (no_side order) is_market price (no_quantity order)
                   else Some True);
       if \<not> fillable
       then cb (On_canceled (no_order_id order) (no_quantity order) kFokUnfillable)
              (upd_rec slot (\<lambda>r. r\<lparr>rec_open_qty := 0\<rparr>) e)
       else resume (run_matching_cb (on_trade cb) b (no_instrument_id order) slot (no_side order) price is_market e) (\<lambda>e.
         if 0 < rec_open_qty (rec_of e slot)
         then if no_tif order = kDay
              then Some (Inr (with_book (\<lambda>p ob. add_resting p ob slot (no_side order) price) b e))
              else cb (On_canceled (no_order_id order) (rec_open_qty (rec_of e slot))
                        (if is_market then kNoLiquidity else if no_tif order = kIoc then kIocRemainder else kFokUnfillable))
                     (upd_rec slot (\<lambda>r. r\<lparr>rec_open_qty := 0\<rparr>) e)
         else Some (Inr e)) }"

lemma submit_accepted_cb_after:
  "submit_accepted_cb cb e order b slot is_market price = resume (cb (On_accepted (no_order_id order))
    (upd_rec slot (\<lambda>r. r\<lparr>rec_open_qty := no_quantity order, rec_filled_qty := 0\<rparr>) e)) (after_accept_cb cb order b slot is_market price)"
  unfolding submit_accepted_cb_def after_accept_cb_def Let_def ..

lemma deferred_after:
  assumes b: "b < length (eng_books e)" and calm: "calm evs (eng_events e)"
  shows "deferred k evs (after_accept_cb (late k) order b slot is_market price e) (after_accept_cb (notify quiet) order b slot is_market price e)"
proof -
  let ?i = "no_order_id order"
  have call: "deferred k evs (late k (On_canceled ?i n r) (upd_rec slot f e')) (notify quiet (On_canceled ?i n r) (upd_rec slot f e'))"
    if "calm evs (eng_events e')" for n r f e'
    using that by (intro deferred_call) (simp_all add: calm_def upd_rec_def)
  have calm_same: "deferred k evs (Some (Inr e')) (Some (Inr e'))" if "calm evs (eng_events e')" for e'
    using that by (intro deferred_same) (auto simp: calm_def)
  have rest: "calm evs (eng_events (with_book f b e'))" if "calm evs (eng_events e')" for f e' using that by (simp add: with_book_def split: prod.split)
  have after: "deferred k evs
      (resume (run_matching_cb (on_trade (late k)) b iid slot sd price is_market e) f)
      (resume (run_matching_cb (on_trade (notify quiet)) b iid slot sd price is_market e) g)"
    if "\<And>e'. calm evs (eng_events e') \<Longrightarrow> deferred k evs (f e') (g e')" for iid sd f g
    unfolding on_trade_late [of k, symmetric]
  proof (rule deferred_resume)
    fix e' assume "run_matching_cb (on_trade (late k)) b iid slot sd price is_market e = Some (Inr e')"
    from calm_matched [OF this b calm] that show "deferred k evs (f e') (g e')" by blast
  next
    show "run_matching_cb (on_trade (late k)) b iid slot sd price is_market e \<noteq> Some (Inl e')" for e'
      using calm_matched [OF _ b calm, of k iid slot sd price is_market "Inl e'"] by blast
  qed
  show ?thesis unfolding after_accept_cb_def
    by (rule deferred_bind, rule deferred_if, rule call, rule calm, rule after, rule deferred_if, rule deferred_if,
      rule calm_same, rule rest, assumption, rule call, assumption, rule calm_same)
qed

lemma deferred_accepted:
  assumes b: "b < length (eng_books e)" and evs: "length evs \<le> length (eng_events e)"
  shows "deferred k evs (submit_accepted_cb (late k) e order b slot is_market price) (submit_accepted_cb (notify quiet) e order b slot is_market price)"
  unfolding submit_accepted_cb_after late_accepted resume_simps resume_recorded
  using b evs by (intro deferred_after) (simp_all add: calm_def emit_def upd_rec_def)

lemma deferred_validated:
  assumes b: "b < length (eng_books e)" and evs: "length evs \<le> length (eng_events e)"
  shows "deferred k evs (submit_validated_cb (late k) e order b slot) (submit_validated_cb (notify quiet) e order b slot)"
proof -
  have reject: "deferred k evs (late k (On_rejected i r) e) (notify quiet (On_rejected i r) e)" for i r
    by (rule deferred_call [OF evs]) simp
  show ?thesis unfolding submit_validated_cb_def Let_def
    by (intro deferred_if reject deferred_accepted [OF b evs])
qed

lemma deferred_handler: "deferred k evs m q \<Longrightarrow> caught m = caught q \<bind> finish k evs"
  by (simp add: deferred_def)

lemma deferred_submit:
  assumes found: "books_found e"
  shows "submit_cb (late k) al e order = submit_cb (notify quiet) al e order \<bind> finish k (eng_events e)"
proof -
  have valid: "deferred k (eng_events e) (submit_validated_cb (late k) (upd_rec s f (e\<lparr>eng_pool := p\<rparr>)\<lparr>eng_order_index := oi\<rparr>) order b s)
      (submit_validated_cb (notify quiet) (upd_rec s f (e\<lparr>eng_pool := p\<rparr>)\<lparr>eng_order_index := oi\<rparr>) order b s)"
    if "find_book e (no_instrument_id order) = Some (Some b)" for s f p oi b
    using found that by (intro deferred_validated) (simp_all add: upd_rec_def books_found_def)
  show ?thesis unfolding submit_cb_def Let_def
    by (rule deferred_handler, intro deferred_if deferred_bind deferred_option deferred_sum deferred_prod)
      ((rule valid, simp) | (rule deferred_call, simp, simp) | (rule deferred_same, simp add: upd_rec_def))+
qed

lemma deferred_cancel: "cancel_cb (late k) e req = cancel_cb (notify quiet) e req \<bind> finish k (eng_events e)"
  unfolding cancel_cb_def Let_def
  by (rule deferred_handler, intro deferred_if deferred_bind deferred_option deferred_call)
    (simp_all add: with_book_def split: prod.split)

lemma deferred_commit:
  assumes b: "b < length (eng_books e)" and evs: "length evs \<le> length (eng_events e)"
  shows "deferred k evs (replace_commit_cb (late k) e req b oc os ns n) (replace_commit_cb (notify quiet) e req b oc os ns n)"
proof -
  let ?ev = "On_replaced (ro_order_id req) (ro_new_order_id req) (ro_new_price req) n"
  have calm: "calm evs (eng_events (emit ?ev (with_book f b e)))" "b < length (eng_books (emit ?ev (with_book f b e)))" for f
    using b evs by (simp_all add: emit_def with_book_def calm_def split: prod.split)
  have calm_same: "deferred k evs (Some (Inr e')) (Some (Inr e'))" if "calm evs (eng_events e')" for e'
    using that by (intro deferred_same) (auto simp: calm_def)
  have rest: "calm evs (eng_events (with_book f b e'))" if "calm evs (eng_events e')" for f e' using that by (simp add: with_book_def split: prod.split)
  have in_place: "deferred k evs (Some (Inr (emit ?ev (with_book f b e)))) (notify quiet ?ev (with_book f b e))" for f
    unfolding notify_quiet by (rule calm_same [OF calm(1)])
  have after: "deferred k evs
      (resume (if c then run_matching_cb (on_trade (late k)) b iid s sd price is_market (emit ?ev (with_book f b e)) else Some (Inr (emit ?ev (with_book f b e)))) g)
      (resume (if c then run_matching_cb (on_trade (notify quiet)) b iid s sd price is_market (emit ?ev (with_book f b e)) else Some (Inr (emit ?ev (with_book f b e)))) h)"
    (is "deferred k evs (resume ?m g) (resume ?m' h)")
    if "\<And>e'. calm evs (eng_events e') \<Longrightarrow> deferred k evs (g e') (h e')" for c iid s sd price is_market f g h
    unfolding on_trade_late [of k, symmetric]
  proof (rule deferred_resume)
    fix e' assume "?m = Some (Inr e')"
    then have "calm evs (eng_events e')"
      using calm_matched [OF _ calm(2,1), of k iid s sd price is_market f "Inr e'"] calm(1) by (cases c) auto
    with that show "deferred k evs (g e') (h e')" by blast
  next
    show "?m \<noteq> Some (Inl e')" for e'
      using calm_matched [OF _ calm(2,1), of k iid s sd price is_market f "Inl e'"] by (auto split: if_splits)
  qed
  show ?thesis unfolding replace_commit_cb_def late_accepted resume_simps resume_recorded Let_def
    by (rule deferred_if, rule after, rule deferred_if, rule calm_same, rule rest, assumption, rule calm_same, assumption, rule in_place)
qed

lemma deferred_replace:
  assumes found: "books_found e"
  shows "replace_cb (late k) al e req = replace_cb (notify quiet) al e req \<bind> finish k (eng_events e)"
proof -
  have commit: "deferred k (eng_events e) (replace_commit_cb (late k) (upd_rec s f (e\<lparr>eng_pool := p\<rparr>)\<lparr>eng_order_index := oi\<rparr>) req b oc os s n)
      (replace_commit_cb (notify quiet) (upd_rec s f (e\<lparr>eng_pool := p\<rparr>)\<lparr>eng_order_index := oi\<rparr>) req b oc os s n)"
    if "b < length (eng_books e)" for s f p oi b oc os n
    using that by (intro deferred_commit) (simp_all add: upd_rec_def)
  have valid: "deferred k (eng_events e) (replace_validated_cb (late k) al e req b oc os n) (replace_validated_cb (notify quiet) al e req b oc os n)"
    if "find_book e iid = Some (Some b)" for iid b oc os n
    using found that unfolding replace_validated_cb_def Let_def books_found_def
    by (intro deferred_bind deferred_sum deferred_prod)
      ((rule commit, blast) | (rule deferred_same, simp add: upd_rec_def))+
  show ?thesis unfolding replace_cb_def Let_def
    by (rule deferred_handler, intro deferred_if deferred_bind deferred_option)
      ((rule valid, simp) | (rule deferred_call, simp add: with_book_def split: prod.split, simp))+
qed

text \<open>Answering the last call from inside it is answering it after the request.\<close>

lemma step_late: "books_found e \<Longrightarrow> step_cb (late k) al e c = step al e c \<bind> finish k (eng_events e)"
  unfolding step_quiet [symmetric] using step_recorded [of e quiet al c, symmetric]
  by (cases c) (simp_all add: deferred_submit deferred_cancel deferred_replace)

end
