(* ===== verification/Nested_Requests.thy ===== *)
theory Nested_Requests
  imports Deferred Engine_Runs Exchange_Laws
begin

text \<open>
  Requests sent from inside \<open>on_accepted\<close>, \<open>on_rejected\<close> and \<open>on_canceled\<close>, and from the callbacks
  of those requests: the engine's invariants survive them. \<open>on_accepted\<close> is called before the
  order matches, so here the rest of the handler runs on whatever the answers have left; it is safe
  because no request touches an order that is known but not open.
\<close>

section \<open>Callbacks that answer outside matching and replacing\<close>

fun midway :: "event \<Rightarrow> bool" where
  "midway (On_trade _ _ _ _ _ _ _) = True"
| "midway (On_replaced _ _ _ _) = True"
| "midway _ = False"

definition between :: "(event \<Rightarrow> callback) \<Rightarrow> callbacks" where
  "between k ev e = (if midway ev then notify quiet ev e else k ev (emit ev e))"

lemma between_late:
  "between k (On_rejected i r) = late k (On_rejected i r)" "between k (On_canceled i n c) = late k (On_canceled i n c)"
  "between k (On_replaced i j p n) = late k (On_replaced i j p n)" "between k (On_trade t iid p n s a sd) = late k (On_trade t iid p n s a sd)"
  by (simp_all add: between_def late_def fun_eq_iff)

lemma between_accepted: "between k (On_accepted i) e = k (On_accepted i) (emit (On_accepted i) e)"
  by (simp add: between_def)

lemma between_quiet: "between (\<lambda>ev e. Some (Inr e)) = notify quiet"
  by (intro ext) (simp add: between_def)

lemma step_between_late:
  "step_cb (between k) al e (Cancel creq) = step_cb (late k) al e (Cancel creq)"
  "step_cb (between k) al e (Replace rreq) = step_cb (late k) al e (Replace rreq)"
  unfolding step_cb.simps cancel_cb_def replace_cb_def replace_validated_cb_def replace_commit_cb_def Let_def between_late by (rule refl)+

lemma after_accept_between: "after_accept_cb (between k) order b s is_market price e = after_accept_cb (late k) order b s is_market price e"
  unfolding after_accept_cb_def between_late ..

lemma after_accept_quiet:
  assumes b: "b < length (eng_books e)"
  shows "after_accept_cb (notify quiet) order b s is_market price e = map_option Inr (after_accept order b s is_market price e)"
  unfolding after_accept_cb_def after_accept_def run_cb_recorded [OF b] notify_quiet resume_simps match_in_engine_quiet resume_quiet
    map_Inr_bind map_Inr_if option.map ..

lemma after_accept_finish:
  assumes "b < length (eng_books e)"
  shows "caught (after_accept_cb (between k) order b s is_market price e) = after_accept order b s is_market price e \<bind> finish k (eng_events e)"
  using deferred_after [OF assms calm_refl, of k order s is_market price]
  by (simp add: after_accept_between deferred_def after_accept_quiet [OF assms])

section \<open>What an answer may change\<close>

definition sound :: "engine \<Rightarrow> bool" where
  "sound e \<longleftrightarrow> eng_inv e \<and> exchange_inv (exchange_of e)"

definition answered :: "nat \<Rightarrow> engine \<Rightarrow> engine \<Rightarrow> bool" where
  "answered w e e' \<longleftrightarrow> sound e' \<and> steady e e' \<and> op_size (eng_pool e') \<le> op_size (eng_pool e) + w"

text \<open>Answers that take at most \<open>w\<close> slots.\<close>

definition answers :: "nat \<Rightarrow> (event \<Rightarrow> callback) \<Rightarrow> bool" where
  "answers w k \<longleftrightarrow> (\<forall>ev e. sound e \<longrightarrow> op_size (eng_pool e) + w < 2 ^ 32 \<longrightarrow> (\<exists>e'. k ev e = Some (Inr e') \<and> answered w e e'))"

lemma sound_emit [simp]: "sound (emit ev e) = sound e"
  by (simp add: sound_def)

lemma answered_emit [simp]: "answered w (emit ev e) e' = answered w e e'" "answered w e (emit ev e') = answered w e e'"
  by (simp_all add: answered_def)

lemma answered_refl: "sound e \<Longrightarrow> answered w e e"
  by (simp add: answered_def)

lemma answered_trans: "answered v e1 e2 \<Longrightarrow> answered w e2 e3 \<Longrightarrow> answered (v + w) e1 e3"
  by (auto simp: answered_def intro: steady_trans)

lemma answered_more: "answered v e1 e2 \<Longrightarrow> v \<le> w \<Longrightarrow> answered w e1 e2"
  by (simp add: answered_def)

lemma answersD:
  assumes "answers w k" "sound e" "op_size (eng_pool e) + w < 2 ^ 32"
  obtains e' where "k ev e = Some (Inr e')" "answered w e e'"
  using assms unfolding answers_def by blast

lemma finish_ok:
  assumes "answers w k" "sound e" "op_size (eng_pool e) + w < 2 ^ 32"
  shows "\<exists>e'. finish k evs e = Some e' \<and> answered w e e'"
proof (cases "length evs < length (eng_events e) \<and> final_call (last (eng_events e))")
  case True
  obtain e' where e': "k (last (eng_events e)) e = Some (Inr e')" "answered w e e'" by (rule answersD [OF assms])
  show ?thesis unfolding finish_def if_P [OF True] e'(1) using e'(2) by simp
next
  case False
  then show ?thesis using answered_refl [OF assms(2)] unfolding finish_def if_not_P [OF False] by blast
qed

lemma finish_after:
  assumes k: "answers w k" and e1: "answered v e e1" and room: "op_size (eng_pool e) + v + w < 2 ^ 32"
  shows "\<exists>e'. finish k evs e1 = Some e' \<and> answered (v + w) e e'"
proof -
  have "sound e1" "op_size (eng_pool e1) + w < 2 ^ 32" using e1 room by (simp_all add: answered_def)
  from finish_ok [OF k this, of evs] answered_trans [OF e1] show ?thesis by blast
qed

section \<open>Submit\<close>

lemma ready_free:
  assumes inv: "sound e" and s: "slot_ready e s iid i"
  shows "id_free (exchange_of e) i" "i \<in> ex_used (exchange_of e)"
proof -
  have "find_order (exchange_of e) i = None"
    using inv s by (intro find_order_None) (auto simp: sound_def eng_inv_def slot_ready_def)
  then show "id_free (exchange_of e) i" unfolding find_order_None_iff .
  show "i \<in> ex_used (exchange_of e)" using s by (auto simp: slot_ready_def)
qed

text \<open>\<open>e0\<close> is the engine before the order took its slot.\<close>

lemma accepted_between_ok:
  assumes k: "answers w k" and inv: "sound e" and s: "slot_ready e s (no_instrument_id order) (no_order_id order)"
    and e0: "steady e0 e" "op_size (eng_pool e0) \<le> unat s"
    and b: "b < length (eng_books e)" "ob_instrument_id (eng_books e ! b) = no_instrument_id order"
    and qty: "no_quantity order \<noteq> 0" and day: "no_tif order = kDay \<longrightarrow> \<not> is_market \<and> in_band (ob_ladder (eng_books e ! b)) price"
    and room: "op_size (eng_pool e) + 2 * w < 2 ^ 32"
  shows "\<exists>e'. caught (submit_accepted_cb (between k) e order b s is_market price) = Some e' \<and> sound e' \<and> steady e0 e'
    \<and> op_size (eng_pool e') \<le> op_size (eng_pool e) + 2 * w"
proof -
  let ?i = "no_order_id order"
  define e1 where "e1 = upd_rec s (\<lambda>r. r\<lparr>rec_open_qty := no_quantity order, rec_filled_qty := 0\<rparr>) e"
  note A = accepting_ok [OF eng_inv_sel(2) s e1_def]
  have inv0: "eng_inv e" "exchange_inv (exchange_of e)" using inv by (simp_all add: sound_def)
  note A = A [OF inv0(1)]
  have sound1: "sound e1" using A(1,3,7) inv0 by (simp add: sound_def eng_inv_def)
  have steady1: "steady e0 e1" by (rule steady_spares [OF e0 A(7-9)])
  have "op_size (eng_pool e1) + w < 2 ^ 32" using room A(7) by simp
  with answersD [OF k, of "emit (On_accepted ?i) e1" "On_accepted ?i"] sound1
  obtain e2 where e2: "between k (On_accepted ?i) e1 = Some (Inr e2)" "answered w e1 e2" by (auto simp: between_accepted)
  then have steady12: "steady e1 e2" and sound2: "sound e2" and size2: "op_size (eng_pool e2) \<le> op_size (eng_pool e) + w"
    using A(7) by (simp_all add: answered_def)
  have s2: "slot_ready e2 s (no_instrument_id order) ?i" and r2: "rec_of e2 s = rec_of e1 s" using steadyD(3,4) [OF steady12 A(2)] by simp_all
  have "layout e2 = layout e" using steadyD(1) [OF steady12] A(7) by simp
  note lay = layout_eqD [OF this]
  have b2: "b < length (eng_books e2)" "ob_instrument_id (eng_books e2 ! b) = no_instrument_id order"
    "ob_ladder (eng_books e2 ! b) = ob_ladder (eng_books e ! b)" using lay b by simp_all
  have inv2: "store_inv {} e2" "exchange_inv (exchange_of e2)" using sound2 by (simp_all add: sound_def eng_inv_def)
  obtain v e3 where e3: "after_accept order b s is_market price e2 = Some e3" "store_inv {} e3" "kept e2 e3"
    "exchange_of e3 = ex_accepted v order b is_market price (exchange_of e2)"
    "spares {s} (eng_pool e2) (eng_pool e3)" "eng_order_index e3 = eng_order_index e2"
    using after_accept_ok [OF inv2(1) s2 _ _ b2(1,2) qty, of price is_market] A(4,5) day unfolding r2 b2(3) by blast
  have "no_tif order = kDay \<Longrightarrow> \<not> is_market \<and> is_tick_aligned price \<and> within_band (ex_books (exchange_of e2) ! b) price"
    using day in_band_within [OF b2(1), of price] by (simp add: b2(3) del: exchange_of_simps)
  then have "exchange_inv (exchange_of e3)"
    unfolding e3(4) using ready_free [OF sound2 s2] b2(1) by (intro accepted_inv [OF inv2(2)]) simp_all
  then have sound3: "sound e3" using e3(2,3) sound2 by (simp add: sound_def eng_inv_def)
  have steady3: "steady e0 e3"
    by (rule steady_spares [OF steady_trans [OF steady1 steady12] e0(2) e3(3,5,6)])
  have "op_size (eng_pool e3) + w < 2 ^ 32" using size2 room e3(3) by simp
  from finish_ok [OF k sound3 this, of "eng_events e2"] obtain e4 where e4: "finish k (eng_events e2) e3 = Some e4" "answered w e3 e4" by blast
  have "caught (submit_accepted_cb (between k) e order b s is_market price) = Some e4"
    unfolding submit_accepted_cb_after e1_def [symmetric] e2(1) resume_simps after_accept_finish [OF b2(1)] e3(1)
    by (simp add: e4(1))
  moreover have "steady e0 e4" using steady_trans [OF steady3] e4(2) by (simp add: answered_def)
  ultimately show ?thesis using e4(2) size2 e3(3) by (auto simp: answered_def)
qed

lemma validated_between_ok:
  assumes k: "answers w k" and inv: "sound e" and s: "slot_ready e s (no_instrument_id order) (no_order_id order)"
    and e0: "steady e0 e" "op_size (eng_pool e0) \<le> unat s"
    and b: "b < length (eng_books e)" "ob_instrument_id (eng_books e ! b) = no_instrument_id order"
    and room: "op_size (eng_pool e) + 2 * w < 2 ^ 32"
  shows "\<exists>e'. caught (submit_validated_cb (between k) e order b s) = Some e' \<and> sound e' \<and> steady e0 e'
    \<and> op_size (eng_pool e') \<le> op_size (eng_pool e) + 2 * w"
proof -
  let ?P = "\<lambda>m. \<exists>e'. caught m = Some e' \<and> sound e' \<and> steady e0 e' \<and> op_size (eng_pool e') \<le> op_size (eng_pool e) + 2 * w"
  have reject: "?P (between k (On_rejected i r) e)" for i r
  proof -
    have "sound (emit (On_rejected i r) e)" "op_size (eng_pool (emit (On_rejected i r) e)) + w < 2 ^ 32" using inv room by simp_all
    then obtain e' where e': "k (On_rejected i r) (emit (On_rejected i r) e) = Some (Inr e')" "answered w (emit (On_rejected i r) e) e'"
      by (rule answersD [OF k])
    have "between k (On_rejected i r) e = Some (Inr e')" by (simp add: between_def e'(1))
    with e'(2) steady_trans [OF e0(1)] show ?thesis by (auto simp: answered_def)
  qed
  have accept: "?P (submit_accepted_cb (between k) e order b s m p)"
    if "no_quantity order \<noteq> 0" "no_tif order = kDay \<longrightarrow> \<not> m \<and> in_band (ob_ladder (eng_books e ! b)) p" for m p
    by (rule accepted_between_ok [OF k inv s e0 b that room])
  have sinv: "store_inv {} e" using inv by (simp add: sound_def eng_inv_def)
  note check = ob_price_check [OF sinv b(1)]
  show ?thesis unfolding submit_validated_cb_def Let_def using reject accept check by auto
qed

lemma submit_cb_fresh:
  assumes "eng_inv e" "book_index (exchange_of e) (no_instrument_id order) = Some b" "no_order_id order \<notin> ex_used (exchange_of e)"
  shows "submit_cb cb al e order = caught (op_allocate al (eng_pool e) \<bind> (\<lambda>a. case a of Inl _ \<Rightarrow> Some (Inl e)
      | Inr (t, p) \<Rightarrow> fm_insert al (eng_order_index e) (no_order_id order) t \<bind> (\<lambda>ins. case ins of
            Inl _ \<Rightarrow> Some (Inl (upd_rec t (submitted_record order) (e\<lparr>eng_pool := p\<rparr>)))
          | Inr oi \<Rightarrow> submit_validated_cb cb ((upd_rec t (submitted_record order) (e\<lparr>eng_pool := p\<rparr>))\<lparr>eng_order_index := oi\<rparr>) order b t)))"
  unfolding submit_cb_def Let_def submitted_record_def
  using assms(2,3) by (simp add: eng_inv_sel [OF assms(1)] submit_checks [OF assms(1)] del: exchange_of_simps(3) cong del: sum.case_cong_weak)

lemma submit_between_ok:
  assumes k: "answers w k" and inv: "sound e" and room: "op_size (eng_pool e) + (1 + 2 * w) < 2 ^ 32"
  shows "\<exists>e'. submit_cb (between k) al e order = Some e' \<and> answered (1 + 2 * w) e e'"
proof -
  let ?i = "no_order_id order" and ?iid = "no_instrument_id order" and ?ex = "exchange_of e" and ?oi = "eng_order_index e"
  have inv': "eng_inv e" "exchange_inv ?ex" using inv by (simp_all add: sound_def)
  note conf = eng_inv_sel(1) [OF inv'(1)] and sinv = eng_inv_sel(2) [OF inv'(1)]
  have room1: "op_size (eng_pool e) < 2 ^ 32 - 1" using room by simp
  note find = submit_checks(1) [OF inv'(1), of order] and dup = submit_checks(2) [OF inv'(1), of order]
  have reject: "\<exists>e'. caught (between k (On_rejected i r) e) = Some e' \<and> answered (1 + 2 * w) e e'" for i r
  proof -
    have "sound (emit (On_rejected i r) e)" "op_size (eng_pool (emit (On_rejected i r) e)) + w < 2 ^ 32" using inv room by simp_all
    then obtain e' where e': "k (On_rejected i r) (emit (On_rejected i r) e) = Some (Inr e')" "answered w (emit (On_rejected i r) e) e'"
      by (rule answersD [OF k])
    then show ?thesis using answered_more [of w e e' "1 + 2 * w"] by (simp add: between_def)
  qed
  have plain: "answered (1 + 2 * w) e e'" if "eng_inv e'" "exchange_of e' = ?ex" "steady e e'" "op_size (eng_pool e') = Suc (op_size (eng_pool e))" for e'
    using that inv'(2) by (simp add: answered_def sound_def)
  show ?thesis
  proof (cases "book_index ?ex ?iid")
    case None
    with reject show ?thesis by (simp add: submit_cb_def conf find Let_def)
  next
    case (Some b)
    show ?thesis
    proof (cases "?i \<in> ex_used ?ex")
      case True
      with reject Some show ?thesis by (simp add: submit_cb_def conf find dup Let_def del: exchange_of_simps(3))
    next
      case False
      then have fresh: "fm_lookup ?oi ?i = None" by auto
      note sub = submit_cb_fresh [OF inv'(1) Some False, of "between k" al]
      show ?thesis
        using inv'(1) room1 submitted_record [of order] insert_index [OF inv'(1) room1 fresh, of al]
      proof (cases rule: take_and_index)
        case (no_slot x r)
        then show ?thesis using answered_refl [OF inv, of "1 + 2 * w"] by (simp add: sub)
      next
        case (no_id t p x r)
        then show ?thesis using plain [OF no_id(4,5,7,6)] by (simp add: sub)
      next
        case (ready t p oi e2)
        have "eng_inv e2" using ready(4,7) fresh by (simp add: eng_inv_def)
        then have sound2: "sound e2" using use_id_inv [OF inv'(2)] by (simp add: sound_def ready(6) del: exchange_of_simps)
        have steady2: "steady e e2" by (rule ready(14)) (simp add: fresh)
        have b2: "b < length (eng_books e2)" "ob_instrument_id (eng_books e2 ! b) = ?iid"
          using Some unfolding book_index_iff [OF sinv] ready(8) by simp_all
        have "op_size (eng_pool e2) + 2 * w < 2 ^ 32" using room by (simp add: ready(9))
        from validated_between_ok [OF k sound2 ready(5) steady2 _ b2 this] ready(9,11)
        obtain e' where "caught (submit_validated_cb (between k) e2 order b t) = Some e'" "sound e'" "steady e e'"
          "op_size (eng_pool e') \<le> op_size (eng_pool e) + (1 + 2 * w)" by auto
        then show ?thesis by (simp add: sub ready(1-3) answered_def)
      qed
    qed
  qed
qed

section \<open>Every request\<close>

lemma sound_found: "sound e \<Longrightarrow> books_found e"
  unfolding books_found_def sound_def eng_inv_def using find_book_ok book_index_less by fastforce

lemma step_between_ok:
  assumes k: "answers w k" and inv: "sound e" and room: "op_size (eng_pool e) + (1 + 2 * w) < 2 ^ 32"
  shows "\<exists>e'. step_cb (between k) al e c = Some e' \<and> answered (1 + 2 * w) e e'"
proof -
  have inv': "eng_inv e" "exchange_inv (exchange_of e)" using inv by (simp_all add: sound_def)
  have late: "\<exists>e'. step al e c \<bind> finish k (eng_events e) = Some e' \<and> answered (1 + 2 * w) e e'"
    if e1: "step al e c = Some e1" "answered 1 e e1" for e1
  proof -
    obtain e' where "finish k (eng_events e) e1 = Some e'" "answered (1 + w) e e'" using finish_after [OF k e1(2)] room by fastforce
    then show ?thesis using answered_more [of "1 + w" e e' "1 + 2 * w"] e1(1) by simp
  qed
  show ?thesis
  proof (cases c)
    case (Submit order)
    with submit_between_ok [OF k inv room] show ?thesis by simp
  next
    case (Cancel req)
    obtain e1 where "cancel e req = Some e1" "eng_inv e1" "op_size (eng_pool e1) = op_size (eng_pool e)"
      "exchange_of e1 = ex_cancel req (exchange_of e)" "steady e e1" using cancel_ok [OF inv'(1)] by blast
    then have "step al e c = Some e1" "answered 1 e e1" using cancel_inv [OF inv'(2)] by (simp_all add: Cancel answered_def sound_def)
    from late [OF this] show ?thesis unfolding Cancel step_between_late step_late [OF sound_found [OF inv]] .
  next
    case (Replace req)
    have "op_size (eng_pool e) < 2 ^ 32 - 1" using room by simp
    then obtain e1 where "replace al e req = Some e1" "eng_inv e1" "op_size (eng_pool e1) \<le> Suc (op_size (eng_pool e))"
      "done_or_dropped al (exchange_of e) (ex_replace req (exchange_of e)) (exchange_of e1)" "steady e e1" using replace_ok [OF inv'(1)] by blast
    then have "step al e c = Some e1" "answered 1 e e1"
      using replace_inv [OF inv'(2)] inv'(2) by (auto simp: Replace answered_def sound_def done_or_dropped_def)
    from late [OF this] show ?thesis unfolding Replace step_between_late step_late [OF sound_found [OF inv]] .
  qed
qed

section \<open>Nested requests\<close>

text \<open>The slots that one request can take if every call is answered with at most \<open>m\<close> requests: each
  request makes at most two calls that are answered.\<close>

primrec slots_within :: "nat \<Rightarrow> nat \<Rightarrow> nat" where
  "slots_within m 0 = 1"
| "slots_within m (Suc n) = 1 + 2 * (m * slots_within m n)"

lemma run_by_ok:
  assumes "\<And>al e c. sound e \<Longrightarrow> op_size (eng_pool e) + w < 2 ^ 32 \<Longrightarrow> \<exists>e'. f al e c = Some e' \<and> answered w e e'"
    and "sound e" "op_size (eng_pool e) + length cs * w < 2 ^ 32"
  shows "\<exists>e'. run_by f e cs = Some e' \<and> answered (length cs * w) e e'"
  using assms(2,3)
proof (induction cs arbitrary: e)
  case Nil
  then show ?case by (simp add: answered_refl)
next
  case (Cons ac cs)
  obtain al c where ac: "ac = (al, c)" by (cases ac)
  have "op_size (eng_pool e) + w < 2 ^ 32" using Cons.prems(2) by simp
  from assms(1) [OF Cons.prems(1) this, of al c] obtain e1 where e1: "f al e c = Some e1" "answered w e e1" by blast
  then have "sound e1" "op_size (eng_pool e1) + length cs * w < 2 ^ 32" using Cons.prems(2) by (simp_all add: answered_def)
  from Cons.IH [OF this] answered_trans [OF e1(2)] e1(1) show ?case by (auto simp: ac)
qed

text \<open>The listener of \<open>answering\<close> as one that acts after the call is recorded.\<close>

lemma answering_between:
  assumes "\<And>evs ev. midway ev \<Longrightarrow> reply evs ev = []"
  shows "answering f reply = between (\<lambda>ev e. map_option Inr (run_by f e (reply (butlast (eng_events e)) ev)))"
  using assms by (intro ext) (simp add: answering_def between_def emit_def)

lemma nested_ok:
  assumes reply: "\<And>evs ev. midway ev \<Longrightarrow> reply evs ev = []" "\<And>evs ev. length (reply evs ev) \<le> m"
    and "sound e" "op_size (eng_pool e) + slots_within m n < 2 ^ 32"
  shows "\<exists>e'. step_nested n reply al e c = Some e' \<and> answered (slots_within m n) e e'"
  using assms(3,4)
proof (induction n arbitrary: al e c)
  case 0
  have "answers 0 (\<lambda>ev e. Some (Inr e))" by (simp add: answers_def answered_refl)
  from step_between_ok [OF this 0(1), of al c] 0(2) show ?case
    unfolding between_quiet step_recorded [OF sound_found [OF 0(1)]] step_quiet by simp
next
  case (Suc n)
  let ?w = "slots_within m n" and ?k = "\<lambda>ev e. map_option Inr (run_by (step_nested n reply) e (reply (butlast (eng_events e)) ev))"
  have "answers (m * ?w) ?k"
    unfolding answers_def
  proof (intro allI impI)
    fix ev e assume e: "sound e" "op_size (eng_pool e) + m * ?w < 2 ^ 32"
    let ?cs = "reply (butlast (eng_events e)) ev"
    have le: "length ?cs * ?w \<le> m * ?w" using reply(2) by (intro mult_le_mono1)
    then have "op_size (eng_pool e) + length ?cs * ?w < 2 ^ 32" using e(2) by linarith
    from run_by_ok [OF Suc.IH e(1) this] answered_more [OF _ le]
    show "\<exists>e'. ?k ev e = Some (Inr e') \<and> answered (m * ?w) e e'" by fastforce
  qed
  note ok = step_between_ok [OF this Suc.prems(1)]
  have "answering (step_nested n reply) reply = between ?k" by (rule answering_between) (rule reply(1))
  with ok [of al c] Suc.prems(2) show ?case by simp
qed

end
