(* ===== verification/Reentrant_Hazards.thy ===== *)
theory Reentrant_Hazards
  imports Nested_Requests Client_Properties
begin

text \<open>
  Requests sent from inside \<open>on_replaced\<close> and \<open>on_trade\<close>. There the handler still holds what it
  read before the call: that an order with an unchanged price cannot cross, and the quantities of the
  trade that it has reported and not yet executed. Two sessions show what becomes of it.
\<close>

section \<open>An order that rests again without matching\<close>

text \<open>
  A replacement that asks for more at the same price: whatever \<open>on_replaced\<close> has led to, the order
  then rests at its price without a look at the other side.
\<close>

lemma commit_answered:
  assumes inv: "store_inv X e" and old: "leaving X e b s" "rec_of e s = oc" "rec_id oc = ro_order_id req"
    and new: "slot_ready e t (rec_instrument_id oc) (ro_new_order_id req)" "rec_open_qty (rec_of e t) = n"
      "rec_filled_qty (rec_of e t) = rec_filled_qty oc" "n \<noteq> 0"
    and price: "ro_new_price req = rec_price oc" "in_band (ob_ladder (eng_books e ! b)) (ro_new_price req)" and more: "rec_open_qty oc < n"
    and conf: "eng_configured e"
    and answer: "\<And>e1. eng_inv e1 \<Longrightarrow> op_size (eng_pool e1) = op_size (eng_pool e) \<Longrightarrow> exchange_of e1 = ex_remove b (rec_side oc) (ro_order_id req) (exchange_of e)
      \<Longrightarrow> \<exists>e2. cb (On_replaced (ro_order_id req) (ro_new_order_id req) (ro_new_price req) n) e1 = Some (Inr e2) \<and> eng_inv e2 \<and> steady e1 e2 \<and> Q (exchange_of e2)"
  shows "\<exists>e' ex2. replace_commit_cb cb e req b oc s t n = Some (Inr e') \<and> eng_inv e' \<and> Q ex2
    \<and> exchange_of e' = ex_rest b (rec_side oc) \<lparr>ao_id = ro_new_order_id req, ao_price = ro_new_price req, ao_open = n, ao_filled = rec_filled_qty oc\<rparr> ex2"
proof -
  let ?ev = "On_replaced (ro_order_id req) (ro_new_order_id req) (ro_new_price req) n" and ?iid = "rec_instrument_id oc"
  define e1 where "e1 = with_book (\<lambda>p ob. remove_resting p ob s) b e"
  have b: "b < length (eng_books e)" "ob_instrument_id (eng_books e ! b) = ?iid" using old(1,2) by (simp_all add: leaving_def)
  note R = remove_ok [OF inv old(1) e1_def]
  have "eng_inv e1" using R(1,3) conf by (simp add: eng_inv_def)
  then obtain e2 where e2: "cb ?ev e1 = Some (Inr e2)" "eng_inv e2" "steady e1 e2" "Q (exchange_of e2)"
    using answer [of e1] R(2,3) old(2,3) by auto
  have t2: "slot_ready e2 t ?iid (ro_new_order_id req)" and r2: "rec_of e2 t = rec_of e t"
    using R(4) [OF new(1)] steadyD(3,4) [OF e2(3), of t ?iid "ro_new_order_id req"] by simp_all
  have "layout e2 = layout e" using steadyD(1) [OF e2(3)] R(3) by simp
  note lay = layout_eqD [OF this]
  have b2: "b < length (eng_books e2)" "ob_instrument_id (eng_books e2 ! b) = ?iid" "in_band (ob_ladder (eng_books e2 ! b)) (ro_new_price req)"
    using lay b price(2) by simp_all
  have q2: "rec_open_qty (rec_of e2 t) \<noteq> 0" using new(2,4) by (simp add: r2)
  note rest = rest_ok [OF eng_inv_sel(2) [OF e2(2)] t2 b2(1,2) refl b2(3) q2 refl, of "rec_side oc"]
  have "replace_commit_cb cb e req b oc s t n = Some (Inr (with_book (\<lambda>p ob. add_resting p ob t (rec_side oc) (ro_new_price req)) b e2))"
    unfolding replace_commit_cb_def Let_def e1_def [symmetric] e2(1)
    using price(1) more q2 by (simp add: e2(1) word_greater_zero_iff)
  moreover have "eng_inv (with_book (\<lambda>p ob. add_resting p ob t (rec_side oc) (ro_new_price req)) b e2)"
    using rest(1,3) e2(2) by (simp add: eng_inv_def)
  ultimately show ?thesis using rest(2) [unfolded r2 new(2,3)] e2(4) by blast
qed

lemma requeue_answered:
  assumes inv: "eng_inv e" and room: "op_size (eng_pool e) < 2 ^ 32 - 1" and granted: "\<forall>r. al r = None"
    and found: "find_order (exchange_of e) (ro_order_id req) = Some (b, sd, x)"
    and fresh: "ro_new_order_id req = ro_order_id req \<or> ro_new_order_id req \<notin> ex_used (exchange_of e)"
    and qty: "ao_filled x < ro_new_quantity req" and n: "n = ro_new_quantity req - ao_filled x" and more: "ao_open x < n"
    and price: "ro_new_price req = ao_price x" "is_tick_aligned (ao_price x)" "within_band (ex_books (exchange_of e) ! b) (ao_price x)"
    and answer: "\<And>e1. eng_inv e1 \<Longrightarrow> op_size (eng_pool e1) = Suc (op_size (eng_pool e))
      \<Longrightarrow> exchange_of e1 = ex_remove b sd (ro_order_id req) ((exchange_of e)\<lparr>ex_used := insert (ro_new_order_id req) (ex_used (exchange_of e))\<rparr>)
      \<Longrightarrow> \<exists>e2. cb (On_replaced (ro_order_id req) (ro_new_order_id req) (ro_new_price req) n) e1 = Some (Inr e2) \<and> eng_inv e2 \<and> steady e1 e2 \<and> Q (exchange_of e2)"
  shows "\<exists>e' ex2. replace_cb cb al e req = Some e' \<and> eng_inv e' \<and> Q ex2
    \<and> exchange_of e' = ex_rest b sd \<lparr>ao_id = ro_new_order_id req, ao_price = ro_new_price req, ao_open = n, ao_filled = ao_filled x\<rparr> ex2"
  using inv
proof (cases rule: lookup_cases [where i = "ro_order_id req"])
  case (live s c)
  let ?i = "ro_order_id req" and ?j = "ro_new_order_id req" and ?p = "ro_new_price req" and ?r = "rec_of e s" and ?oi = "eng_order_index e"
  have eqs: "c = b" "rec_side ?r = sd" "x = view_order (op_get (eng_pool e)) s" using found live(7) by simp_all
  have b: "b < length (eng_books e)" using live(5) by (simp add: leaving_def eqs(1))
  have n': "(if rec_filled_qty ?r < ro_new_quantity req then ro_new_quantity req - rec_filled_qty ?r else 0) = n" "n \<noteq> 0"
    using qty by (auto simp: n eqs(3))
  have fresh': "?j = ?i \<or> fm_lookup ?oi ?j = None" using fresh by auto
  have dup: "(if ?j = ?i then Some False else fm_contains ?oi ?j) = Some False"
    using hash_map.contains [OF order_index_ready [OF inv], of ?j] fresh' by auto
  have band: "in_band (ob_ladder (eng_books e ! b)) ?p" using price in_band_within [OF b, of ?p] by simp
  have rep: "replace_cb cb al e req = caught (replace_validated_cb cb al e req b ?r s n)"
    unfolding replace_cb_def Let_def using n'(2) price band
    by (simp add: eng_inv_sel [OF inv] live(1,3) live(4) [unfolded eqs(1)] n'(1) dup ob_price_check [OF eng_inv_sel(2) [OF inv] b])
  have val: "replace_validated_cb cb al e req b ?r s n = op_allocate al (eng_pool e) \<bind> (\<lambda>a. case a of Inl _ \<Rightarrow> Some (Inl e)
      | Inr (t, p) \<Rightarrow> replaced_index al ?oi req t \<bind> (\<lambda>ins. case ins of Inl _ \<Rightarrow> Some (Inl (upd_rec t (replaced_record req n ?r) (e\<lparr>eng_pool := p\<rparr>)))
        | Inr oi \<Rightarrow> replace_commit_cb cb ((upd_rec t (replaced_record req n ?r) (e\<lparr>eng_pool := p\<rparr>))\<lparr>eng_order_index := oi\<rparr>) req b ?r s t n))"
    unfolding replace_validated_cb_def Let_def replaced_record_def replaced_index_def order_index_upd ..
  show ?thesis
    using inv room replaced_record [of req n ?r] replaced_index [OF inv room live(2) fresh', of al]
  proof (cases rule: take_and_index)
    case (ready t p oi e2)
    have s2: "rec_of e2 s = ?r" using ready(12) [of s] live(5) by (simp add: leaving_def)
    have "\<not> rec_is_open (rec_of e2 t)" using replaced_record(1) by (simp add: ready(10))
    note leave = leaving_indexed [OF live(2) live(5) [unfolded eqs(1)] live(6) fresh' s2 this ready(13) ready(8), unfolded ready(9)]
    have new: "rec_open_qty (rec_of e2 t) = n" "rec_filled_qty (rec_of e2 t) = rec_filled_qty ?r" "?p = rec_price ?r"
      "in_band (ob_ladder (eng_books e2 ! b)) ?p" "rec_open_qty ?r < n"
      using band price(1) more by (simp_all add: ready(8,10) eqs(3))
    have answer2: "\<exists>e3. cb (On_replaced ?i ?j ?p n) e1 = Some (Inr e3) \<and> eng_inv e3 \<and> steady e1 e3 \<and> Q (exchange_of e3)"
      if "eng_inv e1" "op_size (eng_pool e1) = op_size (eng_pool e2)" "exchange_of e1 = ex_remove b (rec_side ?r) ?i (exchange_of e2)" for e1
      using answer [OF that(1)] that(2,3) by (simp add: ready(6,9) eqs(2))
    have "leaving {t. fm_lookup ?oi ?j = Some t} e2 b s" by (rule leave) simp
    note C = commit_answered [where Q = Q and cb = cb, OF ready(4) this s2 live(6) ready(5) new(1,2) n'(2) new(3-5) ready(7)]
    obtain e' ex2 where "replace_commit_cb cb e2 req b ?r s t n = Some (Inr e')" "eng_inv e'" "Q ex2"
      "exchange_of e' = ex_rest b sd \<lparr>ao_id = ?j, ao_price = ?p, ao_open = n, ao_filled = rec_filled_qty ?r\<rparr> ex2"
      using C [OF answer2] unfolding eqs(2) by blast
    moreover have "rec_filled_qty ?r = ao_filled x" by (simp add: eqs(3))
    ultimately show ?thesis by (intro exI [of _ e'] exI [of _ ex2]) (simp add: rep val ready(1-3))
  qed (use granted in simp_all)
qed (use found in simp_all)

section \<open>A locked book\<close>

text \<open>The listener sells what it has seen bid as soon as it hears of the replacement.\<close>

definition sell_on_replace :: replies where
  "sell_on_replace evs ev = (case ev of On_replaced _ _ p _ \<Rightarrow> [(all_granted, limit_order 4 kSell kDay p 70)] | _ \<Rightarrow> [])"

definition ask_for_more :: replace_order where
  "ask_for_more = \<lparr>ro_order_id = 1, ro_new_order_id = 3, ro_new_price = 251000, ro_new_quantity = 150\<rparr>"

lemma without_bid:
  "ex_remove 0 kBuy 1 (resting_exchange\<lparr>ex_used := insert 3 (ex_used resting_exchange)\<rparr>)
    = one_book [] [resting 2 252000 70 0] {3, 2, 1} 1 [On_accepted 1, On_accepted 2]"
  by (simp add: resting_exchange_def one_book_eval)

lemma cut_inv: "exchange_inv (ex_remove 0 kBuy 1 (resting_exchange\<lparr>ex_used := insert 3 (ex_used resting_exchange)\<rparr>))"
proof -
  have inv: "exchange_inv resting_exchange" using reachable_inv(2) [OF resting_engine_ok(1,2)] by (simp add: resting_engine_ok(3))
  have "open_at (resting_exchange\<lparr>ex_used := insert 3 (ex_used resting_exchange)\<rparr>) 0 kBuy (resting 1 251000 100 0)"
    using find_order_open(1) [OF resting_eval(1)] by (simp add: open_at_def)
  from remove_inv(1) [OF use_id_inv [OF inv] this] show ?thesis by simp
qed

lemma sell_meets_nobody:
  "ex_step (ex_emit (On_replaced 1 3 251000 150) (one_book [] [resting 2 252000 70 0] {3, 2, 1} 1 [On_accepted 1, On_accepted 2]))
      (limit_order 4 kSell kDay 251000 70) ex
    \<longleftrightarrow> ex = one_book [] [resting 4 251000 70 0, resting 2 252000 70 0] {4, 3, 2, 1} 1
      [On_accepted 1, On_accepted 2, On_replaced 1 3 251000 150, On_accepted 4]"
  unfolding limit_order_def ex_step_simps by (simp add: one_book_eval some_verdict)

lemma step_steady:
  assumes "sound e" "op_size (eng_pool e) + 1 < 2 ^ 32"
  shows "\<exists>e'. step al e c = Some e' \<and> sound e' \<and> steady e e'"
  using nested_ok [of "\<lambda>_ _. []" 0 e 0 al c] assms by (auto simp: answered_def)

lemma locked_run:
  "\<exists>e'. step_nested 1 sell_on_replace all_granted resting_engine (Replace ask_for_more) = Some e' \<and> eng_inv e'
    \<and> exchange_of e' = one_book [resting 3 251000 150 0] [resting 4 251000 70 0, resting 2 252000 70 0] {4, 3, 2, 1} 1
      [On_accepted 1, On_accepted 2, On_replaced 1 3 251000 150, On_accepted 4]"
proof -
  let ?cb = "answering step sell_on_replace"
  have inv: "eng_inv resting_engine" by (rule reachable_inv(1) [OF resting_engine_ok(1,2)])
  have answer: "\<exists>e2. ?cb (On_replaced 1 3 251000 150) e1 = Some (Inr e2) \<and> eng_inv e2 \<and> steady e1 e2
      \<and> exchange_of e2 = one_book [] [resting 4 251000 70 0, resting 2 252000 70 0] {4, 3, 2, 1} 1
          [On_accepted 1, On_accepted 2, On_replaced 1 3 251000 150, On_accepted 4]"
    if e1: "eng_inv e1" "op_size (eng_pool e1) = Suc (op_size (eng_pool resting_engine))"
      "exchange_of e1 = one_book [] [resting 2 252000 70 0] {3, 2, 1} 1 [On_accepted 1, On_accepted 2]" for e1
  proof -
    let ?e = "emit (On_replaced 1 3 251000 150) e1" and ?c = "limit_order 4 kSell kDay 251000 70"
    have "exchange_inv (exchange_of e1)" unfolding e1(3) without_bid [symmetric] by (rule cut_inv)
    then have sound: "sound ?e" using e1(1) by (simp add: sound_def)
    have room: "op_size (eng_pool ?e) + 1 < 2 ^ 32" "op_size (eng_pool ?e) < 2 ^ 32 - 1" using e1(2) resting_engine_ok(5) by simp_all
    obtain e2 where e2: "step all_granted ?e ?c = Some e2" "sound e2" "steady ?e e2" using step_steady [OF sound room(1)] by blast
    have "ex_step (exchange_of ?e) ?c (exchange_of e2)"
      using step_ok [OF _ room(2), of all_granted ?c] sound e2(1) by (auto simp: sound_def)
    then have "ex_step (ex_emit (On_replaced 1 3 251000 150) (one_book [] [resting 2 252000 70 0] {3, 2, 1} 1 [On_accepted 1, On_accepted 2])) ?c (exchange_of e2)"
      by (simp add: e1(3))
    with e2 show ?thesis unfolding sell_meets_nobody
      by (simp add: answering_def sell_on_replace_def sound_def)
  qed
  let ?Q = "\<lambda>ex. ex = one_book [] [resting 4 251000 70 0, resting 2 252000 70 0] {4, 3, 2, 1} 1
          [On_accepted 1, On_accepted 2, On_replaced 1 3 251000 150, On_accepted 4]"
  have req: "ro_order_id ask_for_more = 1" "ro_new_order_id ask_for_more = 3" "ro_new_price ask_for_more = 251000"
    "ro_new_quantity ask_for_more = 150" by (simp_all add: ask_for_more_def)
  have found: "find_order (exchange_of resting_engine) (ro_order_id ask_for_more) = Some (0, kBuy, resting 1 251000 100 0)"
    by (simp add: req resting_engine_ok(3) resting_eval)
  have band: "within_band (ex_books (exchange_of resting_engine) ! 0) 251000"
    unfolding resting_engine_ok(3) resting_exchange_def one_book_def within_band_def by simp
  obtain e' ex2 where e': "replace_cb ?cb all_granted resting_engine ask_for_more = Some e'" "eng_inv e'" "?Q ex2"
    "exchange_of e' = ex_rest 0 kBuy (resting 3 251000 150 0) ex2"
    using requeue_answered [where cb = ?cb and Q = ?Q and al = all_granted and n = 150, OF inv resting_engine_ok(4) _ found] answer band
    unfolding resting_engine_ok(3) req without_bid unfolding resting_eval by (simp add: is_tick_aligned_iff tick_size_eq) blast
  have "step_nested 1 sell_on_replace all_granted resting_engine (Replace ask_for_more) = Some e'"
    using e'(1) by simp
  with e'(2-4) show ?thesis by (intro exI [of _ e']) (simp add: one_book_eval)
qed

section \<open>An order canceled in the middle of its trade\<close>

text \<open>The first order of a side, where the matching loop finds it.\<close>

lemma front_order:
  assumes ok: "book_ok p ob q" and view: "ab_orders (book_view p ob) sd = x # xs"
  obtains i t where "has_best ob sd" "i = nat (best_index ob sd)" "unat (word_of_int (best_index ob sd) :: 32 word) = i"
    "i < ladder_size (ob_ladder ob)"
    "lvl_head (level_at ob sd (word_of_int (best_index ob sd))) = t" "t \<in> set (q sd i)" "t \<noteq> kInvalidSlot"
    "view_order (op_get p) t = x" "ob_index_to_price ob (word_of_int (best_index ob sd)) = ao_price x"
proof -
  note inv = book_okD(1) [OF ok]
  let ?n = "ladder_size (ob_ladder ob)"
  have view': "side_view (op_get p) q sd ?n = x # xs" using view by (simp add: book_okD(4) [OF ok])
  have best: "has_best ob sd" using has_best_iff [OF inv, of sd] side_view_empty [of q sd "op_get p" ?n] view' by auto
  note B = best_level [OF inv best]
  define i where "i = nat (best_index ob sd)"
  note B = B [folded i_def]
  obtain R where R: "side_view (op_get p) q sd ?n = map (view_order (op_get p)) (q sd i) @ R"
    using side_view_best [OF inv B(1,6)] by blast
  obtain t ts where t: "q sd i = t # ts" using B(1) by (auto simp: occupied_def neq_Nil_conv)
  have queue: "queue_of (op_get p) (level_at ob sd (word_of_int (best_index ob sd))) (t # ts)"
    using book_invD(7) [OF inv B(2), of sd] t B(4) by (simp add: level_at_def)
  have x: "view_order (op_get p) t = x" using R view' t by simp
  have "rec_price (op_get p t) = ob_index_to_price ob (word_of_int (best_index ob sd))"
    using queue_place(7) [OF inv, of t sd i] t B(5) by simp
  with x have price: "ob_index_to_price ob (word_of_int (best_index ob sd)) = ao_price x" by auto
  have valid: "t \<noteq> kInvalidSlot" using queue by (auto simp: queue_of_def)
  have mem: "t \<in> set (q sd i)" by (simp add: t)
  show ?thesis by (rule that [OF best i_def B(4) B(2) level_head [OF queue] mem valid x price])
qed

lemma cb_loops_done:
  assumes "rec_open_qty (rec_of e s) = 0"
  shows "match_level_cb trade b iid s sd idx e = Some (Inr e)" "run_matching_cb trade b iid s sd limit_price is_market e = Some (Inr e)"
  by (subst match_level_cb.simps, simp add: assms) (subst run_matching_cb.simps, simp add: assms)

lemma cb_loops_once:
  assumes "rec_open_qty (rec_of e s) \<noteq> 0" "has_best (eng_books e ! b) (opposite sd)" "idx = word_of_int (best_index (eng_books e ! b) (opposite sd))"
    "acceptable sd is_market limit_price (ob_index_to_price (eng_books e ! b) idx)" "lvl_head (level_at (eng_books e ! b) (opposite sd) idx) \<noteq> kInvalidSlot"
    "execute_head_cb trade b iid s sd idx e = Some (Inr e')" "rec_open_qty (rec_of e' s) = 0"
  shows "run_matching_cb trade b iid s sd limit_price is_market e = Some (Inr e')"
proof -
  have "match_level_cb trade b iid s sd idx e = Some (Inr e')"
    by (subst match_level_cb.simps) (use assms(1,5,6) in \<open>simp add: word_greater_zero_iff cb_loops_done(1) [OF assms(7)]\<close>)
  moreover have "\<not> (\<not> is_market \<and> \<not> crosses sd limit_price (ob_index_to_price (eng_books e ! b) idx))"
    unfolding crosses_acceptable by (rule assms(4))
  ultimately show ?thesis
    by (subst run_matching_cb.simps)
      (use assms(1,2) in \<open>auto simp: word_greater_zero_iff Let_def assms(3) [symmetric] cb_loops_done(2) [OF assms(7)]\<close>)
qed

lemma canceled_in_trade:
  assumes inv: "eng_inv e" and s: "slot_ready e s iid i" and n: "rec_open_qty (rec_of e s) = n" "n \<noteq> 0"
    and b: "b < length (eng_books e)" "ob_instrument_id (eng_books e ! b) = iid"
    and only: "ab_orders (ex_books (exchange_of e) ! b) (opposite sd) = [x]" and less: "n < ao_open x"
    and ok: "acceptable sd False limit_price (ao_price x)"
    and ev: "ev = On_trade (eng_next_trade_id e) iid (ao_price x) n (ao_id x) i sd"
    and cb: "\<And>e. cb ev e = map_option Inr (cancel (emit ev e) \<lparr>co_order_id = ao_id x\<rparr>)"
  shows "\<exists>e' idx. run_matching_cb (on_trade cb) b iid s sd limit_price False e = Some (Inr e') \<and> rec_open_qty (rec_of e' s) = 0
    \<and> eng_events e' = eng_events e @ [ev, On_canceled (ao_id x) (ao_open x) kUserRequested]
    \<and> ob_index_to_price (eng_books e' ! b) idx = ao_price x
    \<and> lvl_head (level_at (eng_books e' ! b) (opposite sd) idx) = kInvalidSlot
    \<and> lvl_total_qty (level_at (eng_books e' ! b) (opposite sd) idx) = - n"
proof -
  let ?o = "opposite sd" and ?ob = "eng_books e ! b" and ?p = "eng_pool e"
  let ?idx = "word_of_int (best_index ?ob ?o) :: 32 word"
  note sinv = eng_inv_sel(2) [OF inv]
  obtain q where book: "book_ok ?p ?ob q" using store_bookD [OF sinv b(1)] .
  have view: "ab_orders (book_view ?p ?ob) ?o = [x]" using only b(1) by simp
  obtain j t where t: "has_best ?ob ?o" "j = nat (best_index ?ob ?o)" "unat ?idx = j" "j < ladder_size (ob_ladder ?ob)"
    "lvl_head (level_at ?ob ?o ?idx) = t" "t \<in> set (q ?o j)" "t \<noteq> kInvalidSlot"
    "view_order (op_get ?p) t = x" "ob_index_to_price ?ob ?idx = ao_price x"
    by (rule front_order [OF book view])
  have rec_t: "rec_id (rec_of e t) = ao_id x" "rec_price (rec_of e t) = ao_price x" "rec_open_qty (rec_of e t) = ao_open x"
    using t(8) by auto
  note place = queue_place [OF book_okD(1) [OF book] t(6)]
  have "orders_indexed {} ?p (eng_order_index e)" using sinv by (simp add: store_inv_def)
  then have "fm_lookup (eng_order_index e) (rec_id (rec_of e t)) = Some t" using place(4,6) unfolding orders_indexed_def by blast
  then have look: "fm_lookup (eng_order_index e) (ao_id x) = Some t" by (simp only: rec_t(1))
  have ne: "s \<noteq> t" using s place(4) by (auto simp: slot_ready_def)
  have rec_s: "rec_id (rec_of e s) = i" using s by (simp add: slot_ready_def)
  define e1 where "e1 = emit ev (e\<lparr>eng_next_trade_id := eng_next_trade_id e + 1\<rparr>)"
  have inv1: "eng_inv e1" using inv by (simp add: e1_def eng_inv_def store_inv_def)
  have s1: "slot_ready e1 s iid i" using s by (simp add: e1_def slot_ready_def)
  have same1: "eng_pool e1 = ?p" "eng_books e1 = eng_books e" "eng_order_index e1 = eng_order_index e" by (simp_all add: e1_def)
  define e2 where "e2 = with_book (\<lambda>p ob. remove_resting p ob t) b e1"
  have find: "find_book e1 (rec_instrument_id (rec_of e1 t)) = Some (Some b)"
    using find_book_ok [OF eng_inv_sel(2) [OF inv1], of iid] book_index_iff [OF eng_inv_sel(2) [OF inv1], of iid b] b place(5)
    by (simp add: same1)
  have leave: "leaving {} e1 b t" using place(4-6) b look rec_t(1) by (simp add: leaving_def same1)
  note R = remove_ok [OF eng_inv_sel(2) [OF inv1] leave e2_def]
  have "fm_find (eng_order_index e1) (ao_id x) = Some (Some t)"
    using hash_map.find [OF order_index_ready [OF inv1], of "ao_id x"] look by (simp add: same1)
  then have can: "cancel e1 \<lparr>co_order_id = ao_id x\<rparr> = Some (emit (On_canceled (ao_id x) (ao_open x) kUserRequested) e2)"
    using place(4) find rec_t(3) eng_inv_sel(1) [OF inv1] by (simp add: cancel_def e2_def same1)
  have inv2: "eng_inv e2" using R(1,3) inv1 by (simp add: eng_inv_def)
  have s2: "rec_of e2 s = rec_of e s" "unat s < op_size (eng_pool e2)" using R(4) [OF s1] R(3) s1 by (simp_all add: same1 slot_ready_def)
  have t2: "rec_open_qty (rec_of e2 t) = ao_open x" "unat t < op_size (eng_pool e2)"
    using R(10) [of t] R(3) rec_t(3) place(6) by (simp_all add: same1)
  have "layout e2 = layout e" using R(3) by (simp add: layout_def same1)
  note lay = layout_eqD [OF this]
  have b2: "b < length (eng_books e2)" "ob_ladder (eng_books e2 ! b) = ob_ladder ?ob" using lay b(1) by simp_all
  obtain q2 where book2: "book_ok (eng_pool e2) (eng_books e2 ! b) q2" using store_bookD [OF eng_inv_sel(2) [OF inv2] b2(1)] .
  have "ab_orders (ex_books (exchange_of e2) ! b) ?o = []"
    using only b(1) place(1) rec_t(1) unfolding R(2) by (simp add: ex_remove_def upd_book_def remove_order_def same1 e1_def)
  then have "side_view (op_get (eng_pool e2)) q2 ?o (ladder_size (ob_ladder ?ob)) = []"
    using b2 by (simp add: book_okD(4) [OF book2])
  then have "q2 ?o j = []" using t(4) by (auto simp: side_view_def flat_def)
  then have empty: "lvl_head (level_at (eng_books e2 ! b) ?o ?idx) = kInvalidSlot" "lvl_total_qty (level_at (eng_books e2 ! b) ?o ?idx) = 0"
    using book_invD(7) [OF book_okD(1) [OF book2], of j ?o] t(3,4) b2(2) by (simp_all add: queue_of_def level_at_def)
  have fill: "min (rec_open_qty (rec_of e s)) (rec_open_qty (rec_of e t)) = n" using n less_imp_le [OF less] by (simp add: rec_t(3) min_def)
  define e3 where "e3 = upd_rec t (\<lambda>r. r\<lparr>rec_open_qty := rec_open_qty r - n, rec_filled_qty := rec_filled_qty r + n\<rparr>)
    (upd_rec s (\<lambda>r. r\<lparr>rec_open_qty := rec_open_qty r - n, rec_filled_qty := rec_filled_qty r + n\<rparr>) (emit (On_canceled (ao_id x) (ao_open x) kUserRequested) e2))"
  define e4 where "e4 = with_book (\<lambda>p ob. let lvl = level_at ob ?o ?idx in (p, set_level_at ob ?o ?idx (lvl\<lparr>lvl_total_qty := lvl_total_qty lvl - n\<rparr>))) b e3"
  note p2 = store_pool_ok [OF eng_inv_sel(2) [OF inv2]]
  have get: "rec_open_qty (rec_of e4 s) = 0" "rec_open_qty (rec_of e4 t) = ao_open x - n"
    using p2 s2 t2 ne n by (simp_all add: e4_def e3_def with_book_def pool_upd Let_def)
  have nz: "ao_open x - n \<noteq> 0" using less by auto
  have trade: "cb ev (e\<lparr>eng_next_trade_id := eng_next_trade_id e + 1\<rparr>) = Some (Inr (emit (On_canceled (ao_id x) (ao_open x) kUserRequested) e2))"
    unfolding cb e1_def [symmetric] can by simp
  have exec: "execute_head_cb (on_trade cb) b iid s sd ?idx e = Some (Inr e4)"
    unfolding execute_head_cb_def Let_def t(5) fill rec_t(1,2) rec_s ev [symmetric] trade resume_simps e3_def [symmetric] e4_def [unfolded Let_def, symmetric] get(2)
    using nz by simp
  have books: "eng_books e4 ! b = set_level_at (eng_books e2 ! b) ?o ?idx ((level_at (eng_books e2 ! b) ?o ?idx)
      \<lparr>lvl_total_qty := lvl_total_qty (level_at (eng_books e2 ! b) ?o ?idx) - n\<rparr>)"
    using b2(1) by (simp add: e4_def e3_def with_book_def Let_def)
  have "run_matching_cb (on_trade cb) b iid s sd limit_price False e = Some (Inr e4)"
    by (rule cb_loops_once [OF _ t(1) refl _ _ exec get(1)]) (use n ok t(5,7,9) in simp_all)
  moreover have "eng_events e4 = eng_events e @ [ev, On_canceled (ao_id x) (ao_open x) kUserRequested]"
    by (simp add: e4_def e3_def e2_def e1_def emit_def)
  moreover have "ob_index_to_price (eng_books e4 ! b) ?idx = ao_price x" using t(9) b2(2) by (simp add: books ob_index_to_price_def)
  moreover have "lvl_head (level_at (eng_books e4 ! b) ?o ?idx) = kInvalidSlot" "lvl_total_qty (level_at (eng_books e4 ! b) ?o ?idx) = - n"
    using empty by (simp_all add: books level_at_def)
  ultimately show ?thesis using get(1) by blast
qed

text \<open>A submit of a valid limit order, up to its acceptance.\<close>

lemma submit_reaches:
  assumes inv: "eng_inv e" and room: "op_size (eng_pool e) < 2 ^ 32 - 1" and granted: "\<forall>r. al r = None"
    and book: "book_index (exchange_of e) (no_instrument_id order) = Some b" and fresh: "no_order_id order \<notin> ex_used (exchange_of e)"
    and valid: "no_quantity order \<noteq> 0" "no_type order = kLimit" "is_tick_aligned (no_price order)" "within_band (ex_books (exchange_of e) ! b) (no_price order)"
  obtains e1 s where "submit_cb cb al e order = caught (submit_accepted_cb cb e1 order b s False (no_price order))"
    "eng_inv e1" "slot_ready e1 s (no_instrument_id order) (no_order_id order)" "b < length (eng_books e1)"
    "ob_instrument_id (eng_books e1 ! b) = no_instrument_id order"
    "exchange_of e1 = (exchange_of e)\<lparr>ex_used := insert (no_order_id order) (ex_used (exchange_of e))\<rparr>"
proof -
  let ?i = "no_order_id order" and ?iid = "no_instrument_id order" and ?oi = "eng_order_index e"
  note sinv = eng_inv_sel(2) [OF inv] and sub = submit_cb_fresh [OF inv book fresh, of cb al]
  have unused: "fm_lookup ?oi ?i = None" using fresh by auto
  have b: "b < length (eng_books e)" "ob_instrument_id (eng_books e ! b) = ?iid" using book unfolding book_index_iff [OF sinv] by simp_all
  have band: "\<not> ob_price_to_index (eng_books e ! b) (no_price order) < 0"
    using valid(3,4) ob_price_check [OF sinv b(1)] in_band_within [OF b(1)] by (simp del: exchange_of_simps)
  show thesis
    using inv room submitted_record [of order] insert_index [OF inv room unused, of al]
  proof (cases rule: take_and_index)
    case (ready t p oi e1)
    have "submit_validated_cb cb e1 order b t = submit_accepted_cb cb e1 order b t False (no_price order)"
      using valid(1-3) band by (simp add: submit_validated_cb_def ready(8))
    moreover have "eng_inv e1" using ready(4,7) unused by (simp add: eng_inv_def)
    ultimately show thesis using that [of e1 t] ready(5,6) b by (simp add: sub ready(1-3))
  qed (use granted in simp_all)
qed

definition cancel_on_trade :: replies where
  "cancel_on_trade evs ev = (case ev of On_trade _ _ _ _ r _ _ \<Rightarrow> [(all_granted, Cancel \<lparr>co_order_id = r\<rparr>)] | _ \<Rightarrow> [])"

definition small_sell :: new_order where
  "small_sell = \<lparr>no_order_id = 3, no_instrument_id = 1, no_side = kSell, no_type = kLimit, no_tif = kIoc, no_price = 251000, no_quantity = 40\<rparr>"

lemma canceled_run:
  "\<exists>e' idx. step_nested 1 cancel_on_trade all_granted resting_engine (Submit small_sell) = Some e'
    \<and> eng_events e' = [On_accepted 1, On_accepted 2, On_accepted 3, On_trade 1 1 251000 40 1 3 kSell, On_canceled 1 100 kUserRequested]
    \<and> ob_index_to_price (eng_books e' ! 0) idx = 251000 \<and> lvl_head (level_at (eng_books e' ! 0) kBuy idx) = kInvalidSlot
    \<and> lvl_total_qty (level_at (eng_books e' ! 0) kBuy idx) = 2 ^ 32 - 40"
proof -
  let ?cb = "answering step cancel_on_trade" and ?ev = "On_trade 1 1 251000 40 1 3 kSell"
  have inv: "eng_inv resting_engine" by (rule reachable_inv(1) [OF resting_engine_ok(1,2)])
  have order: "no_order_id small_sell = 3" "no_instrument_id small_sell = 1" "no_side small_sell = kSell" "no_type small_sell = kLimit"
    "no_tif small_sell = kIoc" "no_price small_sell = 251000" "no_quantity small_sell = 40" by (simp_all add: small_sell_def)
  have band: "within_band (ex_books (exchange_of resting_engine) ! 0) 251000"
    unfolding resting_engine_ok(3) resting_exchange_def one_book_def within_band_def by simp
  obtain e1 s where e1: "submit_cb ?cb all_granted resting_engine small_sell = caught (submit_accepted_cb ?cb e1 small_sell 0 s False 251000)"
    "eng_inv e1" "slot_ready e1 s 1 3" "0 < length (eng_books e1)" "ob_instrument_id (eng_books e1 ! 0) = 1"
    "exchange_of e1 = resting_exchange\<lparr>ex_used := insert 3 {2, 1}\<rparr>"
    using submit_reaches [where al = all_granted and order = small_sell and b = 0 and cb = ?cb, OF inv resting_engine_ok(4)] band
    unfolding resting_engine_ok(3) order resting_eval by (simp add: is_tick_aligned_iff tick_size_eq) blast
  define e2 where "e2 = upd_rec s (\<lambda>r. r\<lparr>rec_open_qty := no_quantity small_sell, rec_filled_qty := 0\<rparr>) e1"
  have s1: "slot_ready e1 s (no_instrument_id small_sell) (no_order_id small_sell)" using e1(3) by (simp add: order)
  note A = accepting_ok [OF eng_inv_sel(2) [OF e1(2)] s1 e2_def, unfolded order]
  let ?e = "emit (On_accepted 3) e2"
  have inv2: "eng_inv ?e" using A(1,7) e1(2) by (simp add: eng_inv_def)
  have ex2: "exchange_of ?e = ex_emit (On_accepted 3) (resting_exchange\<lparr>ex_used := insert 3 {2, 1}\<rparr>)" by (simp add: A(3) e1(6))
  have ev: "?ev = On_trade (eng_next_trade_id ?e) 1 (ao_price (resting 1 251000 100 0)) 40 (ao_id (resting 1 251000 100 0)) 3 kSell"
    using arg_cong [OF ex2, of ex_next_trade_id] by (simp add: resting_exchange_def one_book_def emit_def)
  have heard: "eng_events ?e = [On_accepted 1, On_accepted 2, On_accepted 3]"
    using arg_cong [OF ex2, of ex_events] by (simp add: resting_exchange_def one_book_def ex_emit_def emit_def)
  have cb: "?cb ?ev e = map_option Inr (cancel (emit ?ev e) \<lparr>co_order_id = ao_id (resting 1 251000 100 0)\<rparr>)" for e
    by (simp add: answering_def cancel_on_trade_def)
  have only: "ab_orders (ex_books (exchange_of ?e) ! 0) (opposite kSell) = [resting 1 251000 100 0]"
    unfolding ex2 by (simp add: resting_eval)
  obtain e' idx where E: "run_matching_cb (on_trade ?cb) 0 1 s kSell 251000 False ?e = Some (Inr e')" "rec_open_qty (rec_of e' s) = 0"
    "eng_events e' = eng_events ?e @ [?ev, On_canceled 1 100 kUserRequested]"
    "ob_index_to_price (eng_books e' ! 0) idx = 251000" "lvl_head (level_at (eng_books e' ! 0) kBuy idx) = kInvalidSlot"
    "lvl_total_qty (level_at (eng_books e' ! 0) kBuy idx) = - 40"
    using canceled_in_trade [where e = ?e and s = s and iid = 1 and i = 3 and n = 40 and b = 0 and sd = kSell and x = "resting 1 251000 100 0"
        and limit_price = 251000 and ev = ?ev and cb = ?cb, OF inv2 _ _ _ _ _ only _ _ ev cb] A(2,4,6) e1(4,5)
    by (auto simp: acceptable_def)
  have "after_accept_cb ?cb small_sell 0 s False 251000 ?e = Some (Inr e')"
    unfolding after_accept_cb_def order by (simp add: E(1,2))
  then have "submit_accepted_cb ?cb e1 small_sell 0 s False 251000 = Some (Inr e')"
    unfolding submit_accepted_cb_after e2_def [symmetric] unfolding order by (simp add: answering_def cancel_on_trade_def)
  then have "step_nested 1 cancel_on_trade all_granted resting_engine (Submit small_sell) = Some e'" using e1(1) by simp
  with E show ?thesis by (intro exI [of _ e'] exI [of _ idx]) (simp add: heard)
qed

end
