(* ===== verification/Reentrant_Properties.thy ===== *)
theory Reentrant_Properties
  imports Reentrant_Hazards
begin

text \<open>
  The properties of an engine whose listener sends requests from inside its callbacks: answers to
  acceptances, rejections and cancellations are harmless, answers to the last call of a request are
  no different from requests sent after it, and answers to replacements and trades are neither.
\<close>

lemma sound_reachable: "reachable e \<Longrightarrow> eng_configured e \<Longrightarrow> sound e"
  by (simp add: sound_def reachable_inv)

text \<open>The handlers with callbacks that may do anything are those with throwing callbacks, when
  the callbacks only record the call and perhaps throw: the model of re-entrant callbacks extends the
  model of the quiet and the throwing listener.\<close>

theorem recording_callbacks_suffice:
  assumes "reachable e" "eng_configured e"
  shows "step_cb (notify li) al e c = step_with li al e c"
  by (rule step_recorded [OF sound_found [OF sound_reachable [OF assms]]])

theorem recording_callbacks_suffice_witness:
  "step_cb (notify quiet) all_granted resting_engine (Cancel \<lparr>co_order_id = 1\<rparr>) = step all_granted resting_engine (Cancel \<lparr>co_order_id = 1\<rparr>)"
  using recording_callbacks_suffice [OF resting_engine_ok(1,2), of quiet all_granted "Cancel \<lparr>co_order_id = 1\<rparr>"] by (simp add: step_quiet del: step_cb.simps step.simps)

text \<open>C9 A listener may answer \<open>on_accepted\<close>, \<open>on_rejected\<close> and \<open>on_canceled\<close> with requests of its own,
  from inside the callback, and the callbacks of those requests may do the same: the request still
  returns, and the engine's invariants hold after it. At most \<open>m\<close> requests are sent from a callback,
  and callbacks nest at most \<open>n\<close> deep.\<close>

theorem answers_keep_invariants:
  assumes "reachable e" "eng_configured e" "op_size (eng_pool e) + slots_within m n < 2 ^ 32"
    and "\<forall>evs ev. midway ev \<longrightarrow> reply evs ev = []" "\<forall>evs ev. length (reply evs ev) \<le> m"
  shows "\<exists>e'. step_nested n reply al e c = Some e' \<and> eng_inv e' \<and> exchange_inv (exchange_of e')"
proof -
  have "\<exists>e'. step_nested n reply al e c = Some e' \<and> answered (slots_within m n) e e'"
    using assms(4,5) by (intro nested_ok [OF _ _ sound_reachable [OF assms(1,2)] assms(3)]) simp_all
  then show ?thesis by (auto simp: answered_def sound_def)
qed

text \<open>A listener that crosses every order it hears of and sends every rejected one again.\<close>

definition eager_listener :: replies where
  "eager_listener evs ev = (case ev of On_accepted i \<Rightarrow> [(all_granted, limit_order (i + 10) kSell kDay 251000 40), (all_granted, Cancel \<lparr>co_order_id = i\<rparr>)]
    | On_rejected i r \<Rightarrow> [(all_granted, limit_order (i + 20) kBuy kDay 251000 40)] | _ \<Rightarrow> [])"

theorem answers_keep_invariants_witness:
  "\<exists>e'. step_nested 3 eager_listener all_granted resting_engine (limit_order 3 kBuy kIoc 252000 100) = Some e'
    \<and> eng_inv e' \<and> exchange_inv (exchange_of e')"
proof (rule answers_keep_invariants [OF resting_engine_ok(1,2)])
  have "slots_within 2 3 = 85" unfolding numeral_3_eq_3 slots_within.simps by simp
  then show "op_size (eng_pool resting_engine) + slots_within 2 3 < 2 ^ 32" using resting_engine_ok(5) by simp
  have "midway ev \<longrightarrow> eager_listener evs ev = []" "length (eager_listener evs ev) \<le> 2" for evs ev
    by (cases ev; simp add: eager_listener_def)+
  then show "\<forall>evs ev. midway ev \<longrightarrow> eager_listener evs ev = []" "\<forall>evs ev. length (eager_listener evs ev) \<le> 2" by simp_all
qed

text \<open>C10 \<open>on_rejected\<close> and \<open>on_canceled\<close> are the last thing their handler does: a listener that sends
  its requests from inside these calls leaves the same engine and hears the same events as a client
  that sends them when the call that triggered them has returned.\<close>

theorem answering_last_calls_is_waiting:
  assumes "reachable e" "eng_configured e" and "\<forall>evs ev. \<not> final_call ev \<longrightarrow> reply evs ev = []"
  shows "step_nested (Suc n) reply al e c = do {
      e' \<leftarrow> step al e c;
      run_by (step_nested n reply) e'
        (if length (eng_events e) < length (eng_events e') \<and> final_call (last (eng_events e'))
         then reply (butlast (eng_events e')) (last (eng_events e')) else []) }"
proof -
  let ?k = "\<lambda>ev e. map_option Inr (run_by (step_nested n reply) e (reply (butlast (eng_events e)) ev))"
  have cb: "answering (step_nested n reply) reply = late ?k"
    using assms(3) by (intro ext) (simp add: answering_def late_def emit_def)
  have rest: "finish ?k (eng_events e) e' = run_by (step_nested n reply) e'
      (if length (eng_events e) < length (eng_events e') \<and> final_call (last (eng_events e'))
       then reply (butlast (eng_events e')) (last (eng_events e')) else [])" for e'
    by (simp add: finish_def)
  show ?thesis
    unfolding step_nested.simps cb step_late [OF sound_found [OF sound_reachable [OF assms(1,2)]]] rest ..
qed

definition resubmitting :: replies where
  "resubmitting evs ev = (case ev of On_canceled i n r \<Rightarrow> [(all_granted, limit_order (i + 10) kBuy kDay 251000 n)] | _ \<Rightarrow> [])"

theorem answering_last_calls_is_waiting_witness:
  "step_nested 1 resubmitting all_granted resting_engine (Cancel \<lparr>co_order_id = 1\<rparr>) = do {
      e' \<leftarrow> step all_granted resting_engine (Cancel \<lparr>co_order_id = 1\<rparr>);
      run_by (step_nested 0 resubmitting) e'
        (if length (eng_events resting_engine) < length (eng_events e') \<and> final_call (last (eng_events e'))
         then resubmitting (butlast (eng_events e')) (last (eng_events e')) else []) }"
proof -
  have "\<not> final_call ev \<longrightarrow> resubmitting evs ev = []" for evs ev by (cases ev) (simp_all add: resubmitting_def)
  then have "\<forall>evs ev. \<not> final_call ev \<longrightarrow> resubmitting evs ev = []" by simp
  from answering_last_calls_is_waiting [OF resting_engine_ok(1,2) this, of 0] show ?thesis unfolding One_nat_def .
qed

text \<open>C11 \<open>replace\<close> matches only when the price has changed, since an unchanged price cannot newly
  cross; a listener that answers \<open>on_replaced\<close> with a crossing order, when the old order is off the
  book and the new one not yet on it, makes it cross: the order rests at its old price, the quotes
  are locked, and neither order trades.\<close>

theorem requeued_order_locks_book:
  "\<exists>e'. step_nested 1 sell_on_replace all_granted resting_engine (Replace ask_for_more) = Some e'
    \<and> eng_events e' = [On_accepted 1, On_accepted 2, On_replaced 1 3 251000 150, On_accepted 4]
    \<and> top_of_book e' 1 = Some \<lparr>tob_bid_price = 251000, tob_bid_quantity = 150, tob_ask_price = 251000, tob_ask_quantity = 70\<rparr>"
proof -
  obtain e' where e': "step_nested 1 sell_on_replace all_granted resting_engine (Replace ask_for_more) = Some e'" "eng_inv e'"
    "exchange_of e' = one_book [resting 3 251000 150 0] [resting 4 251000 70 0, resting 2 252000 70 0] {4, 3, 2, 1} 1
      [On_accepted 1, On_accepted 2, On_replaced 1 3 251000 150, On_accepted 4]" using locked_run by blast
  have "eng_events e' = [On_accepted 1, On_accepted 2, On_replaced 1 3 251000 150, On_accepted 4]"
    using arg_cong [OF e'(3), of ex_events] by (simp add: one_book_def)
  moreover have "top_of_book e' 1 = Some \<lparr>tob_bid_price = 251000, tob_bid_quantity = 150, tob_ask_price = 251000, tob_ask_quantity = 70\<rparr>"
    using top_of_book_ok [OF e'(2), of 1] unfolding e'(3) by (simp add: one_book_def book_index_def ex_top_def best_quote_def)
  ultimately show ?thesis using e'(1) by blast
qed

text \<open>C12 The matching loop reports a trade before it takes it off the two orders: a listener that
  cancels the resting order from inside \<open>on_trade\<close> gets the whole order canceled on top of the trade,
  so that an order of 100 lots trades 40 and has 100 canceled, and the trade is then taken off a level
  that the order has left, whose total wraps.\<close>

theorem cancel_in_trade_counts_twice:
  "\<exists>e' idx. step_nested 1 cancel_on_trade all_granted resting_engine (Submit small_sell) = Some e'
    \<and> eng_events e' = [On_accepted 1, On_accepted 2, On_accepted 3, On_trade 1 1 251000 40 1 3 kSell, On_canceled 1 100 kUserRequested]
    \<and> ob_index_to_price (eng_books e' ! 0) idx = 251000 \<and> lvl_head (level_at (eng_books e' ! 0) kBuy idx) = kInvalidSlot
    \<and> lvl_total_qty (level_at (eng_books e' ! 0) kBuy idx) = 2 ^ 32 - 40"
  by (rule canceled_run)

end
