(* ===== verification/Host.thy ===== *)
theory Host
  imports Engine_Properties
begin

text \<open>
  A process that uses the library (\<open>src/engine_api.cpp\<close> and the virtual calls of
  \<open>IMatchingEngine\<close>): it holds pointers to the engines it has created, each with the listener it was
  given, sends calls through them, and deletes the engines again. A call through a pointer that is
  not the address of a live engine has no defined result and is \<open>None\<close> here.
\<close>

section \<open>Calls\<close>

type_synonym handle = nat

type_synonym host = "handle \<rightharpoonup> listener \<times> engine"

text \<open>
  \<open>Create_engine\<close> has the listener (\<open>None\<close>: a null pointer), the allocator's answers and the address
  it would give to the engine; \<open>Destroy_engine\<close> has the pointer (\<open>None\<close>: null).
\<close>

datatype host_call =
  Api_version
| Create_engine handle allocator "listener option"
| Destroy_engine "handle option"
| Configure_engine handle allocator "instrument_config list option"
| Send handle allocator command
| Ask_top handle instrument_id

datatype response =
  Version "32 word"
| Pointer "handle option"
| Configured configure_result
| Top top_of_book
| Nothing

definition create_engine :: "host \<Rightarrow> handle \<Rightarrow> allocator \<Rightarrow> listener option \<Rightarrow> (response \<times> host) option" where
  "create_engine hs h al li = do {
     created \<leftarrow> xmatch_create al (li \<noteq> None);
     Some (case created of None \<Rightarrow> (Pointer None, hs) | Some e \<Rightarrow> (Pointer (Some h), hs(h \<mapsto> (the li, e)))) }"

text \<open>Deleting a null pointer does nothing; the destructors do not throw.\<close>

definition xmatch_destroy :: "host \<Rightarrow> handle option \<Rightarrow> (response \<times> host) option" where
  "xmatch_destroy hs p =
    (case p of
       None \<Rightarrow> Some (Nothing, hs)
     | Some h \<Rightarrow> do { _ \<leftarrow> hs h; Some (Nothing, hs(h := None)) })"

fun host_step :: "host \<Rightarrow> host_call \<Rightarrow> (response \<times> host) option" where
  "host_step hs Api_version = Some (Version xmatch_api_version, hs)"
| "host_step hs (Create_engine h al li) = create_engine hs h al li"
| "host_step hs (Destroy_engine p) = xmatch_destroy hs p"
| "host_step hs (Configure_engine h al cfgs) = do {
     (li, e) \<leftarrow> hs h;
     (res, e) \<leftarrow> configure al e cfgs;
     Some (Configured res, hs(h \<mapsto> (li, e))) }"
| "host_step hs (Send h al c) = do {
     (li, e) \<leftarrow> hs h;
     e \<leftarrow> step_with li al e c;
     Some (Nothing, hs(h \<mapsto> (li, e))) }"
| "host_step hs (Ask_top h iid) = do {
     (li, e) \<leftarrow> hs h;
     top \<leftarrow> Engine.top_of_book e iid;
     Some (Top top, hs) }"

fun host_run :: "host \<Rightarrow> host_call list \<Rightarrow> (response list \<times> host) option" where
  "host_run hs [] = Some ([], hs)"
| "host_run hs (c # cs) = do { (r, hs) \<leftarrow> host_step hs c; (rs, hs) \<leftarrow> host_run hs cs; Some (r # rs, hs) }"

section \<open>What a host must respect\<close>

text \<open>
  Live pointers only, and the bounds of \<open>reachable\<close>: fewer than \<open>2^32 - 1\<close> slots in use, ladders that
  fit in 32 bits. The allocator places a new engine where none is.
\<close>

fun proper :: "host \<Rightarrow> host_call \<Rightarrow> bool" where
  "proper hs Api_version = True"
| "proper hs (Create_engine h al li) = (hs h = None)"
| "proper hs (Destroy_engine p) = (case p of None \<Rightarrow> True | Some h \<Rightarrow> hs h \<noteq> None)"
| "proper hs (Configure_engine h al cfgs) = (hs h \<noteq> None \<and> all_fit cfgs)"
| "proper hs (Send h al c) = (case hs h of None \<Rightarrow> False | Some (li, e) \<Rightarrow> op_size (eng_pool e) < 2 ^ 32 - 1)"
| "proper hs (Ask_top h iid) = (hs h \<noteq> None)"

fun concerns :: "host_call \<Rightarrow> handle \<Rightarrow> bool" where
  "concerns (Create_engine h al li) k = (k = h)"
| "concerns (Destroy_engine p) k = (p = Some k)"
| "concerns (Configure_engine h al cfgs) k = (k = h)"
| "concerns (Send h al c) k = (k = h)"
| "concerns (Ask_top h iid) k = (k = h)"
| "concerns Api_version k = False"

definition all_reachable :: "host \<Rightarrow> bool" where
  "all_reachable hs \<longleftrightarrow> (\<forall>h li e. hs h = Some (li, e) \<longrightarrow> reachable e)"

lemma all_reachable_upd: "all_reachable hs \<Longrightarrow> reachable e \<Longrightarrow> all_reachable (hs(h \<mapsto> (li, e)))"
  by (simp add: all_reachable_def)

lemma all_reachable_delete: "all_reachable hs \<Longrightarrow> all_reachable (hs(h := None))"
  by (simp add: all_reachable_def)

section \<open>Every call on a live engine returns\<close>

lemma unconfigured_index:
  "reachable e \<Longrightarrow> \<not> eng_configured e \<Longrightarrow> fm_ready (eng_instrument_index e) \<and> fm_lookup (eng_instrument_index e) = Map.empty"
proof (induction rule: reachable.induct)
  case (created al e)
  with runs_engine_new [of al] show ?case by (auto simp: runs_def)
next
  case (configured e cfgs al res e')
  then have "\<not> eng_configured e" by (auto simp: already_configured)
  with configure_cases [OF configured(3) this configured(2)] configured show ?case by (auto simp: eng_inv_def)
next
  case (requested e li al c e')
  show ?case
  proof (cases "eng_configured e")
    case True
    with reachable_sound [OF requested(1)] have "eng_inv e" by simp
    from step_with_ok [OF this requested(2), of li al c] requested(3,5) show ?thesis by (auto simp: eng_inv_def)
  next
    case False
    with unconfigured_step_with [OF False, of li al c] requested show ?thesis by (auto simp: emit_def)
  qed
qed

lemma create_returns: "\<exists>p. xmatch_create al b = Some p \<and> (\<forall>e. p = Some e \<longrightarrow> reachable e)"
proof -
  have "runs al (engine_new al) reachable"
    using runs_engine_new [of al] reachable.created [of al] by (auto simp: runs_def)
  then have "runs al (and_then (request al Alloc_engine) (\<lambda>_. engine_new al)) reachable" by (rule runs_bind [OF runs_request])
  then show ?thesis unfolding runs_def by (auto simp: xmatch_create_def)
qed

lemma configure_returns:
  assumes "reachable e" "all_fit cfgs"
  shows "\<exists>res e'. configure al e cfgs = Some (res, e')"
proof (cases "eng_configured e")
  case True
  then show ?thesis by (simp add: already_configured)
next
  case False
  show ?thesis
  proof (cases cfgs)
    case None
    then show ?thesis using False by (simp add: configure_def configure_body_def returns_def)
  next
    case (Some cs)
    with assms(2) have "\<forall>cfg \<in> set cs. \<not> config_invalid cfg \<longrightarrow> ladder_fits cfg" by (simp add: all_fit_def)
    from configure_ok [OF False this, of al] show ?thesis by (auto simp: Some)
  qed
qed

lemma top_returns: "reachable e \<Longrightarrow> \<exists>top. Engine.top_of_book e iid = Some top"
proof (cases "eng_configured e")
  case True
  assume "reachable e"
  then show ?thesis using top_of_book_ok reachable_sound True by blast
next
  case False
  assume "reachable e"
  with False have "fm_wf (eng_instrument_index e)" using unconfigured_index by (auto simp: fm_ready_def fm_ok_def)
  then show ?thesis by (simp add: Engine.top_of_book_def find_book_def fm_find_total)
qed

text \<open>C39 A process may create, use and destroy any number of engines: while it sends its calls through
  live pointers, every call returns, creating reports success by a pointer to a fresh engine, deleting
  removes just that engine and deleting a null pointer nothing, and no call changes another engine
  than the one it is sent to.\<close>

theorem host_calls_return:
  assumes "all_reachable hs" "proper hs c"
  shows "\<exists>r hs'. host_step hs c = Some (r, hs') \<and> all_reachable hs' \<and> (\<forall>k. \<not> concerns c k \<longrightarrow> hs' k = hs k)
    \<and> (case c of Destroy_engine p \<Rightarrow> hs' = (case p of None \<Rightarrow> hs | Some h \<Rightarrow> hs(h := None))
       | Create_engine h al li \<Rightarrow> r = Pointer (if hs' h = None then None else Some h) \<and> (li = None \<longrightarrow> hs' = hs) | _ \<Rightarrow> dom hs' = dom hs)"
proof (cases c)
  case (Create_engine h al li)
  obtain p where p: "xmatch_create al (li \<noteq> None) = Some p" "\<forall>e. p = Some e \<longrightarrow> reachable e" using create_returns by blast
  moreover have "li = None \<Longrightarrow> p = None" using p(1) by (simp add: xmatch_create_def)
  ultimately show ?thesis using assms Create_engine by (cases p) (auto simp: create_engine_def intro: all_reachable_upd)
next
  case (Destroy_engine p)
  then show ?thesis using assms by (cases p) (auto simp: xmatch_destroy_def intro: all_reachable_delete)
next
  case (Configure_engine h al cfgs)
  then obtain li e where h: "hs h = Some (li, e)" "all_fit cfgs" using assms(2) by auto
  then have e: "reachable e" using assms(1) by (simp add: all_reachable_def)
  then obtain res e' where C: "configure al e cfgs = Some (res, e')" using configure_returns h(2) by blast
  from reachable.configured [OF e h(2) this] assms(1) show ?thesis by (auto simp: Configure_engine h C intro: all_reachable_upd)
next
  case (Send h al req)
  then obtain li e where h: "hs h = Some (li, e)" "op_size (eng_pool e) < 2 ^ 32 - 1" using assms(2) by (auto split: option.splits)
  then have e: "reachable e" using assms(1) by (simp add: all_reachable_def)
  then obtain e' where S: "step_with li al e req = Some e'" using requests_return h(2) by blast
  from reachable.requested [OF e h(2) S] assms(1) show ?thesis by (auto simp: Send h(1) S intro: all_reachable_upd)
next
  case (Ask_top h iid)
  then obtain li e where h: "hs h = Some (li, e)" using assms(2) by auto
  then have "reachable e" using assms(1) by (simp add: all_reachable_def)
  from top_returns [OF this, of iid] show ?thesis using assms(1) by (auto simp: Ask_top h)
qed (use assms in simp)

theorem host_calls_return_witness:
  "\<exists>r hs'. host_step [1 \<mapsto> (quiet, sample_engine)] (Destroy_engine (Some 1)) = Some (r, hs') \<and> hs' 1 = None"
proof -
  have "all_reachable [1 \<mapsto> (quiet, sample_engine)]" "proper [1 \<mapsto> (quiet, sample_engine)] (Destroy_engine (Some 1))"
    using sample_reachable by (simp_all add: all_reachable_def)
  from host_calls_return [OF this] show ?thesis by auto
qed

section \<open>Engines do not see each other\<close>

lemma step_elsewhere: "\<not> concerns c k \<Longrightarrow> host_step hs c = Some (r, hs') \<Longrightarrow> hs' k = hs k"
  by (cases c) (auto simp: create_engine_def xmatch_destroy_def split: bind_splits option.splits)

lemma step_here:
  assumes "concerns c k" "hs k = gs k" "host_step hs c = Some (r, hs')"
  shows "\<exists>gs'. host_step gs c = Some (r, gs') \<and> gs' k = hs' k"
  using assms by (cases c) (auto simp: create_engine_def xmatch_destroy_def split: bind_splits option.splits)

text \<open>
  However the calls of a process to its engines are interleaved, each engine answers as if the calls
  to it had been the only ones.
\<close>

theorem engines_independent:
  assumes "host_run hs cs = Some (rs, hs')" "hs k = hs2 k"
  shows "\<exists>hs2'. host_run hs2 (filter (\<lambda>c. concerns c k) cs) = Some (map fst (filter (\<lambda>(r, c). concerns c k) (zip rs cs)), hs2') \<and> hs2' k = hs' k"
  using assms
proof (induction cs arbitrary: hs hs2 rs)
  case (Cons c cs)
  obtain r hs1 rs1 where R: "host_step hs c = Some (r, hs1)" "host_run hs1 cs = Some (rs1, hs')" "rs = r # rs1"
    using Cons.prems(1) by (auto split: bind_splits)
  show ?case
  proof (cases "concerns c k")
    case True
    obtain hs21 where "host_step hs2 c = Some (r, hs21)" "hs1 k = hs21 k" using step_here [where gs = hs2, OF True Cons.prems(2) R(1)] by auto
    with Cons.IH [OF R(2), of hs21] True show ?thesis by (auto simp: R(3))
  next
    case False
    with Cons.IH [OF R(2), of hs2] step_elsewhere [OF False R(1)] Cons.prems(2) show ?thesis by (simp add: R(3))
  qed
qed simp

theorem engines_independent_witness:
  "\<exists>hs2'. host_run [1 \<mapsto> (quiet, sample_engine)] [Destroy_engine (Some 1)] = Some ([Nothing], hs2') \<and> hs2' 1 = None"
  using engines_independent [of "[1 \<mapsto> (quiet, sample_engine), 2 \<mapsto> (quiet, sample_engine)]"
      "[Destroy_engine (Some 2), Api_version, Destroy_engine (Some 1)]" "[Nothing, Version 2, Nothing]" Map.empty 1 "[1 \<mapsto> (quiet, sample_engine)]"]
  by (simp add: xmatch_destroy_def xmatch_api_version_def kApiVersion_def fun_upd_def)

end
