(* ===== verification/Layouts.thy ===== *)
theory Layouts
  imports Order_Book
begin

text \<open>
  The sizes of the two records that there are many of, an order and a price level, as the headers
  pin them with \<open>static_assert\<close>: the layout of a struct of scalars on x86-64, where a scalar is
  aligned to its size.
\<close>

section \<open>The layout of a struct\<close>

definition align_up :: "nat \<Rightarrow> nat \<Rightarrow> nat" where
  "align_up a n = (n + a - 1) div a * a"

text \<open>The offsets of the fields, given their sizes, and the end of the last one.\<close>

fun offsets :: "nat \<Rightarrow> nat list \<Rightarrow> nat list \<times> nat" where
  "offsets at [] = ([], at)"
| "offsets at (s # ss) = (let o1 = align_up s at; (os, fin) = offsets (o1 + s) ss in (o1 # os, fin))"

definition alignof :: "nat list \<Rightarrow> nat" where
  "alignof ss = fold max ss 1"

definition sizeof :: "nat list \<Rightarrow> nat" where
  "sizeof ss = align_up (alignof ss) (snd (offsets 0 ss))"

definition interior_padding :: "nat list \<Rightarrow> nat" where
  "interior_padding ss = snd (offsets 0 ss) - sum_list ss"

section \<open>The records\<close>

text \<open>\<open>id\<close>, \<open>price\<close>; \<open>instrument_id\<close>, \<open>open_qty\<close>, \<open>filled_qty\<close>, \<open>prev\<close>, \<open>next\<close>, \<open>level_index\<close>; \<open>side\<close>, \<open>is_open\<close>.\<close>

definition order_record_fields :: "nat list" where
  "order_record_fields = [8, 8, 4, 4, 4, 4, 4, 4, 1, 1]"

text \<open>\<open>head\<close>, \<open>tail\<close>, \<open>total_qty\<close>, \<open>order_count\<close>.\<close>

definition level_fields :: "nat list" where
  "level_fields = [4, 4, 4, 4]"

definition order_record_asserts :: bool where
  "order_record_asserts \<longleftrightarrow> sizeof order_record_fields = 48 \<and> alignof order_record_fields = 8"

definition level_asserts :: bool where
  "level_asserts \<longleftrightarrow> sizeof level_fields = 16"

lemma layout_asserts_hold: order_record_asserts level_asserts
  by (simp_all add: order_record_asserts_def level_asserts_def sizeof_def alignof_def align_up_def order_record_fields_def level_fields_def)

text \<open>Neither record has padding between its fields, as the comments beside the assertions say, and a
  chunk of orders takes 48 MiB.\<close>

lemma no_interior_padding: "interior_padding order_record_fields = 0" "interior_padding level_fields = 0"
  by (simp_all add: interior_padding_def align_up_def order_record_fields_def level_fields_def)

lemma chunk_bytes: "kChunkSize * sizeof order_record_fields = 48 * 2 ^ 20"
  by (simp add: kChunkSize_def sizeof_def alignof_def align_up_def order_record_fields_def)

text \<open>With the four 32-bit fields that the design document counts instead of six, an order would take 40.\<close>

lemma documented_fields: "sizeof [8, 8, 4, 4, 4, 4, 1, 1] = 40"
  by (simp add: sizeof_def alignof_def align_up_def)

end
