(* ===== verification/Spec2Isabelle.thy ===== *)
theory Spec2Isabelle
  imports Component_Properties Listener_Properties Trade_Properties Benchmark_Report
    Reentrant_Properties Host Layouts
begin

text \<open>
  A verification development for the xmatch matching engine, a C++ library that keeps one limit
  order book per instrument and matches orders by price, then time.

  \<^bold>\<open>The program.\<close> A host creates an engine with a listener (\<open>xmatch_create\<close>), declares the
  instruments once (\<open>configure\<close>) and sends requests (\<open>submit\<close>, \<open>cancel\<close>, \<open>replace\<close>); the
  engine answers with calls on the listener. An instrument trades inside a price band, so a book
  is a pair of arrays of price levels, indexed by a ladder that numbers the tick-aligned prices of
  the band. A level is an intrusive doubly linked list of records; the records of all books live
  in one chunked pool and are named by 32-bit slots. A bitmap per side finds the next occupied
  level, a cached index names the best one. An open-addressing hash map takes order ids to slots,
  a second one instrument ids to books. After \<open>configure\<close> the engine is meant to run without heap
  allocation.

  \<^bold>\<open>The model of the code\<close> (one theory per component, named as in the source):

  \<^item> \<open>Prelude\<close>: arrays (\<open>vec\<close>), the allocator and results of code that may throw (\<open>outcome\<close>).
  \<^item> \<open>Api\<close>: the types of \<open>include/xmatch/matching_engine_api.hpp\<close>. The listener's calls are the
    constructors of \<open>event\<close>. Prices are \<open>int\<close> (no 64-bit sum of the code wraps for accepted
    configurations), quantities, ids, slots and level counts are words of their width.
  \<^item> \<open>Tick_Table\<close>: \<open>include/engine/tick_table.hpp\<close> and the compile-time checks of \<open>src/tick_table.cpp\<close>.
  \<^item> \<open>Price_Ladder\<close>: \<open>src/price_ladder.cpp\<close>; counts and offsets wrap at \<open>2^32\<close>.
  \<^item> \<open>Level_Bitset\<close>, \<open>Flat_Hash_Map\<close>, \<open>Order_Pool\<close>: the headers of these names. The load factor's
    \<open>double\<close> arithmetic is computed exactly; probing loops are partial functions.
  \<^item> \<open>Order_Book\<close>: \<open>src/order_book.cpp\<close>: \<open>add_resting\<close>, \<open>remove_resting\<close>, \<open>replace_in_place\<close>,
    the cached best indexes, \<open>top_of_book\<close>.
  \<^item> \<open>Engine\<close>: \<open>src/engine.cpp\<close> and \<open>src/engine_api.cpp\<close>. A handler takes the state to \<open>Some\<close> of
    the next one, or to \<open>None\<close> if a loop does not end. \<open>step\<close> and \<open>run\<close> send one request and many.
  \<^item> \<open>Listener\<close>: the handlers of \<open>src/engine.cpp\<close> again, with a listener whose calls may throw
    into the handlers' \<open>catch (...)\<close> (\<open>submit_with\<close>, \<open>replace_with\<close>, \<open>step_with\<close> and so on). With a
    listener that never throws they are the handlers of \<open>Engine\<close> (\<open>step_quiet\<close>).
  \<^item> \<open>Reentrant\<close>: the handlers once more, with callbacks that may do anything to the engine, so that
    a listener can send requests in the middle of a handler (\<open>submit_cb\<close>, \<open>replace_cb\<close>, \<open>step_cb\<close> and so
    on); the references the code holds across a call are read again after it. \<open>step_nested n\<close> lets
    callbacks nest \<open>n\<close> deep. With callbacks that only record the call these are the handlers of
    \<open>Listener\<close> (\<open>step_recorded\<close>).
  \<^item> \<open>Host\<close>: a process with any number of engines behind pointers: the C entry points of
    \<open>src/engine_api.cpp\<close>, \<open>xmatch_destroy\<close> among them, and the virtual calls (\<open>host_step\<close>).
  \<^item> \<open>Layouts\<close>: the sizes of orders and levels in memory that the headers assert.
  \<^item> \<open>Doubles\<close>: double arithmetic as exact operations followed by rounding; the integer formulas of
    \<open>Flat_Hash_Map\<close> for the load factor are shown to compute what the code computes in doubles.
  \<^item> \<open>Benchmark\<close>: the driver \<open>bench/benchmark_main.cpp\<close>: \<open>parse_args\<close>, the instrument setup, the
    price generators, one operation of the workload (\<open>run_one\<close>) with its latency sample, the
    statistics (\<open>percentile\<close>, \<open>report_of\<close>) and \<open>main\<close>, with the random draws, the readings of the clock
    and the allocator's answers as arguments.

  \<^bold>\<open>The interfaces\<close> (\<open>Interfaces\<close>): the locales \<open>price_grid\<close>, \<open>level_set\<close>, \<open>id_map\<close> and
  \<open>slot_store\<close> say what the book needs of the ladder and of the bitmap, and the engine of its
  index and of its pool; each is interpreted on the code's model in the provider's theory, and the
  proofs about books and engines use only the interpreted laws.

  \<^bold>\<open>The abstract machine\<close> (\<open>Matching_Spec\<close>): an \<open>exchange\<close> has, per instrument, two lists of open
  orders in price-time order. Matching takes from the head of a list, resting inserts behind
  every order of at least as good a price; \<open>ex_submit\<close>, \<open>ex_cancel\<close> and \<open>ex_replace\<close> are the three
  requests. Its own theory: \<open>Exchange_Invariant\<close> (order, no crossed book, unique ids), \<open>Trades\<close>
  (priority and conservation of quantity), \<open>Exchange_Laws\<close> (ids, trade numbers, cancel, replace,
  rejections).

  \<^bold>\<open>The refinement.\<close> \<open>Level_Queue\<close> relates the links of a level to a list of slots, \<open>Book_Invariant\<close>
  a book to its queues (links, totals, counts, bitmap, best index), \<open>Book_View\<close> reads the
  abstract lists off a book. \<open>Matching_Refinement\<close> and \<open>Loop_Refinement\<close> show that the matching
  loops end and take liquidity as specified, and what the fill-or-kill scan decides;
  \<open>Book_Refinement\<close> does the other book operations. \<open>Engine_Invariant\<close> ties pool, books and indexes
  together and defines \<open>exchange_of\<close>; \<open>Engine_Steps\<close>, \<open>Engine_Handlers\<close>, \<open>Engine_Requests\<close> and
  \<open>Engine_Configure\<close> show every handler to keep the invariant and to do the abstract step;
  \<open>Engine_Runs\<close> lifts this to runs and to the inductive set \<open>reachable\<close>; \<open>Top_Of_Book\<close> is about
  quotes. \<open>Interrupted_Matching\<close> and \<open>Interrupted_Requests\<close> do the same for requests that a throwing
  callback cuts short: \<open>command_cut\<close> says which abstract states can be left behind, and \<open>reachable\<close>
  includes them. \<open>Deferred\<close> shows that a request sent from the last call of a handler might as well
  wait for the handler's return, \<open>Nested_Requests\<close> that requests sent from \<open>on_accepted\<close>, \<open>on_rejected\<close>
  and \<open>on_canceled\<close>, to any depth, keep the invariants (an answer touches no order that is known but
  not open: \<open>steady\<close>), and \<open>Reentrant_Hazards\<close> runs the two sessions in which requests sent from
  \<open>on_replaced\<close> and from \<open>on_trade\<close> do damage. \<open>Allocation_Free\<close> shows that requests within the reserved capacity never ask the
  allocator.

  \<^bold>\<open>The benchmark.\<close> \<open>Event_Types\<close> says what every reported event satisfies. \<open>Benchmark_Runs\<close>
  carries the driver's invariant \<open>driver_ok\<close> through its operations: ids are new, instruments known,
  and nothing is rejected but operations on orders that are gone and prices off the grid or band.
  \<open>Benchmark_Report\<close> is about the percentiles.

  \<^bold>\<open>The properties\<close> are in \<open>Engine_Properties\<close>, \<open>Listener_Properties\<close>, \<open>Trade_Properties\<close>,
  \<open>Client_Properties\<close>, \<open>Allocation_Free\<close>, \<open>Component_Properties\<close>, \<open>Reentrant_Properties\<close>, \<open>Host\<close>,
  \<open>Benchmark_Properties\<close> and \<open>Benchmark_Report\<close>, numbered C1 to C40. \<open>Sample\<close> configures a concrete engine (the instrument of the
  golden test) on which those with hypotheses are applied;
  \<open>Quantity_Overflow\<close> reaches the state in which a level's total has wrapped.

  \<^bold>\<open>Bounds.\<close> A request may take one pool slot, and slot \<open>2^32 - 1\<close> means "none": the properties
  of requests ask for fewer than \<open>2^32 - 1\<close> slots in use (slots are never reused, so this bounds
  the accepted ids over the life of an engine). \<open>reachable\<close> assumes of each configuration that its
  band has fewer than \<open>2^32\<close> ticks (\<open>ladder_fits\<close>); C32 shows that the code does not check this and
  what follows. Probing ends because a map never fills up (\<open>fm_ok\<close>); matching ends because every
  execution closes a resting order or the aggressor; the scan ends because the index moves away
  from the best.

  \<^bold>\<open>Findings.\<close> Level totals and the fill-or-kill sum wrap at \<open>2^32\<close> (C31); the ladder's counts wrap
  for wide bands (C32); a replacement whose \<open>on_replaced\<close> throws loses the order (C33); the benchmark
  loses track of open orders when a replace is refused (C35); a request sent from inside
  \<open>on_replaced\<close> can lock the book (C11), a cancel sent from inside \<open>on_trade\<close> counts the trade twice
  (C12); \<open>replace\<close> checks for an unknown order before a duplicate id (in \<open>Client_Properties\<close>), against
  the order the API documents; an order has six 32-bit fields, not the four that \<open>DESIGN.md\<close> counts
  (\<open>Layouts\<close>).

  \<^bold>\<open>Not modelled.\<close> Destructors and moves (the model has values; deleting an engine removes it), the
  tests, the random generators of the benchmark (their draws are arguments) and the formatting of
  the numbers it prints. A call through a dangling pointer, and calls from several threads, which the
  API forbids, have no meaning here. Assertions are compiled out, as in a release build.
\<close>

end
